(* ===== verification/Prelude.thy ===== *)
theory Prelude
  imports Complex_Main "HOL-Library.Word"
begin

text \<open>
  What every component of the model shares: the machine types of the JavaScript values
  (bytes, UTF-16 code units, token ids), JavaScript values as they reach an argument check,
  thrown errors, and the type of a method call that reads and writes the state of a closure
  and may throw.
\<close>

unbundle bit_operations_syntax

subsection \<open>Machine types\<close>

text \<open>
  An element of a \<^verbatim>\<open>Uint8Array\<close> is a \<open>u8\<close>, of a \<^verbatim>\<open>Uint32Array\<close> a \<open>u32\<close>, and a
  JavaScript string is the list of its UTF-16 code units, so that \<^verbatim>\<open>value.length\<close> is the
  length of the list. Error messages are HOL strings.
\<close>

type_synonym u8 = "8 word"
type_synonym u16 = "16 word"
type_synonym u32 = "32 word"
type_synonym bytes = "u8 list"
type_synonym jstring = "u16 list"

text \<open>Named collections: facts that unfold the call combinators, and frame facts of the steps.\<close>

named_theorems js_simps
named_theorems frame_simps

subsection \<open>JavaScript values\<close>

text \<open>
  The values an argument check distinguishes. A finite number is the rational it denotes
  (the checks of the program do not tell \<^verbatim>\<open>-0\<close> from \<^verbatim>\<open>0\<close>); \<open>JNonFinite\<close> stands for
  \<^verbatim>\<open>NaN\<close> and the infinities, \<open>JOther\<close> for every remaining value (objects, symbols,
  functions).
\<close>

datatype jsval =
    JUndefined
  | JNull
  | JBool bool
  | JNum rat
  | JNonFinite
  | JBigInt int
  | JStr string
  | JOther

definition is_int_rat :: "rat \<Rightarrow> bool" where
  "is_int_rat q \<longleftrightarrow> of_int (floor q) = q"

lemma is_int_rat_of_int [simp]: "is_int_rat (of_int i)"
  by (simp add: is_int_rat_def)

lemma is_int_rat_of_nat [simp]: "is_int_rat (of_nat n)"
  using is_int_rat_of_int [of "int n"] by simp

lemma is_int_rat_numeral [simp]: "is_int_rat (numeral k)" "is_int_rat 0" "is_int_rat 1"
  by (simp_all add: is_int_rat_def)

text \<open>\<^verbatim>\<open>Number.isInteger\<close> and \<^verbatim>\<open>Number.isSafeInteger\<close>.\<close>

fun number_isInteger :: "jsval \<Rightarrow> bool" where
  "number_isInteger (JNum q) = is_int_rat q"
| "number_isInteger _ = False"

fun number_isSafeInteger :: "jsval \<Rightarrow> bool" where
  "number_isSafeInteger (JNum q) =
     (is_int_rat q \<and> - 9007199254740991 \<le> q \<and> q \<le> 9007199254740991)"
| "number_isSafeInteger _ = False"

text \<open>A value that passed an integer check, read as a natural number or as a token id.\<close>

fun nat_of_jsval :: "jsval \<Rightarrow> nat" where
  "nat_of_jsval (JNum q) = nat (floor q)"
| "nat_of_jsval _ = 0"

fun u32_of_jsval :: "jsval \<Rightarrow> u32" where
  "u32_of_jsval (JNum q) = word_of_int (floor q)"
| "u32_of_jsval _ = 0"

definition jsval_of_u32 :: "u32 \<Rightarrow> jsval" where
  "jsval_of_u32 w = JNum (of_nat (unat w))"

lemma u32_of_jsval_of_u32 [simp]: "u32_of_jsval (jsval_of_u32 w) = w"
proof -
  have "floor (of_nat (unat w) :: rat) = int (unat w)"
    by (rule floor_of_nat)
  then show ?thesis by (simp only: jsval_of_u32_def u32_of_jsval.simps) simp
qed

subsection \<open>Errors\<close>

text \<open>
  A thrown value: the standard error classes with their messages. \<open>VocabIntegrity\<close> is the
  error class \<^verbatim>\<open>VocabIntegrityError\<close> of the vocabulary resolver.
\<close>

datatype js_error =
    is_TypeError: TypeError string
  | RangeError string
  | PlainError string
  | VocabIntegrity string string string string

text \<open>Decimal digits of a number inside a template literal such as \<^verbatim>\<open>`unknown token id ${id}`\<close>.\<close>

fun show_nat :: "nat \<Rightarrow> string" where
  "show_nat n = (if n < 10 then [char_of (48 + n)]
                 else show_nat (n div 10) @ [char_of (48 + n mod 10)])"

declare show_nat.simps [simp del]

text \<open>A substring test on an error message, as a regular expression without operators makes it.\<close>

fun message_matches :: "string \<Rightarrow> string \<Rightarrow> bool" where
  "message_matches pat [] = (pat = [])"
| "message_matches pat (ch # s) = (take (length pat) (ch # s) = pat \<or> message_matches pat s)"

text \<open>The value of a result, forgetting which error was thrown.\<close>

fun okv :: "js_error + 'a \<Rightarrow> 'a option" where
  "okv (Inl _) = None"
| "okv (Inr a) = Some a"

lemma okv_eq_Some [simp]: "okv r = Some a \<longleftrightarrow> r = Inr a"
  by (cases r) auto

lemma okv_eq_None [simp]: "okv r = None \<longleftrightarrow> (\<exists>e. r = Inl e)"
  by (cases r) auto

lemma okv_case: "okv (case r of Inl e \<Rightarrow> Inl (f e) | Inr a \<Rightarrow> g a) = Option.bind (okv r) (okv \<circ> g)"
  by (cases r) auto

text \<open>Sequencing of checks that may throw and have no other effect.\<close>

definition try_bind :: "js_error + 'a \<Rightarrow> ('a \<Rightarrow> js_error + 'b) \<Rightarrow> js_error + 'b" where
  "try_bind r f = (case r of Inl e \<Rightarrow> Inl e | Inr a \<Rightarrow> f a)"

lemma try_bind_simps [simp]: "try_bind (Inl e) f = Inl e" "try_bind (Inr a) f = f a"
  by (simp_all add: try_bind_def)

lemma try_bind_Inr: "try_bind r f = Inr b \<longleftrightarrow> (\<exists>a. r = Inr a \<and> f a = Inr b)"
  by (cases r) auto

definition try_if :: "bool \<Rightarrow> js_error \<Rightarrow> js_error + unit" where
  "try_if bad e = (if bad then Inl e else Inr ())"

lemma try_if_Inr [simp]: "try_if bad e = Inr u \<longleftrightarrow> \<not> bad"
  by (simp add: try_if_def)

subsection \<open>Calls that change a closure's state and may throw\<close>

text \<open>
  A method of a closure takes the closure's variables and returns a value or a thrown error,
  with the variables as the call left them: what was assigned before a \<^verbatim>\<open>throw\<close> stays.
\<close>

type_synonym ('s, 'a) js = "'s \<Rightarrow> (js_error + 'a) \<times> 's"

definition js_ret :: "'a \<Rightarrow> ('s, 'a) js" where
  "js_ret a = (\<lambda>s. (Inr a, s))"

definition js_throw :: "js_error \<Rightarrow> ('s, 'a) js" where
  "js_throw e = (\<lambda>s. (Inl e, s))"

definition js_bind :: "('s, 'a) js \<Rightarrow> ('a \<Rightarrow> ('s, 'b) js) \<Rightarrow> ('s, 'b) js" where
  "js_bind m f = (\<lambda>s. case m s of (Inl e, s') \<Rightarrow> (Inl e, s') | (Inr a, s') \<Rightarrow> f a s')"

definition js_modify :: "('s \<Rightarrow> 's) \<Rightarrow> ('s, unit) js" where
  "js_modify f = (\<lambda>s. (Inr (), f s))"

definition js_lift :: "js_error + 'a \<Rightarrow> ('s, 'a) js" where
  "js_lift r = (\<lambda>s. (r, s))"

text \<open>A call on the state of an inner object held in the caller's state.\<close>

definition js_zoom :: "('s \<Rightarrow> 'i) \<Rightarrow> ('i \<Rightarrow> 's \<Rightarrow> 's) \<Rightarrow> ('i, 'a) js \<Rightarrow> ('s, 'a) js" where
  "js_zoom get put m = (\<lambda>s. case m (get s) of (r, i) \<Rightarrow> (r, put i s))"

lemmas js_defs [js_simps] =
  js_ret_def js_throw_def js_bind_def js_modify_def js_lift_def js_zoom_def

text \<open>
  Total correctness of a call: from a state where \<open>P\<close> holds, the result and the new state
  satisfy \<open>Q\<close>.
\<close>

definition js_triple :: "('s \<Rightarrow> bool) \<Rightarrow> ('s, 'a) js \<Rightarrow> (js_error + 'a \<Rightarrow> 's \<Rightarrow> bool) \<Rightarrow> bool" where
  "js_triple P m Q \<longleftrightarrow> (\<forall>s. P s \<longrightarrow> (case m s of (r, s') \<Rightarrow> Q r s'))"

lemma js_tripleI:
  assumes "\<And>s r s'. P s \<Longrightarrow> m s = (r, s') \<Longrightarrow> Q r s'"
  shows "js_triple P m Q"
  using assms by (auto simp: js_triple_def)

lemma js_tripleD:
  assumes "js_triple P m Q" and "P s" and "m s = (r, s')"
  shows "Q r s'"
  using assms by (auto simp: js_triple_def)

lemma js_triple_bind:
  assumes "js_triple P m R"
    and "\<And>e s'. R (Inl e) s' \<Longrightarrow> Q (Inl e) s'"
    and "\<And>a. js_triple (R (Inr a)) (f a) Q"
  shows "js_triple P (js_bind m f) Q"
proof (rule js_tripleI)
  fix s r s'
  assume P: "P s" and run: "js_bind m f s = (r, s')"
  obtain r1 s1 where m: "m s = (r1, s1)" by fastforce
  have R: "R r1 s1" using assms(1) P m by (rule js_tripleD)
  show "Q r s'"
  proof (cases r1)
    case (Inl e)
    with run m R assms(2) show ?thesis by (auto simp: js_bind_def)
  next
    case (Inr a)
    with run m have "f a s1 = (r, s')" by (simp add: js_bind_def)
    moreover have "R (Inr a) s1" using R Inr by simp
    ultimately show ?thesis using assms(3) by (auto dest: js_tripleD)
  qed
qed

lemma js_triple_conseq:
  assumes "js_triple P' m Q'" and "\<And>s. P s \<Longrightarrow> P' s" and "\<And>r s. Q' r s \<Longrightarrow> Q r s"
  shows "js_triple P m Q"
  using assms by (fastforce simp: js_triple_def split: prod.splits)

subsection \<open>Lists and words\<close>

lemma unat_u32_less [simp]: "unat (w :: u32) < 4294967296"
  using unsigned_less [of w] by simp

lemma unat_u8_less [simp]: "unat (w :: u8) < 256"
  using unsigned_less [of w] by simp

lemma those_map_Some [simp]: "those (map Some xs) = Some xs"
  by (induction xs) auto

lemma those_append:
  "those (xs @ ys) = Option.bind (those xs) (\<lambda>a. Option.bind (those ys) (\<lambda>b. Some (a @ b)))"
proof (induction xs)
  case Nil
  then show ?case by (cases "those ys") auto
next
  case (Cons x xs)
  then show ?case by (cases x; cases "those xs"; cases "those ys") auto
qed

lemma those_eq_Some: "those xs = Some ys \<longleftrightarrow> xs = map Some ys"
  by (induction xs arbitrary: ys) (auto split: option.splits)

lemma those_eq_None: "those xs = None \<longleftrightarrow> None \<in> set xs"
  by (induction xs) (auto split: option.splits)

end
