(* ===== verification/JString.thy ===== *)
theory JString
  imports Prelude
begin

text \<open>
  The operations of JavaScript strings the program uses: \<^verbatim>\<open>includes\<close>, \<^verbatim>\<open>split\<close> and
  \<^verbatim>\<open>join\<close>, and the strings that hold one byte per code unit.
\<close>

fun js_includes :: "jstring \<Rightarrow> jstring \<Rightarrow> bool" where
  "js_includes pat [] = (pat = [])"
| "js_includes pat (u # us) = (take (length pat) (u # us) = pat \<or> js_includes pat us)"

text \<open>\<^verbatim>\<open>text.split(sep)\<close> for a separator of one code unit.\<close>

fun js_split :: "u16 \<Rightarrow> jstring \<Rightarrow> jstring list" where
  "js_split sep [] = [[]]"
| "js_split sep (u # us) =
     (if u = sep then [] # js_split sep us
      else case js_split sep us of [] \<Rightarrow> [[u]] | p # ps \<Rightarrow> (u # p) # ps)"

fun js_join :: "'a list \<Rightarrow> 'a list list \<Rightarrow> 'a list" where
  "js_join sep [] = []"
| "js_join sep [p] = p"
| "js_join sep (p # ps) = p @ sep @ js_join sep ps"

lemma js_split_neq_Nil [simp]: "js_split sep s \<noteq> []"
  by (cases s) (auto split: list.splits)

lemma js_split_free: "sep \<notin> set p \<Longrightarrow> js_split sep p = [p]"
  by (induction p) auto

lemma js_split_piece: "sep \<notin> set p \<Longrightarrow> js_split sep (p @ sep # rest) = p # js_split sep rest"
  by (induction p) auto

text \<open>Splitting what was joined with a separator none of the pieces holds.\<close>

lemma js_split_join:
  "ps \<noteq> [] \<Longrightarrow> \<forall>p \<in> set ps. sep \<notin> set p \<Longrightarrow> js_split sep (js_join [sep] ps) = ps"
proof (induction "[sep]" ps rule: js_join.induct)
  case (3 p q ps)
  then show ?case by (simp add: js_split_piece)
qed (simp_all add: js_split_free)

lemma js_includes_append: "js_includes pat us \<Longrightarrow> js_includes pat (vs @ us)"
  by (induction vs) auto

text \<open>A string of code units below 256 and the bytes it stands for.\<close>

definition latin1 :: "bytes \<Rightarrow> jstring" where
  "latin1 bs = map ucast bs"

definition charCode_bytes :: "jstring \<Rightarrow> bytes" where
  "charCode_bytes s = map ucast s"

lemma ucast_u16_u8 [simp]: "(ucast (ucast (b :: u8) :: u16) :: u8) = b"
  by (rule bit_word_eqI) (auto simp: bit_simps)

lemma charCode_bytes_latin1 [simp]: "charCode_bytes (latin1 bs) = bs"
  by (induction bs) (simp_all add: latin1_def charCode_bytes_def)

lemma latin1_append [simp]: "latin1 (xs @ ys) = latin1 xs @ latin1 ys"
  by (simp add: latin1_def)

lemma latin1_Nil [simp]: "latin1 [] = []"
  by (simp add: latin1_def)

lemma latin1_eq_Nil [simp]: "latin1 bs = [] \<longleftrightarrow> bs = []"
  by (simp add: latin1_def)

lemma length_latin1 [simp]: "length (latin1 bs) = length bs"
  by (simp add: latin1_def)

lemma length_charCode_bytes [simp]: "length (charCode_bytes s) = length s"
  by (simp add: charCode_bytes_def)

lemma latin1_inject [simp]: "latin1 xs = latin1 ys \<longleftrightarrow> xs = ys"
  by (metis charCode_bytes_latin1)

lemma latin1_concat: "concat (map latin1 bss) = latin1 (concat bss)"
  by (induction bss) simp_all

lemma latin1_join: "js_join (latin1 sep) (map latin1 bss) = latin1 (js_join sep bss)"
  by (induction sep bss rule: js_join.induct) simp_all

lemma js_includes_latin1_Cons:
  "js_includes (latin1 pat) (latin1 (b # bs)) \<longleftrightarrow>
     take (length pat) (b # bs) = pat \<or> js_includes (latin1 pat) (latin1 bs)"
proof -
  have take: "take n (latin1 l) = latin1 (take n l)" for n l
    by (simp add: latin1_def take_map)
  have cons: "latin1 (b # bs) = ucast b # latin1 bs"
    by (simp add: latin1_def)
  have "js_includes (latin1 pat) (latin1 (b # bs)) \<longleftrightarrow>
      take (length pat) (latin1 (b # bs)) = latin1 pat \<or> js_includes (latin1 pat) (latin1 bs)"
    by (simp only: cons js_includes.simps length_latin1)
  then show ?thesis by (simp only: take latin1_inject)
qed

end
