(* ===== verification/Utf8.thy ===== *)
theory Utf8
  imports JString
begin

text \<open>
  Text decoding. The first part is the platform's \<^verbatim>\<open>TextDecoder\<close> as the Encoding Standard
  defines it: the UTF-8 decoder is a machine that reads one byte at a time and emits code points
  or errors; the UTF-16 decoder replaces unpaired surrogates. It is the reference every decode
  route of the package is compared with. The second part is the package's own UTF-8 code of
  \<^verbatim>\<open>hypertok-js/src/decode-table.mjs\<close>: \<open>isValidUtf8\<close>, \<open>decodeValidUtf8\<close> and
  \<open>fromCodeUnits\<close>, and the theorems that they agree with the platform.
\<close>

subsection \<open>The platform's UTF-8 decoder\<close>

text \<open>
  The decoder's variables: bytes needed, bytes seen, lower and upper boundary of the next byte,
  code point so far. An event is a code point or (\<open>None\<close>) an error, which the lossy mode turns
  into U+FFFD and the fatal mode into a \<^verbatim>\<open>TypeError\<close>.
\<close>

datatype ustate = UState (u_needed: nat) (u_seen: nat) (u_lower: u8) (u_upper: u8) (u_cp: u32)

definition u_init :: ustate where
  "u_init = UState 0 0 0x80 0xBF 0"

definition u_lead :: "u8 \<Rightarrow> ustate \<times> u32 option list" where
  "u_lead b =
     (if b \<le> 0x7F then (u_init, [Some (ucast b)])
      else if 0xC2 \<le> b \<and> b \<le> 0xDF then (UState 1 0 0x80 0xBF (ucast (b AND 0x1F)), [])
      else if 0xE0 \<le> b \<and> b \<le> 0xEF
        then (UState 2 0 (if b = 0xE0 then 0xA0 else 0x80) (if b = 0xED then 0x9F else 0xBF)
                (ucast (b AND 0x0F)), [])
      else if 0xF0 \<le> b \<and> b \<le> 0xF4
        then (UState 3 0 (if b = 0xF0 then 0x90 else 0x80) (if b = 0xF4 then 0x8F else 0xBF)
                (ucast (b AND 0x07)), [])
      else (u_init, [None]))"

definition u_join :: "u32 \<Rightarrow> u8 \<Rightarrow> u32" where
  "u_join c b = push_bit 6 c OR ucast (b AND 0x3F)"

fun u_step :: "ustate \<Rightarrow> u8 \<Rightarrow> ustate \<times> u32 option list" where
  "u_step (UState n k lo hi c) b =
     (if n = 0 then u_lead b
      else if b < lo \<or> hi < b then (case u_lead b of (s, es) \<Rightarrow> (s, None # es))
      else if Suc k = n then (u_init, [Some (u_join c b)])
      else (UState n (Suc k) 0x80 0xBF (u_join c b), []))"

fun u_events :: "ustate \<Rightarrow> bytes \<Rightarrow> u32 option list" where
  "u_events s [] = (if u_needed s = 0 then [] else [None])"
| "u_events s (b # bs) = (case u_step s b of (s', es) \<Rightarrow> es @ u_events s' bs)"

text \<open>The UTF-16 code units of a code point.\<close>

definition utf16_units :: "u32 \<Rightarrow> jstring" where
  "utf16_units c =
     (if c \<le> 0xFFFF then [ucast c]
      else [ucast (0xD800 + drop_bit 10 (c - 0x10000)), ucast (0xDC00 + ((c - 0x10000) AND 0x3FF))])"

fun event_units :: "u32 option \<Rightarrow> jstring" where
  "event_units None = [0xFFFD]"
| "event_units (Some c) = utf16_units c"

definition utf8_lossy :: "bytes \<Rightarrow> jstring" where
  "utf8_lossy bs = concat (map event_units (u_events u_init bs))"

definition utf8_wellformed :: "bytes \<Rightarrow> bool" where
  "utf8_wellformed bs \<longleftrightarrow> None \<notin> set (u_events u_init bs)"

text \<open>\<^verbatim>\<open>new TextDecoder("utf-8", { ignoreBOM, fatal }).decode(bytes)\<close>.\<close>

definition textDecoder :: "bool \<Rightarrow> bool \<Rightarrow> bytes \<Rightarrow> js_error + jstring" where
  "textDecoder ignoreBOM fatal bs =
     (let body = (if \<not> ignoreBOM \<and> take 3 bs = [0xEF, 0xBB, 0xBF] then drop 3 bs else bs)
      in if fatal \<and> \<not> utf8_wellformed body
         then Inl (TypeError ''The encoded data was not valid for encoding utf-8'')
         else Inr (utf8_lossy body))"

lemma textDecoder_ignoreBOM [simp]: "textDecoder True False bs = Inr (utf8_lossy bs)"
  by (simp add: textDecoder_def)

subsection \<open>Composition of decoded pieces\<close>

definition u_ok :: "ustate \<Rightarrow> bool" where
  "u_ok s \<longleftrightarrow> 0x80 \<le> u_lower s \<and> u_upper s \<le> 0xBF \<and> (u_needed s = 0 \<longrightarrow> s = u_init)"

definition u_after :: "ustate \<Rightarrow> bytes \<Rightarrow> ustate" where
  "u_after = foldl (\<lambda>s b. fst (u_step s b))"

text \<open>The events of a prefix, without the error of an unfinished sequence at the end.\<close>

fun u_prefix :: "ustate \<Rightarrow> bytes \<Rightarrow> u32 option list" where
  "u_prefix s [] = []"
| "u_prefix s (b # bs) = snd (u_step s b) @ u_prefix (fst (u_step s b)) bs"

lemma u_after_simps [simp]:
  "u_after s [] = s" "u_after s (b # bs) = u_after (fst (u_step s b)) bs"
  by (simp_all add: u_after_def)

lemma u_ok_init [simp]: "u_ok u_init"
  by (simp add: u_ok_def u_init_def)

lemma u_needed_init [simp]: "u_needed u_init = 0"
  by (simp add: u_init_def)

lemma u_step_init [simp]: "u_step u_init b = u_lead b"
  by (simp add: u_init_def)

lemma u_ok_lead [simp]: "u_ok (fst (u_lead b))"
  by (simp add: u_lead_def u_ok_def u_init_def)

lemma u_ok_step: "u_ok s \<Longrightarrow> u_ok (fst (u_step s b))"
proof (cases s)
  case (UState n k lo hi c)
  assume "u_ok s"
  have "u_ok s'" if "u_lead b = (s', es)" for s' es
    using u_ok_lead [of b] that by simp
  moreover have "u_ok (UState n (Suc k) 0x80 0xBF (u_join c b))" if "n \<noteq> 0"
    using that by (simp add: u_ok_def)
  ultimately show ?thesis
    using UState by (auto split: prod.splits)
qed

lemma u_ok_after: "u_ok s \<Longrightarrow> u_ok (u_after s bs)"
  by (induction bs arbitrary: s) (simp_all add: u_ok_step)

lemma u_events_append: "u_events s (xs @ ys) = u_prefix s xs @ u_events (u_after s xs) ys"
  by (induction xs arbitrary: s) (simp_all split: prod.splits)

lemma u_events_eq_prefix:
  "u_events s xs = u_prefix s xs @ (if u_needed (u_after s xs) = 0 then [] else [None])"
  using u_events_append [of s xs "[]"] by simp

text \<open>A byte string that does not begin with a continuation byte starts a fresh sequence.\<close>

definition starts_fresh :: "bytes \<Rightarrow> bool" where
  "starts_fresh bs \<longleftrightarrow> (case bs of [] \<Rightarrow> True | b # _ \<Rightarrow> \<not> (0x80 \<le> b \<and> b \<le> 0xBF))"

lemma u_events_fresh:
  assumes "u_ok s" and "starts_fresh bs"
  shows "u_events s bs = (if u_needed s = 0 then [] else [None]) @ u_events u_init bs"
proof (cases bs)
  case Nil
  then show ?thesis by simp
next
  case (Cons b r)
  show ?thesis
  proof (cases "u_needed s = 0")
    case True
    with assms(1) have "s = u_init" by (simp add: u_ok_def)
    then show ?thesis by simp
  next
    case False
    obtain n k lo hi c where s: "s = UState n k lo hi c" by (cases s)
    have "b < lo \<or> hi < b"
      using assms Cons s by (auto simp: starts_fresh_def u_ok_def)
    with False s Cons show ?thesis by (simp split: prod.splits)
  qed
qed

lemma u_events_append_fresh:
  assumes "u_ok s" and "starts_fresh ys"
  shows "u_events s (xs @ ys) = u_events s xs @ u_events u_init ys"
  using u_events_fresh [OF u_ok_after [OF assms(1)] assms(2)]
  by (simp add: u_events_append u_events_eq_prefix [of s xs])

lemma utf8_lossy_Nil [simp]: "utf8_lossy [] = []"
  by (simp add: utf8_lossy_def)

lemma utf8_wellformed_Nil [simp]: "utf8_wellformed []"
  by (simp add: utf8_wellformed_def)

lemma utf8_lossy_append_fresh:
  "starts_fresh ys \<Longrightarrow> utf8_lossy (xs @ ys) = utf8_lossy xs @ utf8_lossy ys"
  by (simp add: utf8_lossy_def u_events_append_fresh)

lemma wellformed_after:
  assumes "utf8_wellformed v"
  shows "u_after u_init v = u_init" and "u_prefix u_init v = u_events u_init v"
proof -
  have needed: "u_needed (u_after u_init v) = 0"
    using assms by (auto simp: utf8_wellformed_def u_events_eq_prefix split: if_splits)
  then show "u_after u_init v = u_init"
    using u_ok_after [OF u_ok_init, of v] by (simp add: u_ok_def)
  from needed show "u_prefix u_init v = u_events u_init v"
    by (simp add: u_events_eq_prefix)
qed

lemma utf8_lossy_append_wellformed:
  "utf8_wellformed v \<Longrightarrow> utf8_lossy (v @ ys) = utf8_lossy v @ utf8_lossy ys"
  by (simp add: utf8_lossy_def u_events_append wellformed_after)

lemma utf8_wellformed_append:
  "utf8_wellformed v \<Longrightarrow> utf8_wellformed (v @ ys) \<longleftrightarrow> utf8_wellformed ys"
  by (simp add: utf8_wellformed_def u_events_append wellformed_after)

lemma wellformed_starts_fresh: "utf8_wellformed v \<Longrightarrow> starts_fresh v"
proof (cases v)
  case (Cons b r)
  assume "utf8_wellformed v"
  moreover have "u_lead b = (u_init, [None])" if "0x80 \<le> b \<and> b \<le> 0xBF"
    using that unfolding u_lead_def by (auto simp: word_le_nat_alt)
  ultimately show ?thesis
    using Cons by (auto simp: starts_fresh_def utf8_wellformed_def)
qed (simp add: starts_fresh_def)

lemma starts_fresh_append:
  "xs \<noteq> [] \<Longrightarrow> starts_fresh (xs @ ys) \<longleftrightarrow> starts_fresh xs"
  by (cases xs) (auto simp: starts_fresh_def)

text \<open>
  The boundary law behind every mixed decode route: a well-formed, nonempty token separates
  what comes before it from what comes after it.
\<close>

lemma utf8_lossy_around_wellformed:
  assumes "utf8_wellformed v" and "v \<noteq> []"
  shows "utf8_lossy (xs @ v @ ys) = utf8_lossy xs @ utf8_lossy v @ utf8_lossy ys"
proof -
  have "starts_fresh (v @ ys)"
    using assms by (simp add: starts_fresh_append wellformed_starts_fresh)
  then show ?thesis
    by (simp add: utf8_lossy_append_fresh utf8_lossy_append_wellformed assms)
qed

subsection \<open>The package's own UTF-8 code\<close>

text \<open>\<^verbatim>\<open>isValidUtf8\<close>: the lead byte's class, with the payload bits of the lead.\<close>

definition utf8_class :: "u8 \<Rightarrow> (nat \<times> u32) option" where
  "utf8_class first =
     (if first AND 0xE0 = 0xC0 then (if first < 0xC2 then None else Some (1, ucast (first AND 0x1F)))
      else if first AND 0xF0 = 0xE0 then Some (2, ucast (first AND 0x0F))
      else if first AND 0xF8 = 0xF0 then (if first > 0xF4 then None else Some (3, ucast (first AND 0x07)))
      else None)"

text \<open>The inner loop over the continuation bytes; \<open>None\<close> is its \<^verbatim>\<open>return false\<close>.\<close>

fun utf8_continue :: "u32 \<Rightarrow> bytes \<Rightarrow> u32 option" where
  "utf8_continue codepoint [] = Some codepoint"
| "utf8_continue codepoint (next # rest) =
     (if next AND 0xC0 \<noteq> 0x80 then None
      else utf8_continue (push_bit 6 codepoint OR ucast (next AND 0x3F)) rest)"

fun isValidUtf8 :: "bytes \<Rightarrow> bool" where
  "isValidUtf8 [] = True"
| "isValidUtf8 (first # rest) =
     (if first \<le> 0x7F then isValidUtf8 rest
      else case utf8_class first of
        None \<Rightarrow> False
      | Some (continuation, lead) \<Rightarrow>
          if length rest < continuation then False
          else case utf8_continue lead (take continuation rest) of
            None \<Rightarrow> False
          | Some codepoint \<Rightarrow>
              if continuation = 2 \<and> codepoint < 0x800 then False
              else if continuation = 3 \<and> codepoint < 0x10000 then False
              else if 0xD800 \<le> codepoint \<and> codepoint \<le> 0xDFFF then False
              else if codepoint > 0x10FFFF then False
              else isValidUtf8 (drop continuation rest))"

text \<open>\<^verbatim>\<open>fromCodeUnits\<close>: chunks of 4096 units through \<^verbatim>\<open>String.fromCharCode\<close>.\<close>

function fromCodeUnits :: "u32 list \<Rightarrow> jstring" where
  "fromCodeUnits units =
     (if units = [] then []
      else map ucast (take 4096 units) @ fromCodeUnits (drop 4096 units))"
  by pat_completeness auto
termination
  by (relation "measure length") auto

declare fromCodeUnits.simps [simp del]

text \<open>
  \<^verbatim>\<open>decodeValidUtf8\<close>: \<open>byte_at\<close> is the read \<^verbatim>\<open>bytes[index + k]\<close> under a mask, where an index
  past the end gives \<^verbatim>\<open>undefined\<close> and the mask turns it into 0. \<open>codepoint_at\<close> is the chain
  of lead cases: the code point and the number of bytes read after the lead.
\<close>

definition byte_at :: "bytes \<Rightarrow> nat \<Rightarrow> u8" where
  "byte_at bs i = (if i < length bs then bs ! i else 0)"

definition codepoint_at :: "u8 \<Rightarrow> bytes \<Rightarrow> u32 \<times> nat" where
  "codepoint_at first rest =
     (if first \<le> 0x7F then (ucast first, 0)
      else if first AND 0xE0 = 0xC0
        then (push_bit 6 (ucast (first AND 0x1F)) OR ucast (byte_at rest 0 AND 0x3F), 1)
      else if first AND 0xF0 = 0xE0
        then (push_bit 12 (ucast (first AND 0x0F)) OR push_bit 6 (ucast (byte_at rest 0 AND 0x3F)) OR
              ucast (byte_at rest 1 AND 0x3F), 2)
      else (push_bit 18 (ucast (first AND 0x07)) OR push_bit 12 (ucast (byte_at rest 0 AND 0x3F)) OR
            push_bit 6 (ucast (byte_at rest 1 AND 0x3F)) OR ucast (byte_at rest 2 AND 0x3F), 3))"

fun decode_units :: "bytes \<Rightarrow> u32 list \<times> bool" where
  "decode_units [] = ([], True)"
| "decode_units (first # rest) =
     (case codepoint_at first rest of (codepoint, read) \<Rightarrow>
      case decode_units (drop read rest) of (units, oneByte) \<Rightarrow>
        if codepoint \<le> 0xFFFF then (codepoint # units, oneByte \<and> codepoint \<le> 0xFF)
        else let adjusted = codepoint - 0x10000
             in ((0xD800 + drop_bit 10 adjusted) # (0xDC00 + (adjusted AND 0x3FF)) # units, False))"

definition decodeValidUtf8 :: "bytes \<Rightarrow> jstring \<times> bool" where
  "decodeValidUtf8 bs =
     (if list_all (\<lambda>b. b \<le> 0x7F) bs then (fromCodeUnits (map ucast bs), True)
      else case decode_units bs of (units, oneByte) \<Rightarrow> (fromCodeUnits units, oneByte))"

subsection \<open>Facts about single bytes\<close>

lemma unat_take_bit_u8: "unat (take_bit n (b :: u8)) = unat b mod 2 ^ n"
  by (subst unsigned_take_bit_eq) (rule take_bit_eq_mod)

lemma unat_slice_u8: "unat (push_bit n (take_bit m (drop_bit n (b :: u8)))) = 2 ^ n * (unat b div 2 ^ n mod 2 ^ m) mod 256"
  by (simp add: unsigned_push_bit_eq unsigned_take_bit_eq unsigned_drop_bit_eq del: push_bit_take_bit) 
   (simp add: take_bit_eq_mod push_bit_eq_mult drop_bit_eq_div mult.commute)

lemma unat_and_masks:
  "unat ((b :: u8) AND 0x3F) = unat b mod 64"
  "unat (b AND 0x1F) = unat b mod 32"
  "unat (b AND 0x0F) = unat b mod 16"
  "unat (b AND 0x07) = unat b mod 8"
proof -
  have eqs: "b AND 0x3F = take_bit 6 b" "b AND 0x1F = take_bit 5 b"
    "b AND 0x0F = take_bit 4 b" "b AND 0x07 = take_bit 3 b"
    unfolding take_bit_eq_mask by (simp_all add: mask_numeral)
  show "unat (b AND 0x3F) = unat b mod 64" "unat (b AND 0x1F) = unat b mod 32"
    "unat (b AND 0x0F) = unat b mod 16" "unat (b AND 0x07) = unat b mod 8"
    unfolding eqs unat_take_bit_u8 by simp_all
qed

lemma div_bounds:
  fixes n d :: nat
  assumes "0 < d"
  obtains q where "n div d = q" "d * q \<le> n" "n < d * q + d"
proof -
  have "d * (n div d) \<le> n" "n < d * (n div d) + d"
    using mod_less_divisor [OF assms, of n] mult_div_mod_eq [of d n] by linarith+
  then show thesis by (rule that [OF refl])
qed

lemma unat_and_high:
  "unat ((b :: u8) AND 0xC0) = 64 * (unat b div 64)"
  "unat (b AND 0xE0) = 32 * (unat b div 32)"
  "unat (b AND 0xF0) = 16 * (unat b div 16)"
  "unat (b AND 0xF8) = 8 * (unat b div 8)"
proof -
  have bound: "unat b < 256" by simp
  have eqs: "b AND 0xC0 = push_bit 6 (take_bit 2 (drop_bit 6 b))"
    "b AND 0xE0 = push_bit 5 (take_bit 3 (drop_bit 5 b))"
    "b AND 0xF0 = push_bit 4 (take_bit 4 (drop_bit 4 b))"
    "b AND 0xF8 = push_bit 3 (take_bit 5 (drop_bit 3 b))"
    unfolding slice_eq_mask by (simp_all add: mask_numeral and.assoc)
  have small: "unat b div 64 < 4" "unat b div 32 < 8" "unat b div 16 < 16" "unat b div 8 < 32"
    using bound by (simp_all add: less_mult_imp_div_less)
  show
    "unat ((b :: u8) AND 0xC0) = 64 * (unat b div 64)"
    "unat (b AND 0xE0) = 32 * (unat b div 32)"
    "unat (b AND 0xF0) = 16 * (unat b div 16)"
    "unat (b AND 0xF8) = 8 * (unat b div 8)"
    unfolding eqs unat_slice_u8 using small by simp_all
qed

lemma continuation_byte: "(b :: u8) AND 0xC0 = 0x80 \<longleftrightarrow> 0x80 \<le> b \<and> b \<le> 0xBF"
proof -
  obtain q where q: "unat b div 64 = q" "64 * q \<le> unat b" "unat b < 64 * q + 64"
    by (rule div_bounds [of 64 "unat b"]) simp_all
  show ?thesis
    unfolding word_unat_eq_iff unat_and_high word_le_nat_alt q(1) using q(2,3) by auto
qed

lemma lead_two: "(b :: u8) AND 0xE0 = 0xC0 \<longleftrightarrow> 0xC0 \<le> b \<and> b \<le> 0xDF"
proof -
  obtain q where q: "unat b div 32 = q" "32 * q \<le> unat b" "unat b < 32 * q + 32"
    by (rule div_bounds [of 32 "unat b"]) simp_all
  show ?thesis
    unfolding word_unat_eq_iff unat_and_high word_le_nat_alt q(1) using q(2,3) by auto
qed
lemma lead_three: "(b :: u8) AND 0xF0 = 0xE0 \<longleftrightarrow> 0xE0 \<le> b \<and> b \<le> 0xEF"
proof -
  obtain q where q: "unat b div 16 = q" "16 * q \<le> unat b" "unat b < 16 * q + 16"
    by (rule div_bounds [of 16 "unat b"]) simp_all
  show ?thesis
    unfolding word_unat_eq_iff unat_and_high word_le_nat_alt q(1) using q(2,3) by auto
qed

lemma lead_four: "(b :: u8) AND 0xF8 = 0xF0 \<longleftrightarrow> 0xF0 \<le> b \<and> b \<le> 0xF7"
proof -
  obtain q where q: "unat b div 8 = q" "8 * q \<le> unat b" "unat b < 8 * q + 8"
    by (rule div_bounds [of 8 "unat b"]) simp_all
  show ?thesis
    unfolding word_unat_eq_iff unat_and_high word_le_nat_alt q(1) using q(2,3) by auto
qed

lemmas byte_classes = continuation_byte lead_two lead_three lead_four

text \<open>Joining six payload bits is arithmetic as long as nothing is shifted out.\<close>

lemma and_low_six: "(b :: u8) AND 0x3F = take_bit 6 b"
  unfolding take_bit_eq_mask by (simp add: mask_numeral)

lemma unat_u_join:
  assumes "unat c < 2 ^ 26"
  shows "unat (u_join c b) = 64 * unat c + unat b mod 64"
proof -
  have low: "unat (ucast (b AND 0x3F) :: u32) = unat b mod 64"
    by (simp add: unat_and_masks unsigned_ucast_eq take_bit_eq_mod)
  have high: "unat (push_bit 6 c) = 64 * unat c"
    unfolding unsigned_push_bit_eq
    using assms by (simp add: push_bit_eq_mult take_bit_eq_mod mult.commute)
  have "push_bit 6 c AND ucast (b AND 0x3F) = 0"
    unfolding and_low_six by (rule bit_word_eqI) (auto simp: bit_simps)
  then have "push_bit 6 c OR ucast (b AND 0x3F) = push_bit 6 c + ucast (b AND 0x3F)"
    by (rule disjunctive_add_eq_or [symmetric])
  moreover have "unat (push_bit 6 c) + unat (ucast (b AND 0x3F) :: u32) < 2 ^ 32"
    unfolding low high using assms by (simp add: order.strict_trans2)
  ultimately show ?thesis
    by (simp add: u_join_def low high unat_plus_if')
qed

text \<open>The decoder's events on each class of lead byte.\<close>

lemma u_events_ascii:
  "b \<le> 0x7F \<Longrightarrow> u_events u_init (b # r) = Some (ucast b) # u_events u_init r"
  by (simp add: u_lead_def)

lemma wf_ascii: "b \<le> 0x7F \<Longrightarrow> utf8_wellformed (b # r) = utf8_wellformed r"
  by (simp add: utf8_wellformed_def u_events_ascii del: u_events.simps(2))

definition is_cont :: "u8 \<Rightarrow> bool" where
  "is_cont b \<longleftrightarrow> 0x80 \<le> b \<and> b \<le> 0xBF"

lemma u_step_inrange:
  assumes "n \<noteq> 0" and "lo \<le> b" and "b \<le> hi"
  shows "u_step (UState n k lo hi c) b =
    (if Suc k = n then (u_init, [Some (u_join c b)]) else (UState n (Suc k) 0x80 0xBF (u_join c b), []))"
  using assms by (auto simp: not_less)

lemma u_events_outrange:
  assumes "n \<noteq> 0" and "\<not> (lo \<le> b \<and> b \<le> hi)"
  shows "None \<in> set (u_events (UState n k lo hi c) (b # r))"
  using assms by (auto simp: not_le split: prod.splits)

lemma lead2:
  assumes "0xC2 \<le> f" and "f \<le> 0xDF"
  shows "u_lead f = (UState 1 0 0x80 0xBF (ucast (f AND 0x1F)), [])"
proof -
  have "\<not> f \<le> 0x7F" using assms(1) by (auto simp: word_le_nat_alt)
  then show ?thesis using assms by (simp add: u_lead_def)
qed

lemma lead3:
  assumes "0xE0 \<le> f" and "f \<le> 0xEF"
  shows "u_lead f = (UState 2 0 (if f = 0xE0 then 0xA0 else 0x80) (if f = 0xED then 0x9F else 0xBF)
    (ucast (f AND 0x0F)), [])"
proof -
  have "\<not> f \<le> 0x7F" "\<not> f \<le> 0xDF" using assms(1) by (auto simp: word_le_nat_alt)
  then show ?thesis using assms by (simp add: u_lead_def)
qed

lemma lead4:
  assumes "0xF0 \<le> f" and "f \<le> 0xF4"
  shows "u_lead f = (UState 3 0 (if f = 0xF0 then 0x90 else 0x80) (if f = 0xF4 then 0x8F else 0xBF)
    (ucast (f AND 0x07)), [])"
proof -
  have "\<not> f \<le> 0x7F" "\<not> f \<le> 0xDF" "\<not> f \<le> 0xEF" using assms(1) by (auto simp: word_le_nat_alt)
  then show ?thesis using assms by (simp add: u_lead_def)
qed

lemma lead_bad:
  assumes "\<not> f \<le> 0x7F" and "\<not> (0xC2 \<le> f \<and> f \<le> 0xDF)" and "\<not> (0xE0 \<le> f \<and> f \<le> 0xEF)" and "\<not> (0xF0 \<le> f \<and> f \<le> 0xF4)"
  shows "u_lead f = (u_init, [None])"
  using assms by (simp add: u_lead_def)

text \<open>One continuation byte that ends a sequence, and one inside it.\<close>

lemma wf_last:
  "None \<notin> set (u_events (UState (Suc k) k lo hi c) r) \<longleftrightarrow>
   (\<exists>b r'. r = b # r' \<and> lo \<le> b \<and> b \<le> hi \<and> utf8_wellformed r')"
proof (cases r)
  case (Cons b r')
  show ?thesis
  proof (cases "lo \<le> b \<and> b \<le> hi")
    case True
    then show ?thesis using Cons by (simp del: u_step.simps add: u_step_inrange utf8_wellformed_def)
  next
    case False
    then show ?thesis
      using Cons u_events_outrange [of "Suc k" lo b hi k c r'] by (auto simp del: u_events.simps(2))
  qed
qed simp

lemma wf_inner:
  assumes "Suc k < n"
  shows "None \<notin> set (u_events (UState n k lo hi c) r) \<longleftrightarrow>
   (\<exists>b r'. r = b # r' \<and> lo \<le> b \<and> b \<le> hi \<and>
      None \<notin> set (u_events (UState n (Suc k) 0x80 0xBF (u_join c b)) r'))"
proof (cases r)
  case (Cons b r')
  show ?thesis
  proof (cases "lo \<le> b \<and> b \<le> hi")
    case True
    then show ?thesis using Cons assms by (simp del: u_step.simps add: u_step_inrange)
  next
    case False
    then show ?thesis
      using Cons assms u_events_outrange [of n lo b hi k c r'] by (auto simp del: u_events.simps(2))
  qed
qed (use assms in simp)


lemma wf_two:
  assumes "0xC2 \<le> f" and "f \<le> 0xDF"
  shows "utf8_wellformed (f # r) \<longleftrightarrow>
    (\<exists>b r'. r = b # r' \<and> 0x80 \<le> b \<and> b \<le> 0xBF \<and> utf8_wellformed r')"
  unfolding utf8_wellformed_def [of "f # r"] using wf_last [of 0 _ _ _ r]
  by (simp add: lead2 [OF assms])

lemma wf_three:
  assumes "0xE0 \<le> f" and "f \<le> 0xEF"
  shows "utf8_wellformed (f # r) \<longleftrightarrow>
    (\<exists>a b r'. r = a # b # r' \<and> (if f = 0xE0 then 0xA0 else 0x80) \<le> a \<and>
       a \<le> (if f = 0xED then 0x9F else 0xBF) \<and> 0x80 \<le> b \<and> b \<le> 0xBF \<and> utf8_wellformed r')"
  unfolding utf8_wellformed_def [of "f # r"] using wf_inner [of 0 2] wf_last [of 1]
  by (simp add: lead3 [OF assms] numeral_2_eq_2 del: u_events.simps(1)) blast

lemma wf_four:
  assumes "0xF0 \<le> f" and "f \<le> 0xF4"
  shows "utf8_wellformed (f # r) \<longleftrightarrow>
    (\<exists>a b d r'. r = a # b # d # r' \<and> (if f = 0xF0 then 0x90 else 0x80) \<le> a \<and>
       a \<le> (if f = 0xF4 then 0x8F else 0xBF) \<and> 0x80 \<le> b \<and> b \<le> 0xBF \<and>
       0x80 \<le> d \<and> d \<le> 0xBF \<and> utf8_wellformed r')"
  unfolding utf8_wellformed_def [of "f # r"] using wf_inner [of 0 3] wf_inner [of 1 3] wf_last [of 2]
  by (simp add: lead4 [OF assms] numeral_3_eq_3 numeral_2_eq_2 del: u_events.simps(1)) blast

text \<open>The code points the two- to four-byte forms denote, as numbers.\<close>

lemma mod_sub:
  fixes x d c :: nat
  assumes "c * d \<le> x" and "x < c * d + d"
  shows "x mod d = x - c * d"
proof -
  have "x = (x - c * d) + d * c" using assms by (simp add: mult.commute)
  then have "x mod d = (x - c * d) mod d" by (metis mod_mult_self2)
  also have "\<dots> = x - c * d" using assms by simp
  finally show ?thesis .
qed

lemma unat_ucast_u32 [simp]: "unat (ucast (b :: u8) :: u32) = unat b"
  by (simp add: unsigned_ucast_eq take_bit_nat_eq_self_iff order.strict_trans [OF unat_u8_less])

definition cp2 :: "u8 \<Rightarrow> u8 \<Rightarrow> u32" where
  "cp2 f a = u_join (ucast (f AND 0x1F)) a"

definition cp3 :: "u8 \<Rightarrow> u8 \<Rightarrow> u8 \<Rightarrow> u32" where
  "cp3 f a b = u_join (u_join (ucast (f AND 0x0F)) a) b"

definition cp4 :: "u8 \<Rightarrow> u8 \<Rightarrow> u8 \<Rightarrow> u8 \<Rightarrow> u32" where
  "cp4 f a b d = u_join (u_join (u_join (ucast (f AND 0x07)) a) b) d"

lemma unat_cp2:
  assumes "0xC2 \<le> f" "f \<le> 0xDF" "0x80 \<le> a" "a \<le> 0xBF"
  shows "unat (cp2 f a) = 64 * (unat f - 192) + (unat a - 128)"
proof -
  have "unat f mod 32 = unat f - 192" "unat a mod 64 = unat a - 128"
    using assms mod_sub [of 6 32 "unat f"] mod_sub [of 2 64 "unat a"] by (auto simp: word_le_nat_alt)
  then show ?thesis
    using unat_u8_less [of f] by (simp add: cp2_def unat_u_join unat_and_masks)
qed

lemma unat_cp3:
  assumes "0xE0 \<le> f" "f \<le> 0xEF" "0x80 \<le> a" "a \<le> 0xBF" "0x80 \<le> b" "b \<le> 0xBF"
  shows "unat (cp3 f a b) = 4096 * (unat f - 224) + 64 * (unat a - 128) + (unat b - 128)"
proof -
  have m: "unat f mod 16 = unat f - 224" "unat a mod 64 = unat a - 128" "unat b mod 64 = unat b - 128"
    using assms mod_sub [of 14 16 "unat f"] mod_sub [of 2 64 "unat a"] mod_sub [of 2 64 "unat b"]
    by (auto simp: word_le_nat_alt)
  have "unat (u_join (ucast (f AND 0x0F)) a) = 64 * (unat f - 224) + (unat a - 128)"
    using m unat_u8_less [of f] by (simp add: unat_u_join unat_and_masks)
  moreover have "unat f - 224 < 32" "unat a - 128 < 128"
    using unat_u8_less [of f] unat_u8_less [of a] by linarith+
  ultimately show ?thesis
    using m by (simp add: cp3_def unat_u_join)
qed

lemma unat_cp4:
  assumes "0xF0 \<le> f" "f \<le> 0xF4" "0x80 \<le> a" "a \<le> 0xBF" "0x80 \<le> b" "b \<le> 0xBF" "0x80 \<le> d" "d \<le> 0xBF"
  shows "unat (cp4 f a b d) =
    262144 * (unat f - 240) + 4096 * (unat a - 128) + 64 * (unat b - 128) + (unat d - 128)"
proof -
  have m: "unat f mod 8 = unat f - 240" "unat a mod 64 = unat a - 128" "unat b mod 64 = unat b - 128"
      "unat d mod 64 = unat d - 128"
    using assms mod_sub [of 30 8 "unat f"] mod_sub [of 2 64 "unat a"] mod_sub [of 2 64 "unat b"]
      mod_sub [of 2 64 "unat d"]
    by (auto simp: word_le_nat_alt)
  have small: "unat f - 240 < 16" "unat a - 128 < 128" "unat b - 128 < 128"
    using unat_u8_less [of f] unat_u8_less [of a] unat_u8_less [of b] by linarith+
  have one: "unat (u_join (ucast (f AND 0x07)) a) = 64 * (unat f - 240) + (unat a - 128)"
    using m small by (simp add: unat_u_join unat_and_masks)
  have two: "unat (u_join (u_join (ucast (f AND 0x07)) a) b) =
      4096 * (unat f - 240) + 64 * (unat a - 128) + (unat b - 128)"
    using m small one by (simp add: unat_u_join)
  show ?thesis
    using m small two by (simp add: cp4_def unat_u_join)
qed

lemma two_byte_checks:
  assumes "0xC2 \<le> f" "f \<le> 0xDF" "0x80 \<le> a" "a \<le> 0xBF"
  shows "\<not> (0xD800 \<le> cp2 f a \<and> cp2 f a \<le> 0xDFFF)" "\<not> cp2 f a > 0x10FFFF"
  using assms unat_cp2 [OF assms] by (auto simp: word_le_nat_alt word_less_nat_alt)

lemma three_byte_checks:
  assumes "0xE0 \<le> f" "f \<le> 0xEF" "0x80 \<le> a" "a \<le> 0xBF" "0x80 \<le> b" "b \<le> 0xBF"
  shows "\<not> cp3 f a b < 0x800 \<and> \<not> (0xD800 \<le> cp3 f a b \<and> cp3 f a b \<le> 0xDFFF) \<and> \<not> cp3 f a b > 0x10FFFF
    \<longleftrightarrow> (if f = 0xE0 then 0xA0 else 0x80) \<le> a \<and> a \<le> (if f = 0xED then 0x9F else 0xBF)"
proof -
  have f: "f = 0xE0 \<longleftrightarrow> unat f = 224" "f = 0xED \<longleftrightarrow> unat f = 237"
    by (simp_all add: word_unat_eq_iff)
  have l: "224 \<le> unat f" "unat f \<le> 239" "128 \<le> unat a" "unat a \<le> 191" "128 \<le> unat b" "unat b \<le> 191"
    using assms by (simp_all add: word_le_nat_alt)
  show ?thesis
    unfolding word_le_nat_alt word_less_nat_alt unat_cp3 [OF assms] f using l by auto
qed

lemma four_byte_checks:
  assumes "0xF0 \<le> f" "f \<le> 0xF4" "0x80 \<le> a" "a \<le> 0xBF" "0x80 \<le> b" "b \<le> 0xBF" "0x80 \<le> d" "d \<le> 0xBF"
  shows "\<not> cp4 f a b d < 0x10000 \<and> \<not> (0xD800 \<le> cp4 f a b d \<and> cp4 f a b d \<le> 0xDFFF) \<and>
      \<not> cp4 f a b d > 0x10FFFF
    \<longleftrightarrow> (if f = 0xF0 then 0x90 else 0x80) \<le> a \<and> a \<le> (if f = 0xF4 then 0x8F else 0xBF)"
proof -
  have f: "f = 0xF0 \<longleftrightarrow> unat f = 240" "f = 0xF4 \<longleftrightarrow> unat f = 244"
    by (simp_all add: word_unat_eq_iff)
  have l: "240 \<le> unat f" "unat f \<le> 244" "128 \<le> unat a" "unat a \<le> 191" "128 \<le> unat b" "unat b \<le> 191"
     "128 \<le> unat d" "unat d \<le> 191"
    using assms by (simp_all add: word_le_nat_alt)
  show ?thesis
    unfolding word_le_nat_alt word_less_nat_alt unat_cp4 [OF assms] f using l by auto
qed

text \<open>The class of a lead byte in the program's mask tests.\<close>

lemma utf8_class_eq:
  "utf8_class f =
    (if 0xC2 \<le> f \<and> f \<le> 0xDF then Some (1, ucast (f AND 0x1F))
     else if 0xE0 \<le> f \<and> f \<le> 0xEF then Some (2, ucast (f AND 0x0F))
     else if 0xF0 \<le> f \<and> f \<le> 0xF4 then Some (3, ucast (f AND 0x07))
     else None)"
  unfolding utf8_class_def byte_classes by (auto simp: word_le_nat_alt word_less_nat_alt)

lemma utf8_continue_step:
  "utf8_continue c (b # r) = (if 0x80 \<le> b \<and> b \<le> 0xBF then utf8_continue (u_join c b) r else None)"
  by (simp add: continuation_byte u_join_def)

lemma list_len_1: "\<not> length r < Suc 0 \<longleftrightarrow> (\<exists>a r'. r = a # r')"
  by (cases r) auto

lemma list_len_2: "\<not> length r < 2 \<longleftrightarrow> (\<exists>a b r'. r = a # b # r')"
  by (cases r; cases "tl r") auto

lemma list_len_3: "\<not> length r < 3 \<longleftrightarrow> (\<exists>a b d r'. r = a # b # d # r')"
  by (cases r; cases "tl r"; cases "tl (tl r)") auto

lemma isValidUtf8_two:
  assumes "0xC2 \<le> f" "f \<le> 0xDF"
  shows "isValidUtf8 (f # r) \<longleftrightarrow> (\<exists>a r'. r = a # r' \<and> 0x80 \<le> a \<and> a \<le> 0xBF \<and> isValidUtf8 r')"
proof -
  have "\<not> f \<le> 0x7F" using assms(1) by (auto simp: word_le_nat_alt)
  moreover have "utf8_class f = Some (1, ucast (f AND 0x1F))" using assms by (simp add: utf8_class_eq)
  ultimately show ?thesis
    using two_byte_checks [OF assms]
    by (cases r) (auto simp: utf8_continue_step cp2_def simp del: utf8_continue.simps(2))
qed

lemma isValidUtf8_three:
  assumes "0xE0 \<le> f" "f \<le> 0xEF"
  shows "isValidUtf8 (f # r) \<longleftrightarrow> (\<exists>a b r'. r = a # b # r' \<and> (if f = 0xE0 then 0xA0 else 0x80) \<le> a \<and>
       a \<le> (if f = 0xED then 0x9F else 0xBF) \<and> 0x80 \<le> b \<and> b \<le> 0xBF \<and> isValidUtf8 r')"
proof -
  have f: "\<not> f \<le> 0x7F" "utf8_class f = Some (2, ucast (f AND 0x0F))"
    using assms by (auto simp: word_le_nat_alt utf8_class_eq)
  show ?thesis
  proof (cases "length r < 2")
    case True
    then show ?thesis using f by auto
  next
    case False
    then obtain a b r' where r: "r = a # b # r'" by (auto simp: list_len_2)
    have "isValidUtf8 (f # r) \<longleftrightarrow> 0x80 \<le> a \<and> a \<le> 0xBF \<and> 0x80 \<le> b \<and> b \<le> 0xBF \<and>
       \<not> cp3 f a b < 0x800 \<and> \<not> (0xD800 \<le> cp3 f a b \<and> cp3 f a b \<le> 0xDFFF) \<and> \<not> cp3 f a b > 0x10FFFF
       \<and> isValidUtf8 r'"
      using f r by (simp add: utf8_continue_step cp3_def numeral_2_eq_2 del: utf8_continue.simps(2)) blast
    also have "\<dots> \<longleftrightarrow> 0x80 \<le> a \<and> a \<le> 0xBF \<and> 0x80 \<le> b \<and> b \<le> 0xBF \<and>
       (if f = 0xE0 then 0xA0 else 0x80) \<le> a \<and> a \<le> (if f = 0xED then 0x9F else 0xBF) \<and> isValidUtf8 r'"
      using three_byte_checks [OF assms] by blast
    also have "\<dots> \<longleftrightarrow> (if f = 0xE0 then 0xA0 else 0x80) \<le> a \<and> a \<le> (if f = 0xED then 0x9F else 0xBF) \<and>
       0x80 \<le> b \<and> b \<le> 0xBF \<and> isValidUtf8 r'"
      by (auto simp: word_le_nat_alt split: if_splits)
    finally show ?thesis using r by simp
  qed
qed

lemma isValidUtf8_four:
  assumes "0xF0 \<le> f" "f \<le> 0xF4"
  shows "isValidUtf8 (f # r) \<longleftrightarrow> (\<exists>a b d r'. r = a # b # d # r' \<and> (if f = 0xF0 then 0x90 else 0x80) \<le> a \<and>
       a \<le> (if f = 0xF4 then 0x8F else 0xBF) \<and> 0x80 \<le> b \<and> b \<le> 0xBF \<and> 0x80 \<le> d \<and> d \<le> 0xBF \<and> isValidUtf8 r')"
proof -
  have f: "\<not> f \<le> 0x7F" "utf8_class f = Some (3, ucast (f AND 0x07))"
    using assms by (auto simp: word_le_nat_alt utf8_class_eq)
  show ?thesis
  proof (cases "length r < 3")
    case True
    then show ?thesis using f by auto
  next
    case False
    then obtain a b d r' where r: "r = a # b # d # r'" by (auto simp: list_len_3)
    have "isValidUtf8 (f # r) \<longleftrightarrow> 0x80 \<le> a \<and> a \<le> 0xBF \<and> 0x80 \<le> b \<and> b \<le> 0xBF \<and> 0x80 \<le> d \<and> d \<le> 0xBF \<and>
       \<not> cp4 f a b d < 0x10000 \<and> \<not> (0xD800 \<le> cp4 f a b d \<and> cp4 f a b d \<le> 0xDFFF) \<and> \<not> cp4 f a b d > 0x10FFFF
       \<and> isValidUtf8 r'"
      using f r by (simp add: utf8_continue_step cp4_def numeral_3_eq_3 del: utf8_continue.simps(2)) blast
    also have "\<dots> \<longleftrightarrow> 0x80 \<le> a \<and> a \<le> 0xBF \<and> 0x80 \<le> b \<and> b \<le> 0xBF \<and> 0x80 \<le> d \<and> d \<le> 0xBF \<and>
       (if f = 0xF0 then 0x90 else 0x80) \<le> a \<and> a \<le> (if f = 0xF4 then 0x8F else 0xBF) \<and> isValidUtf8 r'"
      using four_byte_checks [OF assms] by blast
    also have "\<dots> \<longleftrightarrow> (if f = 0xF0 then 0x90 else 0x80) \<le> a \<and> a \<le> (if f = 0xF4 then 0x8F else 0xBF) \<and>
       0x80 \<le> b \<and> b \<le> 0xBF \<and> 0x80 \<le> d \<and> d \<le> 0xBF \<and> isValidUtf8 r'"
      by (auto simp: word_le_nat_alt split: if_splits)
    finally show ?thesis using r by simp
  qed
qed

lemma isValidUtf8_bad:
  assumes "\<not> f \<le> 0x7F" and "\<not> (0xC2 \<le> f \<and> f \<le> 0xDF)" and "\<not> (0xE0 \<le> f \<and> f \<le> 0xEF)"
    and "\<not> (0xF0 \<le> f \<and> f \<le> 0xF4)"
  shows "\<not> isValidUtf8 (f # r)" and "\<not> utf8_wellformed (f # r)"
proof -
  have "utf8_class f = None" using assms by (simp only: utf8_class_eq if_False)
  then show "\<not> isValidUtf8 (f # r)" using assms(1) by simp
  show "\<not> utf8_wellformed (f # r)" using lead_bad [OF assms] by (simp add: utf8_wellformed_def)
qed

lemma isValidUtf8_iff_wellformed: "isValidUtf8 bs \<longleftrightarrow> utf8_wellformed bs"
proof (induction bs rule: length_induct)
  case (1 bs)
  then have IH: "isValidUtf8 r = utf8_wellformed r" if "length r < length bs" for r
    using that by blast
  show ?case
  proof (cases bs)
    case (Cons f r)
    consider "f \<le> 0x7F" | "0xC2 \<le> f \<and> f \<le> 0xDF" | "0xE0 \<le> f \<and> f \<le> 0xEF" | "0xF0 \<le> f \<and> f \<le> 0xF4"
      | "\<not> f \<le> 0x7F \<and> \<not> (0xC2 \<le> f \<and> f \<le> 0xDF) \<and> \<not> (0xE0 \<le> f \<and> f \<le> 0xEF) \<and> \<not> (0xF0 \<le> f \<and> f \<le> 0xF4)"
      by blast
    then show ?thesis
    proof cases
      case 1
      then show ?thesis using Cons IH [of r] by (simp add: wf_ascii)
    next
      case 2
      then show ?thesis using Cons IH by (auto simp: isValidUtf8_two wf_two simp del: isValidUtf8.simps)
    next
      case 3
      then show ?thesis using Cons IH by (auto simp: isValidUtf8_three wf_three simp del: isValidUtf8.simps)
    next
      case 4
      then show ?thesis using Cons IH by (auto simp: isValidUtf8_four wf_four simp del: isValidUtf8.simps)
    next
      case 5
      then show ?thesis using Cons isValidUtf8_bad [of f r] by blast
    qed
  qed simp
qed

subsection \<open>Decoding well-formed bytes\<close>

lemma fromCodeUnits_eq: "fromCodeUnits us = map ucast us"
proof (induction us rule: fromCodeUnits.induct)
  case (1 us)
  show ?case
  proof (cases "us = []")
    case True
    then show ?thesis by (simp add: fromCodeUnits.simps)
  next
    case False
    with 1 have "fromCodeUnits us = map ucast (take 4096 us) @ map ucast (drop 4096 us)"
      by (simp add: fromCodeUnits.simps [of us])
    then show ?thesis by (simp only: map_append [symmetric] append_take_drop_id)
  qed
qed

text \<open>The bytes of one well-formed character: its code point and what follows.\<close>

lemma codepoint_at_ascii: "f \<le> 0x7F \<Longrightarrow> codepoint_at f r = (ucast f, 0)"
  by (simp add: codepoint_at_def)

lemma codepoint_at_two:
  assumes "0xC2 \<le> f" "f \<le> 0xDF"
  shows "codepoint_at f (a # r) = (cp2 f a, 1)"
proof -
  have "\<not> f \<le> 0x7F" "0xC0 \<le> f" using assms(1) by (auto simp: word_le_nat_alt)
  then show ?thesis using assms
    unfolding codepoint_at_def byte_classes by (simp add: cp2_def u_join_def byte_at_def)
qed

lemma codepoint_at_three:
  assumes "0xE0 \<le> f" "f \<le> 0xEF"
  shows "codepoint_at f (a # b # r) = (cp3 f a b, 2)"
proof -
  have "\<not> f \<le> 0x7F" "\<not> f \<le> 0xDF" using assms(1) by (auto simp: word_le_nat_alt)
  then show ?thesis using assms
    unfolding codepoint_at_def byte_classes
    by (simp add: cp3_def u_join_def byte_at_def push_bit_or or.assoc)
qed

lemma codepoint_at_four:
  assumes "0xF0 \<le> f" "f \<le> 0xF4"
  shows "codepoint_at f (a # b # d # r) = (cp4 f a b d, 3)"
proof -
  have "\<not> f \<le> 0x7F" "\<not> f \<le> 0xDF" "\<not> f \<le> 0xEF" using assms(1) by (auto simp: word_le_nat_alt)
  then show ?thesis using assms
    unfolding codepoint_at_def byte_classes
    by (simp add: cp4_def u_join_def byte_at_def push_bit_or or.assoc)
qed

lemma u_events_two:
  assumes "0xC2 \<le> f" "f \<le> 0xDF" "0x80 \<le> a" "a \<le> 0xBF"
  shows "u_events u_init (f # a # r) = Some (cp2 f a) # u_events u_init r"
  using assms by (simp add: lead2 cp2_def u_step_inrange del: u_step.simps)

lemma u_events_three:
  assumes "0xE0 \<le> f" "f \<le> 0xEF" "(if f = 0xE0 then 0xA0 else 0x80) \<le> a" "a \<le> (if f = 0xED then 0x9F else 0xBF)"
    "0x80 \<le> b" "b \<le> 0xBF"
  shows "u_events u_init (f # a # b # r) = Some (cp3 f a b) # u_events u_init r"
  using assms by (simp add: lead3 cp3_def u_step_inrange numeral_2_eq_2 del: u_step.simps)

lemma u_events_four:
  assumes "0xF0 \<le> f" "f \<le> 0xF4" "(if f = 0xF0 then 0x90 else 0x80) \<le> a" "a \<le> (if f = 0xF4 then 0x8F else 0xBF)"
    "0x80 \<le> b" "b \<le> 0xBF" "0x80 \<le> d" "d \<le> 0xBF"
  shows "u_events u_init (f # a # b # d # r) = Some (cp4 f a b d) # u_events u_init r"
  using assms by (simp add: lead4 cp4_def u_step_inrange numeral_3_eq_3 del: u_step.simps)

lemma wellformed_step:
  assumes "utf8_wellformed (f # r)"
  obtains cp n where "codepoint_at f r = (cp, n)" "utf8_wellformed (drop n r)" 
    "u_events u_init (f # r) = Some cp # u_events u_init (drop n r)"
proof -
  consider "f \<le> 0x7F" | "0xC2 \<le> f \<and> f \<le> 0xDF" | "0xE0 \<le> f \<and> f \<le> 0xEF" | "0xF0 \<le> f \<and> f \<le> 0xF4"
    using assms isValidUtf8_bad(2) by blast
  then show thesis
  proof cases
    case 1
    then show ?thesis
      using that [OF codepoint_at_ascii] assms by (simp add: wf_ascii u_events_ascii del: u_events.simps)
  next
    case 2
    then obtain a r' where "r = a # r'" "0x80 \<le> a" "a \<le> 0xBF" "utf8_wellformed r'"
      using assms by (auto simp: wf_two)
    then show ?thesis
      using that [of "cp2 f a" 1] 2 codepoint_at_two [of f a r'] u_events_two [of f a r']
      by (simp del: u_events.simps)
  next
    case 3
    then obtain a b r' where "r = a # b # r'" "(if f = 0xE0 then 0xA0 else 0x80) \<le> a"
      "a \<le> (if f = 0xED then 0x9F else 0xBF)" "0x80 \<le> b" "b \<le> 0xBF" "utf8_wellformed r'"
      using assms by (auto simp only: wf_three)
    then show ?thesis
      using that [of "cp3 f a b" 2] 3 codepoint_at_three [of f a b r'] u_events_three [of f a b r']
      by (simp del: u_events.simps)
  next
    case 4
    then obtain a b d r' where "r = a # b # d # r'" "(if f = 0xF0 then 0x90 else 0x80) \<le> a"
      "a \<le> (if f = 0xF4 then 0x8F else 0xBF)" "0x80 \<le> b" "b \<le> 0xBF" "0x80 \<le> d" "d \<le> 0xBF" "utf8_wellformed r'"
      using assms by (auto simp only: wf_four)
    then show ?thesis
      using that [of "cp4 f a b d" 3] 4 codepoint_at_four [of f a b d r'] u_events_four [of f a b d r']
      by (simp del: u_events.simps)
  qed
qed

lemma decode_units_events:
  "utf8_wellformed bs \<Longrightarrow>
     map ucast (fst (decode_units bs)) = concat (map event_units (u_events u_init bs))"
proof (induction bs rule: length_induct)
  case (1 bs)
  show ?case
  proof (cases bs)
    case (Cons f r)
    with 1 obtain cp n where step: "codepoint_at f r = (cp, n)" "utf8_wellformed (drop n r)"
      "u_events u_init (f # r) = Some cp # u_events u_init (drop n r)"
      by (blast elim: wellformed_step)
    have "length (drop n r) < length bs" using Cons by simp
    with 1 step(2) have IH: "map ucast (fst (decode_units (drop n r))) =
        concat (map event_units (u_events u_init (drop n r)))" by blast
    show ?thesis
      unfolding Cons step(3) using IH step(1)
      by (cases "decode_units (drop n r)") (simp add: utf16_units_def Let_def)
  qed simp
qed

lemma ascii_events:
  "list_all (\<lambda>b. b \<le> 0x7F) bs \<Longrightarrow> u_events u_init bs = map (\<lambda>b. Some (ucast b)) bs"
  by (induction bs) (simp_all add: u_events_ascii del: u_events.simps(2))

lemma ucast_byte_unit [simp]: "(ucast (ucast (b :: u8) :: u32) :: u16) = ucast b"
  by (rule bit_word_eqI) (auto simp: bit_simps)

lemma utf16_units_byte: "utf16_units (ucast (b :: u8)) = [ucast b]"
proof -
  have "unat b \<le> 65535" using unat_u8_less [of b] by linarith
  then show ?thesis by (simp add: utf16_units_def word_le_nat_alt)
qed

lemma decodeValidUtf8_lossy:
  assumes "isValidUtf8 bs"
  shows "fst (decodeValidUtf8 bs) = utf8_lossy bs"
proof (cases "list_all (\<lambda>b. b \<le> 0x7F) bs")
  case True
  then have "utf8_lossy bs = map ucast bs"
    by (simp add: utf8_lossy_def ascii_events comp_def utf16_units_byte concat_map_singleton)
  with True show ?thesis by (simp add: decodeValidUtf8_def fromCodeUnits_eq)
next
  case False
  then show ?thesis
    using assms decode_units_events [of bs]
    by (auto simp: decodeValidUtf8_def fromCodeUnits_eq isValidUtf8_iff_wellformed utf8_lossy_def
        split: prod.splits)
qed

subsection \<open>One event at a time\<close>

text \<open>
  Any nonempty input gives one event first: an error, or the code point of a well-formed
  character at its front; what follows is decoded from the start state.
\<close>

definition first_event :: "u8 \<Rightarrow> bytes \<Rightarrow> u32 option \<Rightarrow> nat \<Rightarrow> bool" where
  "first_event f r e k \<longleftrightarrow> u_events u_init (f # r) = e # u_events u_init (drop k r) \<and>
     (e = None \<or> (\<exists>cp. e = Some cp \<and> codepoint_at f r = (cp, k) \<and> k \<le> length r \<and>
        utf8_wellformed (f # take k r)))"

lemma u_events_break:
  assumes "n \<noteq> 0" and "\<not> (lo \<le> b \<and> b \<le> hi)"
  shows "u_events (UState n k lo hi c) (b # r) = None # u_events u_init (b # r)"
  using assms by (auto simp: not_le split: prod.splits)

lemma first_event_break:
  assumes "u_events u_init (f # r) = None # u_events u_init (drop k r)"
  shows "\<exists>e k. first_event f r e k"
  using assms by (auto simp: first_event_def)

lemma first_event_char:
  assumes "utf8_wellformed (f # take k r)" and "k \<le> length r" and "codepoint_at f r = (cp, k)"
    and "u_events u_init (f # r) = Some cp # u_events u_init (drop k r)"
  shows "\<exists>e k. first_event f r e k"
  using assms by (auto simp: first_event_def)

lemma pending_events:
  "k < n \<Longrightarrow>
    (\<exists>j. u_events (UState n k lo hi c) r = None # u_events u_init (drop j r)) \<or>
    (n - k \<le> length r \<and> None \<notin> set (u_events (UState n k lo hi c) (take (n - k) r)))"
proof (induction r arbitrary: k lo hi c)
  case Nil
  then show ?case by simp
next
  case (Cons b r)
  show ?case
  proof (cases "lo \<le> b \<and> b \<le> hi")
    case False
    with Cons.prems show ?thesis
      using u_events_break [of n lo b hi k c r] by (metis drop0 less_nat_zero_code)
  next
    case True
    show ?thesis
    proof (cases "Suc k = n")
      case last: True
      then have "n - k = 1" by simp
      with True last show ?thesis
        by (simp add: u_step_inrange del: u_step.simps)
    next
      case False
      with Cons.prems have "Suc k < n" by simp
      note IH = Cons.IH [OF this, of "0x80" "0xBF" "u_join c b"]
      have next_state: "u_events (UState n k lo hi c) (b # l) =
          u_events (UState n (Suc k) 0x80 0xBF (u_join c b)) l" for l
        using True False Cons.prems by (simp add: u_step_inrange del: u_step.simps)
      have "n - k = Suc (n - Suc k)" using Cons.prems by simp
      then show ?thesis
        using IH by (metis drop_Suc_Cons length_Cons next_state not_less_eq_eq take_Suc_Cons)
    qed
  qed
qed

lemma first_event_pending:
  assumes "u_lead f = (UState n 0 lo hi c, [])" and "0 < n"
  shows "(\<exists>e k. first_event f r e k) \<or> (n \<le> length r \<and> utf8_wellformed (f # take n r))"
  using pending_events [OF assms(2), of lo hi c r] assms(1)
  by (auto simp: utf8_wellformed_def intro: first_event_break)

lemma first_event_exists: "\<exists>e k. first_event f r e k"
proof -
  consider (one) "f \<le> 0x7F" | (two) "0xC2 \<le> f" "f \<le> 0xDF" | (three) "0xE0 \<le> f" "f \<le> 0xEF"
    | (four) "0xF0 \<le> f" "f \<le> 0xF4"
    | (bad) "\<not> f \<le> 0x7F" "\<not> (0xC2 \<le> f \<and> f \<le> 0xDF)" "\<not> (0xE0 \<le> f \<and> f \<le> 0xEF)" "\<not> (0xF0 \<le> f \<and> f \<le> 0xF4)"
    by blast
  then show ?thesis
  proof cases
    case one
    then show ?thesis
      by (intro first_event_char [of f 0]) (simp_all add: wf_ascii u_events_ascii codepoint_at_ascii del: u_events.simps(2))
  next
    case bad
    then show ?thesis by (intro first_event_break [of _ _ 0]) (simp add: lead_bad)
  next
    case two
    have "0 < (1 :: nat)" by simp
    from first_event_pending [OF lead2 [OF two] this, of r] show ?thesis
    proof (elim disjE conjE)
      assume *: "1 \<le> length r" "utf8_wellformed (f # take 1 r)"
      then obtain a r' where "r = a # r'" by (cases r) auto
      with * two show ?thesis
        by (intro first_event_char [of f 1 r "cp2 f a"])
          (simp_all add: wf_two codepoint_at_two u_events_two del: u_events.simps)
    qed simp_all
  next
    case three
    have "0 < (2 :: nat)" by simp
    from first_event_pending [OF lead3 [OF three] this, of r] show ?thesis
    proof (elim disjE conjE)
      assume *: "2 \<le> length r" "utf8_wellformed (f # take 2 r)"
      then obtain a b r' where r: "r = a # b # r'" using list_len_2 [of r] by (auto simp: not_less)
      with * three have "(if f = 0xE0 then 0xA0 else 0x80) \<le> a \<and>
          a \<le> (if f = 0xED then 0x9F else 0xBF) \<and> 0x80 \<le> b \<and> b \<le> 0xBF"
        by (simp only: wf_three) (simp add: numeral_2_eq_2)
      with * three r show ?thesis
        by (intro first_event_char [of f 2 r "cp3 f a b"])
          (simp_all only: codepoint_at_three u_events_three, simp_all add: numeral_2_eq_2)
    qed simp_all
  next
    case four
    have "0 < (3 :: nat)" by simp
    from first_event_pending [OF lead4 [OF four] this, of r] show ?thesis
    proof (elim disjE conjE)
      assume *: "3 \<le> length r" "utf8_wellformed (f # take 3 r)"
      then obtain a b d r' where r: "r = a # b # d # r'" using list_len_3 [of r] by (auto simp: not_less)
      with * four have "(if f = 0xF0 then 0x90 else 0x80) \<le> a \<and> a \<le> (if f = 0xF4 then 0x8F else 0xBF) \<and>
          0x80 \<le> b \<and> b \<le> 0xBF \<and> 0x80 \<le> d \<and> d \<le> 0xBF"
        by (simp only: wf_four) (simp add: numeral_3_eq_3)
      with * four r show ?thesis
        by (intro first_event_char [of f 3 r "cp4 f a b d"])
          (simp_all only: codepoint_at_four u_events_four, simp_all add: numeral_3_eq_3)
    qed simp_all
  qed
qed

text \<open>Induction over the events of an input.\<close>

lemma events_induct [case_names Nil Event]:
  assumes "P []"
    and "\<And>f r e k. first_event f r e k \<Longrightarrow> P (drop k r) \<Longrightarrow> P (f # r)"
  shows "P bs"
proof (induction bs rule: length_induct)
  case (1 bs)
  show ?case
  proof (cases bs)
    case Nil
    with assms(1) show ?thesis by simp
  next
    case (Cons f r)
    obtain e k where fe: "first_event f r e k" using first_event_exists by blast
    have "length (drop k r) < length bs" using Cons by simp
    with 1 have "P (drop k r)" by blast
    with fe Cons show ?thesis using assms(2) by blast
  qed
qed

subsection \<open>Which code points can come out\<close>

lemma first_event_range:
  assumes "first_event f r (Some cp) k"
  shows "unat cp < 55296 \<or> 57343 < unat cp" and "unat cp \<le> 1114111"
    and "cp = 0xFFFF \<Longrightarrow> f = 0xEF \<and> take 2 r = [0xBF, 0xBF]"
proof -
  have wf: "utf8_wellformed (f # take k r)" and cp: "codepoint_at f r = (cp, k)" and len: "k \<le> length r"
    using assms by (auto simp: first_event_def)
  consider (one) "f \<le> 0x7F" | (two) "0xC2 \<le> f" "f \<le> 0xDF" | (three) "0xE0 \<le> f" "f \<le> 0xEF"
    | (four) "0xF0 \<le> f" "f \<le> 0xF4"
    using wf isValidUtf8_bad(2) by blast
  then have "(unat cp < 55296 \<or> 57343 < unat cp) \<and> unat cp \<le> 1114111 \<and>
     (unat cp = 65535 \<longrightarrow> f = 0xEF \<and> take 2 r = [0xBF, 0xBF])"
  proof cases
    case one
    then have "unat cp \<le> 127" using cp by (auto simp: codepoint_at_ascii word_le_nat_alt)
    then show ?thesis by linarith
  next
    case two
    from wf two obtain a r' where r: "take k r = a # r'" "0x80 \<le> a" "a \<le> 0xBF" by (auto simp: wf_two)
    then obtain r'' where "r = a # r''" by (metis append_Cons append_take_drop_id)
    with cp two have "cp = cp2 f a" by (simp add: codepoint_at_two)
    then have "unat cp = 64 * (unat f - 192) + (unat a - 128)" using two r by (simp add: unat_cp2)
    moreover have "unat f \<le> 223" "unat a \<le> 191" using two r by (simp_all add: word_le_nat_alt)
    ultimately have "unat cp \<le> 2047" by linarith
    then show ?thesis by linarith
  next
    case three
    from wf three obtain a b r' where r: "take k r = a # b # r'" "(if f = 0xE0 then 0xA0 else 0x80) \<le> a"
      "a \<le> (if f = 0xED then 0x9F else 0xBF)" "0x80 \<le> b" "b \<le> 0xBF"
      by (auto simp only: wf_three)
    from r(1) obtain r'' where rr: "r = a # b # r''" by (cases r; cases "tl r"; cases k; cases "k - 1") auto
    have a: "0x80 \<le> a" "a \<le> 0xBF" using r(2,3) by (auto simp: word_le_nat_alt split: if_splits)
    from cp three rr have cp: "cp = cp3 f a b" by (simp add: codepoint_at_three)
    have "\<not> (0xD800 \<le> cp3 f a b \<and> cp3 f a b \<le> 0xDFFF)" "\<not> cp3 f a b > 0x10FFFF"
      using three_byte_checks [OF three a r(4,5)] r(2,3) by blast+
    then have "unat cp < 55296 \<or> 57343 < unat cp" "unat cp \<le> 1114111"
      using cp by (auto simp: word_le_nat_alt word_less_nat_alt)
    moreover have "f = 0xEF \<and> a = 0xBF \<and> b = 0xBF" if "unat cp = 65535"
      using that cp unat_cp3 [OF three a r(4,5)] three a r(4,5)
      unfolding word_unat_eq_iff word_le_nat_alt by auto
    ultimately show ?thesis using rr by (auto simp: numeral_2_eq_2)
  next
    case four
    from wf four obtain a b d r' where r: "take k r = a # b # d # r'" "(if f = 0xF0 then 0x90 else 0x80) \<le> a"
      "a \<le> (if f = 0xF4 then 0x8F else 0xBF)" "0x80 \<le> b" "b \<le> 0xBF" "0x80 \<le> d" "d \<le> 0xBF"
      by (auto simp only: wf_four)
    from r(1) obtain r'' where rr: "r = a # b # d # r''"
      by (metis append_Cons append_take_drop_id)
    have a: "0x80 \<le> a" "a \<le> 0xBF" using r(2,3) by (auto simp: word_le_nat_alt split: if_splits)
    from cp four rr have cp: "cp = cp4 f a b d" by (simp add: codepoint_at_four)
    have "\<not> cp4 f a b d < 0x10000" "\<not> cp4 f a b d > 0x10FFFF"
      using four_byte_checks [OF four a r(4-7)] r(2,3) by blast+
    then have "65536 \<le> unat cp" "unat cp \<le> 1114111"
      using cp by (auto simp: word_le_nat_alt word_less_nat_alt)
    then show ?thesis by auto
  qed
  then show "unat cp < 55296 \<or> 57343 < unat cp" and "unat cp \<le> 1114111"
    and "cp = 0xFFFF \<Longrightarrow> f = 0xEF \<and> take 2 r = [0xBF, 0xBF]" by auto
qed

text \<open>The UTF-16 form of a code point, numerically.\<close>

lemma unat_ucast_u16: "unat (w :: u32) \<le> 65535 \<Longrightarrow> unat (ucast w :: u16) = unat w"
  by (simp add: unsigned_ucast_eq take_bit_nat_eq_self_iff)

lemma utf16_units_big:
  assumes "65535 < unat cp" and "unat cp \<le> 1114111"
  obtains hi lo where "utf16_units cp = [hi, lo]" "55296 \<le> unat hi" "unat hi \<le> 56319"
    "56320 \<le> unat lo" "unat lo \<le> 57343"
    "unat hi = 55296 + (unat cp - 65536) div 1024" "unat lo = 56320 + (unat cp - 65536) mod 1024"
proof -
  define x where "x = cp - 0x10000"
  have x: "unat x = unat cp - 65536"
    using assms by (simp add: x_def unat_sub word_le_nat_alt)
  have d: "unat (drop_bit 10 x) = unat x div 1024"
    unfolding unsigned_drop_bit_eq by (simp add: drop_bit_eq_div take_bit_nat_eq_self)
  have "x AND 0x3FF = take_bit 10 x"
    unfolding take_bit_eq_mask by (simp add: mask_numeral)
  then have "unat (x AND 0x3FF) = take_bit 10 (unat x)"
    by (simp only: unsigned_take_bit_eq)
  then have m: "unat (x AND 0x3FF) = unat x mod 1024"
    by (simp add: take_bit_eq_mod)
  have b: "unat x div 1024 < 1024" "unat x mod 1024 < 1024"
    using assms x by (auto simp: less_mult_imp_div_less)
  have hi: "unat (0xD800 + drop_bit 10 x) = 55296 + unat x div 1024"
    using b d by (simp add: unat_plus_if')
  have lo: "unat (0xDC00 + (x AND 0x3FF)) = 56320 + unat x mod 1024"
    using b m by (simp add: unat_plus_if')
  have "\<not> cp \<le> 0xFFFF" using assms by (simp add: word_le_nat_alt)
  then have "utf16_units cp = [ucast (0xD800 + drop_bit 10 x), ucast (0xDC00 + (x AND 0x3FF))]"
    by (simp add: utf16_units_def x_def)
  then show thesis
    by (rule that) (use hi lo b x in \<open>simp_all add: unat_ucast_u16\<close>)
qed

lemma utf8_lossy_event:
  "first_event f r e k \<Longrightarrow> utf8_lossy (f # r) = event_units e @ utf8_lossy (drop k r)"
  by (simp add: utf8_lossy_def first_event_def)

lemma utf16_units_small: "unat cp \<le> 65535 \<Longrightarrow> utf16_units cp = [ucast cp]"
  by (simp add: utf16_units_def word_le_nat_alt)

text \<open>U+FFFF comes out only where its three bytes went in.\<close>

definition sep_bytes :: bytes where
  "sep_bytes = [0xEF, 0xBF, 0xBF]"

lemma sep_units:
  assumes "first_event f r e k" and "0xFFFF \<in> set (event_units e)"
  shows "take 3 (f # r) = sep_bytes"
proof (cases e)
  case None
  with assms(2) show ?thesis by simp
next
  case (Some cp)
  note range = first_event_range [of f r cp k]
  show ?thesis
  proof (cases "unat cp \<le> 65535")
    case True
    then have "(ucast cp :: u16) = 0xFFFF" using assms(2) Some by (simp add: utf16_units_small)
    then have "unat cp = 65535" using unat_ucast_u16 [OF True] by simp
    then have "cp = 0xFFFF" by (simp add: word_unat_eq_iff)
    then show ?thesis using range assms(1) Some by (simp add: sep_bytes_def numeral_3_eq_3 numeral_2_eq_2)
  next
    case False
    then obtain hi lo where "utf16_units cp = [hi, lo]" "unat hi \<le> 56319" "unat lo \<le> 57343"
      using range assms(1) Some by (metis not_le utf16_units_big)
    with assms(2) Some show ?thesis by auto
  qed
qed

lemma utf8_lossy_no_sep:
  "\<not> js_includes (latin1 sep_bytes) (latin1 bs) \<Longrightarrow> 0xFFFF \<notin> set (utf8_lossy bs)"
proof (induction bs rule: events_induct)
  case Nil
  then show ?case by simp
next
  case (Event f r e k)
  have len: "length sep_bytes = 3" by (simp add: sep_bytes_def)
  from Event.prems have "take 3 (f # r) \<noteq> sep_bytes" and "\<not> js_includes (latin1 sep_bytes) (latin1 r)"
    unfolding js_includes_latin1_Cons len by auto
  moreover from this(2) have "\<not> js_includes (latin1 sep_bytes) (latin1 (drop k r))"
    using js_includes_append [of _ "latin1 (drop k r)" "latin1 (take k r)"]
    by (metis append_take_drop_id latin1_append)
  ultimately show ?case
    using Event.IH Event.hyps sep_units by (auto simp: utf8_lossy_event)
qed

lemma utf8_lossy_sep: "utf8_lossy sep_bytes = [0xFFFF]" and wellformed_sep: "utf8_wellformed sep_bytes"
  by (code_simp)+

lemma utf8_lossy_join_sep:
  "utf8_lossy (js_join sep_bytes bss) = js_join [0xFFFF] (map utf8_lossy bss)"
proof (induction sep_bytes bss rule: js_join.induct)
  case (3 p q ps)
  have "utf8_lossy (p @ sep_bytes @ js_join sep_bytes (q # ps)) =
      utf8_lossy p @ utf8_lossy sep_bytes @ utf8_lossy (js_join sep_bytes (q # ps))"
    by (rule utf8_lossy_around_wellformed [OF wellformed_sep]) (simp add: sep_bytes_def)
  with 3 show ?case by (simp add: utf8_lossy_sep)
qed simp_all

text \<open>One decode of the joined runs, split again, is the decode of each run.\<close>

lemma utf8_lossy_split_batch:
  assumes "bss \<noteq> []" and "\<forall>bs \<in> set bss. \<not> js_includes (latin1 sep_bytes) (latin1 bs)"
  shows "js_split 0xFFFF (utf8_lossy (js_join sep_bytes bss)) = map utf8_lossy bss"
  unfolding utf8_lossy_join_sep using assms by (intro js_split_join) (auto simp: utf8_lossy_no_sep)

subsection \<open>The platform's UTF-16 decoder\<close>

definition is_high :: "u16 \<Rightarrow> bool" where
  "is_high u \<longleftrightarrow> 0xD800 \<le> u \<and> u \<le> 0xDBFF"

definition is_low :: "u16 \<Rightarrow> bool" where
  "is_low u \<longleftrightarrow> 0xDC00 \<le> u \<and> u \<le> 0xDFFF"

fun utf16_lossy :: "jstring \<Rightarrow> jstring" where
  "utf16_lossy [] = []"
| "utf16_lossy [u] = (if is_high u \<or> is_low u then [0xFFFD] else [u])"
| "utf16_lossy (u # v # us) =
     (if is_high u then (if is_low v then u # v # utf16_lossy us else 0xFFFD # utf16_lossy (v # us))
      else if is_low u then 0xFFFD # utf16_lossy (v # us)
      else u # utf16_lossy (v # us))"

lemma utf16_lossy_unit: "\<not> is_high u \<Longrightarrow> \<not> is_low u \<Longrightarrow> utf16_lossy (u # us) = u # utf16_lossy us"
  by (cases us) simp_all

lemma utf16_lossy_pair: "is_high u \<Longrightarrow> is_low v \<Longrightarrow> utf16_lossy (u # v # us) = u # v # utf16_lossy us"
  by simp

lemma utf16_lossy_event:
  assumes "first_event f r e k"
  shows "utf16_lossy (event_units e @ us) = event_units e @ utf16_lossy us"
proof (cases e)
  case None
  have "\<not> is_high 0xFFFD" "\<not> is_low 0xFFFD" by (simp_all add: is_high_def is_low_def)
  with None show ?thesis by (simp add: utf16_lossy_unit)
next
  case (Some cp)
  note range = first_event_range [OF assms [unfolded Some]]
  show ?thesis
  proof (cases "unat cp \<le> 65535")
    case True
    have "\<not> is_high (ucast cp)" "\<not> is_low (ucast cp)"
      using range(1) unat_ucast_u16 [OF True] by (auto simp: is_high_def is_low_def word_le_nat_alt)
    with Some True show ?thesis by (simp add: utf16_units_small utf16_lossy_unit)
  next
    case False
    then obtain hi lo where units: "utf16_units cp = [hi, lo]" "55296 \<le> unat hi" "unat hi \<le> 56319"
      "56320 \<le> unat lo" "unat lo \<le> 57343"
      using range(2) by (metis not_le utf16_units_big)
    then have "is_high hi" "is_low lo" by (auto simp: is_high_def is_low_def word_le_nat_alt)
    with Some units show ?thesis by (simp add: utf16_lossy_pair)
  qed
qed

lemma utf16_lossy_utf8_lossy [simp]: "utf16_lossy (utf8_lossy bs) = utf8_lossy bs"
  by (induction bs rule: events_induct) (simp_all add: utf8_lossy_event utf16_lossy_event)

subsection \<open>Correctness of the package's UTF-8 code\<close>

text \<open>
  C14. The package's validator and decoder together are the platform's fatal UTF-8 decoder, on
  every byte string: \<open>isValidUtf8\<close> accepts exactly the bytes the platform decodes without an
  error (overlong forms, surrogates, code points past U+10FFFF and cut sequences are refused),
  and on those \<open>decodeValidUtf8\<close> returns the platform's text.
\<close>

theorem utf8_fast_path_is_fatal_decoder:
  "textDecoder True True bs =
     (if isValidUtf8 bs then Inr (fst (decodeValidUtf8 bs))
      else Inl (TypeError ''The encoded data was not valid for encoding utf-8''))"
  by (simp add: textDecoder_def isValidUtf8_iff_wellformed decodeValidUtf8_lossy)

text \<open>
  A valid, nonempty token is a boundary of the lossy decode: decoding it apart from the
  bytes around it and concatenating the texts gives the text of the whole byte string. This is
  what lets the table join cached token strings with separately decoded runs.
\<close>

theorem valid_token_is_decode_boundary:
  assumes "isValidUtf8 v" and "v \<noteq> []"
  shows "textDecoder True False (xs @ v @ ys) =
    Inr (utf8_lossy xs @ fst (decodeValidUtf8 v) @ utf8_lossy ys)"
  using assms
  by (simp add: utf8_lossy_around_wellformed decodeValidUtf8_lossy flip: isValidUtf8_iff_wellformed)

theorem valid_token_is_decode_boundary_witness:
  "textDecoder True False ([0xE2, 0x82] @ [0xC3, 0xA9] @ [0xAC]) =
    Inr (utf8_lossy [0xE2, 0x82] @ fst (decodeValidUtf8 [0xC3, 0xA9]) @ utf8_lossy [0xAC])"
  by (rule valid_token_is_decode_boundary) code_simp+

end
