(* ===== verification/Decoder.thy ===== *)
theory Decoder
  imports Utf8
begin

text \<open>
  The interface of every decoder of the package, its contract, and the four decoders that call
  the WebAssembly tokenizer directly: \<^verbatim>\<open>decode-assembly.mjs\<close>, \<^verbatim>\<open>decode-borrowed.mjs\<close>,
  \<^verbatim>\<open>decode-utf16.mjs\<close> and the plain decode of \<^verbatim>\<open>decode-composed.mjs\<close>.
  The tokenizer itself is compiled from Rust and is a parameter of the model: a record of the
  methods the JavaScript calls, whose laws are named in \<open>core_laws\<close>.
\<close>

subsection \<open>Inputs of a decode call\<close>

text \<open>
  A \<^verbatim>\<open>Uint32Array\<close>, a JavaScript array (dense: holes are not modelled), or anything else.
\<close>

datatype js_input = Typed "u32 list" | Arr "jsval list" | NotIds

definition decode_input_error :: js_error where
  "decode_input_error = TypeError ''decode input must be a Uint32Array or an array of u32 values''"

text \<open>\<^verbatim>\<open>Number.isInteger(value) && value >= 0 && value <= 0xffff_ffff\<close>.\<close>

fun validTokenId :: "jsval \<Rightarrow> bool" where
  "validTokenId (JNum q) = (is_int_rat q \<and> 0 \<le> q \<and> q \<le> 4294967295)"
| "validTokenId _ = False"

fun tokenIds :: "js_input \<Rightarrow> js_error + u32 list" where
  "tokenIds (Typed ids) = Inr ids"
| "tokenIds (Arr vs) =
     (if list_all validTokenId vs then Inr (map u32_of_jsval vs) else Inl decode_input_error)"
| "tokenIds NotIds = Inl decode_input_error"

lemma validTokenId_u32 [simp]: "validTokenId (jsval_of_u32 w)"
proof -
  have "unat w \<le> 4294967295" using unat_u32_less [of w] by linarith
  then have "(of_nat (unat w) :: rat) \<le> of_nat 4294967295" by (simp only: of_nat_le_iff)
  then show ?thesis by (simp add: jsval_of_u32_def del: of_nat_unat)
qed

lemma tokenIds_u32s [simp]: "tokenIds (Arr (map jsval_of_u32 ids)) = Inr ids"
  by (simp add: list_all_iff comp_def)

subsection \<open>The tokenizer the package calls\<close>

text \<open>
  The methods of the WebAssembly tokenizer a decoder uses. An optional method is \<open>None\<close> when
  the artifact does not export it (\<^verbatim>\<open>typeof core.decodeAssemblyBytes !== "function"\<close>).
\<close>

record core =
  c_vocabSize :: nat
  c_tokenBytes :: "u32 \<Rightarrow> js_error + bytes"
  c_decode :: "u32 list \<Rightarrow> js_error + jstring"
  c_assemblyBytes :: "(u32 list \<Rightarrow> js_error + bytes) option"
  c_borrowedView :: "(u32 list \<Rightarrow> js_error + bytes) option"
  c_utf16 :: "(u32 list \<Rightarrow> js_error + jstring) option"

text \<open>The bytes of a token sequence, if every id is known.\<close>

definition ref_bytes :: "core \<Rightarrow> u32 list \<Rightarrow> bytes option" where
  "ref_bytes c ids = map_option concat (those (map (\<lambda>tid. okv (c_tokenBytes c tid)) ids))"

definition ref_text :: "core \<Rightarrow> u32 list \<Rightarrow> jstring option" where
  "ref_text c ids = map_option utf8_lossy (ref_bytes c ids)"

text \<open>The reference decode: the lossy UTF-8 text of the tokens' bytes, on a valid input.\<close>

definition ref_decode :: "core \<Rightarrow> js_input \<Rightarrow> jstring option" where
  "ref_decode c inp = Option.bind (okv (tokenIds inp)) (ref_text c)"

text \<open>The same for any text of the ids.\<close>

definition decode_by :: "(u32 list \<Rightarrow> jstring option) \<Rightarrow> js_input \<Rightarrow> jstring option" where
  "decode_by text_of inp = Option.bind (okv (tokenIds inp)) text_of"

lemma ref_decode_by: "ref_decode c = decode_by (ref_text c)"
  by (simp add: fun_eq_iff ref_decode_def decode_by_def)

text \<open>
  The laws of the tokenizer. A token's bytes are nonempty (the tokenizer reports an id whose
  bytes are empty as unknown), its id is below the vocabulary size, and the error for an unknown
  id is not a \<^verbatim>\<open>TypeError\<close>; the bulk methods return
  the bytes, the lossy text or its UTF-16 form of the concatenated tokens, and throw exactly
  when an id is unknown.
\<close>

definition core_laws :: "core \<Rightarrow> bool" where
  "core_laws c \<longleftrightarrow>
     (\<forall>tid bs. c_tokenBytes c tid = Inr bs \<longrightarrow> bs \<noteq> [] \<and> unat tid < c_vocabSize c) \<and>
     (\<forall>tid m. c_tokenBytes c tid \<noteq> Inl (TypeError m)) \<and>
     (\<forall>ids. okv (c_decode c ids) = ref_text c ids) \<and>
     (\<forall>f ids. c_assemblyBytes c = Some f \<longrightarrow> okv (f ids) = ref_bytes c ids) \<and>
     (\<forall>f ids. c_borrowedView c = Some f \<longrightarrow> okv (f ids) = ref_bytes c ids) \<and>
     (\<forall>f ids. c_utf16 c = Some f \<longrightarrow> okv (f ids) = ref_text c ids)"

text \<open>A tokenizer built from its token table: an instance of the laws.\<close>

definition unknown_token :: "u32 \<Rightarrow> js_error" where
  "unknown_token tid = PlainError (''unknown token id '' @ show_nat (unat tid))"

definition table_tokenBytes :: "bytes list \<Rightarrow> u32 \<Rightarrow> js_error + bytes" where
  "table_tokenBytes toks tid =
     (if unat tid < length toks \<and> toks ! unat tid \<noteq> [] then Inr (toks ! unat tid)
      else Inl (unknown_token tid))"

fun table_gather :: "bytes list \<Rightarrow> u32 list \<Rightarrow> js_error + bytes" where
  "table_gather toks [] = Inr []"
| "table_gather toks (tid # ids) =
     (case table_tokenBytes toks tid of Inl e \<Rightarrow> Inl e
      | Inr bs \<Rightarrow> (case table_gather toks ids of Inl e \<Rightarrow> Inl e | Inr r \<Rightarrow> Inr (bs @ r)))"

definition table_text :: "bytes list \<Rightarrow> u32 list \<Rightarrow> js_error + jstring" where
  "table_text toks ids = map_sum (\<lambda>e. e) utf8_lossy (table_gather toks ids)"

definition table_core :: "bytes list \<Rightarrow> core" where
  "table_core toks =
     \<lparr>c_vocabSize = length toks, c_tokenBytes = table_tokenBytes toks,
      c_decode = table_text toks, c_assemblyBytes = Some (table_gather toks),
      c_borrowedView = Some (table_gather toks), c_utf16 = Some (table_text toks)\<rparr>"

lemma ref_bytes_Nil [simp]: "ref_bytes c [] = Some []"
  by (simp add: ref_bytes_def)

lemma ref_bytes_Cons:
  "ref_bytes c (tid # ids) =
     Option.bind (okv (c_tokenBytes c tid)) (\<lambda>b. map_option (\<lambda>r. b @ r) (ref_bytes c ids))"
  by (cases "c_tokenBytes c tid"; cases "those (map (\<lambda>tid. okv (c_tokenBytes c tid)) ids)")
    (simp_all add: ref_bytes_def)

lemma ref_bytes_append:
  "ref_bytes c (xs @ ys) =
     Option.bind (ref_bytes c xs) (\<lambda>a. map_option (\<lambda>b. a @ b) (ref_bytes c ys))"
proof (induction xs)
  case Nil
  then show ?case by (cases "ref_bytes c ys") simp_all
next
  case (Cons x xs)
  then show ?case
    by (cases "c_tokenBytes c x"; cases "ref_bytes c xs"; cases "ref_bytes c ys")
      (simp_all add: ref_bytes_Cons)
qed

lemma ref_bytes_None_iff: "ref_bytes c ids = None \<longleftrightarrow> (\<exists>tid \<in> set ids. \<exists>e. c_tokenBytes c tid = Inl e)"
  by (induction ids) (auto simp: ref_bytes_Cons split: bind_splits)

lemma table_core_tokenBytes [simp]: "c_tokenBytes (table_core toks) = table_tokenBytes toks"
  by (simp add: table_core_def)

lemma okv_table_gather: "okv (table_gather toks ids) = ref_bytes (table_core toks) ids"
proof (induction ids)
  case (Cons tid ids)
  then show ?case
    by (cases "table_tokenBytes toks tid"; cases "table_gather toks ids") (auto simp: ref_bytes_Cons dest: sym)
qed simp

lemma table_core_laws [simp]: "core_laws (table_core toks)"
proof -
  have texts: "okv (table_text toks ids) = ref_text (table_core toks) ids" for ids
    unfolding ref_text_def okv_table_gather [symmetric] table_text_def
    by (cases "table_gather toks ids") simp_all
  have "bs \<noteq> [] \<and> unat tid < length toks" if "table_tokenBytes toks tid = Inr bs" for tid bs
    using that by (auto simp: table_tokenBytes_def split: if_splits)
  moreover have "table_tokenBytes toks tid \<noteq> Inl (TypeError m)" for tid m
    by (simp add: table_tokenBytes_def unknown_token_def)
  ultimately show ?thesis
    unfolding core_laws_def using texts okv_table_gather by (simp add: table_core_def)
qed

lemma core_laws_token:
  "core_laws c \<Longrightarrow> c_tokenBytes c tid = Inr bs \<Longrightarrow> bs \<noteq> [] \<and> unat tid < c_vocabSize c"
  by (simp add: core_laws_def)

lemma core_laws_decode: "core_laws c \<Longrightarrow> okv (c_decode c ids) = ref_text c ids"
  by (simp add: core_laws_def)

subsection \<open>The contract of a decoder\<close>

text \<open>
  A decoder is a call on its own state. The contract: in every state it can be in, a call
  returns exactly the reference decode of its input and throws exactly when the reference has
  no value, and it stays in such a state.
\<close>

type_synonym 's decoder = "js_input \<Rightarrow> ('s, jstring) js"

locale exact_decoder =
  fixes dec :: "'a \<Rightarrow> 's \<Rightarrow> (js_error + jstring) \<times> 's"
    and inv :: "'s \<Rightarrow> bool"
    and ref :: "'a \<Rightarrow> jstring option"
  assumes exact: "inv s \<Longrightarrow> dec i s = (r, s') \<Longrightarrow> okv r = ref i \<and> inv s'"
begin

lemma result: "inv s \<Longrightarrow> okv (fst (dec i s)) = ref i"
  using exact [of s i "fst (dec i s)" "snd (dec i s)"] by simp

lemma keeps: "inv s \<Longrightarrow> inv (snd (dec i s))"
  using exact [of s i "fst (dec i s)" "snd (dec i s)"] by simp

text \<open>A call's value does not depend on the calls made before it.\<close>

lemma history_free: "inv s \<Longrightarrow> inv t \<Longrightarrow> okv (fst (dec i s)) = okv (fst (dec i t))"
  by (simp add: result)

end

text \<open>A sequence of calls on one decoder, each from the state the one before left.\<close>

fun decode_all :: "('a \<Rightarrow> ('s, jstring) js) \<Rightarrow> 'a list \<Rightarrow> 's \<Rightarrow> (js_error + jstring) list \<times> 's" where
  "decode_all dec [] s = ([], s)"
| "decode_all dec (i # is) s =
     (case dec i s of (r, s') \<Rightarrow> (case decode_all dec is s' of (rs, s'') \<Rightarrow> (r # rs, s'')))"

context exact_decoder
begin

lemma decode_all_exact:
  "inv s \<Longrightarrow> map okv (fst (decode_all dec is s)) = map ref is \<and> inv (snd (decode_all dec is s))"
proof (induction "is" arbitrary: s)
  case (Cons i "is")
  obtain r s1 where call: "dec i s = (r, s1)" by fastforce
  with Cons.prems have "okv r = ref i" and "inv s1" using exact by blast+
  with call Cons.IH [of s1] show ?case by (cases "decode_all dec is s1") simp
qed simp

end

subsection \<open>The decoders that call the tokenizer directly\<close>

text \<open>The state of these closures is the number of calls made.\<close>

definition createAssemblyDecoder :: "core \<Rightarrow> js_error + nat" where
  "createAssemblyDecoder c =
     (if c_assemblyBytes c = None
      then Inl (TypeError ''assembly core must provide decodeAssemblyBytes'') else Inr 0)"

definition assembly_decode :: "core \<Rightarrow> js_input \<Rightarrow> (nat, jstring) js" where
  "assembly_decode c input =
     js_bind (js_lift (tokenIds input)) (\<lambda>ids.
     js_bind (js_lift (the (c_assemblyBytes c) ids)) (\<lambda>bytes.
     js_bind (js_modify Suc) (\<lambda>_.
     js_lift (textDecoder True False bytes))))"

definition createBorrowedAssemblyDecoder :: "core \<Rightarrow> js_error + nat" where
  "createBorrowedAssemblyDecoder c =
     (if c_borrowedView c = None
      then Inl (TypeError ''borrowed assembly core must provide decodeBorrowedAssemblyView'')
      else Inr 0)"

definition borrowed_decode :: "core \<Rightarrow> js_input \<Rightarrow> (nat, jstring) js" where
  "borrowed_decode c input =
     js_bind (js_lift (tokenIds input)) (\<lambda>ids.
     js_bind (js_lift (the (c_borrowedView c) ids)) (\<lambda>view.
     js_bind (js_modify Suc) (\<lambda>_.
     js_lift (textDecoder True False view))))"

definition createUtf16AssemblyDecoder :: "core \<Rightarrow> js_error + nat" where
  "createUtf16AssemblyDecoder c =
     (if c_utf16 c = None
      then Inl (TypeError ''UTF-16 assembly core must provide decodeAssemblyUtf16'') else Inr 0)"

definition utf16_decode :: "core \<Rightarrow> js_input \<Rightarrow> (nat, jstring) js" where
  "utf16_decode c input =
     js_bind (js_lift (tokenIds input)) (\<lambda>ids.
     js_bind (js_lift (the (c_utf16 c) ids)) (\<lambda>codeUnits.
     js_bind (js_modify Suc) (\<lambda>_.
     js_ret (utf16_lossy codeUnits))))"

text \<open>The \<^verbatim>\<open>raw\<close> decoder of \<^verbatim>\<open>createComposedDecoder\<close>, which counts nothing.\<close>

definition raw_decode :: "core \<Rightarrow> js_input \<Rightarrow> (nat, jstring) js" where
  "raw_decode c input = js_bind (js_lift (tokenIds input)) (\<lambda>ids. js_lift (c_decode c ids))"

text \<open>The contract of each, under the tokenizer's laws.\<close>

definition assembly_inv :: "core \<Rightarrow> nat \<Rightarrow> bool" where
  "assembly_inv c _ \<longleftrightarrow> core_laws c \<and> c_assemblyBytes c \<noteq> None"

definition borrowed_inv :: "core \<Rightarrow> nat \<Rightarrow> bool" where
  "borrowed_inv c _ \<longleftrightarrow> core_laws c \<and> c_borrowedView c \<noteq> None"

definition utf16_inv :: "core \<Rightarrow> nat \<Rightarrow> bool" where
  "utf16_inv c _ \<longleftrightarrow> core_laws c \<and> c_utf16 c \<noteq> None"

definition raw_inv :: "core \<Rightarrow> nat \<Rightarrow> bool" where
  "raw_inv c _ \<longleftrightarrow> core_laws c"

interpretation assembly: exact_decoder "assembly_decode c" "assembly_inv c" "ref_decode c" for c
proof (unfold_locales, goal_cases)
  case (1 s i r s')
  then obtain f where f: "core_laws c" "c_assemblyBytes c = Some f" by (auto simp: assembly_inv_def)
  then have "ref_bytes c ids = okv (f ids)" for ids by (simp add: core_laws_def)
  with 1 f show ?case
    by (cases "tokenIds i"; cases "f (projr (tokenIds i))")
      (auto simp: assembly_decode_def js_simps ref_decode_def ref_text_def assembly_inv_def)
qed

interpretation borrowed: exact_decoder "borrowed_decode c" "borrowed_inv c" "ref_decode c" for c
proof (unfold_locales, goal_cases)
  case (1 s i r s')
  then obtain f where f: "core_laws c" "c_borrowedView c = Some f" by (auto simp: borrowed_inv_def)
  then have "ref_bytes c ids = okv (f ids)" for ids by (simp add: core_laws_def)
  with 1 f show ?case
    by (cases "tokenIds i"; cases "f (projr (tokenIds i))")
      (auto simp: borrowed_decode_def js_simps ref_decode_def ref_text_def borrowed_inv_def)
qed

interpretation utf16: exact_decoder "utf16_decode c" "utf16_inv c" "ref_decode c" for c
proof (unfold_locales, goal_cases)
  case (1 s i r s')
  then obtain f where f: "core_laws c" "c_utf16 c = Some f" by (auto simp: utf16_inv_def)
  then have endpoint: "map_option utf8_lossy (ref_bytes c ids) = okv (f ids)" for ids
    by (simp add: core_laws_def ref_text_def)
  have "utf16_lossy t = t" if "f ids = Inr t" for ids t
    using endpoint [of ids] that by auto
  with 1 f endpoint show ?case
    by (cases "tokenIds i"; cases "f (projr (tokenIds i))")
      (auto simp: utf16_decode_def js_simps ref_decode_def ref_text_def utf16_inv_def)
qed

interpretation raw: exact_decoder "raw_decode c" "raw_inv c" "ref_decode c" for c
proof (unfold_locales, goal_cases)
  case (1 s i r s')
  then show ?case
    by (cases "tokenIds i") (auto simp: raw_decode_def js_simps ref_decode_def raw_inv_def core_laws_decode)
qed

end
