(* ===== verification/Buffers.thy ===== *)
theory Buffers
  imports JString
begin

text \<open>
  Reusable typed-array buffers: capacities that double until they suffice, copies into a
  buffer, and the scratch of validated token ids of \<^verbatim>\<open>hypertok-js/src/decode-id-scratch.mjs\<close>.
\<close>

subsection \<open>Options objects\<close>

text \<open>
  An options argument: anything that is not an object (or is null or an array) is
  \<open>NotObject\<close>.
\<close>

datatype 'a options = NotObject | Options 'a

subsection \<open>Capacities and copies\<close>

text \<open>\<^verbatim>\<open>while (capacity < length) capacity *= 2\<close>, from a positive start.\<close>

function grow_capacity :: "nat \<Rightarrow> nat \<Rightarrow> nat" where
  "grow_capacity capacity len =
     (if 0 < capacity \<and> capacity < len then grow_capacity (capacity * 2) len else capacity)"
  by pat_completeness auto
termination
  by (relation "measure (\<lambda>(capacity, len). len - capacity)") auto

declare grow_capacity.simps [simp del]

lemma grow_capacity_enough: "0 < c \<Longrightarrow> len \<le> grow_capacity c len \<and> c \<le> grow_capacity c len"
proof (induction c len rule: grow_capacity.induct)
  case (1 c len)
  show ?case
  proof (cases "c < len")
    case True
    with 1 have "len \<le> grow_capacity (c * 2) len \<and> c * 2 \<le> grow_capacity (c * 2) len" by simp
    with True 1 show ?thesis by (simp add: grow_capacity.simps [of c])
  next
    case False
    then show ?thesis by (simp add: grow_capacity.simps [of c])
  qed
qed

lemma grow_capacity_tight: "0 < c \<Longrightarrow> c < len \<Longrightarrow> grow_capacity c len < 2 * len"
proof (induction c len rule: grow_capacity.induct)
  case (1 c len)
  then show ?case
    by (cases "c * 2 < len") (simp_all add: grow_capacity.simps [of c] grow_capacity.simps [of "c * 2"])
qed

lemma grow_capacity_power: "\<exists>k. grow_capacity (2 ^ j) len = 2 ^ k"
proof (induction "2 ^ j :: nat" len arbitrary: j rule: grow_capacity.induct)
  case (1 len)
  show ?case
  proof (cases "2 ^ j < len")
    case True
    then show ?thesis using 1 [of "Suc j"] by (simp add: grow_capacity.simps [of "2 ^ j"] mult.commute)
  next
    case False
    then show ?thesis by (auto simp: grow_capacity.simps [of "2 ^ j"])
  qed
qed

text \<open>\<^verbatim>\<open>buffer.set(segment, cursor)\<close> inside the buffer.\<close>

definition blit :: "nat \<Rightarrow> 'a list \<Rightarrow> 'a list \<Rightarrow> 'a list" where
  "blit cursor seg buf = take cursor buf @ seg @ drop (cursor + length seg) buf"

lemma length_blit: "cursor + length seg \<le> length buf \<Longrightarrow> length (blit cursor seg buf) = length buf"
  by (simp add: blit_def)

lemma take_blit:
  "cursor + length seg \<le> length buf \<Longrightarrow> take (cursor + length seg) (blit cursor seg buf) = take cursor buf @ seg"
  by (simp add: blit_def)

text \<open>Consecutive segments copied one after the other.\<close>

fun blit_all :: "nat \<Rightarrow> 'a list list \<Rightarrow> 'a list \<Rightarrow> 'a list" where
  "blit_all cursor [] buf = buf"
| "blit_all cursor (seg # segs) buf = blit_all (cursor + length seg) segs (blit cursor seg buf)"

lemma blit_all_concat:
  "cursor + length (concat segs) \<le> length buf \<Longrightarrow>
     take (cursor + length (concat segs)) (blit_all cursor segs buf) = take cursor buf @ concat segs \<and>
     length (blit_all cursor segs buf) = length buf"
proof (induction segs arbitrary: cursor buf)
  case (Cons seg segs)
  have len: "length (blit cursor seg buf) = length buf"
    using Cons.prems by (intro length_blit) simp
  have "take (cursor + length seg) (blit cursor seg buf) = take cursor buf @ seg"
    using Cons.prems by (intro take_blit) simp
  with Cons.IH [of "cursor + length seg" "blit cursor seg buf"] Cons.prems len show ?case
    by (simp add: add.assoc)
qed simp

subsection \<open>The scratch of validated ids\<close>

text \<open>
  The variables of \<^verbatim>\<open>createValidatedIdScratch\<close>. Every element of the storage is written before
  it is read, so a fresh array is filled with zeros as the platform does.
\<close>

record id_scratch =
  is_storage :: "u32 list"
  is_active :: bool
  is_preparations :: nat
  is_grows :: nat
  is_reentrant :: nat

definition createValidatedIdScratch :: id_scratch where
  "createValidatedIdScratch =
     \<lparr>is_storage = [], is_active = False, is_preparations = 0, is_grows = 0, is_reentrant = 0\<rparr>"

text \<open>\<^verbatim>\<open>nextCapacity\<close> of this file starts at one.\<close>

definition scratch_nextCapacity :: "nat \<Rightarrow> nat" where
  "scratch_nextCapacity len = grow_capacity 1 len"

text \<open>The loop that validates and stores; the flag is false when it threw.\<close>

fun store_ids :: "(jsval \<Rightarrow> bool) \<Rightarrow> nat \<Rightarrow> jsval list \<Rightarrow> u32 list \<Rightarrow> bool \<times> u32 list" where
  "store_ids validate index [] target = (True, target)"
| "store_ids validate index (v # vs) target =
     (if validate v then store_ids validate (Suc index) vs (target[index := u32_of_jsval v])
      else (False, target))"

definition ids_error :: js_error where
  "ids_error = TypeError ''decode input must be a Uint32Array or an array of u32 values''"

text \<open>
  \<^verbatim>\<open>withValidated(input, use)\<close> inside a state that holds the scratch (\<open>get\<close>, \<open>put\<close>): a call
  that finds the scratch active takes an array of its own. The \<^verbatim>\<open>finally\<close> clause releases the
  scratch on every path.
\<close>

definition scratch_begin :: "nat \<Rightarrow> id_scratch \<Rightarrow> id_scratch" where
  "scratch_begin len sc =
     (if is_active sc then sc\<lparr>is_reentrant := Suc (is_reentrant sc)\<rparr>
      else if length (is_storage sc) < len
        then sc\<lparr>is_active := True, is_storage := replicate (scratch_nextCapacity len) 0,
                is_grows := Suc (is_grows sc)\<rparr>
        else sc\<lparr>is_active := True\<rparr>)"

definition withValidated ::
  "('s \<Rightarrow> id_scratch) \<Rightarrow> (id_scratch \<Rightarrow> 's \<Rightarrow> 's) \<Rightarrow> (jsval \<Rightarrow> bool) \<Rightarrow> jsval list \<Rightarrow>
     (u32 list \<Rightarrow> ('s, 'a) js) \<Rightarrow> ('s, 'a) js" where
  "withValidated get put validate input use s =
     (let sc = get s;
          reusable = \<not> is_active sc;
          sc1 = scratch_begin (length input) sc;
          target = (if reusable then is_storage sc1 else replicate (length input) 0);
          (valid, target1) = store_ids validate 0 input target;
          sc2 = (if reusable then sc1\<lparr>is_storage := target1\<rparr> else sc1);
          release = (\<lambda>t. if reusable then put ((get t)\<lparr>is_active := False\<rparr>) t else t)
      in if valid
         then (case use (take (length input) target1)
                   (put (sc2\<lparr>is_preparations := Suc (is_preparations sc2)\<rparr>) s) of
                 (r, t) \<Rightarrow> (r, release t))
         else (Inl ids_error, release (put sc2 s)))"

lemma store_ids_valid:
  assumes "list_all validate vs" and "index + length vs \<le> length target"
  shows "store_ids validate index vs target =
    (True, take index target @ map u32_of_jsval vs @ drop (index + length vs) target)"
  using assms
proof (induction vs arbitrary: index target)
  case (Cons v vs)
  have "take (Suc index) (target[index := w]) = take index target @ [w]" for w
    using Cons.prems by (simp add: take_Suc_conv_app_nth)
  with Cons show ?case by simp
qed simp

lemma store_ids_flag: "fst (store_ids validate index vs target) = list_all validate vs"
  by (induction vs arbitrary: index target) auto

lemma store_ids_length [simp]: "length (snd (store_ids validate index vs target)) = length target"
  by (induction vs arbitrary: index target) auto

lemma scratch_begin_room:
  "\<not> is_active sc \<Longrightarrow> len \<le> length (is_storage (scratch_begin len sc))"
  using grow_capacity_enough [of 1 len] by (simp add: scratch_begin_def scratch_nextCapacity_def)

text \<open>What the consumer sees: the ids, while the scratch is marked active.\<close>

lemma withValidated_use:
  assumes "list_all validate vs" and lens: "\<And>x s. get (put x s) = x"
  shows "\<exists>sc. is_active sc \<and> withValidated get put validate vs use s =
     (case use (map u32_of_jsval vs) (put sc s) of
       (r, t) \<Rightarrow> (r, if is_active (get s) then t else put ((get t)\<lparr>is_active := False\<rparr>) t))"
proof (cases "is_active (get s)")
  case True
  have stored: "store_ids validate 0 vs (replicate (length vs) 0) = (True, map u32_of_jsval vs)"
    using assms(1) by (simp add: store_ids_valid)
  then show ?thesis
    using True unfolding withValidated_def Let_def
    by (intro exI [of _ "(scratch_begin (length vs) (get s))\<lparr>is_preparations :=
        Suc (is_preparations (scratch_begin (length vs) (get s)))\<rparr>"])
      (simp add: scratch_begin_def)
next
  case False
  define sc1 where "sc1 = scratch_begin (length vs) (get s)"
  have room: "length vs \<le> length (is_storage sc1)"
    using scratch_begin_room [OF False] by (simp add: sc1_def)
  then have stored: "store_ids validate 0 vs (is_storage sc1) =
      (True, map u32_of_jsval vs @ drop (length vs) (is_storage sc1))"
    using assms(1) by (simp add: store_ids_valid)
  have active: "is_active sc1" using False by (simp add: sc1_def scratch_begin_def)
  show ?thesis
    using False active stored unfolding withValidated_def Let_def sc1_def [symmetric]
    by (intro exI [of _ "sc1\<lparr>is_storage := map u32_of_jsval vs @ drop (length vs) (is_storage sc1),
        is_preparations := Suc (is_preparations sc1)\<rparr>"]) simp
qed

subsection \<open>Properties of the scratch\<close>

text \<open>
  The storage grows to a power of two that holds the ids and wastes less than half: the
  doubling loop ends, with a capacity at least the length and below twice the length.
\<close>

theorem scratch_capacity_bounds:
  "len \<le> scratch_nextCapacity len \<and> scratch_nextCapacity len \<le> max 1 (2 * len - 1) \<and>
     (\<exists>k. scratch_nextCapacity len = 2 ^ k)"
proof -
  have "scratch_nextCapacity len \<le> max 1 (2 * len - 1)"
    using grow_capacity_tight [of 1 len]
    by (cases "1 < len") (auto simp: scratch_nextCapacity_def grow_capacity.simps [of "Suc 0" len])
  then show ?thesis
    using grow_capacity_enough [of 1 len] grow_capacity_power [of 0 len] by (simp add: scratch_nextCapacity_def)
qed

text \<open>
  The \<^verbatim>\<open>finally\<close> clause: a call that took the scratch gives it back, whether the ids are
  valid, the consumer returns, or the consumer throws.
\<close>

theorem scratch_always_released:
  assumes "\<And>x s. get (put x s) = x" and "\<not> is_active (get s)"
  shows "\<not> is_active (get (snd (withValidated get put validate vs use s)))"
  using assms unfolding withValidated_def Let_def by (auto split: prod.splits)

theorem scratch_always_released_witness:
  "\<not> is_active (snd (withValidated (\<lambda>x. x) (\<lambda>x _. x) (\<lambda>_. True) [JNum 7]
      (\<lambda>ids s. (Inl (PlainError ''consumer'') :: js_error + unit, s)) createValidatedIdScratch))"
  by (rule scratch_always_released) (simp_all add: createValidatedIdScratch_def)

end
