(* ===== verification/Run_Cache.thy ===== *)
theory Run_Cache
  imports Buffers
begin

text \<open>
  The cache of decoded dirty runs, \<^verbatim>\<open>hypertok-js/src/decode-run-cache.mjs\<close>: a \<^verbatim>\<open>Map\<close> in
  insertion order, used as a least-recently-used list, whose keys spell a run's ids with two
  UTF-16 code units each.
\<close>

record run_cache =
  rc_limit :: nat
  rc_entries :: "(jstring \<times> jstring) list"
  rc_hits :: nat
  rc_misses :: nat
  rc_evictions :: nat
  rc_keyCodeUnits :: int
  rc_outputCodeUnits :: int

definition run_cache_capacity :: "jsval \<Rightarrow> js_error + nat" where
  "run_cache_capacity v =
     (if v = JUndefined then Inr 8
      else if \<not> number_isSafeInteger v \<or> (case v of JNum q \<Rightarrow> q < 1 | _ \<Rightarrow> False)
        then Inl (TypeError ''capacity must be a positive safe integer'')
      else Inr (nat_of_jsval v))"

definition id_units :: "u32 \<Rightarrow> jstring" where
  "id_units w = [ucast (drop_bit 16 w), ucast (w AND 0xFFFF)]"

definition keyFor :: "u32 list \<Rightarrow> nat \<Rightarrow> nat \<Rightarrow> jstring" where
  "keyFor ids start end = concat (map id_units (take (end - start) (drop start ids)))"

definition createMaximalRunCache :: "jsval options \<Rightarrow> js_error + run_cache" where
  "createMaximalRunCache opts =
     (case opts of
        NotObject \<Rightarrow> Inl (TypeError ''maximal-run cache options must be an object'')
      | Options capacity \<Rightarrow>
          (case run_cache_capacity capacity of
             Inl e \<Rightarrow> Inl e
           | Inr limit \<Rightarrow> Inr \<lparr>rc_limit = limit, rc_entries = [], rc_hits = 0, rc_misses = 0,
               rc_evictions = 0, rc_keyCodeUnits = 0, rc_outputCodeUnits = 0\<rparr>))"

text \<open>The eviction of the oldest entry when the cache is full.\<close>

definition evict_oldest :: "run_cache \<Rightarrow> run_cache" where
  "evict_oldest rc =
     (if length (rc_entries rc) = rc_limit rc
      then (case rc_entries rc of
              [] \<Rightarrow> rc
            | (oldest, evicted) # rest \<Rightarrow>
                rc\<lparr>rc_entries := rest,
                   rc_keyCodeUnits := rc_keyCodeUnits rc - int (length oldest),
                   rc_outputCodeUnits := rc_outputCodeUnits rc - int (length evicted),
                   rc_evictions := Suc (rc_evictions rc)\<rparr>)
      else rc)"

definition insert_entry :: "jstring \<Rightarrow> jstring \<Rightarrow> run_cache \<Rightarrow> run_cache" where
  "insert_entry key output rc =
     rc\<lparr>rc_entries := rc_entries rc @ [(key, output)],
        rc_keyCodeUnits := rc_keyCodeUnits rc + int (length key),
        rc_outputCodeUnits := rc_outputCodeUnits rc + int (length output)\<rparr>"

text \<open>
  \<^verbatim>\<open>decode(ids, start, end, canonical)\<close>, where \<open>canonical\<close> is a call on a state beside the
  cache: a hit moves the entry to the end, a miss calls \<open>canonical\<close> and stores its output.
\<close>

definition run_cache_decode ::
  "u32 list \<Rightarrow> nat \<Rightarrow> nat \<Rightarrow> ('s, jstring) js \<Rightarrow> (run_cache \<times> 's, jstring) js" where
  "run_cache_decode ids start end canonical = (\<lambda>(rc, s).
     let key = keyFor ids start end
     in case map_of (rc_entries rc) key of
          Some output \<Rightarrow>
            (Inr output,
             (rc\<lparr>rc_entries := filter (\<lambda>(k, _). k \<noteq> key) (rc_entries rc) @ [(key, output)],
                 rc_hits := Suc (rc_hits rc)\<rparr>, s))
        | None \<Rightarrow>
            (let rc1 = rc\<lparr>rc_misses := Suc (rc_misses rc)\<rparr>
             in case canonical s of
                  (Inl e, s') \<Rightarrow> (Inl e, (rc1, s'))
                | (Inr output, s') \<Rightarrow>
                    (Inr output, (insert_entry key output (evict_oldest rc1), s'))))"

subsection \<open>Keys\<close>

lemma id_units_inject: "id_units v = id_units w \<longleftrightarrow> v = w"
proof
  assume eq: "id_units v = id_units w"
  have low: "x AND 0xFFFF = take_bit 16 x" for x :: u32
    unfolding take_bit_eq_mask by (simp add: mask_numeral)
  have ucast_low: "bit (ucast (take_bit 16 x) :: u16) n = bit x n" if "n < 16" for x :: u32 and n
    using that by (simp add: bit_simps)
  have ucast_high: "bit (ucast (drop_bit 16 x) :: u16) n = bit x (16 + n)" if "n < 16" for x :: u32 and n
    using that by (simp add: bit_simps)
  have parts: "(ucast (drop_bit 16 v) :: u16) = ucast (drop_bit 16 w)"
    "(ucast (take_bit 16 v) :: u16) = ucast (take_bit 16 w)"
    using eq by (simp_all add: id_units_def low)
  show "v = w"
  proof (rule bit_word_eqI)
    fix n assume n: "n < LENGTH(32)"
    show "bit v n = bit w n"
    proof (cases "n < 16")
      case True
      then show ?thesis using parts(2) ucast_low [of n] by metis
    next
      case False
      then have "n - 16 < 16" "n = 16 + (n - 16)" using n by simp_all
      then show ?thesis using parts(1) ucast_high [of "n - 16"] by metis
    qed
  qed
qed simp

lemma id_units_concat_inject:
  "concat (map id_units xs) = concat (map id_units ys) \<longleftrightarrow> xs = ys"
proof (induction xs arbitrary: ys)
  case Nil
  then show ?case by (cases ys) (simp_all add: id_units_def)
next
  case (Cons x xs)
  show ?case
  proof (cases ys)
    case Nil
    then show ?thesis by (simp add: id_units_def)
  next
    case (Cons y ys')
    have "length (id_units x) = length (id_units y)" by (simp add: id_units_def)
    then show ?thesis using Cons Cons.IH id_units_inject by auto
  qed
qed

lemma length_id_units [simp]: "length (concat (map id_units xs)) = 2 * length xs"
  by (induction xs) (simp_all add: id_units_def)

subsection \<open>The cache's invariant\<close>

text \<open>
  The entries have distinct keys, there are at most as many as the limit, the two counters are
  the sums of the lengths, and (relative to a function \<open>spec\<close> from ids to text) each entry is
  the text of the ids its key spells.
\<close>

definition rc_sound :: "(u32 list \<Rightarrow> jstring) \<Rightarrow> run_cache \<Rightarrow> bool" where
  "rc_sound spec rc \<longleftrightarrow>
     (\<forall>(key, output) \<in> set (rc_entries rc). \<forall>ids. key = concat (map id_units ids) \<longrightarrow> output = spec ids)"

definition rc_wf :: "run_cache \<Rightarrow> bool" where
  "rc_wf rc \<longleftrightarrow>
     1 \<le> rc_limit rc \<and> length (rc_entries rc) \<le> rc_limit rc \<and>
     distinct (map fst (rc_entries rc)) \<and>
     rc_keyCodeUnits rc = (\<Sum>(k, _) \<leftarrow> rc_entries rc. int (length k)) \<and>
     rc_outputCodeUnits rc = (\<Sum>(_, v) \<leftarrow> rc_entries rc. int (length v))"

lemma createMaximalRunCache_wf:
  "createMaximalRunCache opts = Inr rc \<Longrightarrow> rc_wf rc \<and> rc_sound spec rc \<and> rc_entries rc = []"
proof (cases opts)
  case (Options v)
  assume "createMaximalRunCache opts = Inr rc"
  then obtain limit where limit: "run_cache_capacity v = Inr limit"
    and rc: "rc = \<lparr>rc_limit = limit, rc_entries = [], rc_hits = 0, rc_misses = 0,
               rc_evictions = 0, rc_keyCodeUnits = 0, rc_outputCodeUnits = 0\<rparr>"
    using Options by (auto simp: createMaximalRunCache_def split: sum.splits)
  have "1 \<le> limit"
  proof (cases v)
    case (JNum q)
    then have "q \<ge> 1" "limit = nat \<lfloor>q\<rfloor>" using limit by (auto simp: run_cache_capacity_def split: if_splits)
    moreover from this(1) have "1 \<le> \<lfloor>q\<rfloor>" by (simp add: le_floor_iff)
    ultimately show ?thesis by linarith
  qed (use limit in \<open>auto simp: run_cache_capacity_def split: if_splits\<close>)
  then show ?thesis by (simp add: rc rc_wf_def rc_sound_def)
qed (simp add: createMaximalRunCache_def)

lemma filter_keys_sum:
  fixes f :: "jstring \<times> jstring \<Rightarrow> int"
  assumes "distinct (map fst es)" and "map_of es key = Some v"
  shows "(\<Sum>e \<leftarrow> filter (\<lambda>(k, _). k \<noteq> key) es. f e) + f (key, v) = (\<Sum>e \<leftarrow> es. f e)"
  using assms
proof (induction es)
  case (Cons e es)
  obtain k w where e: "e = (k, w)" by fastforce
  show ?case
  proof (cases "k = key")
    case True
    with Cons.prems e have "filter (\<lambda>(k, _). k \<noteq> key) es = es" by (force simp: filter_id_conv)
    with True Cons.prems e show ?thesis by simp
  next
    case False
    with Cons e show ?thesis by simp
  qed
qed simp

lemma length_filter_key:
  "distinct (map fst es) \<Longrightarrow> map_of es key = Some v \<Longrightarrow>
     Suc (length (filter (\<lambda>(k, _). k \<noteq> key) es)) = length es"
proof (induction es)
  case (Cons e es)
  obtain k w where e: "e = (k, w)" by fastforce
  show ?case
  proof (cases "k = key")
    case True
    with Cons.prems e have "filter (\<lambda>(k, _). k \<noteq> key) es = es" by (force simp: filter_id_conv)
    with True e show ?thesis by simp
  qed (use Cons e in simp)
qed simp

lemma map_fst_filter_key:
  "map fst (filter (\<lambda>(k, _). k \<noteq> key) es) = filter (\<lambda>k. k \<noteq> key) (map fst es)"
  by (induction es) auto

lemma evict_oldest_wf:
  assumes "rc_wf rc"
  shows "rc_wf (evict_oldest rc) \<and> length (rc_entries (evict_oldest rc)) < rc_limit rc \<and>
     rc_limit (evict_oldest rc) = rc_limit rc \<and>
     set (rc_entries (evict_oldest rc)) \<subseteq> set (rc_entries rc)"
  using assms by (auto simp: rc_wf_def evict_oldest_def split: list.splits)

lemma insert_entry_wf:
  assumes "rc_wf rc" and "length (rc_entries rc) < rc_limit rc" and "key \<notin> fst ` set (rc_entries rc)"
  shows "rc_wf (insert_entry key output rc)"
  using assms by (auto simp: rc_wf_def insert_entry_def)

text \<open>
  A call: if \<open>canonical\<close> returns the run's text, so does the cache, from a hit as from a miss,
  and the invariant is kept; a throw of \<open>canonical\<close> is passed on and stores nothing.
\<close>

lemma run_cache_decode_wf:
  assumes "rc_wf rc" and "run_cache_decode ids start end canonical (rc, s) = (r, (rc', s'))"
  shows "rc_wf rc' \<and> rc_limit rc' = rc_limit rc"
proof -
  define key where "key = keyFor ids start end"
  show ?thesis
  proof (cases "map_of (rc_entries rc) key")
    case (Some out)
    define es where "es = rc_entries rc"
    have d: "distinct (map fst es)" and m: "map_of es key = Some out"
      using assms(1) Some by (simp_all add: rc_wf_def es_def)
    have "length (filter (\<lambda>(k, _). k \<noteq> key) es @ [(key, out)]) = length es"
      using length_filter_key [OF d m] by simp
    moreover have "distinct (map fst (filter (\<lambda>(k, _). k \<noteq> key) es @ [(key, out)]))"
      using d by (simp add: map_fst_filter_key)
    moreover have "(\<Sum>(k, _) \<leftarrow> filter (\<lambda>(k, _). k \<noteq> key) es @ [(key, out)]. int (length k)) =
        (\<Sum>(k, _) \<leftarrow> es. int (length k))"
      using filter_keys_sum [OF d m, of "\<lambda>(k, _). int (length k)"] by simp
    moreover have "(\<Sum>(_, v) \<leftarrow> filter (\<lambda>(k, _). k \<noteq> key) es @ [(key, out)]. int (length v)) =
        (\<Sum>(_, v) \<leftarrow> es. int (length v))"
      using filter_keys_sum [OF d m, of "\<lambda>(_, v). int (length v)"] by simp
    moreover have "rc' = rc\<lparr>rc_entries := filter (\<lambda>(k, _). k \<noteq> key) es @ [(key, out)],
        rc_hits := Suc (rc_hits rc)\<rparr>"
      using assms(2) Some by (simp add: Let_def run_cache_decode_def key_def es_def)
    ultimately show ?thesis using assms(1) unfolding rc_wf_def es_def by simp
  next
    case None
    define rc1 where "rc1 = rc\<lparr>rc_misses := Suc (rc_misses rc)\<rparr>"
    have wf1: "rc_wf rc1" and same: "rc_limit rc1 = rc_limit rc" "rc_entries rc1 = rc_entries rc"
      using assms(1) by (simp_all add: rc_wf_def rc1_def)
    show ?thesis
    proof (cases "canonical s")
      case (Pair r0 s0)
      show ?thesis
      proof (cases r0)
        case (Inl e)
        then have "rc' = rc1"
          using assms(2) None Pair by (simp add: Let_def run_cache_decode_def key_def rc1_def)
        then show ?thesis using wf1 same by simp
      next
        case (Inr out)
        note ev = evict_oldest_wf [OF wf1]
        have "key \<notin> fst ` set (rc_entries (evict_oldest rc1))"
          using ev None same by (auto simp: map_of_eq_None_iff)
        then have "rc_wf (insert_entry key out (evict_oldest rc1))"
          using ev by (intro insert_entry_wf) simp_all
        moreover have "rc' = insert_entry key out (evict_oldest rc1)"
          using assms(2) None Pair Inr by (simp add: Let_def run_cache_decode_def key_def rc1_def)
        ultimately show ?thesis using ev same by (simp add: insert_entry_def)
      qed
    qed
  qed
qed

lemma run_cache_decode_sound:
  assumes "rc_sound spec rc" and "run_cache_decode ids start end canonical (rc, s) = (r, (rc', s'))"
    and "\<And>r0 s0. canonical s = (r0, s0) \<Longrightarrow> okv r0 = Some (spec (take (end - start) (drop start ids)))"
  shows "okv r = Some (spec (take (end - start) (drop start ids))) \<and> rc_sound spec rc'"
proof -
  define run where "run = take (end - start) (drop start ids)"
  have key: "keyFor ids start end = concat (map id_units run)"
    by (simp add: keyFor_def run_def)
  show ?thesis
  proof (cases "map_of (rc_entries rc) (keyFor ids start end)")
    case (Some out)
    then have "(keyFor ids start end, out) \<in> set (rc_entries rc)" by (rule map_of_SomeD)
    with assms(1) key have out_spec: "out = spec run" unfolding rc_sound_def by fastforce
    have "rc' = rc\<lparr>rc_entries := filter (\<lambda>(k, _). k \<noteq> keyFor ids start end) (rc_entries rc) @
        [(keyFor ids start end, out)], rc_hits := Suc (rc_hits rc)\<rparr>" and "r = Inr out"
      using assms(2) Some by (simp_all add: Let_def run_cache_decode_def)
    moreover have "\<forall>(k, out) \<in> set (filter (\<lambda>(k, _). k \<noteq> keyFor ids start end) (rc_entries rc)).
        \<forall>idl. k = concat (map id_units idl) \<longrightarrow> out = spec idl"
      using assms(1) unfolding rc_sound_def by auto
    ultimately show ?thesis
      using key out_spec by (auto simp: rc_sound_def run_def id_units_concat_inject)
  next
    case None
    obtain r0 s0 where c: "canonical s = (r0, s0)" by fastforce
    then have r0: "r0 = Inr (spec run)" using assms(3) by (simp add: run_def)
    have sub: "set (rc_entries (evict_oldest (rc\<lparr>rc_misses := m\<rparr>))) \<subseteq> set (rc_entries rc)" for m
      by (auto simp: evict_oldest_def split: list.splits)
    show ?thesis
      using assms(1,2) None c r0 key sub
      by (auto simp: Let_def run_cache_decode_def insert_entry_def rc_sound_def run_def id_units_concat_inject)
        (blast dest: subsetD)
  qed
qed

subsection \<open>Properties of the cache\<close>

text \<open>A sequence of calls, each with its own id slice and canonical decoder.\<close>

fun run_cache_calls ::
  "(u32 list \<times> nat \<times> nat \<times> ('s, jstring) js) list \<Rightarrow> run_cache \<times> 's \<Rightarrow> run_cache \<times> 's" where
  "run_cache_calls [] s = s"
| "run_cache_calls ((ids, start, end', canonical) # calls) s =
     run_cache_calls calls (snd (run_cache_decode ids start end' canonical s))"

text \<open>
  C15. After any sequence of calls, throwing ones included, the cache holds at most its capacity
  of entries, under distinct keys, and its two counters are the total lengths of the keys and of
  the outputs it holds.
\<close>

theorem run_cache_accounting:
  assumes "createMaximalRunCache opts = Inr rc"
  shows "rc_wf (fst (run_cache_calls calls (rc, s)))"
proof -
  have "rc_wf rc" using createMaximalRunCache_wf [OF assms] by blast
  then show ?thesis
  proof (induction calls arbitrary: rc s)
    case (Cons call calls)
    obtain ids start end' canonical where call: "call = (ids, start, end', canonical)" by (cases call)
    obtain r rc' s' where d: "run_cache_decode ids start end' canonical (rc, s) = (r, (rc', s'))"
      by (metis surj_pair)
    show ?case using Cons.IH run_cache_decode_wf [OF Cons.prems d] by (simp add: call d)
  qed simp
qed

theorem run_cache_accounting_witness:
  "rc_wf (fst (run_cache_calls
     [([1, 2], 0, 2, \<lambda>s. (Inr [0x41], s)), ([3], 0, 1, \<lambda>s. (Inl (PlainError ''no''), s)),
      ([4, 5, 6], 1, 3, \<lambda>s. (Inr [0x42, 0x43], s))]
     (\<lparr>rc_limit = 1, rc_entries = [], rc_hits = 0, rc_misses = 0, rc_evictions = 0,
       rc_keyCodeUnits = 0, rc_outputCodeUnits = 0\<rparr>, ())))"
  by (rule run_cache_accounting [of "Options (JNum 1)"])
    (simp add: createMaximalRunCache_def run_cache_capacity_def)

text \<open>
  What was decoded once is answered from the cache: right after a call that returned, a call
  with the same slice of ids returns the same text, and its canonical decoder is not run.
\<close>

theorem run_cache_hit_after_call:
  assumes "rc_wf rc" and "run_cache_decode ids start end' canonical (rc, s) = (Inr out, (rc', s'))"
  shows "run_cache_decode ids start end' other (rc', s2) =
    (Inr out, (rc'\<lparr>rc_hits := Suc (rc_hits rc')\<rparr>, s2))"
proof -
  define key where "key = keyFor ids start end'"
  have last: "\<exists>es. rc_entries rc' = es @ [(key, out)] \<and> key \<notin> fst ` set es"
  proof (cases "map_of (rc_entries rc) key")
    case (Some v)
    then show ?thesis
      using assms(2) by (intro exI [of _ "filter (\<lambda>(k, _). k \<noteq> key) (rc_entries rc)"])
        (auto simp: run_cache_decode_def Let_def key_def)
  next
    case None
    obtain r0 s0 where c: "canonical s = (r0, s0)" by fastforce
    with None assms(2) have r0: "r0 = Inr out" by (cases r0) (auto simp: run_cache_decode_def Let_def key_def)
    define rc1 where "rc1 = evict_oldest (rc\<lparr>rc_misses := Suc (rc_misses rc)\<rparr>)"
    have "set (rc_entries rc1) \<subseteq> set (rc_entries rc)"
      by (auto simp: rc1_def evict_oldest_def split: list.splits)
    then have "key \<notin> fst ` set (rc_entries rc1)" using None by (auto simp: map_of_eq_None_iff)
    moreover have "rc' = insert_entry key out rc1"
      using assms(2) None c r0 by (simp add: run_cache_decode_def Let_def key_def rc1_def)
    ultimately show ?thesis by (simp add: insert_entry_def)
  qed
  then obtain es where es: "rc_entries rc' = es @ [(key, out)]" "key \<notin> fst ` set es" by blast
  have "map_of (rc_entries rc') key = Some out"
    using es by (simp add: map_add_def map_of_eq_None_iff [THEN iffD2] split: option.splits)
  moreover have "filter (\<lambda>(k, _). k \<noteq> key) (rc_entries rc') @ [(key, out)] = rc_entries rc'"
    using es by (force simp: filter_id_conv)
  ultimately show ?thesis
    by (simp add: run_cache_decode_def Let_def flip: key_def)
qed

theorem run_cache_hit_after_call_witness:
  "\<exists>rc'. run_cache_decode [7, 8] 0 2 (\<lambda>_. (Inl (PlainError ''not called''), ())) (rc', ()) =
     (Inr [0x41], (rc'\<lparr>rc_hits := Suc (rc_hits rc')\<rparr>, ()))"
proof -
  let ?rc = "\<lparr>rc_limit = 1, rc_entries = [], rc_hits = 0, rc_misses = 0, rc_evictions = 0,
       rc_keyCodeUnits = 0, rc_outputCodeUnits = 0\<rparr>"
  obtain rc' where d: "run_cache_decode [7, 8] 0 2 (\<lambda>s. (Inr [0x41], s)) (?rc, ()) = (Inr [0x41], (rc', ()))"
    by (simp add: run_cache_decode_def Let_def)
  have "rc_wf ?rc" by (simp add: rc_wf_def)
  from run_cache_hit_after_call [OF this d] show ?thesis by (intro exI [of _ rc'])
qed

end
