(* ===== verification/Byte_Table.thy ===== *)
theory Byte_Table
  imports Decoder Buffers
begin

text \<open>
  The byte strings of the dirty tokens, \<^verbatim>\<open>createTokenByteDecoder\<close> of
  \<^verbatim>\<open>hypertok-js/src/decode-table.mjs\<close>: an arena of all token bytes with their offsets when whole
  inputs are decoded from it, and for every token that is not valid UTF-8 a string with one code
  unit per byte. The timings of the closure are not modelled.
\<close>

subsection \<open>State\<close>

text \<open>An element of \<^verbatim>\<open>dirtyStrings\<close>: absent, the bytes kept by \<^verbatim>\<open>cacheDirtyBytes\<close>, or the string.\<close>

datatype dirty_string = DUndefined | DBytes bytes | DString jstring

record byte_table =
  bt_strings :: "dirty_string list"
  bt_initialized :: bool
  bt_arena :: "bytes option"
  bt_offsets :: "u32 list option"
  bt_present :: "u8 list option"
  bt_scratch :: bytes
  bt_known :: nat
  bt_dirty :: nat
  bt_dirtyPayloadBytes :: nat
  bt_decoderCalls :: nat
  bt_bytesCopied :: nat
  bt_runDecoderCalls :: nat
  bt_runBytesCopied :: nat

definition createTokenByteDecoder :: "nat \<Rightarrow> byte_table" where
  "createTokenByteDecoder vsize =
     \<lparr>bt_strings = replicate vsize DUndefined, bt_initialized = False, bt_arena = None,
      bt_offsets = None, bt_present = None, bt_scratch = [], bt_known = 0, bt_dirty = 0,
      bt_dirtyPayloadBytes = 0, bt_decoderCalls = 0, bt_bytesCopied = 0, bt_runDecoderCalls = 0,
      bt_runBytesCopied = 0\<rparr>"

subsection \<open>Operations\<close>

definition cacheDirtyBytes :: "nat \<Rightarrow> bytes \<Rightarrow> byte_table \<Rightarrow> byte_table" where
  "cacheDirtyBytes tid bs bt =
     (if bt_strings bt ! tid = DUndefined then bt\<lparr>bt_strings := (bt_strings bt)[tid := DBytes bs]\<rparr>
      else bt)"

definition materializeDirty :: "bool \<Rightarrow> nat \<Rightarrow> bytes \<Rightarrow> byte_table \<Rightarrow> jstring \<times> byte_table" where
  "materializeDirty wholeSegments tid bs bt =
     (case bt_strings bt ! tid of
        DString current \<Rightarrow> (current, bt)
      | current \<Rightarrow>
          (let source = (case current of DBytes kept \<Rightarrow> kept | _ \<Rightarrow> bs);
               value = fromCodeUnits (map ucast source);
               bt1 = bt\<lparr>bt_strings := (bt_strings bt)[tid := DString value],
                        bt_dirty := Suc (bt_dirty bt),
                        bt_dirtyPayloadBytes := bt_dirtyPayloadBytes bt + length source\<rparr>
           in (value,
               if wholeSegments then bt1
               else bt1\<lparr>bt_known := Suc (bt_known bt1), bt_initialized := True\<rparr>)))"

text \<open>
  One turn of the scan over all ids in \<^verbatim>\<open>initialize\<close>: the pieces so far (\<open>None\<close> for an unknown
  id), the bytes so far, and the closure.
\<close>

definition bt_scan_step ::
  "core \<Rightarrow> bool \<Rightarrow> nat \<Rightarrow> bytes option list \<times> nat \<times> byte_table \<Rightarrow> bytes option list \<times> nat \<times> byte_table"
where
  "bt_scan_step c wholeSegments tid st =
     (case st of (pieces, tot, bt) \<Rightarrow>
        let (pieces1, tot1, bt1) =
          (case c_tokenBytes c (of_nat tid) of
             Inl _ \<Rightarrow> (pieces @ [None], tot, bt)
           | Inr bs \<Rightarrow>
               (let btp = (if wholeSegments
                           then bt\<lparr>bt_present := map_option (\<lambda>p. p[tid := 1]) (bt_present bt)\<rparr>
                           else bt);
                    btd = (if isValidUtf8 bs then btp
                           else snd (materializeDirty wholeSegments tid bs btp))
                in (pieces @ [Some bs], if wholeSegments then tot + length bs else tot,
                    btd\<lparr>bt_known := Suc (bt_known btd)\<rparr>)))
        in (pieces1, tot1,
            if wholeSegments
            then bt1\<lparr>bt_offsets := map_option (\<lambda>os. os[Suc tid := of_nat tot1]) (bt_offsets bt1)\<rparr>
            else bt1))"

text \<open>The copy of the pieces into the arena, at their offsets.\<close>

fun bt_fill :: "u32 list \<Rightarrow> nat \<Rightarrow> bytes option list \<Rightarrow> bytes \<Rightarrow> bytes" where
  "bt_fill offsets tid [] arena = arena"
| "bt_fill offsets tid (None # pieces) arena = bt_fill offsets (Suc tid) pieces arena"
| "bt_fill offsets tid (Some bs # pieces) arena =
     bt_fill offsets (Suc tid) pieces (blit (unat (offsets ! tid)) bs arena)"

definition bt_initialize :: "core \<Rightarrow> bool \<Rightarrow> byte_table \<Rightarrow> byte_table" where
  "bt_initialize c wholeSegments bt =
     (if bt_initialized bt then bt
      else
        let vsize = c_vocabSize c;
            bt0 = (if wholeSegments
                   then bt\<lparr>bt_offsets := Some (replicate (Suc vsize) 0),
                           bt_present := Some (replicate vsize 0)\<rparr>
                   else bt);
            (pieces, tot, bt1) = fold (bt_scan_step c wholeSegments) [0..<vsize] ([], 0, bt0);
            bt2 = (if wholeSegments
                   then bt1\<lparr>bt_arena :=
                          Some (bt_fill (the (bt_offsets bt1)) 0 pieces (replicate tot 0))\<rparr>
                   else bt1)
        in bt2\<lparr>bt_initialized := True\<rparr>)"

definition bt_ensureScratch :: "nat \<Rightarrow> byte_table \<Rightarrow> byte_table" where
  "bt_ensureScratch len bt =
     (if len \<le> length (bt_scratch bt) then bt
      else bt\<lparr>bt_scratch := replicate (grow_capacity (max 256 (length (bt_scratch bt))) len) 0\<rparr>)"

definition unknown_id :: "u32 \<Rightarrow> js_error" where
  "unknown_id tid = RangeError (''unknown token id '' @ show_nat (unat tid))"

text \<open>The loop that checks the ids and adds up their lengths.\<close>

fun bt_measure :: "core \<Rightarrow> byte_table \<Rightarrow> int \<Rightarrow> u32 list \<Rightarrow> js_error + int" where
  "bt_measure c bt len [] = Inr len"
| "bt_measure c bt len (tid # ids) =
     (if c_vocabSize c \<le> unat tid \<or> the (bt_present bt) ! unat tid = 0 then Inl (unknown_id tid)
      else bt_measure c bt
        (len + (int (unat (the (bt_offsets bt) ! Suc (unat tid))) -
                int (unat (the (bt_offsets bt) ! unat tid)))) ids)"

definition bt_segment :: "byte_table \<Rightarrow> u32 \<Rightarrow> bytes" where
  "bt_segment bt tid =
     (let start = unat (the (bt_offsets bt) ! unat tid);
          end' = unat (the (bt_offsets bt) ! Suc (unat tid))
      in take (end' - start) (drop start (the (bt_arena bt))))"

text \<open>\<^verbatim>\<open>decode(input)\<close>.\<close>

definition bt_decode :: "core \<Rightarrow> bool \<Rightarrow> js_input \<Rightarrow> (byte_table, jstring) js" where
  "bt_decode c wholeSegments input =
     (if \<not> wholeSegments then js_throw (PlainError ''whole-segment byte decode is disabled'')
      else
     js_bind (js_lift (tokenIds input)) (\<lambda>ids.
     js_bind (js_modify (bt_initialize c wholeSegments)) (\<lambda>_.
     js_bind (\<lambda>bt. (bt_measure c bt 0 ids, bt)) (\<lambda>len.
     js_bind (js_modify (bt_ensureScratch (nat len))) (\<lambda>_.
     js_bind (js_modify (\<lambda>bt. bt\<lparr>bt_scratch :=
        blit_all 0 (map (bt_segment bt) ids) (bt_scratch bt)\<rparr>)) (\<lambda>_.
     js_bind (js_modify (\<lambda>bt. bt\<lparr>bt_decoderCalls := Suc (bt_decoderCalls bt),
        bt_bytesCopied := bt_bytesCopied bt + nat len\<rparr>)) (\<lambda>_.
     (\<lambda>bt. (textDecoder True False (take (nat len) (bt_scratch bt)), bt)))))))))"

text \<open>\<^verbatim>\<open>byteString(id)\<close>: \<open>None\<close> is \<^verbatim>\<open>undefined\<close>.\<close>

definition bt_byteString :: "core \<Rightarrow> bool \<Rightarrow> u32 \<Rightarrow> (byte_table, jstring option) js" where
  "bt_byteString c wholeSegments tid bt =
     (if wholeSegments
      then (let bt1 = bt_initialize c wholeSegments bt
            in (case bt_strings bt1 ! unat tid of DString s \<Rightarrow> Inr (Some s) | _ \<Rightarrow> Inr None, bt1))
      else
        (case bt_strings bt ! unat tid of
           DString s \<Rightarrow> (Inr (Some s), bt)
         | DBytes kept \<Rightarrow> map_prod (\<lambda>s. Inr (Some s)) (\<lambda>b. b) (materializeDirty wholeSegments (unat tid) kept bt)
         | DUndefined \<Rightarrow>
             (case c_tokenBytes c tid of
                Inl e \<Rightarrow> (Inl e, bt)
              | Inr bs \<Rightarrow>
                  (let bt1 = bt\<lparr>bt_initialized := True\<rparr>
                   in if isValidUtf8 bs
                      then (Inr None, bt1\<lparr>bt_known := Suc (bt_known bt1)\<rparr>)
                      else map_prod (\<lambda>s. Inr (Some s)) (\<lambda>b. b)
                             (materializeDirty wholeSegments (unat tid) bs bt1)))))"

text \<open>\<^verbatim>\<open>decodeByteString(value)\<close>: the code units become bytes again and are decoded.\<close>

definition bt_decodeByteString :: "jstring \<Rightarrow> (byte_table, jstring) js" where
  "bt_decodeByteString value =
     js_bind (js_modify (bt_ensureScratch (length value))) (\<lambda>_.
     js_bind (js_modify (\<lambda>bt. bt\<lparr>bt_scratch := blit 0 (charCode_bytes value) (bt_scratch bt)\<rparr>)) (\<lambda>_.
     js_bind (js_modify (\<lambda>bt. bt\<lparr>bt_runDecoderCalls := Suc (bt_runDecoderCalls bt),
        bt_runBytesCopied := bt_runBytesCopied bt + length value\<rparr>)) (\<lambda>_.
     (\<lambda>bt. (textDecoder True False (take (length value) (bt_scratch bt)), bt)))))"

subsection \<open>The bytes of a token by id\<close>

definition tok_bytes :: "core \<Rightarrow> nat \<Rightarrow> bytes" where
  "tok_bytes c tid = (case c_tokenBytes c (of_nat tid) of Inr bs \<Rightarrow> bs | Inl _ \<Rightarrow> [])"

definition tok_dirty :: "core \<Rightarrow> nat \<Rightarrow> bool" where
  "tok_dirty c tid = (case c_tokenBytes c (of_nat tid) of Inr bs \<Rightarrow> \<not> isValidUtf8 bs | Inl _ \<Rightarrow> False)"

text \<open>
  The tokens' bytes fit the 32-bit offsets: they come out of a tokenizer whose memory has 32-bit
  addresses, as do the ids.
\<close>

definition arena_fits :: "core \<Rightarrow> bool" where
  "arena_fits c \<longleftrightarrow> length (concat (map (tok_bytes c) [0..<c_vocabSize c])) < 2 ^ 32 \<and>
     c_vocabSize c \<le> 2 ^ 32"

text \<open>
  What a closure of this kind keeps: a string or bytes recorded for an id are the bytes of that
  dirty token; after the scan of a whole-segment table the arena holds all tokens in order, the
  offsets are their starts, and every dirty id has its string.
\<close>

definition dirty_ok :: "core \<Rightarrow> nat \<Rightarrow> dirty_string \<Rightarrow> bool" where
  "dirty_ok c tid d =
     (case d of DUndefined \<Rightarrow> True
      | DBytes bs \<Rightarrow> tok_dirty c tid \<and> bs = tok_bytes c tid
      | DString s \<Rightarrow> tok_dirty c tid \<and> s = latin1 (tok_bytes c tid))"

definition bt_strings_ok :: "core \<Rightarrow> byte_table \<Rightarrow> bool" where
  "bt_strings_ok c bt \<longleftrightarrow> length (bt_strings bt) = c_vocabSize c \<and>
     (\<forall>tid < c_vocabSize c. dirty_ok c tid (bt_strings bt ! tid))"

definition tok_start :: "core \<Rightarrow> nat \<Rightarrow> nat" where
  "tok_start c tid = length (concat (map (tok_bytes c) [0..<tid]))"

definition tok_present :: "core \<Rightarrow> nat \<Rightarrow> u8" where
  "tok_present c tid = (case c_tokenBytes c (of_nat tid) of Inr bs \<Rightarrow> 1 | Inl _ \<Rightarrow> 0)"

definition bt_arena_ok :: "core \<Rightarrow> byte_table \<Rightarrow> bool" where
  "bt_arena_ok c bt \<longleftrightarrow>
     bt_arena bt = Some (concat (map (tok_bytes c) [0..<c_vocabSize c])) \<and>
     bt_offsets bt = Some (map (\<lambda>k. of_nat (tok_start c k)) [0..<Suc (c_vocabSize c)]) \<and>
     bt_present bt = Some (map (tok_present c) [0..<c_vocabSize c]) \<and>
     (\<forall>tid < c_vocabSize c. tok_dirty c tid \<longrightarrow> bt_strings bt ! tid = DString (latin1 (tok_bytes c tid)))"

definition bt_ok :: "core \<Rightarrow> bool \<Rightarrow> byte_table \<Rightarrow> bool" where
  "bt_ok c wholeSegments bt \<longleftrightarrow> bt_strings_ok c bt \<and>
     (wholeSegments \<longrightarrow> arena_fits c \<and> (bt_initialized bt \<longrightarrow> bt_arena_ok c bt))"

lemma createTokenByteDecoder_ok:
  "(w \<longrightarrow> arena_fits c) \<Longrightarrow> bt_ok c w (createTokenByteDecoder (c_vocabSize c))"
  by (simp add: bt_ok_def bt_strings_ok_def createTokenByteDecoder_def dirty_ok_def)

lemma fromCodeUnits_bytes [simp]: "fromCodeUnits (map ucast (bs :: bytes)) = latin1 bs"
  by (simp add: fromCodeUnits_eq latin1_def)

lemma bt_strings_ok_update:
  assumes "bt_strings_ok c bt" and "dirty_ok c tid d" and "bt_strings bt' = (bt_strings bt)[tid := d]"
  shows "bt_strings_ok c bt'"
proof -
  have "dirty_ok c n ((bt_strings bt)[tid := d] ! n)" if "n < c_vocabSize c" for n
    using assms(1,2) that by (cases "n = tid") (simp_all add: bt_strings_ok_def)
  then show ?thesis using assms(1,3) by (simp add: bt_strings_ok_def)
qed

lemma cacheDirtyBytes_strings:
  assumes "bt_strings_ok c bt" and "tok_dirty c tid" and "bs = tok_bytes c tid"
  shows "bt_strings_ok c (cacheDirtyBytes tid bs bt)"
  using assms(1) bt_strings_ok_update [OF assms(1), of tid "DBytes bs" "cacheDirtyBytes tid bs bt"] assms(2,3)
  by (auto simp: cacheDirtyBytes_def dirty_ok_def split: if_splits)

lemma cacheDirtyBytes_ok:
  assumes "bt_ok c w bt" and "tid < c_vocabSize c" and "tok_dirty c tid" and "bs = tok_bytes c tid"
  shows "bt_ok c w (cacheDirtyBytes tid bs bt)"
proof -
  have "bt_arena_ok c (cacheDirtyBytes tid bs bt)" if "bt_arena_ok c bt"
    using that assms(2,3) by (auto simp: bt_arena_ok_def cacheDirtyBytes_def)
  moreover have "bt_initialized (cacheDirtyBytes tid bs bt) = bt_initialized bt"
    by (simp add: cacheDirtyBytes_def)
  ultimately show ?thesis using assms cacheDirtyBytes_strings unfolding bt_ok_def by auto
qed

lemma materializeDirty_spec:
  assumes "bt_strings_ok c bt" and "tid < c_vocabSize c" and "tok_dirty c tid" and "bs = tok_bytes c tid"
    and "materializeDirty w tid bs bt = (value, bt')"
  shows "value = latin1 (tok_bytes c tid) \<and> bt_strings_ok c bt' \<and>
     bt_strings bt' = (bt_strings bt)[tid := DString (latin1 (tok_bytes c tid))] \<and>
     bt_arena bt' = bt_arena bt \<and> bt_offsets bt' = bt_offsets bt \<and> bt_present bt' = bt_present bt \<and>
     (w \<longrightarrow> bt_initialized bt' = bt_initialized bt)"
proof -
  have ok: "dirty_ok c tid (bt_strings bt ! tid)" and len: "length (bt_strings bt) = c_vocabSize c"
    using assms(1,2) by (simp_all add: bt_strings_ok_def)
  have strings: "value = latin1 (tok_bytes c tid) \<and>
     bt_strings bt' = (bt_strings bt)[tid := DString (latin1 (tok_bytes c tid))] \<and>
     bt_arena bt' = bt_arena bt \<and> bt_offsets bt' = bt_offsets bt \<and> bt_present bt' = bt_present bt \<and>
     (w \<longrightarrow> bt_initialized bt' = bt_initialized bt)"
  proof (cases "bt_strings bt ! tid")
    case (DString s)
    then show ?thesis using ok assms(5) len assms(2)
      by (auto simp: materializeDirty_def dirty_ok_def intro: list_update_same_conv [THEN iffD2, symmetric])
  qed (use ok assms(4,5) in \<open>auto simp: materializeDirty_def dirty_ok_def Let_def\<close>)
  moreover have "bt_strings_ok c bt'"
    using strings assms(3) by (intro bt_strings_ok_update [OF assms(1)]) (auto simp: dirty_ok_def)
  ultimately show ?thesis by blast
qed

lemma tok_start_Suc: "tok_start c (Suc k) = tok_start c k + length (tok_bytes c k)"
  by (simp add: tok_start_def)

lemma tok_start_mono: "j \<le> k \<Longrightarrow> tok_start c j \<le> tok_start c k"
  by (induction k) (auto simp: tok_start_Suc le_Suc_eq)

lemma unat_tok_start:
  assumes "arena_fits c" and "k \<le> c_vocabSize c"
  shows "unat (of_nat (tok_start c k) :: u32) = tok_start c k"
proof -
  have "tok_start c k < 2 ^ LENGTH(32)"
    using assms tok_start_mono [OF assms(2), of c] by (simp add: arena_fits_def tok_start_def)
  then show ?thesis by (simp add: unat_of_nat)
qed

text \<open>The scan over the first \<open>k\<close> ids.\<close>

definition scanned :: "core \<Rightarrow> nat \<Rightarrow> bytes option list \<times> nat \<times> byte_table \<Rightarrow> bool" where
  "scanned c k st \<longleftrightarrow> (case st of (pieces, tot, bt) \<Rightarrow>
     pieces = map (\<lambda>tid. okv (c_tokenBytes c (of_nat tid))) [0..<k] \<and> tot = tok_start c k \<and>
     bt_strings_ok c bt \<and>
     bt_present bt = Some (map (tok_present c) [0..<k] @ replicate (c_vocabSize c - k) 0) \<and>
     bt_offsets bt = Some (map (\<lambda>j. of_nat (tok_start c j)) [0..<Suc k] @ replicate (c_vocabSize c - k) 0) \<and>
     (\<forall>tid < k. tok_dirty c tid \<longrightarrow> bt_strings bt ! tid = DString (latin1 (tok_bytes c tid))))"

lemma list_update_next: "k < n \<Longrightarrow> length xs = k \<Longrightarrow> (xs @ replicate (n - k) a)[k := b] = (xs @ [b]) @ replicate (n - Suc k) a"
  by (cases "n - k") (auto simp: list_update_append)

lemma scan_step:
  assumes "scanned c k st" and "k < c_vocabSize c"
  shows "scanned c (Suc k) (bt_scan_step c True k st)"
proof -
  obtain pieces tot bt where st: "st = (pieces, tot, bt)" by (cases st)
  have inv: "pieces = map (\<lambda>tid. okv (c_tokenBytes c (of_nat tid))) [0..<k]" "tot = tok_start c k"
     "bt_strings_ok c bt"
     "bt_present bt = Some (map (tok_present c) [0..<k] @ replicate (c_vocabSize c - k) 0)"
     "bt_offsets bt = Some (map (\<lambda>j. of_nat (tok_start c j)) [0..<Suc k] @ replicate (c_vocabSize c - k) 0)"
     "\<forall>tid < k. tok_dirty c tid \<longrightarrow> bt_strings bt ! tid = DString (latin1 (tok_bytes c tid))"
    using assms(1) by (simp_all add: scanned_def st)
  have offs: "(map f [0..<Suc k] @ replicate (c_vocabSize c - k) (0::u32))[Suc k := f (Suc k)] =
      map f [0..<Suc (Suc k)] @ replicate (c_vocabSize c - Suc k) 0" for f
    using list_update_next [of "Suc k" "Suc (c_vocabSize c)" "map f [0..<Suc k]" 0 "f (Suc k)"] assms(2)
    by simp
  have pres: "(map (tok_present c) [0..<k] @ replicate (c_vocabSize c - k) 0)[k := tok_present c k] =
      map (tok_present c) [0..<Suc k] @ replicate (c_vocabSize c - Suc k) 0"
    using list_update_next [of k "c_vocabSize c" "map (tok_present c) [0..<k]" 0 "tok_present c k"] assms(2)
    by simp
  show ?thesis
  proof (cases "c_tokenBytes c (of_nat k)")
    case (Inl e)
    then have "tok_bytes c k = []" "tok_present c k = 0" "\<not> tok_dirty c k"
      by (simp_all add: tok_bytes_def tok_present_def tok_dirty_def)
    moreover have "(map (tok_present c) [0..<k] @ replicate (c_vocabSize c - k) 0)
        = map (tok_present c) [0..<k] @ 0 # replicate (c_vocabSize c - Suc k) 0"
      using assms(2) by (cases "c_vocabSize c - k") auto
    ultimately show ?thesis
      using inv Inl offs [of "\<lambda>j. of_nat (tok_start c j)"]
      by (auto simp: st scanned_def bt_scan_step_def tok_start_Suc less_Suc_eq bt_strings_ok_def
          simp del: upt_Suc) (auto)
  next
    case (Inr bs)
    define btp where "btp = bt\<lparr>bt_present := map_option (\<lambda>p. p[k := 1]) (bt_present bt)\<rparr>"
    define btd where "btd = (if isValidUtf8 bs then btp else snd (materializeDirty True k bs btp))"
    have bs: "tok_bytes c k = bs" "tok_present c k = 1" "tok_dirty c k = (\<not> isValidUtf8 bs)"
      using Inr by (simp_all add: tok_bytes_def tok_present_def tok_dirty_def)
    have okp: "bt_strings_ok c btp" using inv(3) by (simp add: btp_def bt_strings_ok_def)
    have d: "bt_strings_ok c btd \<and> bt_present btd = bt_present btp \<and> bt_offsets btd = bt_offsets bt \<and>
      (\<forall>tid < Suc k. tok_dirty c tid \<longrightarrow> bt_strings btd ! tid = DString (latin1 (tok_bytes c tid)))"
    proof (cases "isValidUtf8 bs")
      case True
      then show ?thesis using okp inv(6) bs by (auto simp: btd_def btp_def less_Suc_eq)
    next
      case False
      obtain v bt' where m: "materializeDirty True k bs btp = (v, bt')" by fastforce
      have "tok_dirty c k" using bs(3) False by simp
      from materializeDirty_spec [OF okp assms(2) this bs(1) [symmetric] m]
      have "bt_strings_ok c bt'" "bt_strings bt' = (bt_strings btp)[k := DString (latin1 (tok_bytes c k))]"
        "bt_offsets bt' = bt_offsets btp" "bt_present bt' = bt_present btp" by blast+
      moreover have "btd = bt'" using False m by (simp add: btd_def)
      moreover have "(bt_strings btp)[k := DString (latin1 (tok_bytes c k))] ! tid = DString (latin1 (tok_bytes c tid))"
        if "tid < Suc k" "tok_dirty c tid" for tid
        using that inv(3,6) assms(2) by (cases "tid = k") (simp_all add: btp_def bt_strings_ok_def)
      ultimately show ?thesis by (simp add: btp_def)
    qed
    have "bt_scan_step c True k st = (pieces @ [Some bs], tot + length bs,
       btd\<lparr>bt_known := Suc (bt_known btd),
           bt_offsets := map_option (\<lambda>os. os[Suc k := of_nat (tot + length bs)]) (bt_offsets btd)\<rparr>)"
      using Inr by (simp add: st bt_scan_step_def btd_def btp_def Let_def)
    moreover have "bt_present btp = Some (map (tok_present c) [0..<Suc k] @ replicate (c_vocabSize c - Suc k) 0)"
      using inv(4) pres bs(2) by (simp add: btp_def)
    moreover have "tot + length bs = tok_start c (Suc k)"
      using inv(2) bs(1) by (simp add: tok_start_Suc)
    ultimately show ?thesis
      using d inv(1,5) Inr offs [of "\<lambda>j. of_nat (tok_start c j)"]
      by (simp add: scanned_def bt_strings_ok_def del: upt_Suc) (simp)
  qed
qed

lemma scan_all:
  assumes "scanned c 0 st" and "k \<le> c_vocabSize c"
  shows "scanned c k (fold (bt_scan_step c True) [0..<k] st)"
  using assms(2)
proof (induction k)
  case (Suc k)
  then show ?case using scan_step [of c k "fold (bt_scan_step c True) [0..<k] st"] by simp
qed (simp add: assms(1))

lemma fill_all:
  assumes "arena_fits c" and "k \<le> c_vocabSize c"
    and "length arena = tok_start c (c_vocabSize c)"
    and "take (tok_start c k) arena = concat (map (tok_bytes c) [0..<k])"
  shows "bt_fill (map (\<lambda>j. of_nat (tok_start c j)) [0..<Suc (c_vocabSize c)]) k
     (map (\<lambda>tid. okv (c_tokenBytes c (of_nat tid))) [k..<c_vocabSize c]) arena
   = concat (map (tok_bytes c) [0..<c_vocabSize c])"
  using assms(2-4)
proof (induction "c_vocabSize c - k" arbitrary: k arena)
  case 0
  then show ?case by simp
next
  case (Suc m)
  then have k: "k < c_vocabSize c" by simp
  then have upt: "[k..<c_vocabSize c] = k # [Suc k..<c_vocabSize c]" by (rule upt_conv_Cons)
  have here: "map (\<lambda>j. of_nat (tok_start c j) :: u32) [0..<Suc (c_vocabSize c)] ! k = of_nat (tok_start c k)"
    using k nth_map_upt [of k "Suc (c_vocabSize c)" 0 "\<lambda>j. of_nat (tok_start c j) :: u32"] by simp
  have room: "tok_start c (Suc k) \<le> length arena"
    using Suc.prems(2) tok_start_mono [of "Suc k" "c_vocabSize c" c] k by simp
  show ?case
  proof (cases "c_tokenBytes c (of_nat k)")
    case (Inl e)
    then have "tok_bytes c k = []" by (simp add: tok_bytes_def)
    then show ?thesis using Suc.hyps(1) [of "Suc k" arena] Suc.hyps(2) Suc.prems k Inl
      by (simp add: upt tok_start_Suc del: upt_Suc) (simp)
  next
    case (Inr bs)
    then have bs: "tok_bytes c k = bs" by (simp add: tok_bytes_def)
    have "take (tok_start c (Suc k)) (blit (tok_start c k) bs arena) = take (tok_start c k) arena @ bs"
      using room take_blit [of "tok_start c k" bs arena] by (simp add: tok_start_Suc bs)
    moreover have "length (blit (tok_start c k) bs arena) = length arena"
      using room by (intro length_blit) (simp add: tok_start_Suc bs)
    ultimately show ?thesis
      using Suc.hyps(1) [of "Suc k" "blit (tok_start c k) bs arena"] Suc.hyps(2) Suc.prems k Inr here
        unat_tok_start [OF assms(1), of k]
      by (simp add: upt bs del: upt_Suc) (simp add: bs)
  qed
qed

lemma bt_initialize_ok:
  assumes "bt_ok c True bt"
  shows "bt_ok c True (bt_initialize c True bt) \<and> bt_initialized (bt_initialize c True bt) \<and>
    bt_arena_ok c (bt_initialize c True bt)"
proof (cases "bt_initialized bt")
  case True
  then show ?thesis using assms by (simp add: bt_initialize_def bt_ok_def)
next
  case False
  define n where "n = c_vocabSize c"
  define bt0 where "bt0 = bt\<lparr>bt_offsets := Some (replicate (Suc n) 0), bt_present := Some (replicate n 0)\<rparr>"
  have "scanned c 0 ([], 0, bt0)"
    using assms by (simp add: scanned_def bt0_def bt_ok_def bt_strings_ok_def n_def tok_start_def)
  then have "scanned c n (fold (bt_scan_step c True) [0..<n] ([], 0, bt0))"
    by (rule scan_all) (simp add: n_def)
  moreover obtain pieces tot bt1 where f: "fold (bt_scan_step c True) [0..<n] ([], 0, bt0) = (pieces, tot, bt1)"
    by (metis surj_pair)
  ultimately have s: "scanned c n (pieces, tot, bt1)" by simp
  have fits: "arena_fits c" using assms by (simp add: bt_ok_def)
  define arena where "arena = bt_fill (the (bt_offsets bt1)) 0 pieces (replicate tot 0)"
  have "arena = concat (map (tok_bytes c) [0..<n])"
    using s fill_all [OF fits, of 0 "replicate tot 0"]
    by (simp add: scanned_def arena_def n_def tok_start_def del: upt_Suc)
  moreover have "bt_initialize c True bt = bt1\<lparr>bt_arena := Some arena, bt_initialized := True\<rparr>"
    using False f by (simp add: bt_initialize_def Let_def bt0_def n_def arena_def)
  ultimately show ?thesis
    using s fits by (simp add: bt_ok_def bt_arena_ok_def scanned_def n_def bt_strings_ok_def)
qed

lemma tok_bytes_id:
  "c_tokenBytes c tid = Inr bs \<Longrightarrow> tok_bytes c (unat tid) = bs"
  "tok_present c (unat tid) = (case c_tokenBytes c tid of Inr bs \<Rightarrow> 1 | Inl _ \<Rightarrow> 0)"
  "tok_dirty c (unat tid) = (case c_tokenBytes c tid of Inr bs \<Rightarrow> \<not> isValidUtf8 bs | Inl _ \<Rightarrow> False)"
  by (simp_all add: tok_bytes_def tok_present_def tok_dirty_def)

lemma arena_offsets:
  assumes "bt_arena_ok c bt" and "arena_fits c" and "k \<le> c_vocabSize c"
  shows "unat (the (bt_offsets bt) ! k) = tok_start c k"
proof -
  have "map (\<lambda>j. of_nat (tok_start c j) :: u32) [0..<Suc (c_vocabSize c)] ! k = of_nat (tok_start c k)"
    using assms(3) nth_map_upt [of k "Suc (c_vocabSize c)" 0 "\<lambda>j. of_nat (tok_start c j) :: u32"] by simp
  then show ?thesis
    using assms(1) unat_tok_start [OF assms(2,3)] by (simp add: bt_arena_ok_def del: upt_Suc)
qed

lemma bt_segment_eq:
  assumes "bt_arena_ok c bt" and "arena_fits c" and "unat tid < c_vocabSize c"
  shows "bt_segment bt tid = tok_bytes c (unat tid)"
proof -
  let ?k = "unat tid"
  let ?pre = "concat (map (tok_bytes c) [0..<?k])" and ?post = "concat (map (tok_bytes c) [Suc ?k..<c_vocabSize c])"
  have "[0..<c_vocabSize c] = [0..<?k] @ ?k # [Suc ?k..<c_vocabSize c]"
    using assms(3) by (metis le0 less_imp_le upt_add_eq_append upt_conv_Cons le_add_diff_inverse)
  then have "the (bt_arena bt) = ?pre @ tok_bytes c ?k @ ?post"
    using assms(1) by (simp add: bt_arena_ok_def)
  moreover have "tok_start c ?k = length ?pre" by (simp add: tok_start_def)
  ultimately show ?thesis
    using arena_offsets [OF assms(1,2), of ?k] arena_offsets [OF assms(1,2), of "Suc ?k"] assms(3)
    by (simp add: bt_segment_def Let_def tok_start_Suc)
qed

lemma bt_measure_eq:
  assumes "bt_arena_ok c bt" and "arena_fits c" and "core_laws c"
  shows "okv (bt_measure c bt len ids) = map_option (\<lambda>bs. len + int (length bs)) (ref_bytes c ids)"
proof (induction ids arbitrary: len)
  case (Cons tid ids)
  show ?case
  proof (cases "c_tokenBytes c tid")
    case (Inl e)
    then have "c_vocabSize c \<le> unat tid \<or> the (bt_present bt) ! unat tid = 0"
      using assms(1) tok_bytes_id(2) [of c tid]
      by (cases "c_vocabSize c \<le> unat tid") (simp_all add: bt_arena_ok_def)
    then show ?thesis using Inl by (auto simp: ref_bytes_Cons)
  next
    case (Inr bs)
    then have k: "unat tid < c_vocabSize c" using core_laws_token [OF assms(3)] by blast
    then have "the (bt_present bt) ! unat tid = 1"
      using assms(1) tok_bytes_id(2) [of c tid] Inr by (simp add: bt_arena_ok_def)
    then show ?thesis
      using Cons.IH Inr k arena_offsets [OF assms(1,2), of "unat tid"] arena_offsets [OF assms(1,2), of "Suc (unat tid)"]
      by (cases "ref_bytes c ids") (simp_all add: ref_bytes_Cons tok_start_Suc tok_bytes_id(1))
  qed
qed simp

lemma bt_segments_concat:
  assumes "bt_arena_ok c bt" and "arena_fits c" and "core_laws c" and "ref_bytes c ids = Some bs"
  shows "concat (map (bt_segment bt) ids) = bs"
  using assms(4)
proof (induction ids arbitrary: bs)
  case (Cons tid ids)
  then obtain b r where b: "c_tokenBytes c tid = Inr b" and r: "ref_bytes c ids = Some r" and bs: "bs = b @ r"
    by (auto simp: ref_bytes_Cons split: bind_splits)
  have "bt_segment bt tid = b"
    using bt_segment_eq [OF assms(1,2), of tid] core_laws_token [OF assms(3) b] tok_bytes_id(1) [OF b] by simp
  then show ?case using Cons.IH [OF r] bs by simp
qed simp

lemma bt_ensureScratch_spec:
  "len \<le> length (bt_scratch (bt_ensureScratch len bt))"
  "bt_ok c w (bt_ensureScratch len bt) = bt_ok c w bt"
  "bt_arena_ok c (bt_ensureScratch len bt) = bt_arena_ok c bt"
  using grow_capacity_enough [of "max 256 (length (bt_scratch bt))" len]
  by (auto simp: bt_ensureScratch_def bt_ok_def bt_strings_ok_def bt_arena_ok_def)

lemma bt_ok_counters:
  "bt_ok c w (bt\<lparr>bt_scratch := sc\<rparr>) = bt_ok c w bt"
  "bt_ok c w (bt\<lparr>bt_decoderCalls := m, bt_bytesCopied := n\<rparr>) = bt_ok c w bt"
  "bt_ok c w (bt\<lparr>bt_runDecoderCalls := m, bt_runBytesCopied := n\<rparr>) = bt_ok c w bt"
  "bt_ok c w (bt\<lparr>bt_known := n\<rparr>) = bt_ok c w bt"
  by (simp_all add: bt_ok_def bt_strings_ok_def bt_arena_ok_def)

text \<open>The contract of the whole-segment decoder.\<close>

definition byte_decoder_inv :: "core \<Rightarrow> byte_table \<Rightarrow> bool" where
  "byte_decoder_inv c bt \<longleftrightarrow> core_laws c \<and> bt_ok c True bt"

interpretation byte_decoder: exact_decoder "bt_decode c True" "byte_decoder_inv c" "ref_decode c" for c
proof (unfold_locales, goal_cases)
  case (1 bt i r bt')
  then have laws: "core_laws c" and ok: "bt_ok c True bt" and fits: "arena_fits c"
    by (simp_all add: byte_decoder_inv_def bt_ok_def)
  show ?case
  proof (cases "tokenIds i")
    case (Inl e)
    then show ?thesis using 1 by (auto simp: bt_decode_def js_simps ref_decode_def)
  next
    case (Inr ids)
    define bt1 where "bt1 = bt_initialize c True bt"
    have ok1: "bt_ok c True bt1" "bt_arena_ok c bt1"
      using bt_initialize_ok [OF ok] by (simp_all add: bt1_def)
    note measure = bt_measure_eq [OF ok1(2) fits laws, of 0 ids]
    show ?thesis
    proof (cases "ref_bytes c ids")
      case None
      then obtain e where "bt_measure c bt1 0 ids = Inl e" using measure by auto
      then show ?thesis using 1(2) Inr None ok1 laws
        by (auto simp: bt_decode_def js_simps ref_decode_def ref_text_def byte_decoder_inv_def bt1_def)
    next
      case (Some bs)
      then have m: "bt_measure c bt1 0 ids = Inr (int (length bs))" using measure by auto
      define bt2 where "bt2 = bt_ensureScratch (length bs) bt1"
      have ok2: "bt_ok c True bt2" "bt_arena_ok c bt2" "length bs \<le> length (bt_scratch bt2)"
        using ok1 by (simp_all add: bt2_def bt_ensureScratch_spec)
      have cat: "concat (map (bt_segment bt2) ids) = bs"
        by (rule bt_segments_concat [OF ok2(2) fits laws Some])
      have "take (length bs) (blit_all 0 (map (bt_segment bt2) ids) (bt_scratch bt2)) = bs"
        using blit_all_concat [of 0 "map (bt_segment bt2) ids" "bt_scratch bt2"] ok2(3) cat by simp
      then show ?thesis
        using 1(2) Inr Some m ok2(1) laws
        by (auto simp: bt_decode_def js_simps ref_decode_def ref_text_def byte_decoder_inv_def
            bt_ok_counters simp flip: bt1_def bt2_def)
    qed
  qed
qed

text \<open>The string of a dirty token.\<close>

lemma bt_byteString_dirty:
  assumes "bt_ok c w bt" and "c_tokenBytes c tid = Inr bs" and "\<not> isValidUtf8 bs"
    and "unat tid < c_vocabSize c" and "bt_byteString c w tid bt = (r, bt')"
  shows "r = Inr (Some (latin1 bs)) \<and> bt_ok c w bt'"
proof -
  have dirty: "tok_dirty c (unat tid)" and bs: "tok_bytes c (unat tid) = bs"
    using assms(2,3) by (simp_all add: tok_bytes_id)
  show ?thesis
  proof (cases w)
    case True
    then show ?thesis
      using assms(1,4,5) bt_initialize_ok [of c bt] dirty bs
      by (auto simp: bt_byteString_def Let_def bt_arena_ok_def)
  next
    case False
    have strings: "bt_strings_ok c bt" using assms(1) by (simp add: bt_ok_def)
    have mat: "map_prod (\<lambda>s. Inr (Some s)) (\<lambda>b. b) (materializeDirty w (unat tid) bs b0) = (r, bt') \<Longrightarrow>
        bt_strings_ok c b0 \<Longrightarrow> ?thesis" for b0
    proof -
      assume run: "map_prod (\<lambda>s. Inr (Some s)) (\<lambda>b. b) (materializeDirty w (unat tid) bs b0) = (r, bt')"
        and ok: "bt_strings_ok c b0"
      obtain v b1 where m: "materializeDirty w (unat tid) bs b0 = (v, b1)" by fastforce
      from materializeDirty_spec [OF ok assms(4) dirty bs [symmetric] m] run m False bs
      show ?thesis by (auto simp: bt_ok_def)
    qed
    have ok: "dirty_ok c (unat tid) (bt_strings bt ! unat tid)"
      using strings assms(4) by (simp add: bt_strings_ok_def)
    show ?thesis
    proof (cases "bt_strings bt ! unat tid")
      case DUndefined
      have "bt_strings_ok c (bt\<lparr>bt_initialized := True\<rparr>)" using strings by (simp add: bt_strings_ok_def)
      then show ?thesis
        using assms(2,3,5) False DUndefined by (intro mat [of "bt\<lparr>bt_initialized := True\<rparr>"])
          (simp_all add: bt_byteString_def Let_def)
    next
      case (DBytes kept)
      then have "kept = bs" using ok bs by (simp add: dirty_ok_def)
      then show ?thesis using assms(5) False DBytes strings by (intro mat [of bt]) (simp_all add: bt_byteString_def)
    next
      case (DString s)
      then show ?thesis using assms(1,5) False ok bs by (auto simp: bt_byteString_def dirty_ok_def)
    qed
  qed
qed

lemma bt_decodeByteString_spec:
  assumes "bt_ok c w bt" and "bt_decodeByteString (latin1 bs) bt = (r, bt')"
  shows "r = Inr (utf8_lossy bs) \<and> bt_ok c w bt'"
proof -
  define bt1 where "bt1 = bt_ensureScratch (length bs) bt"
  have ok: "bt_ok c w bt1" and room: "length bs \<le> length (bt_scratch bt1)"
    using assms(1) by (simp_all add: bt1_def bt_ensureScratch_spec)
  have "take (length bs) (blit 0 bs (bt_scratch bt1)) = bs"
    using take_blit [of 0 bs "bt_scratch bt1"] room by simp
  then show ?thesis
    using assms(2) ok by (auto simp: bt_decodeByteString_def js_simps bt_ok_counters simp flip: bt1_def)
qed

end
