(* ===== verification/Latin1.thy ===== *)
theory Latin1
  imports Byte_Table
begin

text \<open>
  \<^verbatim>\<open>hypertok-js/src/decode-latin1.mjs\<close>: decoding through one string per token with one code unit
  per byte, turned back into bytes by the platform's \<^verbatim>\<open>Buffer\<close> or by a portable loop.
\<close>

subsection \<open>Options and state\<close>

text \<open>
  The option \<^verbatim>\<open>nativeUnmap\<close>: absent, null, a function (a result that is not a \<^verbatim>\<open>Uint8Array\<close> is
  \<open>None\<close>), or anything else; and the clock option, of which only its type matters here.
\<close>

datatype unmap_option =
    UnmapDefault
  | UnmapNull
  | UnmapFunction "jstring \<Rightarrow> js_error + bytes option"
  | UnmapOther

datatype now_option = NowDefault | NowFunction | NowOther

record latin1_options =
  lo_now :: now_option
  lo_nativeUnmap :: unmap_option
  lo_portable :: jsval

text \<open>The function behind \<^verbatim>\<open>nativeUnmap\<close>: the platform's buffer or the caller's.\<close>

datatype unmap = UnmapBuffer | UnmapHook "jstring \<Rightarrow> js_error + bytes option"

record latin1 =
  l1_available :: bool
  l1_portable :: bool
  l1_unmap :: "unmap option"
  l1_strings :: "jstring list"
  l1_present :: "u8 list"
  l1_initialized :: bool
  l1_known :: nat
  l1_payloadCodeUnits :: nat
  l1_decoderCalls :: nat
  l1_bytesConverted :: nat
  l1_nativeScratch :: "bytes option"
  l1_nativeScratchGrows :: nat
  l1_nativeScratchWrites :: nat
  l1_portableDecoderCalls :: nat
  l1_portableBytesConverted :: nat
  l1_portableScratch :: bytes

text \<open>The checks of \<^verbatim>\<open>vocabSize\<close>: a positive safe integer.\<close>

definition checked_vocabSize :: "string \<Rightarrow> core \<Rightarrow> js_error + nat" where
  "checked_vocabSize what c =
     (if c_vocabSize c < 1 \<or> 9007199254740991 < c_vocabSize c
      then Inl (TypeError (what @ '' core must provide a positive vocabSize''))
      else Inr (c_vocabSize c))"

text \<open>\<^verbatim>\<open>options.x ?? false\<close> with its boolean check.\<close>

fun boolean_option :: "string \<Rightarrow> jsval \<Rightarrow> js_error + bool" where
  "boolean_option name JUndefined = Inr False"
| "boolean_option name JNull = Inr False"
| "boolean_option name (JBool b) = Inr b"
| "boolean_option name _ = Inl (TypeError (name @ '' must be a boolean''))"

definition native_unmap_of :: "bool \<Rightarrow> unmap_option \<Rightarrow> js_error + unmap option" where
  "native_unmap_of hasBuffer opt =
     (case opt of
        UnmapDefault \<Rightarrow> Inr (if hasBuffer then Some UnmapBuffer else None)
      | UnmapNull \<Rightarrow> Inr None
      | UnmapFunction f \<Rightarrow> Inr (Some (UnmapHook f))
      | UnmapOther \<Rightarrow> Inl (TypeError ''nativeUnmap must be a function or null''))"

text \<open>The probe of a caller's function with the empty string.\<close>

definition unmap_available :: "unmap_option \<Rightarrow> unmap option \<Rightarrow> js_error + bool" where
  "unmap_available opt native =
     (case native of
        None \<Rightarrow> Inr False
      | Some UnmapBuffer \<Rightarrow> Inr True
      | Some (UnmapHook f) \<Rightarrow>
          (case f [] of Inl e \<Rightarrow> Inl e | Inr result \<Rightarrow> Inr (result \<noteq> None)))"

definition createNativeLatin1Decoder :: "bool \<Rightarrow> core \<Rightarrow> latin1_options options \<Rightarrow> js_error + latin1" where
  "createNativeLatin1Decoder hasBuffer c opts =
     (case opts of
        NotObject \<Rightarrow> Inl (TypeError ''Latin-1 decode options must be an object'')
      | Options lo \<Rightarrow>
     (case checked_vocabSize ''Latin-1 decode'' c of Inl e \<Rightarrow> Inl e | Inr vsize \<Rightarrow>
     (if lo_now lo = NowOther then Inl (TypeError ''now must be a function'') else
     (case native_unmap_of hasBuffer (lo_nativeUnmap lo) of Inl e \<Rightarrow> Inl e | Inr native \<Rightarrow>
     (case boolean_option ''portable'' (lo_portable lo) of Inl e \<Rightarrow> Inl e | Inr portable \<Rightarrow>
     (case unmap_available (lo_nativeUnmap lo) native of Inl e \<Rightarrow> Inl e | Inr available \<Rightarrow>
       Inr \<lparr>l1_available = available, l1_portable = portable, l1_unmap = native,
            l1_strings = replicate vsize [], l1_present = replicate vsize 0,
            l1_initialized = False, l1_known = 0, l1_payloadCodeUnits = 0, l1_decoderCalls = 0,
            l1_bytesConverted = 0, l1_nativeScratch = None, l1_nativeScratchGrows = 0,
            l1_nativeScratchWrites = 0, l1_portableDecoderCalls = 0,
            l1_portableBytesConverted = 0, l1_portableScratch = []\<rparr>))))))"

subsection \<open>Operations\<close>

text \<open>\<^verbatim>\<open>byteString\<close>, in chunks of 4096 bytes.\<close>

function latin1_byteString :: "bytes \<Rightarrow> jstring" where
  "latin1_byteString bs =
     (if bs = [] then [] else map ucast (take 4096 bs) @ latin1_byteString (drop 4096 bs))"
  by pat_completeness auto
termination by (relation "measure length") (simp_all add: length_greater_0_conv [symmetric] del: length_greater_0_conv)

declare latin1_byteString.simps [simp del]

text \<open>The scan of all ids: an error of \<^verbatim>\<open>tokenBytes\<close> means an unknown id, unless it is the shape error.\<close>

definition shape_error :: "js_error \<Rightarrow> bool" where
  "shape_error e = (case e of TypeError m \<Rightarrow> message_matches ''tokenBytes must return'' m | _ \<Rightarrow> False)"

fun latin1_scan :: "core \<Rightarrow> nat list \<Rightarrow> (latin1, unit) js" where
  "latin1_scan c [] l = (Inr (), l)"
| "latin1_scan c (tid # tids) l =
     (case c_tokenBytes c (of_nat tid) of
        Inl e \<Rightarrow> if shape_error e then (Inl e, l) else latin1_scan c tids l
      | Inr bs \<Rightarrow>
          latin1_scan c tids
            (l\<lparr>l1_strings := (l1_strings l)[tid := latin1_byteString bs],
               l1_present := (l1_present l)[tid := 1],
               l1_known := Suc (l1_known l),
               l1_payloadCodeUnits := l1_payloadCodeUnits l + length bs\<rparr>))"

definition latin1_initialize :: "core \<Rightarrow> (latin1, unit) js" where
  "latin1_initialize c l =
     (if l1_initialized l \<or> (\<not> l1_available l \<and> \<not> l1_portable l) then (Inr (), l)
      else js_bind (latin1_scan c [0..<c_vocabSize c])
             (\<lambda>_. js_modify (\<lambda>l. l\<lparr>l1_initialized := True\<rparr>)) l)"

text \<open>The loop of \<^verbatim>\<open>binaryFor\<close> over the elements of a typed array or of an array.\<close>

fun binary_typed :: "core \<Rightarrow> latin1 \<Rightarrow> jstring \<Rightarrow> u32 list \<Rightarrow> js_error + jstring" where
  "binary_typed c l binary [] = Inr binary"
| "binary_typed c l binary (tid # ids) =
     (if c_vocabSize c \<le> unat tid \<or> l1_present l ! unat tid = 0
      then Inl (RangeError (''unknown token id '' @ show_nat (unat tid)))
      else binary_typed c l (binary @ l1_strings l ! unat tid) ids)"

fun binary_array :: "core \<Rightarrow> latin1 \<Rightarrow> jstring \<Rightarrow> jsval list \<Rightarrow> js_error + jstring" where
  "binary_array c l binary [] = Inr binary"
| "binary_array c l binary (v # vs) =
     (if \<not> validTokenId v then Inl decode_input_error
      else let tid = u32_of_jsval v in
        if c_vocabSize c \<le> unat tid \<or> l1_present l ! unat tid = 0
        then Inl (RangeError (''unknown token id '' @ show_nat (unat tid)))
        else binary_array c l (binary @ l1_strings l ! unat tid) vs)"

definition binaryFor :: "core \<Rightarrow> js_input \<Rightarrow> (latin1, jstring) js" where
  "binaryFor c input =
     (case input of
        NotIds \<Rightarrow> js_throw decode_input_error
      | Typed ids \<Rightarrow> js_bind (latin1_initialize c) (\<lambda>_ l. (binary_typed c l [] ids, l))
      | Arr vs \<Rightarrow> js_bind (latin1_initialize c) (\<lambda>_ l. (binary_array c l [] vs, l)))"

definition latin1_nextCapacity :: "nat \<Rightarrow> nat" where
  "latin1_nextCapacity len = grow_capacity 256 len"

text \<open>The platform's \<^verbatim>\<open>Buffer\<close> as \<^verbatim>\<open>nativeUnmap\<close>; a write stops at the end of the buffer.\<close>

definition buffer_unmap :: "jstring \<Rightarrow> (latin1, bytes) js" where
  "buffer_unmap value = (\<lambda>l.
     let l1 = (if l1_nativeScratch l = None \<or> length (the (l1_nativeScratch l)) < length value
               then l\<lparr>l1_nativeScratch := Some (replicate (latin1_nextCapacity (length value)) 0),
                      l1_nativeScratchGrows := Suc (l1_nativeScratchGrows l)\<rparr>
               else l);
         scratch = the (l1_nativeScratch l1);
         written = min (length value) (length scratch);
         l2 = l1\<lparr>l1_nativeScratch := Some (blit 0 (take written (charCode_bytes value)) scratch)\<rparr>
     in if written \<noteq> length value
        then (Inl (PlainError ''native Latin-1 scratch did not consume the complete string''), l2)
        else (Inr (take (length value) (the (l1_nativeScratch l2))),
              l2\<lparr>l1_nativeScratchWrites := Suc (l1_nativeScratchWrites l2)\<rparr>))"

definition unmap_bytes :: "jstring \<Rightarrow> (latin1, bytes) js" where
  "unmap_bytes binary = (\<lambda>l.
     (case the (l1_unmap l) of
        UnmapBuffer \<Rightarrow> buffer_unmap binary l
      | UnmapHook f \<Rightarrow>
          (case f binary of
             Inl e \<Rightarrow> (Inl e, l)
           | Inr None \<Rightarrow> (Inl (TypeError ''nativeUnmap must return a Uint8Array''), l)
           | Inr (Some bs) \<Rightarrow> (Inr bs, l))))"

definition latin1_decode :: "core \<Rightarrow> js_input \<Rightarrow> (latin1, jstring) js" where
  "latin1_decode c input = (\<lambda>l.
     if \<not> l1_available l then (Inl (PlainError ''native Latin-1 decode is unavailable''), l)
     else js_bind (binaryFor c input) (\<lambda>binary.
          js_bind (unmap_bytes binary) (\<lambda>bytes.
          js_bind (js_modify (\<lambda>l. l\<lparr>l1_decoderCalls := Suc (l1_decoderCalls l),
                     l1_bytesConverted := l1_bytesConverted l + length bytes\<rparr>)) (\<lambda>_.
          js_lift (textDecoder True False bytes)))) l)"

definition latin1_ensurePortable :: "nat \<Rightarrow> latin1 \<Rightarrow> latin1" where
  "latin1_ensurePortable len l =
     (if length (l1_portableScratch l) < len
      then l\<lparr>l1_portableScratch :=
               replicate (grow_capacity (max 256 (length (l1_portableScratch l))) len) 0\<rparr>
      else l)"

definition latin1_decodePortable :: "core \<Rightarrow> js_input \<Rightarrow> (latin1, jstring) js" where
  "latin1_decodePortable c input = (\<lambda>l.
     if \<not> l1_portable l then (Inl (PlainError ''portable Latin-1 decode is unavailable''), l)
     else js_bind (binaryFor c input) (\<lambda>binary.
          js_bind (js_modify (latin1_ensurePortable (length binary))) (\<lambda>_.
          js_bind (js_modify (\<lambda>l. l\<lparr>l1_portableScratch :=
                     blit 0 (charCode_bytes binary) (l1_portableScratch l)\<rparr>)) (\<lambda>_.
          js_bind (js_modify (\<lambda>l. l\<lparr>l1_portableDecoderCalls := Suc (l1_portableDecoderCalls l),
                     l1_portableBytesConverted := l1_portableBytesConverted l + length binary\<rparr>)) (\<lambda>_.
          (\<lambda>l. (textDecoder True False (take (length binary) (l1_portableScratch l)), l)))))) l)"

subsection \<open>Exactness\<close>

lemma latin1_byteString_eq: "latin1_byteString bs = latin1 bs"
proof (induction bs rule: latin1_byteString.induct)
  case (1 bs)
  show ?case
  proof (cases "bs = []")
    case False
    then have "latin1_byteString bs = latin1 (take 4096 bs) @ latin1 (drop 4096 bs)"
      using 1 by (simp add: latin1_byteString.simps [of bs] latin1_def)
    then show ?thesis by (simp flip: latin1_append)
  qed (simp add: latin1_byteString.simps)
qed

text \<open>
  The contract of a caller's function: it inverts the byte string. It must hold when one is
  given; the platform's buffer satisfies it by the code above.
\<close>

definition unmap_laws :: "latin1 \<Rightarrow> bool" where
  "unmap_laws l \<longleftrightarrow> (l1_available l \<longrightarrow> l1_unmap l \<noteq> None) \<and>
     (\<forall>f bs. l1_unmap l = Some (UnmapHook f) \<longrightarrow> f (latin1 bs) = Inr (Some bs))"

definition latin1_ok :: "core \<Rightarrow> latin1 \<Rightarrow> bool" where
  "latin1_ok c l \<longleftrightarrow> unmap_laws l \<and>
     length (l1_strings l) = c_vocabSize c \<and> length (l1_present l) = c_vocabSize c \<and>
     (if l1_initialized l
      then \<forall>tid < c_vocabSize c. l1_present l ! tid = tok_present c tid \<and>
             (tok_present c tid \<noteq> 0 \<longrightarrow> l1_strings l ! tid = latin1 (tok_bytes c tid))
      else l1_present l = replicate (c_vocabSize c) 0)"

definition latin1_scanned :: "core \<Rightarrow> nat \<Rightarrow> latin1 \<Rightarrow> bool" where
  "latin1_scanned c k l \<longleftrightarrow> length (l1_strings l) = c_vocabSize c \<and> length (l1_present l) = c_vocabSize c \<and>
     (\<forall>tid < c_vocabSize c. l1_present l ! tid = (if tid < k then tok_present c tid else 0) \<and>
        (tid < k \<and> tok_present c tid \<noteq> 0 \<longrightarrow> l1_strings l ! tid = latin1 (tok_bytes c tid)))"

definition same_unmap :: "latin1 \<Rightarrow> latin1 \<Rightarrow> bool" where
  "same_unmap l l' \<longleftrightarrow> l1_unmap l' = l1_unmap l \<and> l1_available l' = l1_available l \<and> l1_portable l' = l1_portable l"

lemma same_unmap_trans: "same_unmap a b \<Longrightarrow> same_unmap b d \<Longrightarrow> same_unmap a d"
  by (simp add: same_unmap_def)

lemma same_unmap_laws: "same_unmap l l' \<Longrightarrow> unmap_laws l' = unmap_laws l"
  by (simp add: same_unmap_def unmap_laws_def)

lemma latin1_scan_spec:
  assumes "core_laws c" and "latin1_scanned c k l" and "k \<le> c_vocabSize c"
    and "latin1_scan c [k..<c_vocabSize c] l = (r, l')"
  shows "r = Inr () \<and> latin1_scanned c (c_vocabSize c) l' \<and> same_unmap l l' \<and>
    l1_initialized l' = l1_initialized l"
  using assms(2-4)
proof (induction "c_vocabSize c - k" arbitrary: k l)
  case 0
  then show ?case by (simp add: same_unmap_def)
next
  case (Suc m)
  then have k: "k < c_vocabSize c" by simp
  then have upt: "[k..<c_vocabSize c] = k # [Suc k..<c_vocabSize c]" by (rule upt_conv_Cons)
  show ?case
  proof (cases "c_tokenBytes c (of_nat k)")
    case (Inl e)
    then have "\<not> shape_error e" using assms(1) by (auto simp: core_laws_def shape_error_def split: js_error.splits)
    moreover have "tok_present c k = 0" using Inl by (simp add: tok_present_def)
    then have "latin1_scanned c (Suc k) l"
      using Suc.prems(1) by (auto simp: latin1_scanned_def less_Suc_eq)
    ultimately show ?thesis
      using Suc.hyps(1) [of "Suc k" l] Suc.hyps(2) Suc.prems(3) k Inl by (simp add: upt)
  next
    case (Inr bs)
    define l1 where "l1 = l\<lparr>l1_strings := (l1_strings l)[k := latin1_byteString bs],
               l1_present := (l1_present l)[k := 1],
               l1_known := Suc (l1_known l),
               l1_payloadCodeUnits := l1_payloadCodeUnits l + length bs\<rparr>"
    have bs: "tok_present c k = 1" "tok_bytes c k = bs" using Inr by (simp_all add: tok_present_def tok_bytes_def)
    have "latin1_scanned c (Suc k) l1"
      unfolding latin1_scanned_def
    proof (intro conjI allI impI)
      fix tid assume tid: "tid < c_vocabSize c"
      show "l1_present l1 ! tid = (if tid < Suc k then tok_present c tid else 0)"
        using Suc.prems(1) tid k bs by (cases "tid = k") (auto simp: latin1_scanned_def l1_def)
      show "l1_strings l1 ! tid = latin1 (tok_bytes c tid)" if "tid < Suc k \<and> tok_present c tid \<noteq> 0"
        using Suc.prems(1) tid k bs that
        by (cases "tid = k") (auto simp: latin1_scanned_def l1_def latin1_byteString_eq)
    qed (use Suc.prems(1) in \<open>simp_all add: latin1_scanned_def l1_def\<close>)
    moreover have "latin1_scan c [Suc k..<c_vocabSize c] l1 = (r, l')"
      using Suc.prems(3) Inr by (simp add: upt l1_def)
    ultimately show ?thesis
      using Suc.hyps(1) [of "Suc k" l1] Suc.hyps(2) k by (simp add: l1_def same_unmap_def)
  qed
qed

lemma latin1_initialize_spec:
  assumes "core_laws c" and "latin1_ok c l" and "l1_available l \<or> l1_portable l"
    and "latin1_initialize c l = (r, l')"
  shows "r = Inr () \<and> latin1_ok c l' \<and> l1_initialized l' \<and> same_unmap l l'"
proof (cases "l1_initialized l")
  case True
  then show ?thesis using assms by (auto simp: latin1_initialize_def same_unmap_def)
next
  case False
  obtain r1 l1 where scan: "latin1_scan c [0..<c_vocabSize c] l = (r1, l1)" by fastforce
  have "latin1_scanned c 0 l" using assms(2) False by (simp add: latin1_ok_def latin1_scanned_def)
  from latin1_scan_spec [OF assms(1) this _ scan]
  have s: "r1 = Inr ()" "latin1_scanned c (c_vocabSize c) l1" "same_unmap l l1" by simp_all
  have "l' = l1\<lparr>l1_initialized := True\<rparr>" "r = Inr ()"
    using assms(3,4) False scan s(1) by (auto simp: latin1_initialize_def js_simps)
  then show ?thesis
    using s assms(2) same_unmap_laws [OF s(3)]
    by (simp add: latin1_ok_def latin1_scanned_def same_unmap_def unmap_laws_def)
qed

lemma binary_typed_spec:
  assumes "core_laws c" and "latin1_ok c l" and "l1_initialized l"
  shows "okv (binary_typed c l (latin1 pre) ids) = map_option (\<lambda>bs. latin1 (pre @ bs)) (ref_bytes c ids)"
proof (induction ids arbitrary: pre)
  case (Cons tid ids)
  show ?case
  proof (cases "c_tokenBytes c tid")
    case (Inl e)
    then show ?thesis
      using assms(2,3) tok_bytes_id(2) [of c tid]
      by (cases "c_vocabSize c \<le> unat tid") (simp_all add: ref_bytes_Cons latin1_ok_def)
  next
    case (Inr bs)
    then have "unat tid < c_vocabSize c" using core_laws_token [OF assms(1)] by blast
    then show ?thesis
      using assms(2,3) tok_bytes_id(2) [of c tid] tok_bytes_id(1) [OF Inr] Inr Cons.IH [of "pre @ bs"]
      by (cases "ref_bytes c ids") (simp_all add: ref_bytes_Cons latin1_ok_def)
  qed
qed simp

lemma binary_array_typed:
  "okv (binary_array c l binary vs) =
     (if list_all validTokenId vs then okv (binary_typed c l binary (map u32_of_jsval vs)) else None)"
  by (induction vs arbitrary: binary) (auto simp: Let_def)

lemma binaryFor_spec:
  assumes "core_laws c" and "latin1_ok c l" and "l1_available l \<or> l1_portable l"
    and "binaryFor c i l = (r, l')"
  shows "okv r = map_option latin1 (Option.bind (okv (tokenIds i)) (ref_bytes c)) \<and> latin1_ok c l' \<and> same_unmap l l'"
proof -
  obtain r0 l0 where init: "latin1_initialize c l = (r0, l0)" by fastforce
  from latin1_initialize_spec [OF assms(1-3) init]
  have l0: "r0 = Inr ()" "latin1_ok c l0" "l1_initialized l0" "same_unmap l l0" by simp_all
  have t: "okv (binary_typed c l0 [] ids) = map_option latin1 (ref_bytes c ids)" for ids
    using binary_typed_spec [OF assms(1) l0(2,3), of "[]" ids] by (simp add: comp_def)
  show ?thesis
  proof (cases i)
    case (Typed ids)
    then show ?thesis using assms(4) init l0 t [of ids] by (auto simp: binaryFor_def js_simps)
  next
    case (Arr vs)
    then show ?thesis
      using assms(4) init l0 t [of "map u32_of_jsval vs"] binary_array_typed [of c l0 "[]" vs]
      by (auto simp: binaryFor_def js_simps)
  next
    case NotIds
    then show ?thesis using assms by (auto simp: binaryFor_def js_simps same_unmap_def)
  qed
qed

lemma buffer_unmap_spec:
  assumes "buffer_unmap (latin1 bs) l = (r, l')"
  shows "r = Inr bs \<and> latin1_ok c l' = latin1_ok c l \<and> same_unmap l l'"
proof -
  define l1 where "l1 = (if l1_nativeScratch l = None \<or> length (the (l1_nativeScratch l)) < length (latin1 bs)
     then l\<lparr>l1_nativeScratch := Some (replicate (latin1_nextCapacity (length (latin1 bs))) 0),
            l1_nativeScratchGrows := Suc (l1_nativeScratchGrows l)\<rparr> else l)"
  have room: "length bs \<le> length (the (l1_nativeScratch l1))"
    using grow_capacity_enough [of 256 "length bs"] by (auto simp: l1_def latin1_nextCapacity_def)
  then have "take (length bs) (blit 0 (take (length bs) bs) (the (l1_nativeScratch l1))) = bs"
    using take_blit [of 0 bs "the (l1_nativeScratch l1)"] by simp
  then have "r = Inr bs" and l': "l' = l1\<lparr>l1_nativeScratch :=
      Some (blit 0 bs (the (l1_nativeScratch l1))),
      l1_nativeScratchWrites := Suc (l1_nativeScratchWrites l1)\<rparr>"
    using assms room unfolding buffer_unmap_def Let_def l1_def [symmetric] by auto
  then show ?thesis by (auto simp: l1_def latin1_ok_def unmap_laws_def same_unmap_def)
qed

lemma unmap_bytes_spec:
  assumes "latin1_ok c l" and "l1_available l" and "unmap_bytes (latin1 bs) l = (r, l')"
  shows "r = Inr bs \<and> latin1_ok c l' \<and> same_unmap l l'"
proof (cases "the (l1_unmap l)")
  case UnmapBuffer
  then show ?thesis
    using assms buffer_unmap_spec [of bs l r l' c] by (simp add: unmap_bytes_def)
next
  case (UnmapHook f)
  then have "f (latin1 bs) = Inr (Some bs)" using assms(1,2) by (auto simp: latin1_ok_def unmap_laws_def)
  then show ?thesis using assms UnmapHook by (auto simp: unmap_bytes_def same_unmap_def)
qed

lemma latin1_ok_counters [simp]:
  "latin1_ok c (l\<lparr>l1_decoderCalls := m, l1_bytesConverted := n\<rparr>) = latin1_ok c l"
  "latin1_ok c (l\<lparr>l1_portableDecoderCalls := m, l1_portableBytesConverted := n\<rparr>) = latin1_ok c l"
  "latin1_ok c (l\<lparr>l1_portableScratch := s\<rparr>) = latin1_ok c l"
  by (simp_all add: latin1_ok_def unmap_laws_def)

text \<open>The contracts of both decoders.\<close>

definition native_latin1_inv :: "core \<Rightarrow> latin1 \<Rightarrow> bool" where
  "native_latin1_inv c l \<longleftrightarrow> core_laws c \<and> latin1_ok c l \<and> l1_available l"

definition portable_latin1_inv :: "core \<Rightarrow> latin1 \<Rightarrow> bool" where
  "portable_latin1_inv c l \<longleftrightarrow> core_laws c \<and> latin1_ok c l \<and> l1_portable l"

lemma latin1_decode_spec:
  assumes "core_laws c" and "latin1_ok c l" and "l1_available l" and "latin1_decode c i l = (r, l')"
  shows "okv r = ref_decode c i \<and> latin1_ok c l' \<and> same_unmap l l'"
proof -
  obtain r1 l1 where b: "binaryFor c i l = (r1, l1)" by fastforce
  from binaryFor_spec [OF assms(1,2) _ b] assms(3)
  have r1: "okv r1 = map_option latin1 (Option.bind (okv (tokenIds i)) (ref_bytes c))"
    and l1: "latin1_ok c l1" "same_unmap l l1" by blast+
  show ?thesis
  proof (cases "Option.bind (okv (tokenIds i)) (ref_bytes c)")
    case None
    then obtain e where "r1 = Inl e" using r1 by auto
    moreover have "ref_decode c i = None"
      using None by (auto simp: ref_decode_def ref_text_def Option.bind_eq_None_conv)
    ultimately show ?thesis using assms(3,4) b l1 by (auto simp: latin1_decode_def js_simps)
  next
    case (Some bs)
    then have r: "r1 = Inr (latin1 bs)" using r1 by simp
    have ref: "ref_decode c i = Some (utf8_lossy bs)"
      using Some by (auto simp: ref_decode_def ref_text_def Option.bind_eq_Some_conv)
    obtain r2 l2 where u: "unmap_bytes (latin1 bs) l1 = (r2, l2)" by fastforce
    have "l1_available l1" using assms(3) l1 by (simp add: same_unmap_def)
    from unmap_bytes_spec [OF l1(1) this u]
    have "r2 = Inr bs" "latin1_ok c l2" "same_unmap l1 l2" by simp_all
    then show ?thesis
      using assms(3,4) b r u ref l1(2) by (auto simp: latin1_decode_def js_simps same_unmap_def)
  qed
qed

lemma latin1_decodePortable_spec:
  assumes "core_laws c" and "latin1_ok c l" and "l1_portable l" and "latin1_decodePortable c i l = (r, l')"
  shows "okv r = ref_decode c i \<and> latin1_ok c l' \<and> same_unmap l l'"
proof -
  obtain r1 l1 where b: "binaryFor c i l = (r1, l1)" by fastforce
  from binaryFor_spec [OF assms(1,2) _ b] assms(3)
  have r1: "okv r1 = map_option latin1 (Option.bind (okv (tokenIds i)) (ref_bytes c))"
    and l1: "latin1_ok c l1" "same_unmap l l1" by blast+
  show ?thesis
  proof (cases "Option.bind (okv (tokenIds i)) (ref_bytes c)")
    case None
    then obtain e where "r1 = Inl e" using r1 by auto
    moreover have "ref_decode c i = None"
      using None by (auto simp: ref_decode_def ref_text_def Option.bind_eq_None_conv)
    ultimately show ?thesis using assms(3,4) b l1 by (auto simp: latin1_decodePortable_def js_simps)
  next
    case (Some bs)
    then have r: "r1 = Inr (latin1 bs)" using r1 by simp
    have ref: "ref_decode c i = Some (utf8_lossy bs)"
      using Some by (auto simp: ref_decode_def ref_text_def Option.bind_eq_Some_conv)
    define l2 where "l2 = latin1_ensurePortable (length bs) l1"
    have room: "length bs \<le> length (l1_portableScratch l2)"
      using grow_capacity_enough [of "max 256 (length (l1_portableScratch l1))" "length bs"]
      by (auto simp: l2_def latin1_ensurePortable_def)
    have l2: "latin1_ok c l2" "same_unmap l1 l2"
      using l1(1) by (simp_all add: l2_def latin1_ensurePortable_def same_unmap_def)
    have "take (length bs) (blit 0 bs (l1_portableScratch l2)) = bs"
      using take_blit [of 0 bs "l1_portableScratch l2"] room by simp
    then show ?thesis
      using assms(3,4) b r ref l1(2) l2
      by (auto simp: latin1_decodePortable_def js_simps same_unmap_def simp flip: l2_def)
  qed
qed

interpretation native_latin1: exact_decoder "latin1_decode c" "native_latin1_inv c" "ref_decode c" for c
proof (unfold_locales, goal_cases)
  case (1 l i r l')
  then show ?case
    using latin1_decode_spec [of c l i r l'] by (simp add: native_latin1_inv_def same_unmap_def)
qed

interpretation portable_latin1: exact_decoder "latin1_decodePortable c" "portable_latin1_inv c" "ref_decode c" for c
proof (unfold_locales, goal_cases)
  case (1 l i r l')
  then show ?case
    using latin1_decodePortable_spec [of c l i r l'] by (simp add: portable_latin1_inv_def same_unmap_def)
qed

lemma createNativeLatin1Decoder_ok:
  assumes "createNativeLatin1Decoder hasBuffer c (Options lo) = Inr l"
    and "\<And>f bs. lo_nativeUnmap lo = UnmapFunction f \<Longrightarrow> f (latin1 bs) = Inr (Some bs)"
  shows "latin1_ok c l"
  using assms
  by (cases "lo_nativeUnmap lo")
    (auto simp: createNativeLatin1Decoder_def checked_vocabSize_def native_unmap_of_def unmap_available_def
      latin1_ok_def unmap_laws_def split: if_splits sum.splits)

end
