(* ===== verification/Decode_Table.thy ===== *)
theory Decode_Table
  imports Latin1 Run_Cache
begin

text \<open>
  The decode table, \<^verbatim>\<open>createDecodeTable\<close> of \<^verbatim>\<open>hypertok-js/src/decode-table.mjs\<close>: cached strings
  for the tokens that are valid UTF-8, routes for the others, and a fallback to the decoder
  below it. The table's \<^verbatim>\<open>core.decode\<close> is that decoder, a call on its own state \<open>'i\<close>, so the
  operations here run on a pair of that state and the closure's variables. Timings are not
  modelled. Arithmetic on densities is in doubles; the rounding of one operation is the field
  \<open>tc_fl\<close> of the configuration, and no theorem constrains it.
\<close>

subsection \<open>Options\<close>

record table_options =
  to_seedEntries :: jsval
  to_seedIds :: "js_input option"
  to_maxTableIds :: jsval
  to_maxDirtyDensity :: jsval
  to_byteTable :: jsval
  to_mixedRuns :: jsval
  to_runCache :: jsval
  to_nativeLatin1 :: jsval
  to_portableLatin1 :: jsval
  to_fusedValidation :: jsval
  to_leanDispatch :: jsval
  to_cleanUnroll :: jsval
  to_directScratch :: jsval
  to_dirtyRunBatch :: jsval
  to_runStitcher :: jsval
  to_maxMixedDirtyDensity :: jsval
  to_mixedRunPenalty :: jsval
  to_now :: now_option
  to_runCacheOptions :: "jsval options"
  to_nativeLatin1Options :: latin1_options

record table_config =
  tc_fl :: "rat \<Rightarrow> rat"
  tc_seedEntries :: nat
  tc_seeds :: "u32 list"
  tc_maxTableIds :: nat
  tc_maxDirtyDensity :: rat
  tc_byteTable :: bool
  tc_mixedRuns :: bool
  tc_runCache :: bool
  tc_nativeLatin1 :: bool
  tc_portableLatin1 :: bool
  tc_fusedValidation :: bool
  tc_leanDispatch :: bool
  tc_cleanUnroll :: bool
  tc_directScratch :: bool
  tc_dirtyRunBatch :: bool
  tc_runStitcher :: bool
  tc_maxMixedDirtyDensity :: rat
  tc_mixedRunPenalty :: rat

definition nonnegativeInteger :: "jsval \<Rightarrow> nat \<Rightarrow> string \<Rightarrow> js_error + nat" where
  "nonnegativeInteger v dflt name =
     (if v = JUndefined then Inr dflt
      else if \<not> number_isSafeInteger v \<or> (case v of JNum q \<Rightarrow> q < 0 | _ \<Rightarrow> False)
        then Inl (TypeError (name @ '' must be a nonnegative safe integer''))
      else Inr (nat_of_jsval v))"

fun density :: "jsval \<Rightarrow> rat \<Rightarrow> js_error + rat" where
  "density JUndefined dflt = Inr dflt"
| "density (JNum q) dflt =
     (if q < 0 \<or> 1 < q then Inl (TypeError ''maxDirtyDensity must be between zero and one'') else Inr q)"
| "density _ dflt = Inl (TypeError ''maxDirtyDensity must be between zero and one'')"

fun nonnegativeNumber :: "jsval \<Rightarrow> rat \<Rightarrow> string \<Rightarrow> js_error + rat" where
  "nonnegativeNumber JUndefined dflt name = Inr dflt"
| "nonnegativeNumber (JNum q) dflt name =
     (if q < 0 then Inl (TypeError (name @ '' must be a nonnegative finite number'')) else Inr q)"
| "nonnegativeNumber _ dflt name = Inl (TypeError (name @ '' must be a nonnegative finite number''))"

text \<open>The check of the caller's seeds; \<open>seen\<close> is the set of ids before.\<close>

fun check_seeds :: "nat \<Rightarrow> u32 set \<Rightarrow> u32 list \<Rightarrow> js_error + unit" where
  "check_seeds vsize seen [] = Inr ()"
| "check_seeds vsize seen (tid # ids) =
     (if vsize \<le> unat tid
      then Inl (RangeError (''seedIds contains unknown token id '' @ show_nat (unat tid)))
      else if tid \<in> seen
      then Inl (RangeError (''seedIds contains duplicate token id '' @ show_nat (unat tid)))
      else check_seeds vsize (insert tid seen) ids)"

definition seedIds :: "js_input option \<Rightarrow> nat \<Rightarrow> nat \<Rightarrow> js_error + u32 list" where
  "seedIds v vsize limit =
     (case v of
        None \<Rightarrow> Inr (map of_nat [0..<limit])
      | Some input \<Rightarrow>
          try_bind (tokenIds input) (\<lambda>ids.
          if limit < length ids
          then Inl (RangeError ''seedIds cannot contain more entries than seedEntries'')
          else try_bind (check_seeds vsize {} ids) (\<lambda>_. Inr ids)))"

text \<open>\<^verbatim>\<open>(value >>> 0) === value\<close>, with \<open>ToUint32\<close> written out.\<close>

fun toUint32 :: "rat \<Rightarrow> rat" where
  "toUint32 q = of_int ((if 0 \<le> q then floor q else ceiling q) mod 2 ^ 32)"

fun validTokenIdFast :: "jsval \<Rightarrow> bool" where
  "validTokenIdFast (JNum q) = (toUint32 q = q)"
| "validTokenIdFast _ = False"

definition tc_validate :: "table_config \<Rightarrow> jsval \<Rightarrow> bool" where
  "tc_validate cfg = (if tc_leanDispatch cfg then validTokenIdFast else validTokenId)"

subsection \<open>State\<close>

text \<open>
  An element of \<^verbatim>\<open>table\<close>: a string or one of the constants \<^verbatim>\<open>UNTOUCHED\<close>, \<^verbatim>\<open>DIRTY\<close>, \<^verbatim>\<open>MISSING\<close>.
\<close>

datatype entry = EText jstring | EUntouched | EDirty | EMissing

text \<open>The counters of the closure, by the variable that holds them.\<close>

datatype table_counter =
    Seeded | Materialized | MetadataKnown | DirtyKnown | MissingKnown | StringPayloadBytes
  | TableCalls | FallbackCalls | MixedCalls | DirtyRunCalls | DirtyBatchCalls | DirtyBatchRuns
  | DirtyBatchFallbackCalls | RunStitcherCalls | LargeFallbackCalls | DirtyFallbackCalls
  | UnknownFallbackCalls | SampledFallbackCalls | ByteTableCalls | MixedDensityFallbackCalls
  | MixedRunFallbackCalls | CleanJoinPasses | DirectScratchCalls

record table =
  tb_table :: "entry list"
  tb_status :: "u8 list"
  tb_lengths :: "u32 list"
  tb_initialized :: bool
  tb_count :: "table_counter \<Rightarrow> nat"
  tb_bytes :: "byte_table option"
  tb_runs :: "run_cache option"
  tb_latin1 :: "latin1 option"
  tb_scratch :: "id_scratch option"

definition bump_by :: "nat \<Rightarrow> table_counter \<Rightarrow> table \<Rightarrow> table" where
  "bump_by n k t = t\<lparr>tb_count := (tb_count t)(k := tb_count t k + n)\<rparr>"

abbreviation bump :: "table_counter \<Rightarrow> table \<Rightarrow> table" where
  "bump k \<equiv> bump_by 1 k"

definition table_config_of :: "(rat \<Rightarrow> rat) \<Rightarrow> core \<Rightarrow> table_options \<Rightarrow> js_error + table_config" where
  "table_config_of fl c opts =
     try_bind (checked_vocabSize ''decode table'' c) (\<lambda>vsize.
     try_bind (nonnegativeInteger (to_seedEntries opts) 8192 ''seedEntries'') (\<lambda>entries.
     let seedEntries = min entries vsize in
     try_bind (seedIds (to_seedIds opts) vsize seedEntries) (\<lambda>seeds.
     try_bind (nonnegativeInteger (to_maxTableIds opts) 262144 ''maxTableIds'') (\<lambda>maxTableIds.
     try_bind (density (to_maxDirtyDensity opts) 0) (\<lambda>maxDirtyDensity.
     try_bind (boolean_option ''byteTable'' (to_byteTable opts)) (\<lambda>useByteTable.
     try_bind (boolean_option ''mixedRuns'' (to_mixedRuns opts)) (\<lambda>useMixedRuns.
     try_bind (boolean_option ''runCache'' (to_runCache opts)) (\<lambda>useRunCache.
     try_bind (try_if (useRunCache \<and> \<not> useMixedRuns)
       (TypeError ''maximal-run cache requires mixed-run decode'')) (\<lambda>_.
     try_bind (boolean_option ''nativeLatin1'' (to_nativeLatin1 opts)) (\<lambda>useNativeLatin1.
     try_bind (boolean_option ''portableLatin1'' (to_portableLatin1 opts)) (\<lambda>usePortableLatin1.
     try_bind (boolean_option ''fusedValidation'' (to_fusedValidation opts)) (\<lambda>useFusedValidation.
     try_bind (boolean_option ''leanDispatch'' (to_leanDispatch opts)) (\<lambda>useLeanDispatch.
     try_bind (boolean_option ''cleanUnroll'' (to_cleanUnroll opts)) (\<lambda>useCleanUnroll.
     try_bind (boolean_option ''directScratch'' (to_directScratch opts)) (\<lambda>useDirectScratch.
     try_bind (try_if (useDirectScratch \<and> \<not> useMixedRuns)
       (TypeError ''direct ID scratch requires mixed-run decode'')) (\<lambda>_.
     try_bind (boolean_option ''dirtyRunBatch'' (to_dirtyRunBatch opts)) (\<lambda>useDirtyRunBatch.
     try_bind (try_if (useDirtyRunBatch \<and> \<not> useMixedRuns)
       (TypeError ''dirty-run batching requires mixed-run decode'')) (\<lambda>_.
     try_bind (boolean_option ''runStitcher'' (to_runStitcher opts)) (\<lambda>useRunStitcher.
     try_bind (try_if (useRunStitcher \<and> \<not> useDirtyRunBatch)
       (TypeError ''run stitcher requires dirty-run batching'')) (\<lambda>_.
     try_bind (density (to_maxMixedDirtyDensity opts) (1 / 2)) (\<lambda>maxMixedDirtyDensity.
     try_bind (nonnegativeNumber (to_mixedRunPenalty opts) 1 ''mixedRunPenalty'') (\<lambda>mixedRunPenalty.
     try_bind (try_if (to_now opts = NowOther) (TypeError ''now must be a function'')) (\<lambda>_.
     Inr \<lparr>tc_fl = fl, tc_seedEntries = seedEntries, tc_seeds = seeds, tc_maxTableIds = maxTableIds,
       tc_maxDirtyDensity = maxDirtyDensity, tc_byteTable = useByteTable,
       tc_mixedRuns = useMixedRuns, tc_runCache = useRunCache, tc_nativeLatin1 = useNativeLatin1,
       tc_portableLatin1 = usePortableLatin1, tc_fusedValidation = useFusedValidation,
       tc_leanDispatch = useLeanDispatch, tc_cleanUnroll = useCleanUnroll,
       tc_directScratch = useDirectScratch, tc_dirtyRunBatch = useDirtyRunBatch,
       tc_runStitcher = useRunStitcher, tc_maxMixedDirtyDensity = maxMixedDirtyDensity,
       tc_mixedRunPenalty = mixedRunPenalty\<rparr>)))))))))))))))))))))))"

definition createDecodeTable ::
  "(rat \<Rightarrow> rat) \<Rightarrow> bool \<Rightarrow> core \<Rightarrow> table_options options \<Rightarrow> js_error + table_config \<times> table" where
  "createDecodeTable fl hasBuffer c options =
     (case options of
        NotObject \<Rightarrow> Inl (TypeError ''decode table options must be an object'')
      | Options opts \<Rightarrow>
     try_bind (table_config_of fl c opts) (\<lambda>cfg.
     try_bind (if tc_runCache cfg then map_sum (\<lambda>e. e) Some (createMaximalRunCache (to_runCacheOptions opts))
               else Inr None) (\<lambda>runs.
     try_bind (if tc_nativeLatin1 cfg \<or> tc_portableLatin1 cfg
               then map_sum (\<lambda>e. e) Some (createNativeLatin1Decoder hasBuffer c
                      (Options ((to_nativeLatin1Options opts)\<lparr>lo_portable := JBool (tc_portableLatin1 cfg)\<rparr>)))
               else Inr None) (\<lambda>latin.
     Inr (cfg,
       \<lparr>tb_table = replicate (c_vocabSize c) EUntouched, tb_status = replicate (c_vocabSize c) 0,
        tb_lengths = replicate (c_vocabSize c) 0, tb_initialized = False, tb_count = (\<lambda>_. 0),
        tb_bytes = (if tc_byteTable cfg \<or> tc_mixedRuns cfg
                    then Some (createTokenByteDecoder (c_vocabSize c)) else None),
        tb_runs = runs, tb_latin1 = latin,
        tb_scratch = (if tc_directScratch cfg then Some createValidatedIdScratch else None)\<rparr>)))))"

subsection \<open>Single tokens\<close>

definition inspect :: "core \<Rightarrow> u32 \<Rightarrow> table \<Rightarrow> u8 \<times> table" where
  "inspect c tid t =
     (if c_vocabSize c \<le> unat tid then (3, t)
      else if tb_status t ! unat tid \<noteq> 0 then (tb_status t ! unat tid, t)
      else case c_tokenBytes c tid of
        Inl _ \<Rightarrow>
          (3, bump MissingKnown (t\<lparr>tb_status := (tb_status t)[unat tid := 3],
                                   tb_table := (tb_table t)[unat tid := EMissing]\<rparr>))
      | Inr bs \<Rightarrow>
          (let st = (if isValidUtf8 bs then 1 else 2);
               t1 = bump MetadataKnown (t\<lparr>tb_lengths := (tb_lengths t)[unat tid := of_nat (length bs)],
                                          tb_status := (tb_status t)[unat tid := st]\<rparr>)
           in (st, if st = 2
                   then bump DirtyKnown (t1\<lparr>tb_table := (tb_table t1)[unat tid := EDirty],
                          tb_bytes := map_option (cacheDirtyBytes (unat tid) bs) (tb_bytes t1)\<rparr>)
                   else t1)))"

definition materialize :: "core \<Rightarrow> u32 \<Rightarrow> (table, jstring option) js" where
  "materialize c tid t =
     (case (if unat tid < length (tb_table t) then tb_table t ! unat tid else EUntouched) of
        EText current \<Rightarrow> (Inr (Some current), t)
      | _ \<Rightarrow>
         (case inspect c tid t of
            (st, t1) \<Rightarrow>
              if st \<noteq> 1 then (Inr None, t1)
              else case c_tokenBytes c tid of
                Inl e \<Rightarrow> (Inl e, t1)
              | Inr bs \<Rightarrow>
                  (case decodeValidUtf8 bs of
                     (txt, oneByte) \<Rightarrow>
                       (Inr (Some txt),
                        bump_by (length txt * (if oneByte then 1 else 2)) StringPayloadBytes
                          (bump Materialized (t1\<lparr>tb_table := (tb_table t1)[unat tid := EText txt]\<rparr>))))))"

fun seed_loop :: "core \<Rightarrow> u32 list \<Rightarrow> (table, unit) js" where
  "seed_loop c [] t = (Inr (), t)"
| "seed_loop c (tid # ids) t =
     (case inspect c tid t of
        (st, t1) \<Rightarrow>
          if st \<noteq> 1 then seed_loop c ids t1
          else js_bind (materialize c tid) (\<lambda>_. js_bind (js_modify (bump Seeded)) (\<lambda>_. seed_loop c ids)) t1)"

definition table_initialize :: "core \<Rightarrow> table_config \<Rightarrow> (table, unit) js" where
  "table_initialize c cfg t =
     (if tb_initialized t then (Inr (), t)
      else js_bind (seed_loop c (tc_seeds cfg)) (\<lambda>_. js_modify (\<lambda>t. t\<lparr>tb_initialized := True\<rparr>)) t)"

subsection \<open>The clean path\<close>

text \<open>\<^verbatim>\<open>packed[id]\<close> when it is a string; an index past the end gives \<^verbatim>\<open>undefined\<close>.\<close>

definition packed_string :: "entry list \<Rightarrow> u32 \<Rightarrow> jstring option" where
  "packed_string packed tid =
     (if unat tid < length packed
      then (case packed ! unat tid of EText value \<Rightarrow> Some value | _ \<Rightarrow> None) else None)"

text \<open>The element's string: of a typed array, or of an array whose element is validated first.\<close>

definition packed_value :: "(jsval \<Rightarrow> bool) \<Rightarrow> entry list \<Rightarrow> jsval \<Rightarrow> jstring option" where
  "packed_value validate packed v = (if validate v then packed_string packed (u32_of_jsval v) else None)"

datatype join_attempt = Joined jstring | Miss nat jstring

text \<open>The element loop, from \<open>index\<close> on, and the loop unrolled by four.\<close>

fun join_loop :: "('e \<Rightarrow> jstring option) \<Rightarrow> nat \<Rightarrow> 'e list \<Rightarrow> jstring \<Rightarrow> join_attempt" where
  "join_loop look index [] out = Joined out"
| "join_loop look index (e # es) out =
     (case look e of None \<Rightarrow> Miss index out | Some value \<Rightarrow> join_loop look (index + 1) es (out @ value))"

fun join_unrolled :: "('e \<Rightarrow> jstring option) \<Rightarrow> nat \<Rightarrow> 'e list \<Rightarrow> jstring \<Rightarrow> join_attempt" where
  "join_unrolled look index (e0 # e1 # e2 # e3 # es) out =
     (case look e0 of None \<Rightarrow> Miss index out | Some v0 \<Rightarrow>
     (case look e1 of None \<Rightarrow> Miss (index + 1) (out @ v0) | Some v1 \<Rightarrow>
     (case look e2 of None \<Rightarrow> Miss (index + 2) ((out @ v0) @ v1) | Some v2 \<Rightarrow>
     (case look e3 of None \<Rightarrow> Miss (index + 3) (((out @ v0) @ v1) @ v2) | Some v3 \<Rightarrow>
        join_unrolled look (index + 4) es ((((out @ v0) @ v1) @ v2) @ v3)))))"
| "join_unrolled look index es out = join_loop look index es out"

definition join_ids :: "table_config \<Rightarrow> ('e \<Rightarrow> jstring option) \<Rightarrow> 'e list \<Rightarrow> join_attempt" where
  "join_ids cfg look es =
     (if tc_cleanUnroll cfg then join_unrolled look 0 es [] else join_loop look 0 es [])"

definition joinKnownClean :: "table_config \<Rightarrow> js_input \<Rightarrow> table \<Rightarrow> join_attempt \<times> table" where
  "joinKnownClean cfg input t =
     (case input of
        Typed ids \<Rightarrow> join_ids cfg (packed_string (tb_table t)) ids
      | Arr vs \<Rightarrow> join_ids cfg (packed_value (tc_validate cfg) (tb_table t)) vs
      | NotIds \<Rightarrow> Joined [],
      bump CleanJoinPasses t)"

text \<open>
  The ids a route works on: the object passed on to the decoder below, its ids, and how far the
  clean path came.
\<close>

record prepared =
  p_ids :: js_input
  p_values :: "u32 list"
  p_firstMiss :: nat
  p_prefix :: jstring

text \<open>The loop of \<^verbatim>\<open>fusedTokenIds\<close>.\<close>

fun fused_loop ::
  "(jsval \<Rightarrow> bool) \<Rightarrow> entry list \<Rightarrow> nat \<Rightarrow> jsval list \<Rightarrow> u32 list \<Rightarrow> nat \<Rightarrow> jstring \<Rightarrow>
     js_error + (u32 list \<times> nat \<times> jstring)" where
  "fused_loop validate packed index [] ids earliestMiss verified = Inr (ids, earliestMiss, verified)"
| "fused_loop validate packed index (v # vs) ids earliestMiss verified =
     (if \<not> validate v then Inl decode_input_error
      else let tid = u32_of_jsval v; ids1 = ids[index := tid] in
        if index < earliestMiss
        then (case packed_string packed tid of
                None \<Rightarrow> fused_loop validate packed (Suc index) vs ids1 index verified
              | Some value \<Rightarrow> fused_loop validate packed (Suc index) vs ids1 earliestMiss (verified @ value))
        else fused_loop validate packed (Suc index) vs ids1 earliestMiss verified)"

definition fusedTokenIds ::
  "table_config \<Rightarrow> js_input \<Rightarrow> nat \<Rightarrow> jstring \<Rightarrow> table \<Rightarrow> js_error + prepared" where
  "fusedTokenIds cfg input firstMiss prefix t =
     (case input of
        Typed ids \<Rightarrow> Inr \<lparr>p_ids = input, p_values = ids, p_firstMiss = firstMiss, p_prefix = prefix\<rparr>
      | Arr vs \<Rightarrow>
          try_bind (fused_loop (tc_validate cfg) (tb_table t) 0 vs (replicate (length vs) 0) firstMiss [])
            (\<lambda>(ids, earliestMiss, verifiedPrefix).
             Inr \<lparr>p_ids = Typed ids, p_values = ids, p_firstMiss = earliestMiss,
                  p_prefix = (if earliestMiss = firstMiss \<and> verifiedPrefix = prefix
                              then prefix else verifiedPrefix)\<rparr>)
      | NotIds \<Rightarrow> Inl decode_input_error)"

subsection \<open>Routes\<close>

text \<open>
  Calls on parts of the pair of states: the table alone, its byte strings, its Latin-1 decoder,
  and the decoder below.
\<close>

type_synonym ('i, 'a) table_js = "('i \<times> table, 'a) js"

definition on_table :: "(table, 'a) js \<Rightarrow> ('i, 'a) table_js" where
  "on_table m = js_zoom snd (\<lambda>t s. (fst s, t)) m"

definition count :: "table_counter \<Rightarrow> ('i, unit) table_js" where
  "count k = on_table (js_modify (bump k))"

definition on_bytes :: "(byte_table, 'a) js \<Rightarrow> ('i, 'a) table_js" where
  "on_bytes m = on_table (js_zoom (\<lambda>t. the (tb_bytes t)) (\<lambda>b t. t\<lparr>tb_bytes := Some b\<rparr>) m)"

definition on_latin1 :: "(latin1, 'a) js \<Rightarrow> ('i, 'a) table_js" where
  "on_latin1 m = on_table (js_zoom (\<lambda>t. the (tb_latin1 t)) (\<lambda>l t. t\<lparr>tb_latin1 := Some l\<rparr>) m)"

definition on_inner :: "('i, 'a) js \<Rightarrow> ('i, 'a) table_js" where
  "on_inner m = js_zoom fst (\<lambda>i s. (i, snd s)) m"

definition fallback :: "'i decoder \<Rightarrow> js_input \<Rightarrow> ('i, jstring) table_js" where
  "fallback inner input = js_bind (count FallbackCalls) (\<lambda>_. on_inner (inner input))"

definition decodeBytesInJs :: "core \<Rightarrow> table_config \<Rightarrow> js_input \<Rightarrow> ('i, jstring) table_js" where
  "decodeBytesInJs c cfg input =
     js_bind (count ByteTableCalls) (\<lambda>_. on_bytes (bt_decode c (tc_byteTable cfg) input))"

text \<open>\<^verbatim>\<open>(useNativeLatin1 && latin1?.available) || usePortableLatin1\<close>, and the call it guards.\<close>

definition native_route :: "table_config \<Rightarrow> table \<Rightarrow> bool" where
  "native_route cfg t \<longleftrightarrow> tc_nativeLatin1 cfg \<and>
     (case tb_latin1 t of Some l \<Rightarrow> l1_available l | None \<Rightarrow> False)"

definition latin1_route :: "table_config \<Rightarrow> table \<Rightarrow> bool" where
  "latin1_route cfg t \<longleftrightarrow> native_route cfg t \<or> tc_portableLatin1 cfg"

definition decodeLatin1 :: "core \<Rightarrow> table_config \<Rightarrow> js_input \<Rightarrow> ('i, jstring) table_js" where
  "decodeLatin1 c cfg input = (\<lambda>s.
     if native_route cfg (snd s) then on_latin1 (latin1_decode c input) s
     else on_latin1 (latin1_decodePortable c input) s)"

definition latin1_or :: "core \<Rightarrow> table_config \<Rightarrow> js_input \<Rightarrow> ('i, jstring) table_js \<Rightarrow> ('i, jstring) table_js" where
  "latin1_or c cfg input other = (\<lambda>s.
     if latin1_route cfg (snd s) then decodeLatin1 c cfg input s else other s)"

definition bytes_or_fallback ::
  "core \<Rightarrow> table_config \<Rightarrow> 'i decoder \<Rightarrow> js_input \<Rightarrow> ('i, jstring) table_js" where
  "bytes_or_fallback c cfg inner input = (\<lambda>s.
     if tb_bytes (snd s) = None then fallback inner input s else decodeBytesInJs c cfg input s)"

subsection \<open>Sampling\<close>

record sample =
  s_sampleCount :: nat
  s_sampledDirty :: nat
  s_unknown :: bool

text \<open>
  The sampled positions are \<open>sample * length div count\<close>: with a count below 32 the count is the
  length, otherwise the division by 32 is exact in doubles.
\<close>

fun sample_loop :: "core \<Rightarrow> u32 list \<Rightarrow> nat \<Rightarrow> nat list \<Rightarrow> nat \<Rightarrow> table \<Rightarrow> sample \<times> table" where
  "sample_loop c ids sampleCount [] sampledDirty t =
     (\<lparr>s_sampleCount = sampleCount, s_sampledDirty = sampledDirty, s_unknown = False\<rparr>, t)"
| "sample_loop c ids sampleCount (sample # rest) sampledDirty t =
     (case inspect c (ids ! (sample * length ids div sampleCount)) t of
        (st, t1) \<Rightarrow>
          if st = 3
          then (\<lparr>s_sampleCount = sampleCount, s_sampledDirty = sampledDirty, s_unknown = True\<rparr>, t1)
          else sample_loop c ids sampleCount rest (if st = 2 then sampledDirty + 1 else sampledDirty) t1)"

definition sampleDirty :: "core \<Rightarrow> u32 list \<Rightarrow> ('i, sample) table_js" where
  "sampleDirty c ids = on_table (\<lambda>t.
     case (let sampleCount = min 32 (length ids) in sample_loop c ids sampleCount [0..<sampleCount] 0 t) of
       (s, t1) \<Rightarrow> (Inr s, t1))"

text \<open>A quotient of two counts compared with a bound.\<close>

definition exceeds :: "table_config \<Rightarrow> nat \<Rightarrow> nat \<Rightarrow> rat \<Rightarrow> bool" where
  "exceeds cfg part whole bound \<longleftrightarrow> bound < tc_fl cfg (of_nat part / of_nat whole)"

text \<open>\<^verbatim>\<open>(dirtyIds + runs * mixedRunPenalty) / ids.length > maxMixedDirtyDensity\<close>.\<close>

definition mixed_score_exceeds :: "table_config \<Rightarrow> nat \<Rightarrow> nat \<Rightarrow> nat \<Rightarrow> bool" where
  "mixed_score_exceeds cfg dirtyIds runs len \<longleftrightarrow>
     tc_maxMixedDirtyDensity cfg <
       tc_fl cfg (tc_fl cfg (of_nat dirtyIds + tc_fl cfg (of_nat runs * tc_mixedRunPenalty cfg)) / of_nat len)"

subsection \<open>Dirty runs\<close>

record dirty_run =
  dr_start :: nat
  dr_end :: nat
  dr_bytes :: jstring

datatype piece = PClean jstring | PRun nat

fun js_map :: "('a \<Rightarrow> ('s, 'b) js) \<Rightarrow> 'a list \<Rightarrow> ('s, 'b list) js" where
  "js_map f [] = js_ret []"
| "js_map f (x # xs) = js_bind (f x) (\<lambda>y. js_bind (js_map f xs) (\<lambda>ys. js_ret (y # ys)))"

text \<open>\<^verbatim>\<open>runCache.decode(ids, start, end, decodeRun)\<close>, or the call itself without a cache.\<close>

definition cached_run ::
  "u32 list \<Rightarrow> nat \<Rightarrow> nat \<Rightarrow> ('i, jstring) table_js \<Rightarrow> ('i, jstring) table_js" where
  "cached_run ids start end' decodeRun = (\<lambda>s.
     case tb_runs (snd s) of
       None \<Rightarrow> decodeRun s
     | Some rc \<Rightarrow>
         (case run_cache_decode ids start end' decodeRun (rc, s) of
            (r, (rc', s')) \<Rightarrow> (r, (fst s', (snd s')\<lparr>tb_runs := Some rc'\<rparr>))))"

definition batch_separator :: jstring where
  "batch_separator = latin1 sep_bytes"

definition decodeDirtyRuns :: "u32 list \<Rightarrow> dirty_run list \<Rightarrow> ('i, jstring list) table_js" where
  "decodeDirtyRuns ids runs =
     js_bind
       (if 1 < length runs \<and> list_all (\<lambda>run. \<not> js_includes batch_separator (dr_bytes run)) runs
        then js_bind (on_bytes (bt_decodeByteString (js_join batch_separator (map dr_bytes runs)))) (\<lambda>decoded.
          let separated = js_split 0xFFFF decoded in
          if length separated = length runs
          then js_bind (count DirtyBatchCalls) (\<lambda>_.
               js_bind (on_table (js_modify (bump_by (length runs) DirtyBatchRuns))) (\<lambda>_.
               js_ret (Some separated)))
          else js_ret None)
        else js_ret None)
       (\<lambda>decodedRuns. case decodedRuns of
          Some separated \<Rightarrow> js_ret separated
        | None \<Rightarrow>
            js_bind (if 1 < length runs then count DirtyBatchFallbackCalls else js_ret ()) (\<lambda>_.
            js_map (\<lambda>run. cached_run ids (dr_start run) (dr_end run)
                      (on_bytes (bt_decodeByteString (dr_bytes run)))) runs))"

fun piece_text :: "jstring list \<Rightarrow> piece \<Rightarrow> jstring" where
  "piece_text decodedRuns (PClean s) = s"
| "piece_text decodedRuns (PRun k) = decodedRuns ! k"

subsection \<open>The run stitcher\<close>

text \<open>The local variables of \<^verbatim>\<open>decodeRunStitched\<close> that its two flushes share.\<close>

record stitch =
  st_pieces :: "piece list"
  st_runs :: "dirty_run list"
  st_clean :: jstring
  st_dirtyBytes :: jstring
  st_dirtyStart :: nat
  st_dirtyIds :: nat

definition flushClean :: "stitch \<Rightarrow> stitch" where
  "flushClean st =
     (if st_clean st = [] then st
      else st\<lparr>st_pieces := st_pieces st @ [PClean (st_clean st)], st_clean := []\<rparr>)"

definition flushDirty :: "nat \<Rightarrow> stitch \<Rightarrow> ('i, stitch) table_js" where
  "flushDirty end' st =
     (if st_dirtyBytes st = [] then js_ret st
      else js_bind (count DirtyRunCalls) (\<lambda>_. js_ret
        (st\<lparr>st_runs := st_runs st @ [\<lparr>dr_start = st_dirtyStart st, dr_end = end', dr_bytes = st_dirtyBytes st\<rparr>],
            st_pieces := st_pieces st @ [PRun (length (st_runs st))],
            st_dirtyBytes := []\<rparr>)))"

text \<open>How the loop of a route leaves: with the decoder below, or having seen all ids.\<close>

datatype 'a route = ToFallback | Through 'a

definition dirty_string_of :: "core \<Rightarrow> table_config \<Rightarrow> u32 \<Rightarrow> ('i, jstring) table_js" where
  "dirty_string_of c cfg tid =
     js_bind (on_bytes (bt_byteString c (tc_byteTable cfg) tid)) (\<lambda>value.
       case value of
         None \<Rightarrow> js_throw (PlainError ''dirty byte-string table did not converge'')
       | Some s \<Rightarrow> js_ret s)"

definition count_mixed_fallback :: "table_config \<Rightarrow> nat \<Rightarrow> nat \<Rightarrow> ('i, unit) table_js" where
  "count_mixed_fallback cfg dirtyIds len =
     js_bind (count DirtyFallbackCalls) (\<lambda>_.
       if exceeds cfg dirtyIds len (tc_maxMixedDirtyDensity cfg) then count MixedDensityFallbackCalls
       else count MixedRunFallbackCalls)"

fun stitch_loop ::
  "core \<Rightarrow> table_config \<Rightarrow> nat \<Rightarrow> nat \<Rightarrow> u32 list \<Rightarrow> stitch \<Rightarrow> ('i, stitch route) table_js" where
  "stitch_loop c cfg len index [] st = js_ret (Through st)"
| "stitch_loop c cfg len index (tid # ids) st =
     js_bind (on_table (\<lambda>t. map_prod Inr (\<lambda>t. t) (inspect c tid t))) (\<lambda>state.
       if state = 3 then js_bind (count UnknownFallbackCalls) (\<lambda>_. js_ret ToFallback)
       else if state = 1 then
         js_bind (flushDirty index st) (\<lambda>st1.
         js_bind (on_table (materialize c tid)) (\<lambda>value.
           case value of
             None \<Rightarrow> js_throw (PlainError ''decode table materialization did not converge'')
           | Some s \<Rightarrow> stitch_loop c cfg len (Suc index) ids (st1\<lparr>st_clean := st_clean st1 @ s\<rparr>)))
       else
         let st1 = flushClean st;
             st2 = (if st_dirtyBytes st1 = [] then st1\<lparr>st_dirtyStart := index\<rparr> else st1);
             dirtyIds = st_dirtyIds st2 + 1;
             currentRuns = length (st_runs st2) + 1
         in if mixed_score_exceeds cfg dirtyIds currentRuns len
            then js_bind (count_mixed_fallback cfg dirtyIds len) (\<lambda>_. js_ret ToFallback)
            else js_bind (dirty_string_of c cfg tid) (\<lambda>value.
              stitch_loop c cfg len (Suc index) ids
                (st2\<lparr>st_dirtyIds := dirtyIds, st_dirtyBytes := st_dirtyBytes st2 @ value\<rparr>)))"

definition stitch_finish :: "'i decoder \<Rightarrow> prepared \<Rightarrow> stitch \<Rightarrow> ('i, jstring) table_js" where
  "stitch_finish inner prep st0 =
     js_bind (flushDirty (length (p_values prep)) st0) (\<lambda>st1.
     let st = flushClean st1 in
     if st_runs st = [] then
       js_bind (count TableCalls) (\<lambda>_.
       js_bind (count RunStitcherCalls) (\<lambda>_.
       js_ret (case st_pieces st of [] \<Rightarrow> [] | p # _ \<Rightarrow> piece_text [] p)))
     else if length (st_pieces st) = 1 then
       js_bind (count RunStitcherCalls) (\<lambda>_. fallback inner (p_ids prep))
     else
       js_bind (decodeDirtyRuns (p_values prep) (st_runs st)) (\<lambda>decodedRuns.
       js_bind (count TableCalls) (\<lambda>_.
       js_bind (count MixedCalls) (\<lambda>_.
       js_bind (count RunStitcherCalls) (\<lambda>_.
       js_ret (concat (map (piece_text decodedRuns) (st_pieces st))))))))"

definition decodeRunStitched :: "core \<Rightarrow> table_config \<Rightarrow> 'i decoder \<Rightarrow> prepared \<Rightarrow> ('i, jstring) table_js" where
  "decodeRunStitched c cfg inner prep =
     (let ids = p_values prep in
     js_bind (sampleDirty c ids) (\<lambda>sampled.
     if s_unknown sampled then
       js_bind (count UnknownFallbackCalls) (\<lambda>_. fallback inner (p_ids prep))
     else if exceeds cfg (s_sampledDirty sampled) (s_sampleCount sampled) (tc_maxMixedDirtyDensity cfg) then
       js_bind (count DirtyFallbackCalls) (\<lambda>_.
       js_bind (count SampledFallbackCalls) (\<lambda>_.
       js_bind (count MixedDensityFallbackCalls) (\<lambda>_. fallback inner (p_ids prep))))
     else
       js_bind (stitch_loop c cfg (length ids) (p_firstMiss prep) (drop (p_firstMiss prep) ids)
         \<lparr>st_pieces = [], st_runs = [], st_clean = p_prefix prep, st_dirtyBytes = [],
          st_dirtyStart = 0, st_dirtyIds = 0\<rparr>) (\<lambda>rt.
       case rt of
         ToFallback \<Rightarrow> fallback inner (p_ids prep)
       | Through st \<Rightarrow> stitch_finish inner prep st)))"

subsection \<open>The careful route\<close>

text \<open>How the classification of the ids ends: early for one of three reasons, or with the dirty ids.\<close>

datatype classified = UnknownSeen | MixedTooDirty nat | TooDirty | AllSeen nat

fun classify_loop ::
  "core \<Rightarrow> table_config \<Rightarrow> nat \<Rightarrow> u32 list \<Rightarrow> nat \<Rightarrow> nat \<Rightarrow> bool \<Rightarrow> (table, classified) js" where
  "classify_loop c cfg len [] dirtyIds dirtyRuns previousDirty t = (Inr (AllSeen dirtyIds), t)"
| "classify_loop c cfg len (tid # ids) dirtyIds dirtyRuns previousDirty t =
     (case inspect c tid t of
        (st, t1) \<Rightarrow>
          if st = 3 then (Inr UnknownSeen, t1)
          else if st = 1
          then js_bind (materialize c tid) (\<lambda>_. classify_loop c cfg len ids dirtyIds dirtyRuns False) t1
          else
            let dirtyIds1 = dirtyIds + 1;
                dirtyRuns1 = (if previousDirty then dirtyRuns else dirtyRuns + 1)
            in if tc_mixedRuns cfg \<and> mixed_score_exceeds cfg dirtyIds1 dirtyRuns1 len
               then (Inr (MixedTooDirty dirtyIds1), t1)
               else if \<not> tc_mixedRuns cfg \<and> exceeds cfg dirtyIds1 len (tc_maxDirtyDensity cfg)
               then (Inr TooDirty, t1)
               else classify_loop c cfg len ids dirtyIds1 dirtyRuns1 True t1)"

text \<open>The join when every id turned out clean.\<close>

fun join_clean :: "entry list \<Rightarrow> u32 list \<Rightarrow> jstring \<Rightarrow> js_error + jstring" where
  "join_clean packed [] out = Inr out"
| "join_clean packed (tid # ids) out =
     (case packed_string packed tid of
        None \<Rightarrow> Inl (PlainError ''decode table restart did not converge'')
      | Some value \<Rightarrow> join_clean packed ids (out @ value))"

text \<open>
  The inner \<^verbatim>\<open>do ... while\<close> loop over a dirty run: the first id is taken as it is, the next ones
  while their entry is \<^verbatim>\<open>DIRTY\<close>. It yields the ids of the run.
\<close>

definition is_dirty_entry :: "entry list \<Rightarrow> u32 \<Rightarrow> bool" where
  "is_dirty_entry packed tid \<longleftrightarrow> unat tid < length packed \<and> packed ! unat tid = EDirty"

definition optional_byteString :: "core \<Rightarrow> table_config \<Rightarrow> u32 \<Rightarrow> ('i, jstring option) table_js" where
  "optional_byteString c cfg tid = (\<lambda>s.
     if tb_bytes (snd s) = None then (Inr None, s)
     else on_bytes (bt_byteString c (tc_byteTable cfg) tid) s)"

function dirty_run_loop ::
  "core \<Rightarrow> table_config \<Rightarrow> bool \<Rightarrow> u32 list \<Rightarrow> nat \<Rightarrow> jstring \<Rightarrow> ('i, nat \<times> jstring) table_js" where
  "dirty_run_loop c cfg must ids index bytes s =
     (case optional_byteString c cfg (ids ! index) s of
        (Inl e, s1) \<Rightarrow> (Inl e, s1)
      | (Inr value, s1) \<Rightarrow>
          if must \<and> value = None
          then (Inl (PlainError ''dirty byte-string table did not converge''), s1)
          else
            let bytes1 = bytes @ (case value of None \<Rightarrow> [] | Some v \<Rightarrow> v)
            in if Suc index < length ids \<and> is_dirty_entry (tb_table (snd s1)) (ids ! Suc index)
               then dirty_run_loop c cfg must ids (Suc index) bytes1 s1
               else (Inr (Suc index, bytes1), s1))"
  by pat_completeness auto
termination
  by (relation "measure (\<lambda>(c, cfg, must, ids, index, bytes, s). length ids - index)") auto

declare dirty_run_loop.simps [simp del]

text \<open>The batched assembly: pieces and runs, with a bound on the turns of the outer loop.\<close>

fun batch_loop ::
  "core \<Rightarrow> table_config \<Rightarrow> nat \<Rightarrow> u32 list \<Rightarrow> nat \<Rightarrow> piece list \<Rightarrow> dirty_run list \<Rightarrow>
     ('i, piece list \<times> dirty_run list) table_js" where
  "batch_loop c cfg 0 ids index pieces runs s = (Inr (pieces, runs), s)"
| "batch_loop c cfg (Suc fuel) ids index pieces runs s =
     (if length ids \<le> index then (Inr (pieces, runs), s)
      else case packed_string (tb_table (snd s)) (ids ! index) of
        Some value \<Rightarrow> batch_loop c cfg fuel ids (Suc index) (pieces @ [PClean value]) runs s
      | None \<Rightarrow>
          (case dirty_run_loop c cfg True ids index [] s of
             (Inl e, s1) \<Rightarrow> (Inl e, s1)
           | (Inr (end', bytes), s1) \<Rightarrow>
               js_bind (count DirtyRunCalls) (\<lambda>_.
                 batch_loop c cfg fuel ids end' (pieces @ [PRun (length runs)])
                   (runs @ [\<lparr>dr_start = index, dr_end = end', dr_bytes = bytes\<rparr>])) s1))"

text \<open>The bytes of a run gathered again inside \<^verbatim>\<open>decodeRun\<close>.\<close>

fun gather_run :: "core \<Rightarrow> table_config \<Rightarrow> u32 list \<Rightarrow> jstring \<Rightarrow> ('i, jstring) table_js" where
  "gather_run c cfg [] bytes = js_ret bytes"
| "gather_run c cfg (tid # ids) bytes =
     js_bind (on_bytes (bt_byteString c (tc_byteTable cfg) tid)) (\<lambda>value.
       gather_run c cfg ids (bytes @ (case value of Some v \<Rightarrow> v | None \<Rightarrow> map (\<lambda>ch. of_nat (of_char ch)) ''undefined'')))"

definition decode_gathered :: "core \<Rightarrow> table_config \<Rightarrow> u32 list \<Rightarrow> ('i, jstring) table_js" where
  "decode_gathered c cfg run =
     js_bind (gather_run c cfg run []) (\<lambda>bytes. on_bytes (bt_decodeByteString bytes))"

text \<open>A part of the ids as the object handed to the decoder below.\<close>

fun slice_input :: "js_input \<Rightarrow> nat \<Rightarrow> nat \<Rightarrow> js_input" where
  "slice_input (Typed ids) start end' = Typed (take (end' - start) (drop start ids))"
| "slice_input (Arr vs) start end' = Arr (take (end' - start) (drop start vs))"
| "slice_input NotIds start end' = NotIds"

text \<open>The unbatched assembly.\<close>

fun mixed_loop ::
  "core \<Rightarrow> table_config \<Rightarrow> 'i decoder \<Rightarrow> nat \<Rightarrow> prepared \<Rightarrow> nat \<Rightarrow> jstring \<Rightarrow> ('i, jstring) table_js" where
  "mixed_loop c cfg inner 0 prep index out s = (Inr out, s)"
| "mixed_loop c cfg inner (Suc fuel) prep index out s =
     (let ids = p_values prep in
      if length ids \<le> index then (Inr out, s)
      else case packed_string (tb_table (snd s)) (ids ! index) of
        Some value \<Rightarrow> mixed_loop c cfg inner fuel prep (Suc index) (out @ value) s
      | None \<Rightarrow>
          js_bind (dirty_run_loop c cfg (tc_mixedRuns cfg) ids index []) (\<lambda>(end', _).
          js_bind
            (if tc_mixedRuns cfg
             then cached_run ids index end' (decode_gathered c cfg (take (end' - index) (drop index ids)))
             else on_inner (inner (slice_input (p_ids prep) index end'))) (\<lambda>decoded.
          js_bind (count DirtyRunCalls) (\<lambda>_.
          mixed_loop c cfg inner fuel prep end' (out @ decoded)))) s)"

definition careful_join ::
  "core \<Rightarrow> table_config \<Rightarrow> 'i decoder \<Rightarrow> prepared \<Rightarrow> nat \<Rightarrow> ('i, jstring) table_js" where
  "careful_join c cfg inner prep dirtyIds =
     (let ids = p_values prep; firstMiss = p_firstMiss prep; fuel = length ids + 1 in
     if dirtyIds = 0 then
       js_bind (\<lambda>s. (join_clean (tb_table (snd s)) (drop firstMiss ids) (p_prefix prep), s)) (\<lambda>out.
       js_bind (count TableCalls) (\<lambda>_. js_ret out))
     else if tc_dirtyRunBatch cfg then
       js_bind (batch_loop c cfg fuel ids firstMiss [] []) (\<lambda>(pieces, runs).
       js_bind (decodeDirtyRuns ids runs) (\<lambda>decodedRuns.
       js_bind (count TableCalls) (\<lambda>_.
       js_bind (count MixedCalls) (\<lambda>_.
       js_ret (p_prefix prep @ concat (map (piece_text decodedRuns) pieces))))))
     else
       js_bind (mixed_loop c cfg inner fuel prep firstMiss (p_prefix prep)) (\<lambda>out.
       js_bind (count TableCalls) (\<lambda>_.
       js_bind (count MixedCalls) (\<lambda>_. js_ret out))))"

definition prepare :: "table_config \<Rightarrow> js_input \<Rightarrow> nat \<Rightarrow> jstring \<Rightarrow> ('i, prepared) table_js" where
  "prepare cfg input firstMiss prefix = (\<lambda>s.
     (if tc_fusedValidation cfg then fusedTokenIds cfg input firstMiss prefix (snd s)
      else try_bind (tokenIds input) (\<lambda>ids.
        Inr \<lparr>p_ids = input, p_values = ids, p_firstMiss = 0, p_prefix = []\<rparr>), s))"

definition careful_sampled ::
  "core \<Rightarrow> table_config \<Rightarrow> 'i decoder \<Rightarrow> prepared \<Rightarrow> sample \<Rightarrow> ('i, jstring) table_js" where
  "careful_sampled c cfg inner prep sampled =
     (let input = p_ids prep; len = length (p_values prep) in
     if s_unknown sampled then
       js_bind (count UnknownFallbackCalls) (\<lambda>_. fallback inner input)
     else if tc_mixedRuns cfg \<and>
       exceeds cfg (s_sampledDirty sampled) (s_sampleCount sampled) (tc_maxMixedDirtyDensity cfg) then
       js_bind (count DirtyFallbackCalls) (\<lambda>_.
       js_bind (count SampledFallbackCalls) (\<lambda>_.
       js_bind (count MixedDensityFallbackCalls) (\<lambda>_.
       latin1_or c cfg input (fallback inner input))))
     else if \<not> tc_mixedRuns cfg \<and>
       exceeds cfg (s_sampledDirty sampled) (s_sampleCount sampled) (tc_maxDirtyDensity cfg) then
       js_bind (count DirtyFallbackCalls) (\<lambda>_.
       js_bind (count SampledFallbackCalls) (\<lambda>_.
       latin1_or c cfg input (bytes_or_fallback c cfg inner input)))
     else
       js_bind (on_table (classify_loop c cfg len (drop (p_firstMiss prep) (p_values prep)) 0 0 False))
       (\<lambda>seen. case seen of
          UnknownSeen \<Rightarrow>
            js_bind (count UnknownFallbackCalls) (\<lambda>_. latin1_or c cfg input (fallback inner input))
        | MixedTooDirty dirtyIds \<Rightarrow>
            js_bind (count_mixed_fallback cfg dirtyIds len) (\<lambda>_. fallback inner input)
        | TooDirty \<Rightarrow>
            js_bind (count DirtyFallbackCalls) (\<lambda>_.
              latin1_or c cfg input (bytes_or_fallback c cfg inner input))
        | AllSeen dirtyIds \<Rightarrow> careful_join c cfg inner prep dirtyIds))"

definition decodeCareful ::
  "core \<Rightarrow> table_config \<Rightarrow> 'i decoder \<Rightarrow> js_input \<Rightarrow> nat \<Rightarrow> jstring \<Rightarrow> sample option \<Rightarrow> ('i, jstring) table_js"
where
  "decodeCareful c cfg inner input firstMiss prefix given =
     js_bind (prepare cfg input firstMiss prefix) (\<lambda>prep.
     if tc_runStitcher cfg then decodeRunStitched c cfg inner prep
     else js_bind (case given of Some s \<Rightarrow> js_ret s | None \<Rightarrow> sampleDirty c (p_values prep))
       (careful_sampled c cfg inner prep))"

subsection \<open>The decode call\<close>

fun input_length :: "js_input \<Rightarrow> nat" where
  "input_length (Typed ids) = length ids"
| "input_length (Arr vs) = length vs"
| "input_length NotIds = 0"

definition join_or_careful ::
  "core \<Rightarrow> table_config \<Rightarrow> 'i decoder \<Rightarrow> js_input \<Rightarrow> sample option \<Rightarrow> ('i, jstring) table_js" where
  "join_or_careful c cfg inner input sampled =
     js_bind (on_table (\<lambda>t. map_prod Inr (\<lambda>t. t) (joinKnownClean cfg input t))) (\<lambda>attempt.
       case attempt of
         Joined out \<Rightarrow> js_bind (count TableCalls) (\<lambda>_. js_ret out)
       | Miss firstMiss prefix \<Rightarrow> decodeCareful c cfg inner input firstMiss prefix sampled)"

definition decodePrepared ::
  "core \<Rightarrow> table_config \<Rightarrow> 'i decoder \<Rightarrow> js_input \<Rightarrow> bool \<Rightarrow> ('i, jstring) table_js" where
  "decodePrepared c cfg inner input preparedByScratch =
     (if input_length input = 0 then js_bind (count TableCalls) (\<lambda>_. js_ret [])
      else if \<not> tc_runStitcher cfg \<and> tc_maxTableIds cfg < input_length input then
        js_bind (js_lift (tokenIds input)) (\<lambda>_.
        js_bind (count LargeFallbackCalls) (\<lambda>_. fallback inner input))
      else if preparedByScratch \<and> \<not> tc_runStitcher cfg then
        js_bind (sampleDirty c (projr (tokenIds input))) (\<lambda>sampled.
        if s_unknown sampled then
          js_bind (count UnknownFallbackCalls) (\<lambda>_.
          js_bind (count DirectScratchCalls) (\<lambda>_. fallback inner input))
        else if exceeds cfg (s_sampledDirty sampled) (s_sampleCount sampled) (tc_maxMixedDirtyDensity cfg) then
          js_bind (count DirtyFallbackCalls) (\<lambda>_.
          js_bind (count SampledFallbackCalls) (\<lambda>_.
          js_bind (count MixedDensityFallbackCalls) (\<lambda>_.
          js_bind (count DirectScratchCalls) (\<lambda>_. fallback inner input))))
        else join_or_careful c cfg inner input (Some sampled))
      else join_or_careful c cfg inner input None)"

definition table_decode :: "core \<Rightarrow> table_config \<Rightarrow> 'i decoder \<Rightarrow> js_input \<Rightarrow> ('i, jstring) table_js" where
  "table_decode c cfg inner input =
     (if input = NotIds then js_throw decode_input_error
      else js_bind (on_table (table_initialize c cfg)) (\<lambda>_ s.
        case (tb_scratch (snd s), input) of
          (Some _, Arr vs) \<Rightarrow>
            withValidated (\<lambda>s. the (tb_scratch (snd s)))
              (\<lambda>x s. (fst s, (snd s)\<lparr>tb_scratch := Some x\<rparr>))
              (tc_validate cfg) vs
              (\<lambda>ids. decodePrepared c cfg inner (Typed ids) True) s
        | _ \<Rightarrow> decodePrepared c cfg inner input False s))"

definition tokenString :: "core \<Rightarrow> jsval \<Rightarrow> table \<Rightarrow> jstring option" where
  "tokenString c v t =
     (if \<not> number_isInteger v then None
      else case v of
        JNum q \<Rightarrow> if q < 0 \<or> of_nat (c_vocabSize c) \<le> q then None
                  else packed_string (tb_table t) (of_nat (nat_of_jsval v))
      | _ \<Rightarrow> None)"

end
