(* ===== verification/Decode_Table_Exact.thy ===== *)
theory Decode_Table_Exact
  imports Decode_Table
begin

text \<open>
  Exactness of the decode table: whatever its options, its caches and the calls made before, a
  table over an exact decoder is an exact decoder. The proof follows the routes of
  \<^verbatim>\<open>hypertok-js/src/decode-table.mjs\<close>: token texts and their boundaries, the table's invariant,
  one lemma per route, and the call as a whole.
\<close>

subsection \<open>Texts of id sequences\<close>

text \<open>The state of a token as the table records it: 1 clean, 2 dirty, 3 unknown.\<close>

definition tok_state :: "core \<Rightarrow> u32 \<Rightarrow> u8" where
  "tok_state c tid = (case c_tokenBytes c tid of Inl _ \<Rightarrow> 3 | Inr bs \<Rightarrow> if isValidUtf8 bs then 1 else 2)"

definition known :: "core \<Rightarrow> u32 list \<Rightarrow> bool" where
  "known c ids \<longleftrightarrow> (\<forall>tid \<in> set ids. tok_state c tid \<noteq> 3)"

definition id_bytes :: "core \<Rightarrow> u32 list \<Rightarrow> bytes" where
  "id_bytes c ids = concat (map (\<lambda>tid. tok_bytes c (unat tid)) ids)"

definition id_text :: "core \<Rightarrow> u32 list \<Rightarrow> jstring" where
  "id_text c ids = utf8_lossy (id_bytes c ids)"

lemma tok_state_eqs:
  "tok_state c tid = 3 \<longleftrightarrow> (\<exists>e. c_tokenBytes c tid = Inl e)"
  "tok_state c tid = 1 \<longleftrightarrow> (\<exists>bs. c_tokenBytes c tid = Inr bs \<and> isValidUtf8 bs)"
  "tok_state c tid = 2 \<longleftrightarrow> (\<exists>bs. c_tokenBytes c tid = Inr bs \<and> \<not> isValidUtf8 bs)"
  by (cases "c_tokenBytes c tid"; simp add: tok_state_def)+

lemma tok_state_cases: "tok_state c tid = 1 \<or> tok_state c tid = 2 \<or> tok_state c tid = 3"
  by (simp add: tok_state_def split: sum.splits)

lemma tok_state_nonzero [simp]: "tok_state c tid \<noteq> 0"
  by (simp add: tok_state_def split: sum.splits)

lemma known_simps [simp]:
  "known c []" "known c (tid # ids) \<longleftrightarrow> tok_state c tid \<noteq> 3 \<and> known c ids"
  "known c (xs @ ys) \<longleftrightarrow> known c xs \<and> known c ys"
  by (auto simp: known_def)

lemma id_bytes_simps [simp]:
  "id_bytes c [] = []" "id_bytes c (tid # ids) = tok_bytes c (unat tid) @ id_bytes c ids"
  "id_bytes c (xs @ ys) = id_bytes c xs @ id_bytes c ys"
  by (simp_all add: id_bytes_def)

lemma ref_bytes_known: "ref_bytes c ids = (if known c ids then Some (id_bytes c ids) else None)"
proof (induction ids)
  case (Cons tid ids)
  then show ?case
    by (cases "c_tokenBytes c tid") (auto simp: ref_bytes_Cons tok_state_eqs tok_bytes_id(1))
qed simp

lemma ref_text_known: "ref_text c ids = (if known c ids then Some (id_text c ids) else None)"
  by (simp add: ref_text_def ref_bytes_known id_text_def)

lemma id_text_Nil [simp]: "id_text c [] = []"
  by (simp add: id_text_def)

lemma clean_wellformed: "tok_state c tid = 1 \<Longrightarrow> utf8_wellformed (tok_bytes c (unat tid))"
  by (auto simp: tok_state_eqs tok_bytes_id(1) simp flip: isValidUtf8_iff_wellformed)

lemma known_nonempty: "core_laws c \<Longrightarrow> tok_state c tid \<noteq> 3 \<Longrightarrow> tok_bytes c (unat tid) \<noteq> []"
  by (cases "c_tokenBytes c tid") (auto simp: tok_state_eqs tok_bytes_id(1) dest: core_laws_token)

lemma known_in_range: "core_laws c \<Longrightarrow> tok_state c tid \<noteq> 3 \<Longrightarrow> unat tid < c_vocabSize c"
  by (cases "c_tokenBytes c tid") (auto simp: tok_state_eqs dest: core_laws_token)

lemma id_bytes_eq_Nil: "core_laws c \<Longrightarrow> known c ids \<Longrightarrow> id_bytes c ids = [] \<longleftrightarrow> ids = []"
  by (cases ids) (auto simp: known_nonempty)

text \<open>A clean token is a boundary on both sides.\<close>

definition clean :: "core \<Rightarrow> u32 list \<Rightarrow> bool" where
  "clean c ids \<longleftrightarrow> (\<forall>tid \<in> set ids. tok_state c tid = 1)"

lemma clean_simps [simp]:
  "clean c []" "clean c (tid # ids) \<longleftrightarrow> tok_state c tid = 1 \<and> clean c ids"
  "clean c (xs @ ys) \<longleftrightarrow> clean c xs \<and> clean c ys"
  by (auto simp: clean_def)

lemma clean_known: "clean c ids \<Longrightarrow> known c ids"
  by (auto simp: clean_def known_def)

lemma id_text_clean_Cons: "tok_state c tid = 1 \<Longrightarrow> id_text c (tid # ids) = id_text c [tid] @ id_text c ids"
  by (simp add: id_text_def utf8_lossy_append_wellformed clean_wellformed)

lemma clean_bytes_wellformed: "clean c xs \<Longrightarrow> utf8_wellformed (id_bytes c xs)"
  by (induction xs) (simp_all add: utf8_wellformed_append clean_wellformed)

lemma id_text_clean_append: "clean c xs \<Longrightarrow> id_text c (xs @ ys) = id_text c xs @ id_text c ys"
  by (simp add: id_text_def utf8_lossy_append_wellformed clean_bytes_wellformed)

lemma id_text_append_clean:
  assumes "core_laws c" and "ys = [] \<or> tok_state c (hd ys) = 1"
  shows "id_text c (xs @ ys) = id_text c xs @ id_text c ys"
proof (cases ys)
  case (Cons tid r)
  then have one: "tok_state c tid = 1" using assms(2) by simp
  then have "tok_bytes c (unat tid) \<noteq> []" using known_nonempty [OF assms(1)] by simp
  then have "starts_fresh (id_bytes c ys)"
    using wellformed_starts_fresh [OF clean_wellformed [OF one]] Cons by (simp add: starts_fresh_append)
  then show ?thesis by (simp add: id_text_def utf8_lossy_append_fresh)
qed simp

lemma id_text_single: "tok_state c tid = 1 \<Longrightarrow> c_tokenBytes c tid = Inr bs \<Longrightarrow> id_text c [tid] = fst (decodeValidUtf8 bs)"
  by (simp add: id_text_def tok_bytes_id(1) tok_state_eqs decodeValidUtf8_lossy flip: isValidUtf8_iff_wellformed)

subsection \<open>The table's invariant\<close>

definition entry_ok :: "core \<Rightarrow> u32 \<Rightarrow> entry \<Rightarrow> u8 \<Rightarrow> bool" where
  "entry_ok c tid e st \<longleftrightarrow> (st = 0 \<or> st = tok_state c tid) \<and>
     (case e of EText s \<Rightarrow> st = 1 \<and> s = id_text c [tid] | EUntouched \<Rightarrow> st = 0 \<or> st = 1
      | EDirty \<Rightarrow> st = 2 | EMissing \<Rightarrow> st = 3)"

definition entries_ok :: "core \<Rightarrow> table \<Rightarrow> bool" where
  "entries_ok c t \<longleftrightarrow> length (tb_table t) = c_vocabSize c \<and> length (tb_status t) = c_vocabSize c \<and>
     length (tb_lengths t) = c_vocabSize c \<and>
     (\<forall>tid. unat tid < c_vocabSize c \<longrightarrow> entry_ok c tid (tb_table t ! unat tid) (tb_status t ! unat tid))"

definition parts_ok :: "core \<Rightarrow> table_config \<Rightarrow> table \<Rightarrow> bool" where
  "parts_ok c cfg t \<longleftrightarrow>
     (tb_bytes t \<noteq> None \<longleftrightarrow> tc_byteTable cfg \<or> tc_mixedRuns cfg) \<and>
     (\<forall>b. tb_bytes t = Some b \<longrightarrow> bt_ok c (tc_byteTable cfg) b) \<and>
     (tb_runs t \<noteq> None \<longrightarrow> tc_mixedRuns cfg) \<and>
     (\<forall>rc. tb_runs t = Some rc \<longrightarrow> rc_wf rc \<and> rc_sound (id_text c) rc) \<and>
     (tb_latin1 t \<noteq> None \<longleftrightarrow> tc_nativeLatin1 cfg \<or> tc_portableLatin1 cfg) \<and>
     (\<forall>l. tb_latin1 t = Some l \<longrightarrow> latin1_ok c l \<and> l1_portable l = tc_portableLatin1 cfg)"

definition config_ok :: "table_config \<Rightarrow> bool" where
  "config_ok cfg \<longleftrightarrow> (tc_directScratch cfg \<longrightarrow> tc_mixedRuns cfg) \<and>
     (tc_dirtyRunBatch cfg \<longrightarrow> tc_mixedRuns cfg) \<and> (tc_runStitcher cfg \<longrightarrow> tc_dirtyRunBatch cfg)"

definition table_ok :: "core \<Rightarrow> table_config \<Rightarrow> table \<Rightarrow> bool" where
  "table_ok c cfg t \<longleftrightarrow> core_laws c \<and> config_ok cfg \<and> entries_ok c t \<and> parts_ok c cfg t"

text \<open>What a later state of the same table keeps: the strings and the dirty marks.\<close>

definition table_ext :: "table \<Rightarrow> table \<Rightarrow> bool" where
  "table_ext t t' \<longleftrightarrow>
     (\<forall>tid s. packed_string (tb_table t) tid = Some s \<longrightarrow> packed_string (tb_table t') tid = Some s) \<and>
     (\<forall>tid. is_dirty_entry (tb_table t) tid \<longrightarrow> is_dirty_entry (tb_table t') tid)"

lemma table_ext_refl [simp]: "table_ext t t"
  by (simp add: table_ext_def)

lemma table_ext_trans: "table_ext t u \<Longrightarrow> table_ext u v \<Longrightarrow> table_ext t v"
  by (simp add: table_ext_def)

lemma table_ext_same: "tb_table t' = tb_table t \<Longrightarrow> table_ext t t'"
  by (simp add: table_ext_def)

lemma bump_fields [simp]:
  "tb_table (bump_by n k t) = tb_table t" "tb_status (bump_by n k t) = tb_status t"
  "tb_lengths (bump_by n k t) = tb_lengths t" "tb_bytes (bump_by n k t) = tb_bytes t"
  "tb_runs (bump_by n k t) = tb_runs t" "tb_latin1 (bump_by n k t) = tb_latin1 t"
  "tb_scratch (bump_by n k t) = tb_scratch t" "tb_initialized (bump_by n k t) = tb_initialized t"
  by (simp_all add: bump_by_def)

lemma table_ok_bump [simp]: "table_ok c cfg (bump_by n k t) = table_ok c cfg t"
  by (simp add: table_ok_def entries_ok_def parts_ok_def)

lemma table_ok_initialized [simp]: "table_ok c cfg (t\<lparr>tb_initialized := b\<rparr>) = table_ok c cfg t"
  "table_ok c cfg (t\<lparr>tb_scratch := s\<rparr>) = table_ok c cfg t"
  by (simp_all add: table_ok_def entries_ok_def parts_ok_def)

lemma entries_entry:
  "entries_ok c t \<Longrightarrow> unat tid < c_vocabSize c \<Longrightarrow> entry_ok c tid (tb_table t ! unat tid) (tb_status t ! unat tid)"
  by (simp add: entries_ok_def)

text \<open>A string of the table is the text of a clean token; a dirty mark is on a dirty token.\<close>

lemma packed_string_sound:
  assumes "entries_ok c t" and "packed_string (tb_table t) tid = Some s"
  shows "tok_state c tid = 1 \<and> s = id_text c [tid]"
proof -
  have range: "unat tid < c_vocabSize c" and entry: "tb_table t ! unat tid = EText s"
    using assms by (auto simp: packed_string_def entries_ok_def split: if_splits entry.splits)
  show ?thesis using entries_entry [OF assms(1) range] entry by (auto simp: entry_ok_def)
qed

lemma dirty_entry_sound:
  assumes "entries_ok c t" and "is_dirty_entry (tb_table t) tid"
  shows "tok_state c tid = 2"
proof -
  have range: "unat tid < c_vocabSize c" and entry: "tb_table t ! unat tid = EDirty"
    using assms by (auto simp: is_dirty_entry_def entries_ok_def)
  show ?thesis using entries_entry [OF assms(1) range] entry by (auto simp: entry_ok_def)
qed

lemma dirty_not_packed: "is_dirty_entry tbl tid \<Longrightarrow> packed_string tbl tid = None"
  by (simp add: is_dirty_entry_def packed_string_def)

text \<open>Writing one entry.\<close>

lemma entries_ok_update:
  assumes "entries_ok c t" and "entry_ok c tid e st"
    and "tb_table t' = (tb_table t)[unat tid := e]" and "tb_status t' = (tb_status t)[unat tid := st]"
    and "length (tb_lengths t') = length (tb_lengths t)"
  shows "entries_ok c t'"
proof -
  have "entry_ok c v ((tb_table t)[unat tid := e] ! unat v) ((tb_status t)[unat tid := st] ! unat v)"
    if "unat v < c_vocabSize c" for v
  proof (cases "v = tid")
    case True
    then show ?thesis using assms(1,2) that by (simp add: entries_ok_def)
  next
    case False
    then have "unat v \<noteq> unat tid" by (simp add: word_unat_eq_iff)
    then show ?thesis using assms(1) that by (simp add: entries_ok_def)
  qed
  then show ?thesis using assms(1,3-5) by (simp add: entries_ok_def)
qed

lemma table_ext_update:
  fixes tid :: u32
  assumes "tb_table t' = (tb_table t)[unat tid := e]" and "tb_table t ! unat tid = EUntouched \<or> tb_table t ! unat tid = e"
  shows "table_ext t t'"
proof -
  have "packed_string (tb_table t') v = Some s" if "packed_string (tb_table t) v = Some s" for v s
    using that assms
    by (cases "v = tid") (auto simp: packed_string_def word_unat_eq_iff split: if_splits entry.splits)
  moreover have "is_dirty_entry (tb_table t') v" if "is_dirty_entry (tb_table t) v" for v
    using that assms
    by (cases "v = tid") (auto simp: is_dirty_entry_def word_unat_eq_iff)
  ultimately show ?thesis by (simp add: table_ext_def)
qed

lemma inspect_spec:
  assumes "table_ok c cfg t" and "inspect c tid t = (st, t')"
  shows "st = tok_state c tid \<and> table_ok c cfg t' \<and> table_ext t t' \<and>
    (st = 2 \<longrightarrow> is_dirty_entry (tb_table t') tid) \<and>
    (st = 1 \<longrightarrow> tb_status t' ! unat tid = 1)"
proof -
  have laws: "core_laws c" and entries: "entries_ok c t" and parts: "parts_ok c cfg t"
    using assms(1) by (simp_all add: table_ok_def)
  show ?thesis
  proof (cases "unat tid < c_vocabSize c")
    case False
    then have "tok_state c tid = 3" using known_in_range [OF laws, of tid] by auto
    then show ?thesis using assms False by (auto simp: inspect_def)
  next
    case True
    note e = entries_entry [OF entries True]
    have len: "length (tb_table t) = c_vocabSize c" "length (tb_status t) = c_vocabSize c"
      using entries by (simp_all add: entries_ok_def)
    show ?thesis
    proof (cases "tb_status t ! unat tid = 0")
      case False
      then have "st = tb_status t ! unat tid" "t' = t" using assms(2) True by (auto simp: inspect_def)
      moreover have "tb_status t ! unat tid = tok_state c tid" using e False by (auto simp: entry_ok_def)
      moreover have "is_dirty_entry (tb_table t) tid" if "tok_state c tid = 2"
        using e that calculation True len(1)
        by (cases "tb_table t ! unat tid") (auto simp: entry_ok_def is_dirty_entry_def)
      ultimately show ?thesis using assms(1) by simp
    next
      case zero: True
      then have untouched: "tb_table t ! unat tid = EUntouched"
        using e by (cases "tb_table t ! unat tid") (auto simp: entry_ok_def)
      show ?thesis
      proof (cases "c_tokenBytes c tid")
        case (Inl err)
        define t1 where "t1 = t\<lparr>tb_status := (tb_status t)[unat tid := 3], tb_table := (tb_table t)[unat tid := EMissing]\<rparr>"
        have s3: "tok_state c tid = 3" using Inl by (simp add: tok_state_def)
        have "entries_ok c t1"
          by (rule entries_ok_update [OF entries, of tid EMissing 3]) (simp_all add: t1_def entry_ok_def s3)
        then have "table_ok c cfg t1" using assms(1) by (simp add: table_ok_def parts_ok_def t1_def)
        moreover have "table_ext t t1"
          by (rule table_ext_update [of _ _ tid EMissing]) (simp_all add: t1_def untouched)
        moreover have "st = 3" "t' = bump MissingKnown t1"
          using assms(2) True zero Inl by (auto simp: inspect_def t1_def)
        ultimately show ?thesis using s3 by (simp add: table_ext_def)
      next
        case (Inr bs)
        define t1 where "t1 = t\<lparr>tb_lengths := (tb_lengths t)[unat tid := of_nat (length bs)],
            tb_status := (tb_status t)[unat tid := tok_state c tid]\<rparr>"
        show ?thesis
        proof (cases "isValidUtf8 bs")
          case clean: True
          then have s1: "tok_state c tid = 1" using Inr by (simp add: tok_state_def)
          have "entries_ok c t1"
            by (rule entries_ok_update [OF entries, of tid EUntouched 1])
              (simp_all add: t1_def entry_ok_def s1 list_update_same_conv [THEN iffD2] untouched
                list_update_id [of "tb_table t" "unat tid", unfolded untouched])
          then have "table_ok c cfg t1" using assms(1) by (simp add: table_ok_def parts_ok_def t1_def)
          moreover have "st = 1" "t' = bump MetadataKnown t1"
            using assms(2) True zero Inr clean s1 by (auto simp: inspect_def t1_def Let_def)
          moreover have "table_ext t t1" by (rule table_ext_same) (simp add: t1_def)
          ultimately show ?thesis using s1 True len(2) by (simp add: table_ext_def t1_def)
        next
          case dirty: False
          then have s2: "tok_state c tid = 2" using Inr by (simp add: tok_state_def)
          define t2 where "t2 = t1\<lparr>tb_table := (tb_table t)[unat tid := EDirty],
              tb_bytes := map_option (cacheDirtyBytes (unat tid) bs) (tb_bytes t)\<rparr>"
          have "entries_ok c t2"
            by (rule entries_ok_update [OF entries, of tid EDirty 2]) (simp_all add: t2_def t1_def entry_ok_def s2)
          moreover have "tok_dirty c (unat tid)" "bs = tok_bytes c (unat tid)"
            using Inr dirty by (simp_all add: tok_bytes_id)
          then have "parts_ok c cfg t2"
            using parts cacheDirtyBytes_ok [OF _ True, of "tc_byteTable cfg" _ bs]
            by (auto simp: parts_ok_def t2_def t1_def)
          ultimately have "table_ok c cfg t2" using assms(1) by (simp add: table_ok_def)
          moreover have "table_ext t t2"
            by (rule table_ext_update [of _ _ tid EDirty]) (simp_all add: t2_def untouched)
          moreover have "st = 2" and t': "t' = bump DirtyKnown ((bump MetadataKnown t1)\<lparr>tb_table := (tb_table t)[unat tid := EDirty],
              tb_bytes := map_option (cacheDirtyBytes (unat tid) bs) (tb_bytes t)\<rparr>)"
            using assms(2) True zero Inr dirty s2 by (simp_all add: inspect_def t1_def Let_def)
          moreover have "tb_table t' = tb_table t2" "tb_status t' = tb_status t2" "tb_lengths t' = tb_lengths t2"
            "tb_bytes t' = tb_bytes t2" "tb_runs t' = tb_runs t2" "tb_latin1 t' = tb_latin1 t2"
            by (simp_all add: t' t2_def)
          then have "table_ok c cfg t' = table_ok c cfg t2"
            by (simp add: table_ok_def entries_ok_def parts_ok_def)
          ultimately show ?thesis
            using s2 True len(1) by (simp add: table_ext_def is_dirty_entry_def t2_def)
        qed
      qed
    qed
  qed
qed

lemma table_ok_packed:
  "table_ok c cfg t \<Longrightarrow> packed_string (tb_table t) tid = Some s \<Longrightarrow> tok_state c tid = 1 \<and> s = id_text c [tid]"
  by (auto simp: table_ok_def dest: packed_string_sound)

lemma materialize_spec:
  assumes "table_ok c cfg t" and "materialize c tid t = (r, t')"
  shows "r = Inr (if tok_state c tid = 1 then Some (id_text c [tid]) else None) \<and> table_ok c cfg t' \<and>
    table_ext t t' \<and> (tok_state c tid = 1 \<longrightarrow> packed_string (tb_table t') tid = Some (id_text c [tid]))"
proof -
  have laws: "core_laws c" using assms(1) by (simp add: table_ok_def)
  show ?thesis
  proof (cases "packed_string (tb_table t) tid")
    case (Some s)
    then have "r = Inr (Some s)" "t' = t"
      using assms(2) by (auto simp: materialize_def packed_string_def split: if_splits entry.splits)
    then show ?thesis using table_ok_packed [OF assms(1) Some] Some assms(1) by auto
  next
    case None
    obtain st t1 where i: "inspect c tid t = (st, t1)" by fastforce
    note spec = inspect_spec [OF assms(1) i]
    have run: "materialize c tid t =
      (if st \<noteq> 1 then (Inr None, t1)
       else case c_tokenBytes c tid of Inl e \<Rightarrow> (Inl e, t1)
       | Inr bs \<Rightarrow> (case decodeValidUtf8 bs of (out, oneByte) \<Rightarrow>
           (Inr (Some out), bump_by (length out * (if oneByte then 1 else 2)) StringPayloadBytes
              (bump Materialized (t1\<lparr>tb_table := (tb_table t1)[unat tid := EText out]\<rparr>)))))"
      using None i by (auto simp: materialize_def packed_string_def split: if_splits entry.splits)
    show ?thesis
    proof (cases "tok_state c tid = 1")
      case False
      then show ?thesis using run spec assms(2) by simp
    next
      case True
      then obtain bs where bs: "c_tokenBytes c tid = Inr bs" by (auto simp: tok_state_eqs)
      have range: "unat tid < c_vocabSize c" using True known_in_range [OF laws, of tid] by simp
      have out: "id_text c [tid] = fst (decodeValidUtf8 bs)" by (rule id_text_single [OF True bs])
      define t2 where "t2 = t1\<lparr>tb_table := (tb_table t1)[unat tid := EText (id_text c [tid])]\<rparr>"
      have e1: "entries_ok c t1" using spec by (simp add: table_ok_def)
      have st1: "tb_status t1 ! unat tid = 1" using spec True by simp
      have "entries_ok c t2"
        by (rule entries_ok_update [OF e1, of tid "EText (id_text c [tid])" 1])
          (simp_all add: t2_def entry_ok_def True list_update_id [of "tb_status t1" "unat tid", unfolded st1])
      then have "table_ok c cfg t2" using spec by (simp add: table_ok_def parts_ok_def t2_def)
      moreover have "table_ext t1 t2"
      proof (rule table_ext_update [of _ _ tid "EText (id_text c [tid])"])
        show "tb_table t1 ! unat tid = EUntouched \<or> tb_table t1 ! unat tid = EText (id_text c [tid])"
          using entries_entry [OF e1 range] st1
          by (cases "tb_table t1 ! unat tid") (auto simp: entry_ok_def)
      qed (simp add: t2_def)
      moreover obtain n k where "t' = bump_by n StringPayloadBytes (bump Materialized t2)" "r = Inr (Some (id_text c [tid]))"
        using assms(2) run spec True bs out by (cases "decodeValidUtf8 bs") (auto simp: t2_def)
      moreover have "length (tb_table t1) = c_vocabSize c" using e1 by (simp add: entries_ok_def)
      ultimately show ?thesis
        using spec True range by (simp add: table_ext_def packed_string_def t2_def)
    qed
  qed
qed

lemma seed_loop_spec:
  "table_ok c cfg t \<Longrightarrow> seed_loop c ids t = (r, t') \<Longrightarrow> r = Inr () \<and> table_ok c cfg t' \<and> table_ext t t'"
proof (induction ids arbitrary: t)
  case (Cons tid ids)
  obtain st t1 where i: "inspect c tid t = (st, t1)" by fastforce
  note s1 = inspect_spec [OF Cons.prems(1) i]
  show ?case
  proof (cases "st = 1")
    case False
    then show ?thesis using Cons.prems(2) i s1 Cons.IH [of t1] by (auto intro: table_ext_trans)
  next
    case True
    obtain r2 t2 where m: "materialize c tid t1 = (r2, t2)" by fastforce
    have ok1: "table_ok c cfg t1" using s1 by simp
    note s2 = materialize_spec [OF ok1 m]
    have "seed_loop c ids (bump Seeded t2) = (r, t')"
      using Cons.prems(2) i True m s2 by (simp add: js_simps)
    then have "r = Inr () \<and> table_ok c cfg t' \<and> table_ext (bump Seeded t2) t'"
      using s2 by (intro Cons.IH) simp_all
    then show ?thesis using s1 s2 by (auto simp: table_ext_def)
  qed
qed simp

lemma table_initialize_spec:
  assumes "table_ok c cfg t" and "table_initialize c cfg t = (r, t')"
  shows "r = Inr () \<and> table_ok c cfg t' \<and> table_ext t t'"
proof (cases "tb_initialized t")
  case True
  then show ?thesis using assms by (simp add: table_initialize_def)
next
  case False
  obtain r1 t1 where s: "seed_loop c (tc_seeds cfg) t = (r1, t1)" by fastforce
  show ?thesis
    using seed_loop_spec [OF assms(1) s] assms(2) False s
    by (auto simp: table_initialize_def js_simps table_ext_def)
qed

subsection \<open>The clean path\<close>

text \<open>The unrolled loop is the plain loop.\<close>

lemma join_unrolled_eq: "join_unrolled look index es out = join_loop look index es out"
  by (induction look index es out rule: join_unrolled.induct) (simp_all add: numeral_eq_Suc split: option.splits)

lemma join_ids_eq: "join_ids cfg look es = join_loop look 0 es []"
  by (simp add: join_ids_def join_unrolled_eq)

lemma join_loop_Joined:
  "join_loop look index es out = Joined res \<Longrightarrow>
     \<exists>vals. map look es = map Some vals \<and> res = out @ concat vals"
proof (induction es arbitrary: index out)
  case (Cons e es)
  then obtain v where v: "look e = Some v" by (cases "look e") auto
  with Cons obtain vals where "map look es = map Some vals" "res = (out @ v) @ concat vals" by force
  with v show ?case by (intro exI [of _ "v # vals"]) simp
qed simp

lemma join_loop_Miss:
  "join_loop look index es out = Miss k pre \<Longrightarrow>
     \<exists>vals. k = index + length vals \<and> length vals < length es \<and>
       map look (take (length vals) es) = map Some vals \<and> pre = out @ concat vals"
proof (induction es arbitrary: index out)
  case (Cons e es)
  show ?case
  proof (cases "look e")
    case None
    with Cons.prems show ?thesis by (intro exI [of _ "[]"]) simp
  next
    case (Some v)
    with Cons obtain vals where "k = index + 1 + length vals" "length vals < length es"
       "map look (take (length vals) es) = map Some vals" "pre = (out @ v) @ concat vals" by force
    with Some show ?thesis by (intro exI [of _ "v # vals"]) simp
  qed
qed simp

lemma packed_values_text:
  assumes "table_ok c cfg t" and "map (packed_string (tb_table t)) ids = map Some vals"
  shows "clean c ids \<and> concat vals = id_text c ids"
  using assms(2)
proof (induction ids arbitrary: vals)
  case (Cons tid ids)
  then obtain v vs where vals: "vals = v # vs" and v: "packed_string (tb_table t) tid = Some v" by (cases vals) auto
  have "tok_state c tid = 1" "v = id_text c [tid]" using table_ok_packed [OF assms(1) v] by auto
  moreover have "clean c ids \<and> concat vs = id_text c ids" using Cons vals by auto
  ultimately show ?case using vals by (simp add: id_text_clean_Cons [of c tid ids])
qed simp

text \<open>Both validators accept the same values.\<close>

lemma validTokenIdFast_eq: "validTokenIdFast v = validTokenId v"
proof (cases v)
  case (JNum q)
  define k where "k = (if 0 \<le> q then floor q else ceiling q)"
  have q_int: "q = of_int m" if "toUint32 q = q" "m = k mod 2 ^ 32" for m
    using that by (simp add: k_def split: if_splits)
  show ?thesis
  proof
    assume fast: "validTokenIdFast v"
    define m where "m = k mod 2 ^ 32"
    have q: "q = of_int m" using fast JNum by (intro q_int) (simp_all add: m_def del: toUint32.simps)
    have "0 \<le> m" "m \<le> 4294967295" by (simp_all add: m_def)
    then have "(of_int 0 :: rat) \<le> of_int m" "(of_int m :: rat) \<le> of_int 4294967295"
      by (simp_all only: of_int_le_iff)
    then show "validTokenId v" using JNum q by simp
  next
    assume slow: "validTokenId v"
    then obtain m where q: "q = of_int m" using JNum by (auto simp: is_int_rat_def intro: sym)
    have "of_int 0 \<le> (of_int m :: rat)" "(of_int m :: rat) \<le> of_int 4294967295" using slow JNum q by simp_all
    then have "0 \<le> m" "m \<le> 4294967295" by (simp_all only: of_int_le_iff)
    then show "validTokenIdFast v" using JNum q by simp
  qed
qed simp_all

lemma tc_validate_eq: "tc_validate cfg = validTokenId"
  by (auto simp: tc_validate_def fun_eq_iff validTokenIdFast_eq)

lemma packed_value_Some:
  "packed_value validate tbl v = Some s \<longleftrightarrow> validate v \<and> packed_string tbl (u32_of_jsval v) = Some s"
  by (simp add: packed_value_def)

lemma map_packed_value:
  "map (packed_value validate tbl) vs = map Some vals \<longleftrightarrow>
     list_all validate vs \<and> map (packed_string tbl) (map u32_of_jsval vs) = map Some vals"
  by (induction vs arbitrary: vals) (auto simp: packed_value_Some map_eq_Cons_conv Cons_eq_map_conv)

text \<open>The two outcomes of the clean path.\<close>

lemma joinKnownClean_spec:
  assumes "table_ok c cfg t" and "input \<noteq> NotIds" and "joinKnownClean cfg input t = (a, t')"
  shows "t' = bump CleanJoinPasses t \<and>
    (case a of
       Joined out \<Rightarrow> \<exists>ids. tokenIds input = Inr ids \<and> clean c ids \<and> out = id_text c ids
     | Miss k pre \<Rightarrow> k < input_length input \<and>
         (case input of
            Typed ids \<Rightarrow> clean c (take k ids) \<and> pre = id_text c (take k ids)
          | Arr vs \<Rightarrow> list_all validTokenId (take k vs) \<and> clean c (map u32_of_jsval (take k vs)) \<and>
              pre = id_text c (map u32_of_jsval (take k vs))
          | NotIds \<Rightarrow> False))"
proof (cases input)
  case (Typed ids)
  have a: "a = join_loop (packed_string (tb_table t)) 0 ids []" and t': "t' = bump CleanJoinPasses t"
    using assms(3) Typed by (simp_all add: joinKnownClean_def join_ids_eq)
  show ?thesis
  proof (cases a)
    case (Joined out)
    then obtain vals where "map (packed_string (tb_table t)) ids = map Some vals" "out = concat vals"
      using a join_loop_Joined [of "packed_string (tb_table t)" 0 ids "[]" out] by auto
    then show ?thesis using packed_values_text [OF assms(1)] Joined t' Typed by auto
  next
    case (Miss k pre)
    then obtain vals where "k = length vals" "length vals < length ids"
      "map (packed_string (tb_table t)) (take k ids) = map Some vals" "pre = concat vals"
      using a join_loop_Miss [of "packed_string (tb_table t)" 0 ids "[]" k pre] by auto
    then show ?thesis using packed_values_text [OF assms(1)] Miss t' Typed by auto
  qed
next
  case (Arr vs)
  have a: "a = join_loop (packed_value validTokenId (tb_table t)) 0 vs []" and t': "t' = bump CleanJoinPasses t"
    using assms(3) Arr by (simp_all add: joinKnownClean_def join_ids_eq tc_validate_eq)
  show ?thesis
  proof (cases a)
    case (Joined out)
    then obtain vals where "map (packed_value validTokenId (tb_table t)) vs = map Some vals" "out = concat vals"
      using a join_loop_Joined [of "packed_value validTokenId (tb_table t)" 0 vs "[]" out] by auto
    then show ?thesis using packed_values_text [OF assms(1)] Joined t' Arr by (auto simp: map_packed_value)
  next
    case (Miss k pre)
    then obtain vals where "k = length vals" "length vals < length vs"
      "map (packed_value validTokenId (tb_table t)) (take k vs) = map Some vals" "pre = concat vals"
      using a join_loop_Miss [of "packed_value validTokenId (tb_table t)" 0 vs "[]" k pre] by auto
    then show ?thesis using packed_values_text [OF assms(1)] Miss t' Arr by (auto simp: map_packed_value)
  qed
qed (use assms(2) in simp)

subsection \<open>The ids a route works on\<close>

definition prepared_ok :: "core \<Rightarrow> prepared \<Rightarrow> bool" where
  "prepared_ok c prep \<longleftrightarrow> tokenIds (p_ids prep) = Inr (p_values prep) \<and>
     p_firstMiss prep \<le> length (p_values prep) \<and>
     clean c (take (p_firstMiss prep) (p_values prep)) \<and>
     p_prefix prep = id_text c (take (p_firstMiss prep) (p_values prep))"

lemma fused_loop_done:
  assumes "list_all validate vs" and "em \<le> index" and "index + length vs \<le> length ids"
  shows "fused_loop validate packed index vs ids em ver =
    Inr (take index ids @ map u32_of_jsval vs @ drop (index + length vs) ids, em, ver)"
  using assms
proof (induction vs arbitrary: index ids)
  case (Cons v vs)
  have "take (Suc index) (ids[index := w]) = take index ids @ [w]" for w
    using Cons.prems by (simp add: take_Suc_conv_app_nth)
  with Cons show ?case by (simp add: Let_def)
qed simp

lemma fused_loop_valid:
  assumes "list_all validate vs" and "index \<le> em" and "em \<le> index + length vs"
    and "index + length vs \<le> length ids"
  shows "\<exists>em' vals. fused_loop validate packed index vs ids em ver =
      Inr (take index ids @ map u32_of_jsval vs @ drop (index + length vs) ids, em', ver @ concat vals) \<and>
    index \<le> em' \<and> em' \<le> em \<and>
    map (packed_string packed) (take (em' - index) (map u32_of_jsval vs)) = map Some vals"
  using assms
proof (induction vs arbitrary: index ids ver)
  case Nil
  then show ?case by (intro exI [of _ em] exI [of _ "[]"]) simp
next
  case (Cons v vs)
  have upd: "take (Suc index) (ids[index := w]) = take index ids @ [w]" for w
    using Cons.prems by (simp add: take_Suc_conv_app_nth)
  show ?case
  proof (cases "index < em")
    case False
    then show ?thesis
      using Cons.prems fused_loop_done [of validate "v # vs" em index ids packed ver]
      by (intro exI [of _ em] exI [of _ "[]"]) simp
  next
    case True
    show ?thesis
    proof (cases "packed_string packed (u32_of_jsval v)")
      case None
      have "fused_loop validate packed (Suc index) vs (ids[index := u32_of_jsval v]) index ver =
        Inr (take (Suc index) (ids[index := u32_of_jsval v]) @ map u32_of_jsval vs @
          drop (Suc index + length vs) (ids[index := u32_of_jsval v]), index, ver)"
        using Cons.prems by (intro fused_loop_done) simp_all
      then show ?thesis
        using None True Cons.prems upd by (intro exI [of _ index] exI [of _ "[]"]) (simp add: Let_def)
    next
      case (Some s)
      obtain em' vals where rec: "fused_loop validate packed (Suc index) vs (ids[index := u32_of_jsval v]) em (ver @ s) =
        Inr (take (Suc index) (ids[index := u32_of_jsval v]) @ map u32_of_jsval vs @
          drop (Suc index + length vs) (ids[index := u32_of_jsval v]), em', (ver @ s) @ concat vals)"
        "Suc index \<le> em'" "em' \<le> em"
        "map (packed_string packed) (take (em' - Suc index) (map u32_of_jsval vs)) = map Some vals"
        using Cons.IH [of "Suc index" "ids[index := u32_of_jsval v]" "ver @ s"] Cons.prems True by auto
      then have "em' - index = Suc (em' - Suc index)" by simp
      then show ?thesis
        using rec Some True Cons.prems upd
        by (intro exI [of _ em'] exI [of _ "s # vals"]) (simp add: Let_def)
    qed
  qed
qed

lemma fused_loop_invalid:
  "\<not> list_all validate vs \<Longrightarrow> \<exists>e. fused_loop validate packed index vs ids em ver = Inl e"
proof (induction vs arbitrary: index ids em ver)
  case (Cons v vs)
  then show ?case by (cases "validate v") (auto simp: Let_def split: option.splits)
qed simp

lemma prepare_spec:
  assumes "table_ok c cfg (snd s)" and "prepare cfg input k pre s = (r, s')"
    and "k < input_length input"
    and "case input of
          Typed ids \<Rightarrow> clean c (take k ids) \<and> pre = id_text c (take k ids)
        | Arr vs \<Rightarrow> list_all validTokenId (take k vs) \<and> clean c (map u32_of_jsval (take k vs)) \<and>
            pre = id_text c (map u32_of_jsval (take k vs))
        | NotIds \<Rightarrow> False"
  shows "s' = s \<and> (case tokenIds input of
      Inl _ \<Rightarrow> \<exists>e. r = Inl e
    | Inr ids \<Rightarrow> \<exists>prep. r = Inr prep \<and> prepared_ok c prep \<and> p_values prep = ids)"
proof (cases "tc_fusedValidation cfg")
  case False
  then show ?thesis
    using assms(2) by (cases "tokenIds input") (auto simp: prepare_def prepared_ok_def)
next
  case True
  show ?thesis
  proof (cases input)
    case (Typed ids)
    then show ?thesis using assms(2-4) True by (auto simp: prepare_def fusedTokenIds_def prepared_ok_def)
  next
    case (Arr vs)
    show ?thesis
    proof (cases "list_all validTokenId vs")
      case False
      then show ?thesis
        using assms(2) True Arr fused_loop_invalid [OF False, of "tb_table (snd s)" 0 "replicate (length vs) 0" k "[]"]
        by (auto simp: prepare_def fusedTokenIds_def tc_validate_eq)
    next
      case valid: True
      obtain em vals where f: "fused_loop validTokenId (tb_table (snd s)) 0 vs (replicate (length vs) 0) k [] =
          Inr (map u32_of_jsval vs, em, concat vals)" "em \<le> k"
        "map (packed_string (tb_table (snd s))) (take em (map u32_of_jsval vs)) = map Some vals"
        using fused_loop_valid [OF valid, of 0 k "replicate (length vs) 0" "tb_table (snd s)" "[]"] assms(3) Arr
        by auto
      have cl: "clean c (take em (map u32_of_jsval vs)) \<and> concat vals = id_text c (take em (map u32_of_jsval vs))"
        by (rule packed_values_text [OF assms(1) f(3)])
      then have "prepared_ok c \<lparr>p_ids = Typed (map u32_of_jsval vs), p_values = map u32_of_jsval vs,
          p_firstMiss = em, p_prefix = (if em = k \<and> concat vals = pre then pre else concat vals)\<rparr>"
        using f(2) assms(3) Arr by (auto simp: prepared_ok_def)
      then show ?thesis
        using assms(2) True Arr valid f(1) by (auto simp: prepare_def fusedTokenIds_def tc_validate_eq)
    qed
  qed (use assms(4) in simp)
qed

subsection \<open>Reasoning about calls on the pair of states\<close>

text \<open>
  A table over an exact decoder. \<open>gives P m Q\<close>: from a good pair of states whose table satisfies
  \<open>P\<close>, the call \<open>m\<close> leaves a good pair whose table extends the one before, and \<open>Q\<close> holds of its
  result and the new table.
\<close>

locale table_over = below: exact_decoder inner inv "ref_decode c"
  for inner :: "'i decoder" and inv :: "'i \<Rightarrow> bool" and c :: core +
  fixes cfg :: table_config
begin

definition good :: "'i \<times> table \<Rightarrow> bool" where
  "good s \<longleftrightarrow> inv (fst s) \<and> table_ok c cfg (snd s)"

definition gives ::
  "(table \<Rightarrow> bool) \<Rightarrow> ('i, 'a) table_js \<Rightarrow> (js_error + 'a \<Rightarrow> table \<Rightarrow> bool) \<Rightarrow> bool" where
  "gives P m Q \<longleftrightarrow> (\<forall>s r s'. good s \<longrightarrow> P (snd s) \<longrightarrow> m s = (r, s') \<longrightarrow>
     good s' \<and> table_ext (snd s) (snd s') \<and> Q r (snd s'))"

lemma givesI:
  assumes "\<And>s r s'. good s \<Longrightarrow> P (snd s) \<Longrightarrow> m s = (r, s') \<Longrightarrow>
    good s' \<and> table_ext (snd s) (snd s') \<and> Q r (snd s')"
  shows "gives P m Q"
  using assms by (simp add: gives_def)

lemma givesD:
  "gives P m Q \<Longrightarrow> good s \<Longrightarrow> P (snd s) \<Longrightarrow> m s = (r, s') \<Longrightarrow>
    good s' \<and> table_ext (snd s) (snd s') \<and> Q r (snd s')"
  unfolding gives_def by blast

lemma gives_conseq:
  "gives P m Q \<Longrightarrow> (\<And>t. P' t \<Longrightarrow> P t) \<Longrightarrow> (\<And>r t. Q r t \<Longrightarrow> Q' r t) \<Longrightarrow> gives P' m Q'"
  unfolding gives_def by blast

lemma gives_bind:
  assumes "gives P m R" and "\<And>e t. R (Inl e) t \<Longrightarrow> Q (Inl e) t"
    and "\<And>a. gives (R (Inr a)) (f a) Q"
  shows "gives P (js_bind m f) Q"
proof (rule givesI)
  fix s r s'
  assume s: "good s" "P (snd s)" and run: "js_bind m f s = (r, s')"
  obtain r1 s1 where m: "m s = (r1, s1)" by (cases "m s")
  note one = givesD [OF assms(1) s m]
  show "good s' \<and> table_ext (snd s) (snd s') \<and> Q r (snd s')"
  proof (cases r1)
    case (Inl e)
    then show ?thesis using run m one assms(2) by (auto simp: js_bind_def)
  next
    case (Inr a)
    then have "f a s1 = (r, s')" using run m by (simp add: js_bind_def)
    with one Inr givesD [OF assms(3)] show ?thesis by (blast intro: table_ext_trans)
  qed
qed

lemma gives_ret: "(\<And>t. P t \<Longrightarrow> Q (Inr a) t) \<Longrightarrow> gives P (js_ret a) Q"
  by (auto simp: gives_def js_ret_def)

lemma gives_throw: "(\<And>t. P t \<Longrightarrow> Q (Inl e) t) \<Longrightarrow> gives P (js_throw e) Q"
  by (auto simp: gives_def js_throw_def)

lemma gives_if:
  "(b \<Longrightarrow> gives P m Q) \<Longrightarrow> (\<not> b \<Longrightarrow> gives P n Q) \<Longrightarrow> gives P (if b then m else n) Q"
  by simp

lemma gives_table:
  assumes "\<And>t r t'. table_ok c cfg t \<Longrightarrow> P t \<Longrightarrow> m t = (r, t') \<Longrightarrow> table_ok c cfg t' \<and> table_ext t t' \<and> Q r t'"
  shows "gives P (on_table m) Q"
proof (rule givesI)
  fix s r s'
  assume s: "good s" "P (snd s)" and run: "on_table m s = (r, s')"
  obtain r1 t1 where m: "m (snd s) = (r1, t1)" by fastforce
  then have "r = r1" "s' = (fst s, t1)" using run by (simp_all add: on_table_def js_zoom_def)
  then show "good s' \<and> table_ext (snd s) (snd s') \<and> Q r (snd s')"
    using assms [of "snd s" r1 t1] s m by (simp add: good_def)
qed

text \<open>A property of tables that later states keep.\<close>

definition stable :: "(table \<Rightarrow> bool) \<Rightarrow> bool" where
  "stable P \<longleftrightarrow> (\<forall>t t'. P t \<longrightarrow> table_ext t t' \<longrightarrow> P t')"

lemma gives_keep:
  assumes "gives P m Q" and "stable P"
  shows "gives P m (\<lambda>r t. Q r t \<and> P t)"
  using assms unfolding gives_def stable_def by blast

lemma stable_True [simp]: "stable (\<lambda>_. True)"
  by (simp add: stable_def)

lemma stable_conj: "stable P \<Longrightarrow> stable Q \<Longrightarrow> stable (\<lambda>t. P t \<and> Q t)"
  by (auto simp: stable_def)

lemma gives_count: "stable P \<Longrightarrow> gives P (on_table (js_modify (bump_by n k))) (\<lambda>r t. r = Inr () \<and> P t)"
  by (rule gives_table) (auto simp: js_modify_def stable_def table_ext_def)

lemma gives_count_bind:
  assumes "stable P" and "gives P m Q"
  shows "gives P (js_bind (count k) (\<lambda>_. m)) Q"
  unfolding count_def
  by (rule gives_bind [OF gives_count [OF assms(1)]]) (use assms(2) in \<open>auto intro: gives_conseq\<close>)

lemma gives_fallback:
  assumes "stable P"
  shows "gives P (fallback inner input) (\<lambda>r t. okv r = ref_decode c input \<and> P t)"
  unfolding fallback_def
proof (rule gives_count_bind [OF assms], rule givesI)
  fix s r s'
  assume s: "good s" "P (snd s)" and run: "on_inner (inner input) s = (r, s')"
  obtain r1 i1 where m: "inner input (fst s) = (r1, i1)" by fastforce
  then have "r = r1" "s' = (i1, snd s)" using run by (simp_all add: on_inner_def js_zoom_def)
  then show "good s' \<and> table_ext (snd s) (snd s') \<and> okv r = ref_decode c input \<and> P (snd s')"
    using below.exact [of "fst s" input r1 i1] s m by (simp add: good_def)
qed

end

lemma run_cache_decode_state:
  assumes "run_cache_decode ids start end' canonical (rc, s) = (r, (rc', s'))"
  shows "s' = s \<or> (\<exists>r0. canonical s = (r0, s'))"
  using assms
  by (cases "canonical s") (auto simp: run_cache_decode_def Let_def split: option.splits sum.splits)

text \<open>Places where a sequence may be cut, and the runs handed to the byte decoder.\<close>

definition boundary :: "core \<Rightarrow> u32 list \<Rightarrow> bool" where
  "boundary c xs \<longleftrightarrow> (\<forall>ys. id_text c (xs @ ys) = id_text c xs @ id_text c ys)"

lemma boundary_clean: "clean c xs \<Longrightarrow> boundary c xs"
  by (simp add: boundary_def id_text_clean_append)

lemma boundary_last_clean:
  assumes "core_laws c" and "tok_state c tid = 1"
  shows "boundary c (xs @ [tid])"
  unfolding boundary_def
proof
  fix ys
  have "id_text c (xs @ tid # ys) = id_text c xs @ id_text c (tid # ys)"
    by (rule id_text_append_clean [OF assms(1)]) (simp add: assms(2))
  moreover have "id_text c (xs @ [tid]) = id_text c xs @ id_text c [tid]"
    by (rule id_text_append_clean [OF assms(1)]) (simp add: assms(2))
  ultimately show "id_text c ((xs @ [tid]) @ ys) = id_text c (xs @ [tid]) @ id_text c ys"
    using id_text_clean_Cons [OF assms(2), of ys] by simp
qed

definition run_spec :: "core \<Rightarrow> u32 list \<Rightarrow> dirty_run \<Rightarrow> u32 list \<Rightarrow> bool" where
  "run_spec c vals run rids \<longleftrightarrow> dr_bytes run = latin1 (id_bytes c rids) \<and>
     take (dr_end run - dr_start run) (drop (dr_start run) vals) = rids \<and> known c rids"

context table_over
begin

lemma gives_bytes:
  assumes "tc_byteTable cfg \<or> tc_mixedRuns cfg" and "stable P"
    and "\<And>b r b'. core_laws c \<Longrightarrow> bt_ok c (tc_byteTable cfg) b \<Longrightarrow> m b = (r, b') \<Longrightarrow>
       bt_ok c (tc_byteTable cfg) b' \<and> Q r"
  shows "gives P (on_bytes m) (\<lambda>r t. Q r \<and> P t)"
  unfolding on_bytes_def
proof (rule gives_table)
  fix t r t'
  assume t: "table_ok c cfg t" "P t"
    and run: "js_zoom (\<lambda>t. the (tb_bytes t)) (\<lambda>b t. t\<lparr>tb_bytes := Some b\<rparr>) m t = (r, t')"
  then obtain b where b: "tb_bytes t = Some b" "bt_ok c (tc_byteTable cfg) b"
    using assms(1) by (auto simp: table_ok_def parts_ok_def)
  obtain r1 b1 where m: "m b = (r1, b1)" by (cases "m b")
  have eq: "r = r1" "t' = t\<lparr>tb_bytes := Some b1\<rparr>" using run b(1) m by (simp_all add: js_zoom_def)
  have "core_laws c" using t(1) by (simp add: table_ok_def)
  note q = assms(3) [OF this b(2) m]
  have ext: "table_ext t t'" by (rule table_ext_same) (simp add: eq)
  have "table_ok c cfg t'" using t(1) b(1) q assms(1) by (auto simp: eq table_ok_def entries_ok_def parts_ok_def)
  then show "table_ok c cfg t' \<and> table_ext t t' \<and> Q r \<and> P t'"
    using ext q t(2) assms(2) by (auto simp: eq(1) stable_def)
qed

lemma gives_latin1:
  assumes "tc_nativeLatin1 cfg \<or> tc_portableLatin1 cfg" and "stable P"
    and "\<And>l r l'. core_laws c \<Longrightarrow> latin1_ok c l \<Longrightarrow> l1_portable l = tc_portableLatin1 cfg \<Longrightarrow> R l \<Longrightarrow> m l = (r, l') \<Longrightarrow>
       latin1_ok c l' \<and> same_unmap l l' \<and> Q r"
  shows "gives (\<lambda>t. P t \<and> (\<forall>l. tb_latin1 t = Some l \<longrightarrow> R l)) (on_latin1 m) (\<lambda>r t. Q r \<and> P t)"
  unfolding on_latin1_def
proof (rule gives_table)
  fix t r t'
  assume t: "table_ok c cfg t" "P t \<and> (\<forall>l. tb_latin1 t = Some l \<longrightarrow> R l)"
    and run: "js_zoom (\<lambda>t. the (tb_latin1 t)) (\<lambda>l t. t\<lparr>tb_latin1 := Some l\<rparr>) m t = (r, t')"
  then obtain l where l: "tb_latin1 t = Some l" "latin1_ok c l" "l1_portable l = tc_portableLatin1 cfg" "R l"
    using assms(1) by (auto simp: table_ok_def parts_ok_def)
  obtain r1 l1 where m: "m l = (r1, l1)" by (cases "m l")
  have eq: "r = r1" "t' = t\<lparr>tb_latin1 := Some l1\<rparr>" using run l(1) m by (simp_all add: js_zoom_def)
  have "core_laws c" using t(1) by (simp add: table_ok_def)
  note q = assms(3) [OF this l(2-4) m]
  have ext: "table_ext t t'" by (rule table_ext_same) (simp add: eq)
  have "table_ok c cfg t'"
    using t(1) l q assms(1) by (auto simp: eq table_ok_def entries_ok_def parts_ok_def same_unmap_def)
  then show "table_ok c cfg t' \<and> table_ext t t' \<and> Q r \<and> P t'"
    using ext q t(2) assms(2) by (auto simp: eq(1) stable_def)
qed

text \<open>The exact routes: whichever decoder they end in, the result is the reference decode.\<close>

abbreviation exactly :: "js_input \<Rightarrow> js_error + jstring \<Rightarrow> table \<Rightarrow> bool" where
  "exactly input \<equiv> \<lambda>r t. okv r = ref_decode c input"

lemma exact_fallback: "gives (\<lambda>_. True) (fallback inner input) (exactly input)"
  using gives_fallback [of "\<lambda>_. True" input] by (auto elim: gives_conseq)

lemma exact_count: "gives (\<lambda>_. True) m Q \<Longrightarrow> gives (\<lambda>_. True) (js_bind (count k) (\<lambda>_. m)) Q"
  by (rule gives_count_bind) simp_all

lemma exact_latin1_or:
  assumes "gives (\<lambda>_. True) other (exactly input)"
  shows "gives (\<lambda>_. True) (latin1_or c cfg input other) (exactly input)"
proof (rule givesI)
  fix s r s'
  assume s: "good s" and run: "latin1_or c cfg input other s = (r, s')"
  show "good s' \<and> table_ext (snd s) (snd s') \<and> okv r = ref_decode c input"
  proof (cases "latin1_route cfg (snd s)")
    case False
    then show ?thesis using run givesD [OF assms s] by (simp add: latin1_or_def)
  next
    case True
    then have on: "tc_nativeLatin1 cfg \<or> tc_portableLatin1 cfg" by (auto simp: latin1_route_def native_route_def)
    show ?thesis
    proof (cases "native_route cfg (snd s)")
      case native: True
      have g: "gives (\<lambda>t. True \<and> (\<forall>l. tb_latin1 t = Some l \<longrightarrow> l1_available l))
          (on_latin1 (latin1_decode c input)) (\<lambda>r t. okv r = ref_decode c input \<and> True)"
        using on latin1_decode_spec by (intro gives_latin1) auto
      have avail: "True \<and> (\<forall>l. tb_latin1 (snd s) = Some l \<longrightarrow> l1_available l)"
        using native by (auto simp: native_route_def)
      have call: "on_latin1 (latin1_decode c input) s = (r, s')"
        using run True native by (simp add: latin1_or_def decodeLatin1_def)
      show ?thesis using givesD [OF g s avail call] by simp
    next
      case portable: False
      then have p: "tc_portableLatin1 cfg" using True by (simp add: latin1_route_def)
      have g: "gives (\<lambda>t. True \<and> (\<forall>l. tb_latin1 t = Some l \<longrightarrow> True))
          (on_latin1 (latin1_decodePortable c input)) (\<lambda>r t. okv r = ref_decode c input \<and> True)"
      proof (rule gives_latin1 [OF on, where P = "\<lambda>_. True" and R = "\<lambda>_. True"])
        fix l r l'
        assume "core_laws c" "latin1_ok c l" "l1_portable l = tc_portableLatin1 cfg"
          "latin1_decodePortable c input l = (r, l')"
        then show "latin1_ok c l' \<and> same_unmap l l' \<and> okv r = ref_decode c input"
          using p latin1_decodePortable_spec [of c l input r l'] by simp
      qed simp
      have call: "on_latin1 (latin1_decodePortable c input) s = (r, s')"
        using run True portable by (simp add: latin1_or_def decodeLatin1_def)
      show ?thesis using givesD [OF g s _ call] by simp
    qed
  qed
qed

lemma exact_bytes_or_fallback:
  assumes "\<not> tc_mixedRuns cfg"
  shows "gives (\<lambda>_. True) (bytes_or_fallback c cfg inner input) (exactly input)"
proof (rule givesI)
  fix s r s'
  assume s: "good s" and run: "bytes_or_fallback c cfg inner input s = (r, s')"
  show "good s' \<and> table_ext (snd s) (snd s') \<and> okv r = ref_decode c input"
  proof (cases "tb_bytes (snd s) = None")
    case True
    then show ?thesis using run s exact_fallback by (auto simp: bytes_or_fallback_def dest: givesD)
  next
    case False
    then have on: "tc_byteTable cfg" using s assms by (auto simp: good_def table_ok_def parts_ok_def)
    have "gives (\<lambda>_. True) (on_bytes (bt_decode c (tc_byteTable cfg) input)) (\<lambda>r t. okv r = ref_decode c input \<and> True)"
      using on byte_decoder.exact [of c _ input]
      by (intro gives_bytes) (auto simp: byte_decoder_inv_def)
    then have "gives (\<lambda>_. True) (decodeBytesInJs c cfg input) (exactly input)"
      unfolding decodeBytesInJs_def by (intro exact_count) (auto elim: gives_conseq)
    then show ?thesis using run s False by (auto simp: bytes_or_fallback_def dest: givesD)
  qed
qed

lemma gives_sampleDirty:
  assumes "stable P"
  shows "gives P (sampleDirty c ids) (\<lambda>r t. (\<exists>sm. r = Inr sm) \<and> P t)"
proof -
  have loop: "table_ok c cfg t \<Longrightarrow> sample_loop c ids n ks d t = (sm, t') \<Longrightarrow> table_ok c cfg t' \<and> table_ext t t'"
    for n ks d t sm t'
  proof (induction ks arbitrary: d t)
    case (Cons k ks)
    obtain st t1 where i: "inspect c (ids ! (k * length ids div n)) t = (st, t1)" by fastforce
    note s1 = inspect_spec [OF Cons.prems(1) i]
    show ?case
    proof (cases "st = 3")
      case True
      then show ?thesis using Cons.prems(2) i s1 by simp
    next
      case False
      then have "sample_loop c ids n ks (if st = 2 then d + 1 else d) t1 = (sm, t')"
        using Cons.prems(2) i by simp
      then have "table_ok c cfg t' \<and> table_ext t1 t'" using s1 by (intro Cons.IH) simp_all
      then show ?thesis using s1 by (blast intro: table_ext_trans)
    qed
  qed simp
  show ?thesis
    unfolding sampleDirty_def
  proof (rule gives_table)
    fix t r t'
    assume t: "table_ok c cfg t" "P t"
      and run: "(case (let n = min 32 (length ids) in sample_loop c ids n [0..<n] 0 t) of (s, t1) \<Rightarrow> (Inr s, t1)) = (r, t')"
    obtain sm t1 where l: "sample_loop c ids (min 32 (length ids)) [0..<min 32 (length ids)] 0 t = (sm, t1)" by fastforce
    then have "r = Inr sm" "t' = t1" using run by (auto simp: Let_def)
    then show "table_ok c cfg t' \<and> table_ext t t' \<and> (\<exists>sm. r = Inr sm) \<and> P t'"
      using loop [OF t(1) l] t(2) assms by (auto simp: stable_def)
  qed
qed

subsubsection \<open>Dirty runs\<close>

lemma gives_byteString:
  assumes "tc_byteTable cfg \<or> tc_mixedRuns cfg" and "tok_state c tid = 2" and "stable P"
  shows "gives P (on_bytes (bt_byteString c (tc_byteTable cfg) tid))
    (\<lambda>r t. r = Inr (Some (latin1 (id_bytes c [tid]))) \<and> P t)"
proof (rule gives_bytes)
  fix b r b'
  assume b: "core_laws c" "bt_ok c (tc_byteTable cfg) b" "bt_byteString c (tc_byteTable cfg) tid b = (r, b')"
  obtain bs where bs: "c_tokenBytes c tid = Inr bs" "\<not> isValidUtf8 bs" using assms(2) by (auto simp: tok_state_eqs)
  show "bt_ok c (tc_byteTable cfg) b' \<and> r = Inr (Some (latin1 (id_bytes c [tid])))"
    using bt_byteString_dirty [OF b(2) bs _ b(3)] core_laws_token [OF b(1) bs(1)] by (simp add: tok_bytes_id(1) [OF bs(1)])
qed (use assms in simp_all)

lemma gives_decodeByteString:
  assumes "tc_mixedRuns cfg" and "stable P"
  shows "gives P (on_bytes (bt_decodeByteString (latin1 bs))) (\<lambda>r t. r = Inr (utf8_lossy bs) \<and> P t)"
  by (rule gives_bytes) (use assms bt_decodeByteString_spec in \<open>auto\<close>)

lemma gives_cached_run:
  assumes "gives (\<lambda>_. True) decodeRun (\<lambda>r t. r = Inr (id_text c run))"
    and "run = take (end' - start) (drop start ids)"
  shows "gives (\<lambda>_. True) (cached_run ids start end' decodeRun) (\<lambda>r t. r = Inr (id_text c run))"
proof (rule givesI)
  fix s r s'
  assume s: "good s" and call: "cached_run ids start end' decodeRun s = (r, s')"
  show "good s' \<and> table_ext (snd s) (snd s') \<and> r = Inr (id_text c run)"
  proof (cases "tb_runs (snd s)")
    case None
    then show ?thesis using call givesD [OF assms(1) s] by (simp add: cached_run_def)
  next
    case (Some rc)
    then have rc: "rc_wf rc" "rc_sound (id_text c) rc" "tc_mixedRuns cfg"
      using s by (auto simp: good_def table_ok_def parts_ok_def)
    obtain r1 rc1 s1 where d: "run_cache_decode ids start end' decodeRun (rc, s) = (r1, (rc1, s1))"
      by (metis surj_pair)
    have result: "okv r1 = Some (id_text c run) \<and> rc_sound (id_text c) rc1"
      unfolding assms(2)
      by (rule run_cache_decode_sound [OF rc(2) d]) (use givesD [OF assms(1) s] assms(2) in auto)
    have wf: "rc_wf rc1" using run_cache_decode_wf [OF rc(1) d] by simp
    have s1: "good s1 \<and> table_ext (snd s) (snd s1)"
      using run_cache_decode_state [OF d]
    proof
      assume "\<exists>r0. decodeRun s = (r0, s1)"
      then obtain r0 where "decodeRun s = (r0, s1)" by blast
      from givesD [OF assms(1) s TrueI this] show ?thesis by blast
    qed (use s in simp)
    have eq: "r = r1" "s' = (fst s1, (snd s1)\<lparr>tb_runs := Some rc1\<rparr>)"
      using call Some d by (simp_all add: cached_run_def)
    have "good s'"
      using s1 wf result rc(3) unfolding eq good_def table_ok_def entries_ok_def parts_ok_def by simp
    then show ?thesis using s1 result eq by (simp add: table_ext_def)
  qed
qed

lemma gives_js_map:
  assumes "list_all2 (\<lambda>x y. gives (\<lambda>_. True) (f x) (\<lambda>r t. r = Inr y)) xs ys"
  shows "gives (\<lambda>_. True) (js_map f xs) (\<lambda>r t. r = Inr ys)"
  using assms
proof (induction xs ys rule: list_all2_induct)
  case (Cons x xs y ys)
  show ?case
    unfolding js_map.simps
  proof (rule gives_bind [OF Cons.hyps(1)])
    fix a
    show "gives (\<lambda>t. Inr a = (Inr y :: js_error + _)) (js_bind (js_map f xs) (\<lambda>ys. js_ret (a # ys))) (\<lambda>r t. r = Inr (y # ys))"
    proof (rule gives_bind [where R = "\<lambda>r t. r = Inr ys \<and> a = y"])
      show "gives (\<lambda>t. Inr a = (Inr y :: js_error + _)) (js_map f xs) (\<lambda>r t. r = Inr ys \<and> a = y)"
        using Cons.IH by (auto simp: gives_def)
      show "gives (\<lambda>t. Inr b = (Inr ys :: js_error + _) \<and> a = y) (js_ret (a # b)) (\<lambda>r t. r = Inr (y # ys))" for b
        by (rule gives_ret) simp
    qed simp
  qed simp
qed (auto intro: gives_ret)

lemma gives_decodeDirtyRuns:
  assumes "tc_mixedRuns cfg" and "list_all2 (run_spec c vals) runs rids"
  shows "gives (\<lambda>_. True) (decodeDirtyRuns vals runs) (\<lambda>r t. r = Inr (map (id_text c) rids))"
  unfolding decodeDirtyRuns_def
proof (rule gives_bind [where R = "\<lambda>r t. r = Inr None \<or> r = Inr (Some (map (id_text c) rids))"])
  have bytes: "map dr_bytes runs = map latin1 (map (id_bytes c) rids)"
    using assms(2) by (induction rule: list_all2_induct) (simp_all add: run_spec_def)
  have joined: "js_join batch_separator (map dr_bytes runs) = latin1 (js_join sep_bytes (map (id_bytes c) rids))"
    by (simp only: bytes latin1_join batch_separator_def)
  let ?decoded = "utf8_lossy (js_join sep_bytes (map (id_bytes c) rids))"
  show "gives (\<lambda>_. True)
     (if 1 < length runs \<and> list_all (\<lambda>run. \<not> js_includes batch_separator (dr_bytes run)) runs
      then js_bind (on_bytes (bt_decodeByteString (js_join batch_separator (map dr_bytes runs))))
             (\<lambda>decoded. let separated = js_split 0xFFFF decoded
               in if length separated = length runs
                  then js_bind (count DirtyBatchCalls) (\<lambda>_.
                       js_bind (on_table (js_modify (bump_by (length runs) DirtyBatchRuns))) (\<lambda>_. js_ret (Some separated)))
                  else js_ret None)
      else js_ret None) (\<lambda>r t. r = Inr None \<or> r = Inr (Some (map (id_text c) rids)))"
  proof (rule gives_if)
    assume cond: "1 < length runs \<and> list_all (\<lambda>run. \<not> js_includes batch_separator (dr_bytes run)) runs"
    then have "rids \<noteq> []" using assms(2) by (auto dest: list_all2_lengthD)
    moreover have "\<forall>s \<in> set (map dr_bytes runs). \<not> js_includes batch_separator s"
      using cond by (simp add: list_all_iff)
    then have "\<forall>bs \<in> set (map (id_bytes c) rids). \<not> js_includes (latin1 sep_bytes) (latin1 bs)"
      unfolding bytes batch_separator_def by simp
    ultimately have split: "js_split 0xFFFF ?decoded = map (id_text c) rids"
      by (subst utf8_lossy_split_batch) (simp_all add: id_text_def [abs_def] comp_def)
    show "gives (\<lambda>_. True)
      (js_bind (on_bytes (bt_decodeByteString (js_join batch_separator (map dr_bytes runs))))
             (\<lambda>decoded. let separated = js_split 0xFFFF decoded
               in if length separated = length runs
                  then js_bind (count DirtyBatchCalls) (\<lambda>_.
                       js_bind (on_table (js_modify (bump_by (length runs) DirtyBatchRuns))) (\<lambda>_. js_ret (Some separated)))
                  else js_ret None)) (\<lambda>r t. r = Inr None \<or> r = Inr (Some (map (id_text c) rids)))"
      unfolding joined
    proof (rule gives_bind [OF gives_decodeByteString [OF assms(1) stable_True]])
      fix decoded
      show "gives (\<lambda>t. Inr decoded = (Inr ?decoded :: js_error + jstring) \<and> True)
        (let separated = js_split 0xFFFF decoded
               in if length separated = length runs
                  then js_bind (count DirtyBatchCalls) (\<lambda>_.
                       js_bind (on_table (js_modify (bump_by (length runs) DirtyBatchRuns))) (\<lambda>_. js_ret (Some separated)))
                  else js_ret None) (\<lambda>r t. r = Inr None \<or> r = Inr (Some (map (id_text c) rids)))"
        (is "gives ?P ?m ?Q")
      proof (cases "decoded = ?decoded")
        case False
        then show ?thesis by (simp add: gives_def)
      next
        case True
        have st: "stable ?P" by (simp add: stable_def)
        have last: "gives ?P (js_bind (on_table (js_modify (bump_by (length runs) DirtyBatchRuns)))
           (\<lambda>_. js_ret (Some (map (id_text c) rids)))) ?Q"
          by (rule gives_bind [OF gives_count [OF st]]) (auto intro: gives_ret)
        have eq: "js_split 0xFFFF decoded = map (id_text c) rids" using split True by simp
        show ?thesis
          unfolding Let_def eq
          by (rule gives_if, rule gives_count_bind [OF st last], rule gives_ret, simp)
      qed
    qed simp
  qed (auto intro: gives_ret)
next
  fix decodedRuns
  have each: "list_all2 (\<lambda>run y. gives (\<lambda>_. True)
     (cached_run vals (dr_start run) (dr_end run) (on_bytes (bt_decodeByteString (dr_bytes run)))) (\<lambda>r t. r = Inr y))
     runs (map (id_text c) rids)"
    unfolding list_all2_map2
  proof (rule list_all2_mono [OF assms(2)])
    fix run rid assume spec: "run_spec c vals run rid"
    have "gives (\<lambda>_. True) (on_bytes (bt_decodeByteString (dr_bytes run))) (\<lambda>r t. r = Inr (id_text c rid))"
      using gives_decodeByteString [OF assms(1) stable_True, of "id_bytes c rid"] spec
      by (auto simp: run_spec_def id_text_def elim: gives_conseq)
    then show "gives (\<lambda>_. True)
     (cached_run vals (dr_start run) (dr_end run) (on_bytes (bt_decodeByteString (dr_bytes run)))) (\<lambda>r t. r = Inr (id_text c rid))"
      using spec by (intro gives_cached_run) (simp_all add: run_spec_def)
  qed
  have all: "gives (\<lambda>_. True) (js_bind (if 1 < length runs then count DirtyBatchFallbackCalls else js_ret ()) (\<lambda>_.
            js_map (\<lambda>run. cached_run vals (dr_start run) (dr_end run)
                      (on_bytes (bt_decodeByteString (dr_bytes run)))) runs)) (\<lambda>r t. r = Inr (map (id_text c) rids))"
    by (rule gives_bind [where R = "\<lambda>r t. r = Inr ()"])
      (use gives_js_map [OF each] in \<open>auto simp: count_def intro!: gives_ret intro: gives_conseq [OF gives_count [OF stable_True]] elim: gives_conseq\<close>)
  show "gives (\<lambda>t. Inr decodedRuns = (Inr None :: js_error + _) \<or> Inr decodedRuns = (Inr (Some (map (id_text c) rids)) :: js_error + _))
     (case decodedRuns of
          Some separated \<Rightarrow> js_ret separated
        | None \<Rightarrow>
            js_bind (if 1 < length runs then count DirtyBatchFallbackCalls else js_ret ()) (\<lambda>_.
            js_map (\<lambda>run. cached_run vals (dr_start run) (dr_end run)
                      (on_bytes (bt_decodeByteString (dr_bytes run)))) runs))
     (\<lambda>r t. r = Inr (map (id_text c) rids))"
    using all by (cases decodedRuns) (auto intro!: gives_ret elim: gives_conseq)
qed simp

end

subsubsection \<open>The run stitcher\<close>

text \<open>The text of the pieces gathered so far, given the ids of each run.\<close>

definition pieces_text :: "core \<Rightarrow> u32 list list \<Rightarrow> piece list \<Rightarrow> jstring" where
  "pieces_text c rids pieces = concat (map (piece_text (map (id_text c) rids)) pieces)"

definition pieces_ok :: "nat \<Rightarrow> piece list \<Rightarrow> bool" where
  "pieces_ok n pieces \<longleftrightarrow> (\<forall>k. PRun k \<in> set pieces \<longrightarrow> k < n)"

lemma pieces_text_more:
  assumes "pieces_ok (length rids) pieces"
  shows "pieces_text c (rids @ [rid]) pieces = pieces_text c rids pieces"
proof -
  have "piece_text (map (id_text c) (rids @ [rid])) p = piece_text (map (id_text c) rids) p" if "p \<in> set pieces" for p
  proof (cases p)
    case (PRun k)
    then have "k < length rids" using that assms by (simp add: pieces_ok_def)
    then show ?thesis using PRun by (simp add: nth_append)
  qed simp
  then show ?thesis by (simp add: pieces_text_def cong: map_cong)
qed

lemma pieces_text_snoc:
  assumes "pieces_ok (length rids) pieces"
  shows "pieces_text c (rids @ [rid]) (pieces @ [PRun (length rids)]) = pieces_text c rids pieces @ id_text c rid"
proof -
  have "pieces_text c (rids @ [rid]) (pieces @ [PRun (length rids)]) =
      pieces_text c (rids @ [rid]) pieces @ pieces_text c (rids @ [rid]) [PRun (length rids)]"
    by (simp add: pieces_text_def)
  then show ?thesis by (simp add: pieces_text_more [OF assms]) (simp add: pieces_text_def nth_append)
qed

lemma pieces_text_clean: "pieces_text c rids (pieces @ [PClean s]) = pieces_text c rids pieces @ s"
  by (simp add: pieces_text_def)

definition stitched :: "core \<Rightarrow> u32 list \<Rightarrow> nat \<Rightarrow> stitch \<Rightarrow> bool" where
  "stitched c vals index st \<longleftrightarrow> (\<exists>pre d rids.
     take index vals = pre @ d \<and> index \<le> length vals \<and> boundary c pre \<and> known c (pre @ d) \<and>
     st_dirtyBytes st = latin1 (id_bytes c d) \<and>
     (d \<noteq> [] \<longrightarrow> st_clean st = [] \<and> st_dirtyStart st = length pre) \<and>
     id_text c pre = pieces_text c rids (st_pieces st) @ st_clean st \<and>
     list_all2 (run_spec c vals) (st_runs st) rids \<and> pieces_ok (length (st_runs st)) (st_pieces st) \<and>
     (st_runs st = [] \<longrightarrow> d = [] \<longrightarrow> st_pieces st = []))"

text \<open>After the flush of the dirty bytes nothing dirty is pending.\<close>

definition stitched_clean :: "core \<Rightarrow> u32 list \<Rightarrow> nat \<Rightarrow> stitch \<Rightarrow> bool" where
  "stitched_clean c vals index st \<longleftrightarrow> (\<exists>rids.
     index \<le> length vals \<and> known c (take index vals) \<and> st_dirtyBytes st = [] \<and>
     id_text c (take index vals) = pieces_text c rids (st_pieces st) @ st_clean st \<and>
     list_all2 (run_spec c vals) (st_runs st) rids \<and> pieces_ok (length (st_runs st)) (st_pieces st) \<and>
     (st_runs st = [] \<longrightarrow> st_pieces st = []))"

lemma flushDirty_result:
  assumes "core_laws c" and "stitched c vals index st"
  shows "\<exists>st1. stitched_clean c vals index st1 \<and>
     ((flushDirty index st :: ('i, stitch) table_js) = js_ret st1 \<or>
      (flushDirty index st :: ('i, stitch) table_js) = js_bind (count DirtyRunCalls) (\<lambda>_. js_ret st1))"
proof -
  obtain pre d rids where inv: "take index vals = pre @ d" "index \<le> length vals" "boundary c pre" "known c (pre @ d)"
     "st_dirtyBytes st = latin1 (id_bytes c d)"
     "d \<noteq> [] \<longrightarrow> st_clean st = [] \<and> st_dirtyStart st = length pre"
     "id_text c pre = pieces_text c rids (st_pieces st) @ st_clean st"
     "list_all2 (run_spec c vals) (st_runs st) rids" "pieces_ok (length (st_runs st)) (st_pieces st)"
     "st_runs st = [] \<longrightarrow> d = [] \<longrightarrow> st_pieces st = []"
    using assms(2) unfolding stitched_def by blast
  show ?thesis
  proof (cases "d = []")
    case True
    then have "stitched_clean c vals index st" "st_dirtyBytes st = []"
      using inv by (auto simp: stitched_clean_def)
    then show ?thesis by (intro exI [of _ st]) (simp add: flushDirty_def)
  next
    case False
    define run where "run = \<lparr>dr_start = st_dirtyStart st, dr_end = index, dr_bytes = st_dirtyBytes st\<rparr>"
    define st1 where "st1 = st\<lparr>st_runs := st_runs st @ [run], st_pieces := st_pieces st @ [PRun (length (st_runs st))],
            st_dirtyBytes := []\<rparr>"
    have len: "length rids = length (st_runs st)" using inv(8) by (simp add: list_all2_lengthD)
    have "take (index - length pre) (drop (length pre) vals) = drop (length pre) (take index vals)"
      by (simp add: drop_take)
    then have run: "run_spec c vals run d"
      using inv False by (simp add: run_spec_def run_def)
    have "id_text c (take index vals) = id_text c pre @ id_text c d"
      using inv(1,3) by (simp add: boundary_def)
    moreover have "pieces_text c (rids @ [d]) (st_pieces st @ [PRun (length (st_runs st))]) =
        pieces_text c rids (st_pieces st) @ id_text c d"
      using pieces_text_snoc [of rids "st_pieces st" c d] inv(9) len by simp
    ultimately have "stitched_clean c vals index st1"
      unfolding stitched_clean_def
      using inv(1,2,4,6,7,8,9) False run
      by (intro exI [of _ "rids @ [d]"]) (auto simp: st1_def list_all2_appendI pieces_ok_def less_Suc_eq)
    moreover have "st_dirtyBytes st \<noteq> []"
      using inv(4,5) False id_bytes_eq_Nil [OF assms(1), of d] by simp
    then have "flushDirty index st = js_bind (count DirtyRunCalls) (\<lambda>_. js_ret st1)"
      by (simp add: flushDirty_def st1_def run_def)
    ultimately show ?thesis by blast
  qed
qed

lemma stitched_clean_step:
  assumes "core_laws c" and "stitched_clean c vals index st" and "index < length vals" and "tok_state c (vals ! index) = 1"
  shows "stitched c vals (Suc index) (st\<lparr>st_clean := st_clean st @ id_text c [vals ! index]\<rparr>)"
proof -
  have t: "take (Suc index) vals = take index vals @ [vals ! index]"
    using assms(3) by (rule take_Suc_conv_app_nth)
  have "id_text c (take index vals @ [vals ! index]) = id_text c (take index vals) @ id_text c [vals ! index]"
    by (rule id_text_append_clean [OF assms(1)]) (simp add: assms(4))
  moreover have "boundary c (take index vals @ [vals ! index])"
    by (rule boundary_last_clean [OF assms(1,4)])
  moreover obtain rids where "known c (take index vals)" "st_dirtyBytes st = []"
     "id_text c (take index vals) = pieces_text c rids (st_pieces st) @ st_clean st"
     "list_all2 (run_spec c vals) (st_runs st) rids" "pieces_ok (length (st_runs st)) (st_pieces st)"
     "st_runs st = [] \<longrightarrow> st_pieces st = []"
    using assms(2) unfolding stitched_clean_def by blast
  ultimately show ?thesis
    using assms(3,4) unfolding stitched_def
    by (intro exI [of _ "take index vals @ [vals ! index]"] exI [of _ "[]"] exI [of _ rids]) (simp add: t)
qed

lemma stitched_dirty_step:
  assumes "core_laws c" and "stitched c vals index st" and "index < length vals" and "tok_state c (vals ! index) = 2"
    and "st1 = flushClean st"
    and "st2 = (if st_dirtyBytes st1 = [] then st1\<lparr>st_dirtyStart := index\<rparr> else st1)"
  shows "stitched c vals (Suc index) (st2\<lparr>st_dirtyIds := n,
     st_dirtyBytes := st_dirtyBytes st2 @ latin1 (id_bytes c [vals ! index])\<rparr>)"
proof -
  obtain pre d rids where inv: "take index vals = pre @ d" "index \<le> length vals" "boundary c pre" "known c (pre @ d)"
     "st_dirtyBytes st = latin1 (id_bytes c d)"
     "d \<noteq> [] \<longrightarrow> st_clean st = [] \<and> st_dirtyStart st = length pre"
     "id_text c pre = pieces_text c rids (st_pieces st) @ st_clean st"
     "list_all2 (run_spec c vals) (st_runs st) rids" "pieces_ok (length (st_runs st)) (st_pieces st)"
     "st_runs st = [] \<longrightarrow> d = [] \<longrightarrow> st_pieces st = []"
    using assms(2) unfolding stitched_def by blast
  have t: "take (Suc index) vals = pre @ d @ [vals ! index]"
    using inv(1) assms(3) by (simp add: take_Suc_conv_app_nth)
  have st1: "st_dirtyBytes st1 = st_dirtyBytes st" "st_runs st1 = st_runs st" "st_clean st1 = []"
      "st_dirtyStart st1 = st_dirtyStart st"
      "pieces_text c rids (st_pieces st1) = pieces_text c rids (st_pieces st) @ st_clean st"
      "pieces_ok (length (st_runs st)) (st_pieces st1)"
    using inv(9) by (auto simp: assms(5) flushClean_def pieces_text_clean pieces_ok_def)
  have st2: "st_dirtyBytes st2 = st_dirtyBytes st" "st_runs st2 = st_runs st" "st_clean st2 = []"
      "st_pieces st2 = st_pieces st1" using st1 by (simp_all add: assms(6))
  have "d = [] \<Longrightarrow> length pre = index" using inv(1,2) by (metis append_Nil2 length_take min.absorb2)
  moreover have "st_dirtyBytes st = [] \<longleftrightarrow> d = []"
    using inv(4,5) id_bytes_eq_Nil [OF assms(1), of d] by simp
  ultimately have start: "st_dirtyStart st2 = length pre"
    using inv(6) st1 by (auto simp: assms(6))
  show ?thesis
    unfolding stitched_def
    using inv(3,4,7,8) t st1 st2 start assms(3,4) inv(5)
    by (intro exI [of _ pre] exI [of _ "d @ [vals ! index]"] exI [of _ rids]) simp
qed

definition settled :: "core \<Rightarrow> u32 list \<Rightarrow> table \<Rightarrow> bool" where
  "settled c ids t \<longleftrightarrow> (\<forall>tid \<in> set ids.
     tok_state c tid = 1 \<and> packed_string (tb_table t) tid = Some (id_text c [tid]) \<or>
     tok_state c tid = 2 \<and> is_dirty_entry (tb_table t) tid)"

lemma settled_ext: "settled c ids t \<Longrightarrow> table_ext t t' \<Longrightarrow> settled c ids t'"
  unfolding settled_def table_ext_def by blast

context table_over
begin

lemma gives_inspect:
  assumes "stable P"
  shows "gives P (on_table (\<lambda>t. map_prod Inr (\<lambda>t. t) (inspect c tid t)))
    (\<lambda>r t. r = Inr (tok_state c tid) \<and> P t)"
proof (rule gives_table)
  fix t r t'
  assume t: "table_ok c cfg t" "P t" and run: "map_prod Inr (\<lambda>t. t) (inspect c tid t) = (r, t')"
  obtain st t1 where i: "inspect c tid t = (st, t1)" by fastforce
  then show "table_ok c cfg t' \<and> table_ext t t' \<and> r = Inr (tok_state c tid) \<and> P t'"
    using inspect_spec [OF t(1) i] run t(2) assms by (auto simp: stable_def)
qed

lemma gives_materialize:
  assumes "stable P" and "tok_state c tid = 1"
  shows "gives P (on_table (materialize c tid)) (\<lambda>r t. r = Inr (Some (id_text c [tid])) \<and> P t)"
  by (rule gives_table) (use materialize_spec assms in \<open>fastforce simp: stable_def\<close>)

lemma gives_flushDirty:
  assumes "core_laws c" and "stitched c vals index st"
  shows "gives (\<lambda>_. True) (flushDirty index st) (\<lambda>r t. \<exists>st1. r = Inr st1 \<and> stitched_clean c vals index st1)"
proof -
  obtain st1 where st1: "stitched_clean c vals index st1"
    "(flushDirty index st :: ('i, stitch) table_js) = js_ret st1 \<or>
     (flushDirty index st :: ('i, stitch) table_js) = js_bind (count DirtyRunCalls) (\<lambda>_. js_ret st1)"
    using flushDirty_result [OF assms] by blast
  have r: "gives (\<lambda>_. True) (js_ret st1) (\<lambda>r t. \<exists>st1. r = Inr st1 \<and> stitched_clean c vals index st1)"
    using st1(1) by (intro gives_ret) simp
  from st1(2) show ?thesis
  proof
    assume "(flushDirty index st :: ('i, stitch) table_js) = js_ret st1"
    then show ?thesis using r by simp
  next
    assume "(flushDirty index st :: ('i, stitch) table_js) = js_bind (count DirtyRunCalls) (\<lambda>_. js_ret st1)"
    then show ?thesis using exact_count [OF r] by simp
  qed
qed

lemma gives_dirty_string:
  assumes "tc_mixedRuns cfg" and "tok_state c tid = 2"
  shows "gives (\<lambda>_. True) (dirty_string_of c cfg tid) (\<lambda>r t. r = Inr (latin1 (id_bytes c [tid])))"
  unfolding dirty_string_of_def
  by (rule gives_bind [OF gives_byteString [OF disjI2 [OF assms(1)] assms(2) stable_True]]) (auto simp: gives_def js_ret_def)

lemma gives_count_mixed: "gives (\<lambda>_. True) (count_mixed_fallback cfg d n) (\<lambda>r t. r = Inr ())"
proof -
  have one: "gives (\<lambda>_. True) (count k) (\<lambda>r t. r = Inr ())" for k
    unfolding count_def by (rule gives_conseq [OF gives_count [OF stable_True]]) simp_all
  show ?thesis unfolding count_mixed_fallback_def by (intro exact_count gives_if one)
qed

lemma gives_stitch_loop:
  assumes "core_laws c" and "tc_mixedRuns cfg" and "stitched c vals index st"
  shows "gives (\<lambda>_. True) (stitch_loop c cfg len index (drop index vals) st)
    (\<lambda>r t. r = Inr ToFallback \<or> (\<exists>st'. r = Inr (Through st') \<and> stitched c vals (length vals) st'))"
    (is "gives _ _ ?Q")
  using assms(3)
proof (induction "length vals - index" arbitrary: index st)
  case 0
  then have "index = length vals" by (auto simp: stitched_def)
  then show ?case using 0 by (auto intro!: gives_ret)
next
  case (Suc m)
  then have i: "index < length vals" by simp
  then have drop: "drop index vals = vals ! index # drop (Suc index) vals" by (rule Cons_nth_drop_Suc [symmetric])
  define tid where "tid = vals ! index"
  show ?case
    unfolding drop stitch_loop.simps tid_def [symmetric]
  proof (rule gives_bind [OF gives_inspect [OF stable_True]])
    fix state
    show "gives (\<lambda>t. Inr state = (Inr (tok_state c tid) :: js_error + u8) \<and> True)
      (if state = 3 then js_bind (count UnknownFallbackCalls) (\<lambda>_. js_ret ToFallback)
       else if state = 1 then
         js_bind (flushDirty index st) (\<lambda>st1.
         js_bind (on_table (materialize c tid)) (\<lambda>value.
           case value of
             None \<Rightarrow> js_throw (PlainError ''decode table materialization did not converge'')
           | Some s \<Rightarrow> stitch_loop c cfg len (Suc index) (drop (Suc index) vals) (st1\<lparr>st_clean := st_clean st1 @ s\<rparr>)))
       else
         let st1 = flushClean st;
             st2 = (if st_dirtyBytes st1 = [] then st1\<lparr>st_dirtyStart := index\<rparr> else st1);
             dirtyIds = st_dirtyIds st2 + 1;
             currentRuns = length (st_runs st2) + 1
         in if mixed_score_exceeds cfg dirtyIds currentRuns len
            then js_bind (count_mixed_fallback cfg dirtyIds len) (\<lambda>_. js_ret ToFallback)
            else js_bind (dirty_string_of c cfg tid) (\<lambda>value.
              stitch_loop c cfg len (Suc index) (drop (Suc index) vals)
                (st2\<lparr>st_dirtyIds := dirtyIds, st_dirtyBytes := st_dirtyBytes st2 @ value\<rparr>))) ?Q"
      (is "gives _ ?body _")
    proof (cases "state = tok_state c tid")
      case False
      then show ?thesis by (simp add: gives_def)
    next
      case True
      consider (unknown) "state = 3" | (clean) "state = 1" | (dirty) "state = 2"
        using tok_state_cases [of c tid] True by auto
      then have "gives (\<lambda>_. True) ?body ?Q"
      proof cases
        case unknown
        then show ?thesis by (auto intro!: exact_count gives_ret)
      next
        case clean
        then have one: "tok_state c (vals ! index) = 1" using True tid_def by simp
        have "gives (\<lambda>_. True) (js_bind (flushDirty index st) (\<lambda>st1.
         js_bind (on_table (materialize c tid)) (\<lambda>value.
           case value of
             None \<Rightarrow> js_throw (PlainError ''decode table materialization did not converge'')
           | Some s \<Rightarrow> stitch_loop c cfg len (Suc index) (drop (Suc index) vals) (st1\<lparr>st_clean := st_clean st1 @ s\<rparr>)))) ?Q"
        proof (rule gives_bind [OF gives_flushDirty [OF assms(1) Suc.prems]])
          fix st1
          show "gives (\<lambda>t. \<exists>st0. Inr st1 = (Inr st0 :: js_error + stitch) \<and> stitched_clean c vals index st0)
            (js_bind (on_table (materialize c tid)) (\<lambda>value.
             case value of
               None \<Rightarrow> js_throw (PlainError ''decode table materialization did not converge'')
             | Some s \<Rightarrow> stitch_loop c cfg len (Suc index) (drop (Suc index) vals) (st1\<lparr>st_clean := st_clean st1 @ s\<rparr>))) ?Q"
          proof (rule gives_bind [OF gives_materialize])
            fix value'
            show "gives (\<lambda>t. Inr value' = (Inr (Some (id_text c [tid])) :: js_error + _) \<and>
                 (\<exists>st0. Inr st1 = (Inr st0 :: js_error + stitch) \<and> stitched_clean c vals index st0))
              (case value' of
               None \<Rightarrow> js_throw (PlainError ''decode table materialization did not converge'')
             | Some s \<Rightarrow> stitch_loop c cfg len (Suc index) (drop (Suc index) vals) (st1\<lparr>st_clean := st_clean st1 @ s\<rparr>)) ?Q"
            proof (cases "value' = Some (id_text c [tid]) \<and> stitched_clean c vals index st1")
              case True
              then have "stitched c vals (Suc index) (st1\<lparr>st_clean := st_clean st1 @ id_text c [tid]\<rparr>)"
                using stitched_clean_step [OF assms(1) _ i one] by (simp add: tid_def)
              then have "gives (\<lambda>_. True) (stitch_loop c cfg len (Suc index) (drop (Suc index) vals)
                  (st1\<lparr>st_clean := st_clean st1 @ id_text c [tid]\<rparr>)) ?Q"
                using Suc.hyps by (intro Suc.hyps(1)) simp_all
              then show ?thesis using True by (auto elim: gives_conseq)
            qed (auto simp: gives_def)
          qed (use True clean in \<open>auto simp: stable_def\<close>)
        qed auto
        then show ?thesis using clean by simp
      next
        case dirty
        then have two: "tok_state c (vals ! index) = 2" using True tid_def by simp
        define st1 where "st1 = flushClean st"
        define st2 where "st2 = (if st_dirtyBytes st1 = [] then st1\<lparr>st_dirtyStart := index\<rparr> else st1)"
        note step = stitched_dirty_step [OF assms(1) Suc.prems i two st1_def st2_def]
        have "gives (\<lambda>_. True) (js_bind (dirty_string_of c cfg tid) (\<lambda>value.
              stitch_loop c cfg len (Suc index) (drop (Suc index) vals)
                (st2\<lparr>st_dirtyIds := st_dirtyIds st2 + 1, st_dirtyBytes := st_dirtyBytes st2 @ value\<rparr>))) ?Q"
        proof (rule gives_bind [OF gives_dirty_string [OF assms(2)]])
          fix value'
          show "gives (\<lambda>t. Inr value' = (Inr (latin1 (id_bytes c [tid])) :: js_error + _))
            (stitch_loop c cfg len (Suc index) (drop (Suc index) vals)
                (st2\<lparr>st_dirtyIds := st_dirtyIds st2 + 1, st_dirtyBytes := st_dirtyBytes st2 @ value'\<rparr>)) ?Q"
          proof (cases "value' = latin1 (id_bytes c [tid])")
            case True
            then have "gives (\<lambda>_. True) (stitch_loop c cfg len (Suc index) (drop (Suc index) vals)
                (st2\<lparr>st_dirtyIds := st_dirtyIds st2 + 1, st_dirtyBytes := st_dirtyBytes st2 @ value'\<rparr>)) ?Q"
              using Suc.hyps(2) step [of "st_dirtyIds st2 + 1"] by (intro Suc.hyps(1)) (simp_all add: tid_def)
            then show ?thesis by (rule gives_conseq) simp_all
          qed (simp add: gives_def)
        qed (use two in \<open>simp_all add: tid_def\<close>)
        moreover have "gives (\<lambda>_. True) (js_bind (count_mixed_fallback cfg n len) (\<lambda>_. js_ret ToFallback)) ?Q" for n
          by (rule gives_bind [OF gives_count_mixed]) (auto intro!: gives_ret)
        ultimately show ?thesis
          using dirty by (simp add: Let_def flip: st1_def st2_def)
      qed
      then show ?thesis by (rule gives_conseq) simp_all
    qed
  qed simp
qed

end

lemma prepared_ref: "prepared_ok c prep \<Longrightarrow> ref_decode c (p_ids prep) = ref_text c (p_values prep)"
  by (simp add: prepared_ok_def ref_decode_def)

context table_over
begin

lemma exact_stitch_finish:
  assumes "core_laws c" and "tc_mixedRuns cfg" and "prepared_ok c prep"
    and "stitched c (p_values prep) (length (p_values prep)) st0"
  shows "gives (\<lambda>_. True) (stitch_finish inner prep st0) (exactly (p_ids prep))"
  unfolding stitch_finish_def
proof (rule gives_bind [OF gives_flushDirty [OF assms(1,4)]])
  fix st1
  let ?body = "let st = flushClean st1 in
     if st_runs st = [] then
       js_bind (count TableCalls) (\<lambda>_.
       js_bind (count RunStitcherCalls) (\<lambda>_.
       js_ret (case st_pieces st of [] \<Rightarrow> [] | p # _ \<Rightarrow> piece_text [] p)))
     else if length (st_pieces st) = 1 then
       js_bind (count RunStitcherCalls) (\<lambda>_. fallback inner (p_ids prep))
     else
       js_bind (decodeDirtyRuns (p_values prep) (st_runs st)) (\<lambda>decodedRuns.
       js_bind (count TableCalls) (\<lambda>_.
       js_bind (count MixedCalls) (\<lambda>_.
       js_bind (count RunStitcherCalls) (\<lambda>_.
       js_ret (concat (map (piece_text decodedRuns) (st_pieces st)))))))"
  show "gives (\<lambda>t. \<exists>st. Inr st1 = (Inr st :: js_error + stitch) \<and>
      stitched_clean c (p_values prep) (length (p_values prep)) st) ?body (exactly (p_ids prep))"
  proof (cases "stitched_clean c (p_values prep) (length (p_values prep)) st1")
    case True
    define st where "st = flushClean st1"
    obtain rids where inv: "known c (p_values prep)"
     "id_text c (p_values prep) = pieces_text c rids (st_pieces st1) @ st_clean st1"
     "list_all2 (run_spec c (p_values prep)) (st_runs st1) rids"
     "st_runs st1 = [] \<longrightarrow> st_pieces st1 = []"
      using True unfolding stitched_clean_def by auto
    have ref: "ref_decode c (p_ids prep) = Some (id_text c (p_values prep))"
      using inv(1) by (simp add: prepared_ref [OF assms(3)] ref_text_known)
    have st: "st_runs st = st_runs st1" "id_text c (p_values prep) = pieces_text c rids (st_pieces st)"
      using inv(2) by (simp_all add: st_def flushClean_def pieces_text_clean)
    have "gives (\<lambda>_. True) ?body (exactly (p_ids prep))"
      unfolding st_def [symmetric] Let_def
    proof (intro gives_if)
      assume none: "st_runs st = []"
      then have "(case st_pieces st of [] \<Rightarrow> [] | p # _ \<Rightarrow> piece_text [] p) = id_text c (p_values prep)"
        using inv(4) st inv(2) by (auto simp: st_def flushClean_def pieces_text_def)
      then show "gives (\<lambda>_. True) (js_bind (count TableCalls) (\<lambda>_. js_bind (count RunStitcherCalls) (\<lambda>_.
         js_ret (case st_pieces st of [] \<Rightarrow> [] | p # _ \<Rightarrow> piece_text [] p)))) (exactly (p_ids prep))"
        by (intro exact_count gives_ret) (simp add: ref)
    next
      show "gives (\<lambda>_. True) (js_bind (count RunStitcherCalls) (\<lambda>_. fallback inner (p_ids prep))) (exactly (p_ids prep))"
        by (intro exact_count exact_fallback)
    next
      show "gives (\<lambda>_. True) (js_bind (decodeDirtyRuns (p_values prep) (st_runs st)) (\<lambda>decodedRuns.
       js_bind (count TableCalls) (\<lambda>_. js_bind (count MixedCalls) (\<lambda>_. js_bind (count RunStitcherCalls) (\<lambda>_.
       js_ret (concat (map (piece_text decodedRuns) (st_pieces st)))))))) (exactly (p_ids prep))"
      proof (rule gives_bind [OF gives_decodeDirtyRuns [OF assms(2)]])
        show "list_all2 (run_spec c (p_values prep)) (st_runs st) rids" using inv(3) st(1) by simp
        fix decodedRuns
        have "gives (\<lambda>_. True) (js_bind (count TableCalls) (\<lambda>_. js_bind (count MixedCalls) (\<lambda>_. js_bind (count RunStitcherCalls) (\<lambda>_.
           js_ret (concat (map (piece_text decodedRuns) (st_pieces st))))))) (exactly (p_ids prep))"
          if "decodedRuns = map (id_text c) rids"
          by (intro exact_count gives_ret) (simp add: ref st(2) that pieces_text_def)
        then show "gives (\<lambda>t. Inr decodedRuns = (Inr (map (id_text c) rids) :: js_error + _))
          (js_bind (count TableCalls) (\<lambda>_. js_bind (count MixedCalls) (\<lambda>_. js_bind (count RunStitcherCalls) (\<lambda>_.
           js_ret (concat (map (piece_text decodedRuns) (st_pieces st))))))) (exactly (p_ids prep))"
          by (auto simp: gives_def)
      qed simp
    qed
    then show ?thesis by (rule gives_conseq) simp_all
  qed (simp add: gives_def)
qed simp

lemma exact_decodeRunStitched:
  assumes "core_laws c" and "tc_mixedRuns cfg" and "prepared_ok c prep"
  shows "gives (\<lambda>_. True) (decodeRunStitched c cfg inner prep) (exactly (p_ids prep))"
  unfolding decodeRunStitched_def Let_def
proof (rule gives_bind [OF gives_sampleDirty [OF stable_True]])
  let ?st = "\<lparr>st_pieces = [], st_runs = [], st_clean = p_prefix prep, st_dirtyBytes = [],
          st_dirtyStart = 0, st_dirtyIds = 0\<rparr>"
  fix sampled :: sample
  have "stitched c (p_values prep) (p_firstMiss prep) ?st"
    unfolding stitched_def using assms(3)
    by (intro exI [of _ "take (p_firstMiss prep) (p_values prep)"] exI [of _ "[]"] exI [of _ "[]"])
      (auto simp: prepared_ok_def boundary_clean clean_known pieces_text_def pieces_ok_def)
  note loop = gives_stitch_loop [OF assms(1,2) this]
  have rest: "gives (\<lambda>_. True) (js_bind (stitch_loop c cfg (length (p_values prep)) (p_firstMiss prep)
       (drop (p_firstMiss prep) (p_values prep)) ?st) (\<lambda>rt.
       case rt of ToFallback \<Rightarrow> fallback inner (p_ids prep) | Through st \<Rightarrow> stitch_finish inner prep st))
     (exactly (p_ids prep))"
  proof (rule gives_bind [OF loop])
    fix rt
    have "gives (\<lambda>_. True) (case rt of ToFallback \<Rightarrow> fallback inner (p_ids prep) | Through st \<Rightarrow> stitch_finish inner prep st)
      (exactly (p_ids prep))"
      if "rt = ToFallback \<or> (\<exists>st'. rt = Through st' \<and> stitched c (p_values prep) (length (p_values prep)) st')"
      using that exact_fallback exact_stitch_finish [OF assms] by auto
    then show "gives (\<lambda>t. Inr rt = (Inr ToFallback :: js_error + _) \<or>
        (\<exists>st'. Inr rt = (Inr (Through st') :: js_error + _) \<and> stitched c (p_values prep) (length (p_values prep)) st'))
      (case rt of ToFallback \<Rightarrow> fallback inner (p_ids prep) | Through st \<Rightarrow> stitch_finish inner prep st)
      (exactly (p_ids prep))"
      by (auto simp: gives_def)
  qed auto
  have "gives (\<lambda>_. True)
     (if s_unknown sampled then js_bind (count UnknownFallbackCalls) (\<lambda>_. fallback inner (p_ids prep))
     else if exceeds cfg (s_sampledDirty sampled) (s_sampleCount sampled) (tc_maxMixedDirtyDensity cfg) then
       js_bind (count DirtyFallbackCalls) (\<lambda>_.
       js_bind (count SampledFallbackCalls) (\<lambda>_.
       js_bind (count MixedDensityFallbackCalls) (\<lambda>_. fallback inner (p_ids prep))))
     else js_bind (stitch_loop c cfg (length (p_values prep)) (p_firstMiss prep)
       (drop (p_firstMiss prep) (p_values prep)) ?st) (\<lambda>rt.
       case rt of ToFallback \<Rightarrow> fallback inner (p_ids prep) | Through st \<Rightarrow> stitch_finish inner prep st))
     (exactly (p_ids prep))"
    by (intro gives_if exact_count exact_fallback rest)
  then show "gives (\<lambda>t. (\<exists>sm. Inr sampled = (Inr sm :: js_error + sample)) \<and> True)
     (if s_unknown sampled then js_bind (count UnknownFallbackCalls) (\<lambda>_. fallback inner (p_ids prep))
     else if exceeds cfg (s_sampledDirty sampled) (s_sampleCount sampled) (tc_maxMixedDirtyDensity cfg) then
       js_bind (count DirtyFallbackCalls) (\<lambda>_.
       js_bind (count SampledFallbackCalls) (\<lambda>_.
       js_bind (count MixedDensityFallbackCalls) (\<lambda>_. fallback inner (p_ids prep))))
     else js_bind (stitch_loop c cfg (length (p_values prep)) (p_firstMiss prep)
       (drop (p_firstMiss prep) (p_values prep)) ?st) (\<lambda>rt.
       case rt of ToFallback \<Rightarrow> fallback inner (p_ids prep) | Through st \<Rightarrow> stitch_finish inner prep st))
     (exactly (p_ids prep))"
    by (rule gives_conseq) simp_all
qed auto

subsubsection \<open>Classification\<close>

lemma stable_settled: "stable (settled c ids)"
  using settled_ext by (simp add: stable_def)

text \<open>What the classification knows when it has seen all ids.\<close>

definition classified_ok :: "u32 list \<Rightarrow> nat \<Rightarrow> classified \<Rightarrow> table \<Rightarrow> bool" where
  "classified_ok ids before seen t \<longleftrightarrow>
     (case seen of AllSeen d \<Rightarrow> settled c ids t \<and> before \<le> d \<and> (d = before \<longrightarrow> clean c ids) | _ \<Rightarrow> True)"

lemma classify_loop_spec:
  assumes "table_ok c cfg t" and "classify_loop c cfg len ids d runs pd t = (r, t')"
  shows "table_ok c cfg t' \<and> table_ext t t' \<and> (\<exists>seen. r = Inr seen \<and> classified_ok ids d seen t')"
  using assms
proof (induction ids arbitrary: d runs pd t)
  case Nil
  then show ?case by (auto simp: classified_ok_def settled_def)
next
  case (Cons tid ids)
  obtain st t1 where i: "inspect c tid t = (st, t1)" by fastforce
  note s1 = inspect_spec [OF Cons.prems(1) i]
  consider (unknown) "st = 3" | (clean) "st = 1" | (dirty) "st = 2" using s1 tok_state_cases [of c tid] by auto
  then show ?case
  proof cases
    case unknown
    then show ?thesis using Cons.prems(2) i s1 by (auto simp: classified_ok_def)
  next
    case clean
    obtain r2 t2 where m: "materialize c tid t1 = (r2, t2)" by fastforce
    have ok1: "table_ok c cfg t1" using s1 by simp
    note s2 = materialize_spec [OF ok1 m]
    have rec: "classify_loop c cfg len ids d runs False t2 = (r, t')"
      using Cons.prems(2) i clean m s2 s1 by (simp add: js_bind_def)
    have "table_ok c cfg t2" using s2 by simp
    from Cons.IH [OF this rec] obtain seen where tail: "table_ok c cfg t'" "table_ext t2 t'" "r = Inr seen" "classified_ok ids d seen t'"
      by blast
    have one: "tok_state c tid = 1" using s1 clean by simp
    then have "packed_string (tb_table t') tid = Some (id_text c [tid])"
      using s2 tail(2) by (simp add: table_ext_def)
    then have "classified_ok (tid # ids) d seen t'"
      using tail(4) one by (auto simp: classified_ok_def settled_def split: classified.splits)
    then show ?thesis using tail s1 s2 by (blast intro: table_ext_trans)
  next
    case dirty
    have two: "tok_state c tid = 2" using s1 dirty by simp
    have step: "classify_loop c cfg len (tid # ids) d runs pd t =
       (if tc_mixedRuns cfg \<and> mixed_score_exceeds cfg (d + 1) (if pd then runs else runs + 1) len
        then (Inr (MixedTooDirty (d + 1)), t1)
        else if \<not> tc_mixedRuns cfg \<and> exceeds cfg (d + 1) len (tc_maxDirtyDensity cfg)
        then (Inr TooDirty, t1)
        else classify_loop c cfg len ids (d + 1) (if pd then runs else runs + 1) True t1)"
      using i dirty by (simp add: Let_def)
    show ?thesis
    proof (cases "classify_loop c cfg len (tid # ids) d runs pd t =
        classify_loop c cfg len ids (d + 1) (if pd then runs else runs + 1) True t1")
      case True
      have "table_ok c cfg t1" using s1 by simp
      from Cons.IH [OF this] True Cons.prems(2) obtain seen where tail: "table_ok c cfg t'" "table_ext t1 t'" "r = Inr seen"
          "classified_ok ids (d + 1) seen t'"
        by metis
      have "is_dirty_entry (tb_table t') tid" using s1 dirty tail(2) by (simp add: table_ext_def)
      then have "classified_ok (tid # ids) d seen t'"
        using tail(4) two by (auto simp: classified_ok_def settled_def split: classified.splits)
      then show ?thesis using tail s1 by (blast intro: table_ext_trans)
    next
      case False
      then show ?thesis using Cons.prems(2) step s1 by (auto simp: classified_ok_def split: if_splits)
    qed
  qed
qed

end

subsubsection \<open>Assembling classified ids\<close>

lemma settled_known: "settled c ids t \<Longrightarrow> known c ids"
  by (auto simp: settled_def known_def)

lemma settled_drop: "settled c (drop i vals) t \<Longrightarrow> i \<le> k \<Longrightarrow> settled c (drop k vals) t"
  unfolding settled_def using set_drop_subset_set_drop [of i k vals] by blast

lemma settled_nth:
  assumes "settled c (drop i vals) t" and "i < length vals"
  shows "tok_state c (vals ! i) = 1 \<and> packed_string (tb_table t) (vals ! i) = Some (id_text c [vals ! i]) \<or>
    tok_state c (vals ! i) = 2 \<and> is_dirty_entry (tb_table t) (vals ! i) \<and> packed_string (tb_table t) (vals ! i) = None"
proof -
  have "vals ! i \<in> set (drop i vals)" using assms(2) by (simp add: Cons_nth_drop_Suc [symmetric])
  then show ?thesis using assms(1) dirty_not_packed unfolding settled_def by blast
qed

lemma join_clean_text:
  "settled c ids t \<Longrightarrow> clean c ids \<Longrightarrow> join_clean (tb_table t) ids out = Inr (out @ id_text c ids)"
proof (induction ids arbitrary: out)
  case (Cons tid ids)
  then have "packed_string (tb_table t) tid = Some (id_text c [tid])" "tok_state c tid = 1"
    by (auto simp: settled_def)
  moreover have "join_clean (tb_table t) ids (out @ id_text c [tid]) = Inr ((out @ id_text c [tid]) @ id_text c ids)"
    using Cons by (intro Cons.IH) (auto simp: settled_def)
  ultimately show ?case by (simp add: id_text_clean_Cons [of c tid ids])
qed simp

text \<open>A place between pieces: nothing dirty on one of its sides.\<close>

definition seam :: "core \<Rightarrow> u32 list \<Rightarrow> nat \<Rightarrow> bool" where
  "seam c vals index \<longleftrightarrow> boundary c (take index vals) \<or> (index < length vals \<longrightarrow> tok_state c (vals ! index) = 1)"

lemma seam_clean:
  assumes "core_laws c" and "index < length vals" and "tok_state c (vals ! index) = 1"
  shows "seam c vals (Suc index) \<and>
    id_text c (take (Suc index) vals) = id_text c (take index vals) @ id_text c [vals ! index]"
  using boundary_last_clean [OF assms(1,3), of "take index vals"]
    id_text_append_clean [OF assms(1), of "[vals ! index]" "take index vals"] assms(2,3)
  by (simp add: seam_def take_Suc_conv_app_nth)

text \<open>A maximal run of dirty ids.\<close>

definition maximal_run :: "core \<Rightarrow> u32 list \<Rightarrow> nat \<Rightarrow> nat \<Rightarrow> bool" where
  "maximal_run c vals start end' \<longleftrightarrow> start < end' \<and> end' \<le> length vals \<and>
     (\<forall>tid \<in> set (take (end' - start) (drop start vals)). tok_state c tid = 2) \<and>
     (end' < length vals \<longrightarrow> tok_state c (vals ! end') = 1)"

lemma maximal_run_text:
  assumes "maximal_run c vals start end'" and "seam c vals start" and "tok_state c (vals ! start) = 2"
  shows "seam c vals end' \<and> id_text c (take end' vals) =
    id_text c (take start vals) @ id_text c (take (end' - start) (drop start vals))"
proof -
  have "boundary c (take start vals)" using assms by (auto simp: seam_def maximal_run_def)
  moreover have "take end' vals = take start vals @ take (end' - start) (drop start vals)"
    using assms(1) take_add [of start "end' - start" vals] by (simp add: maximal_run_def)
  ultimately show ?thesis using assms(1) by (simp add: boundary_def seam_def maximal_run_def)
qed

lemma maximal_run_known: "maximal_run c vals start end' \<Longrightarrow> known c (take (end' - start) (drop start vals))"
  by (auto simp: maximal_run_def known_def)

lemma slice_tokenIds:
  "tokenIds input = Inr vals \<Longrightarrow> tokenIds (slice_input input i k) = Inr (take (k - i) (drop i vals))"
proof (cases input)
  case (Arr vs)
  assume "tokenIds input = Inr vals"
  then have "list_all validTokenId vs" "vals = map u32_of_jsval vs" using Arr by (auto split: if_splits)
  moreover have "set (take (k - i) (drop i vs)) \<subseteq> set vs"
    by (meson order_trans set_drop_subset set_take_subset)
  ultimately show ?thesis using Arr by (auto simp: list_all_iff take_map drop_map)
qed auto

context table_over
begin

lemma optional_byteString_spec:
  assumes "tok_state c tid = 2" and "good s" and "optional_byteString c cfg tid s = (r, s')"
  shows "good s' \<and> table_ext (snd s) (snd s') \<and>
    (\<exists>v. r = Inr v \<and> (tc_mixedRuns cfg \<longrightarrow> v = Some (latin1 (id_bytes c [tid]))))"
proof (cases "tb_bytes (snd s) = None")
  case True
  then show ?thesis
    using assms(2,3) by (auto simp: optional_byteString_def good_def table_ok_def parts_ok_def)
next
  case False
  then have on: "tc_byteTable cfg \<or> tc_mixedRuns cfg" using assms(2) by (auto simp: good_def table_ok_def parts_ok_def)
  have "on_bytes (bt_byteString c (tc_byteTable cfg) tid) s = (r, s')"
    using assms(3) False by (simp add: optional_byteString_def)
  from givesD [OF gives_byteString [OF on assms(1) stable_True] assms(2) TrueI this] show ?thesis by auto
qed

lemma dirty_run_loop_spec:
  assumes "good s" and "settled c (drop index vals) (snd s)" and "index < length vals"
    and "tok_state c (vals ! index) = 2" and "must \<longrightarrow> tc_mixedRuns cfg"
    and "dirty_run_loop c cfg must vals index bytes s = (r, s')"
  shows "good s' \<and> table_ext (snd s) (snd s') \<and>
    (\<exists>e b. r = Inr (e, b) \<and> maximal_run c vals index e \<and>
      (tc_mixedRuns cfg \<longrightarrow> b = bytes @ latin1 (id_bytes c (take (e - index) (drop index vals)))))"
  using assms(1-4,6)
proof (induction "length vals - index" arbitrary: index bytes s)
  case 0
  then show ?case by simp
next
  case (Suc m)
  obtain r1 s1 where o: "optional_byteString c cfg (vals ! index) s = (r1, s1)" by (metis surj_pair)
  from optional_byteString_spec [OF Suc.prems(4,1) o] obtain v where v: "good s1" "table_ext (snd s) (snd s1)"
    "r1 = Inr v" "tc_mixedRuns cfg \<longrightarrow> v = Some (latin1 (id_bytes c [vals ! index]))" by blast
  define bytes1 where "bytes1 = bytes @ (case v of None \<Rightarrow> [] | Some v \<Rightarrow> v)"
  have b1: "tc_mixedRuns cfg \<longrightarrow> bytes1 = bytes @ latin1 (id_bytes c [vals ! index])"
    using v(4) by (auto simp: bytes1_def)
  have drop: "drop index vals = vals ! index # drop (Suc index) vals"
    using Suc.prems(3) by (rule Cons_nth_drop_Suc [symmetric])
  have no: "(must \<and> v = None) = False" using assms(5) v(4) by auto
  have run: "dirty_run_loop c cfg must vals index bytes s =
     (if Suc index < length vals \<and> is_dirty_entry (tb_table (snd s1)) (vals ! Suc index)
      then dirty_run_loop c cfg must vals (Suc index) bytes1 s1 else (Inr (Suc index, bytes1), s1))"
    unfolding dirty_run_loop.simps [of c cfg must vals index] o v(3) bytes1_def Let_def
    by (simp only: prod.case sum.case no if_False)
  have settled1: "settled c (drop (Suc index) vals) (snd s1)"
    using settled_drop [OF settled_ext [OF Suc.prems(2) v(2)]] by simp
  show ?case
  proof (cases "Suc index < length vals \<and> is_dirty_entry (tb_table (snd s1)) (vals ! Suc index)")
    case True
    then have two: "tok_state c (vals ! Suc index) = 2"
      using v(1) dirty_entry_sound by (auto simp: good_def table_ok_def)
    have "dirty_run_loop c cfg must vals (Suc index) bytes1 s1 = (r, s')" using run True Suc.prems(5) by simp
    have meas: "m = length vals - Suc index" and next_in: "Suc index < length vals" using Suc.hyps(2) True by simp_all
    from Suc.hyps(1) [OF meas v(1) settled1 next_in two \<open>dirty_run_loop c cfg must vals (Suc index) bytes1 s1 = (r, s')\<close>]
    obtain e b where rec: "good s'" "table_ext (snd s1) (snd s')" "r = Inr (e, b)" "maximal_run c vals (Suc index) e"
      "tc_mixedRuns cfg \<longrightarrow> b = bytes1 @ latin1 (id_bytes c (take (e - Suc index) (drop (Suc index) vals)))" by blast
    have e: "e - index = Suc (e - Suc index)" using rec(4) by (auto simp: maximal_run_def)
    have "maximal_run c vals index e"
      using rec(4) Suc.prems(4) by (auto simp: maximal_run_def drop e)
    then show ?thesis using rec v(2) b1 by (auto simp: drop e intro: table_ext_trans)
  next
    case False
    then have res: "r = Inr (Suc index, bytes1)" "s' = s1" using run Suc.prems(5) by (auto split: if_splits)
    have "tok_state c (vals ! Suc index) = 1" if "Suc index < length vals"
      using settled_nth [OF settled1 that] False that by auto
    then have "maximal_run c vals index (Suc index)"
      using Suc.prems(3,4) by (auto simp: maximal_run_def drop)
    then show ?thesis using res v b1 by (auto simp: drop)
  qed
qed

lemma batch_loop_spec:
  assumes "tc_mixedRuns cfg" and "good s" and "settled c (drop index vals) (snd s)" and "seam c vals index"
    and "index \<le> length vals" and "length vals - index < fuel"
    and "list_all2 (run_spec c vals) runs rids" and "pieces_ok (length runs) pieces"
    and "id_text c (take index vals) = pre @ pieces_text c rids pieces"
    and "batch_loop c cfg fuel vals index pieces runs s = (r, s')"
  shows "good s' \<and> table_ext (snd s) (snd s') \<and>
    (\<exists>pieces' runs' rids'. r = Inr (pieces', runs') \<and> list_all2 (run_spec c vals) runs' rids' \<and>
       id_text c vals = pre @ pieces_text c rids' pieces')"
  using assms(2-10)
proof (induction fuel arbitrary: index pieces runs rids s)
  case 0
  then show ?case by simp
next
  case (Suc fuel)
  have laws: "core_laws c" using Suc.prems(1) by (simp add: good_def table_ok_def)
  have len: "length rids = length runs" using Suc.prems(6) by (simp add: list_all2_lengthD)
  show ?case
  proof (cases "length vals \<le> index")
    case True
    then show ?thesis using Suc.prems by auto
  next
    case False
    then have i: "index < length vals" by simp
    from settled_nth [OF Suc.prems(2) i] show ?thesis
    proof
      assume clean: "tok_state c (vals ! index) = 1 \<and>
        packed_string (tb_table (snd s)) (vals ! index) = Some (id_text c [vals ! index])"
      note sc = seam_clean [OF laws i] clean
      have "batch_loop c cfg fuel vals (Suc index) (pieces @ [PClean (id_text c [vals ! index])]) runs s = (r, s')"
        using Suc.prems(9) False clean by simp
      moreover have "pieces_ok (length runs) (pieces @ [PClean (id_text c [vals ! index])])"
        using Suc.prems(7) by (auto simp: pieces_ok_def)
      ultimately show ?thesis
        using Suc.prems sc i settled_drop [OF Suc.prems(2), of "Suc index"]
        by (intro Suc.IH [of s "Suc index" runs rids "pieces @ [PClean (id_text c [vals ! index])]"])
          (simp_all add: pieces_text_clean)
    next
      assume dirty: "tok_state c (vals ! index) = 2 \<and> is_dirty_entry (tb_table (snd s)) (vals ! index) \<and>
        packed_string (tb_table (snd s)) (vals ! index) = None"
      obtain r1 s1 where d: "dirty_run_loop c cfg True vals index [] s = (r1, s1)" by (metis surj_pair)
      from dirty_run_loop_spec [OF Suc.prems(1,2) i _ _ d] dirty assms(1)
      obtain e b where run: "good s1" "table_ext (snd s) (snd s1)" "r1 = Inr (e, b)" "maximal_run c vals index e"
        "b = latin1 (id_bytes c (take (e - index) (drop index vals)))" by auto
      define rid where "rid = take (e - index) (drop index vals)"
      define newrun where "newrun = \<lparr>dr_start = index, dr_end = e, dr_bytes = b\<rparr>"
      define s2 where "s2 = (fst s1, bump DirtyRunCalls (snd s1))"
      have s2: "good s2" "table_ext (snd s1) (snd s2)" using run(1) by (simp_all add: s2_def good_def table_ext_def)
      have "count DirtyRunCalls s1 = (Inr (), s2)"
        by (simp add: count_def on_table_def js_zoom_def js_modify_def s2_def)
      then have rec: "batch_loop c cfg fuel vals e (pieces @ [PRun (length runs)]) (runs @ [newrun]) s2 = (r, s')"
        using Suc.prems(9) False dirty d run(3) by (simp add: js_bind_def newrun_def)
      note seam' = maximal_run_text [OF run(4) Suc.prems(3)] dirty
      have settled2: "settled c (drop e vals) (snd s2)"
        using settled_drop [OF settled_ext [OF settled_ext [OF Suc.prems(2) run(2)] s2(2)], of e] run(4)
        by (simp add: maximal_run_def)
      have spec: "run_spec c vals newrun rid"
        using run(4,5) maximal_run_known [OF run(4)] by (simp add: run_spec_def newrun_def rid_def)
      have "good s' \<and> table_ext (snd s2) (snd s') \<and>
        (\<exists>pieces' runs' rids'. r = Inr (pieces', runs') \<and> list_all2 (run_spec c vals) runs' rids' \<and>
           id_text c vals = pre @ pieces_text c rids' pieces')"
      proof (rule Suc.IH [OF s2(1) settled2 _ _ _ _ _ _ rec])
        show "seam c vals e" using seam' by simp
        show "e \<le> length vals" "length vals - e < fuel" using run(4) Suc.prems(5) by (auto simp: maximal_run_def)
        show "list_all2 (run_spec c vals) (runs @ [newrun]) (rids @ [rid])"
          using Suc.prems(6) spec by (simp add: list_all2_appendI)
        show "pieces_ok (length (runs @ [newrun])) (pieces @ [PRun (length runs)])"
          using Suc.prems(7) by (auto simp: pieces_ok_def less_Suc_eq)
        show "id_text c (take e vals) = pre @ pieces_text c (rids @ [rid]) (pieces @ [PRun (length runs)])"
          using seam' Suc.prems(8) pieces_text_snoc [of rids pieces c rid] Suc.prems(7) len by (simp add: rid_def)
      qed
      then show ?thesis using run(2) s2(2) by (blast intro: table_ext_trans)
    qed
  qed
qed

lemma gives_decode_gathered:
  assumes "tc_mixedRuns cfg" and "\<forall>tid \<in> set run. tok_state c tid = 2"
  shows "gives (\<lambda>_. True) (decode_gathered c cfg run) (\<lambda>r t. r = Inr (id_text c run))"
proof -
  have gather: "gives (\<lambda>_. True) (gather_run c cfg ids bytes) (\<lambda>r t. r = Inr (bytes @ latin1 (id_bytes c ids)))"
    if "\<forall>tid \<in> set ids. tok_state c tid = 2" for ids bytes
    using that
  proof (induction ids arbitrary: bytes)
    case Nil
    then show ?case by (auto intro: gives_ret)
  next
    case (Cons tid ids)
    have two: "tok_state c tid = 2" using Cons.prems by simp
    show ?case
      unfolding gather_run.simps
    proof (rule gives_bind [OF gives_byteString [OF disjI2 [OF assms(1)] two stable_True]])
      fix v
      have "gives (\<lambda>_. True) (gather_run c cfg ids (bytes @ latin1 (id_bytes c [tid])))
        (\<lambda>r t. r = Inr ((bytes @ latin1 (id_bytes c [tid])) @ latin1 (id_bytes c ids)))"
        using Cons.IH [of "bytes @ latin1 (id_bytes c [tid])"] Cons.prems by simp
      then show "gives (\<lambda>t. Inr v = (Inr (Some (latin1 (id_bytes c [tid]))) :: js_error + _) \<and> True)
         (gather_run c cfg ids (bytes @ (case v of Some v \<Rightarrow> v | None \<Rightarrow> map (\<lambda>ch. of_nat (of_char ch)) ''undefined'')))
         (\<lambda>r t. r = Inr (bytes @ latin1 (id_bytes c (tid # ids))))"
        by (cases "v = Some (latin1 (id_bytes c [tid]))") (auto simp: gives_def)
    qed simp
  qed
  show ?thesis
    unfolding decode_gathered_def
  proof (rule gives_bind [OF gather [OF assms(2)]])
    fix bytes
    show "gives (\<lambda>t. Inr bytes = (Inr ([] @ latin1 (id_bytes c run)) :: js_error + _))
      (on_bytes (bt_decodeByteString bytes)) (\<lambda>r t. r = Inr (id_text c run))"
      using gives_decodeByteString [OF assms(1) stable_True, of "id_bytes c run"]
      by (cases "bytes = latin1 (id_bytes c run)") (auto simp: gives_def id_text_def)
  qed simp
qed

lemma mixed_loop_spec:
  assumes "prepared_ok c prep" and "vals = p_values prep" and "good s" and "settled c (drop index vals) (snd s)"
    and "seam c vals index" and "index \<le> length vals" and "length vals - index < fuel"
    and "out = id_text c (take index vals)"
    and "mixed_loop c cfg inner fuel prep index out s = (r, s')"
  shows "good s' \<and> table_ext (snd s) (snd s') \<and> r = Inr (id_text c vals)"
  using assms(3-9)
proof (induction fuel arbitrary: index out s)
  case 0
  then show ?case by simp
next
  case (Suc fuel)
  have laws: "core_laws c" using Suc.prems(1) by (simp add: good_def table_ok_def)
  show ?case
  proof (cases "length vals \<le> index")
    case True
    then show ?thesis using Suc.prems assms(2) by (simp add: Let_def)
  next
    case False
    then have i: "index < length vals" by simp
    from settled_nth [OF Suc.prems(2) i] show ?thesis
    proof
      assume clean: "tok_state c (vals ! index) = 1 \<and>
        packed_string (tb_table (snd s)) (vals ! index) = Some (id_text c [vals ! index])"
      note sc = seam_clean [OF laws i] clean
      have "mixed_loop c cfg inner fuel prep (Suc index) (out @ id_text c [vals ! index]) s = (r, s')"
        using Suc.prems(7) False clean assms(2) by (simp add: Let_def)
      then show ?thesis
        using Suc.prems sc i settled_drop [OF Suc.prems(2), of "Suc index"]
        by (intro Suc.IH [of s "Suc index" "out @ id_text c [vals ! index]"]) simp_all
    next
      assume dirty: "tok_state c (vals ! index) = 2 \<and> is_dirty_entry (tb_table (snd s)) (vals ! index) \<and>
        packed_string (tb_table (snd s)) (vals ! index) = None"
      obtain r1 s1 where d: "dirty_run_loop c cfg (tc_mixedRuns cfg) vals index [] s = (r1, s1)" by (metis surj_pair)
      from dirty_run_loop_spec [OF Suc.prems(1,2) i _ _ d] dirty
      obtain e b where run: "good s1" "table_ext (snd s) (snd s1)" "r1 = Inr (e, b)" "maximal_run c vals index e"
        by auto
      define rid where "rid = take (e - index) (drop index vals)"
      define call where "call = (if tc_mixedRuns cfg
             then cached_run vals index e (decode_gathered c cfg rid)
             else on_inner (inner (slice_input (p_ids prep) index e)))"
      obtain r2 s2 where c2: "call s1 = (r2, s2)" by (metis surj_pair)
      have two: "good s2 \<and> table_ext (snd s1) (snd s2) \<and> r2 = Inr (id_text c rid)"
      proof (cases "tc_mixedRuns cfg")
        case True
        have "gives (\<lambda>_. True) (cached_run vals index e (decode_gathered c cfg rid)) (\<lambda>r t. r = Inr (id_text c rid))"
          using run(4) True by (intro gives_cached_run gives_decode_gathered) (auto simp: maximal_run_def rid_def)
        from givesD [OF this run(1) TrueI] c2 True show ?thesis by (simp add: call_def)
      next
        case mixed: False
        obtain r0 i0 where n: "inner (slice_input (p_ids prep) index e) (fst s1) = (r0, i0)" by (metis surj_pair)
        have "tokenIds (slice_input (p_ids prep) index e) = Inr rid"
          using slice_tokenIds assms(1,2) by (simp add: prepared_ok_def rid_def)
        then have "ref_decode c (slice_input (p_ids prep) index e) = Some (id_text c rid)"
          using maximal_run_known [OF run(4)] by (simp add: ref_decode_def ref_text_known rid_def)
        moreover have "okv r0 = ref_decode c (slice_input (p_ids prep) index e) \<and> inv i0"
          using below.exact n run(1) by (auto simp: good_def)
        ultimately show ?thesis
          using c2 mixed n run(1) by (auto simp: call_def on_inner_def js_zoom_def good_def)
      qed
      define s3 where "s3 = (fst s2, bump DirtyRunCalls (snd s2))"
      have s3: "good s3" "table_ext (snd s2) (snd s3)" using two by (simp_all add: s3_def good_def table_ext_def)
      have cnt: "count DirtyRunCalls s2 = (Inr (), s3)"
        by (simp add: count_def on_table_def js_zoom_def js_modify_def s3_def)
      have step: "mixed_loop c cfg inner (Suc fuel) prep index out s =
        js_bind (dirty_run_loop c cfg (tc_mixedRuns cfg) vals index []) (\<lambda>(end', _).
          js_bind
            (if tc_mixedRuns cfg
             then cached_run vals index end' (decode_gathered c cfg (take (end' - index) (drop index vals)))
             else on_inner (inner (slice_input (p_ids prep) index end'))) (\<lambda>decoded.
          js_bind (count DirtyRunCalls) (\<lambda>_.
          mixed_loop c cfg inner fuel prep end' (out @ decoded)))) s"
        using False dirty unfolding assms(2) by (simp add: Let_def)
      have rec: "mixed_loop c cfg inner fuel prep e (out @ id_text c rid) s3 = (r, s')"
        using Suc.prems(7) c2 two unfolding step js_bind_def d run(3) call_def rid_def
        by (simp add: cnt)
      note seam' = maximal_run_text [OF run(4) Suc.prems(3)] dirty
      have settled3: "settled c (drop e vals) (snd s3)"
      proof -
        have "settled c (drop index vals) (snd s2)"
          using settled_ext [OF settled_ext [OF Suc.prems(2) run(2)]] two by blast
        from settled_drop [OF settled_ext [OF this s3(2)], of e] run(4) show ?thesis
          by (simp add: maximal_run_def)
      qed
      have "good s' \<and> table_ext (snd s3) (snd s') \<and> r = Inr (id_text c vals)"
        using rec seam' run(4) Suc.prems(5,6)
        by (intro Suc.IH [OF s3(1) settled3 _ _ _ _ rec]) (auto simp: maximal_run_def rid_def)
      then show ?thesis using run(2) two s3(2) by (blast intro: table_ext_trans)
    qed
  qed
qed

end

subsubsection \<open>The careful route\<close>

context table_over
begin

lemma exact_careful_join:
  assumes "core_laws c" and "prepared_ok c prep" and "tc_dirtyRunBatch cfg \<longrightarrow> tc_mixedRuns cfg"
    and "dirtyIds = 0 \<longrightarrow> clean c (drop (p_firstMiss prep) (p_values prep))"
  shows "gives (settled c (drop (p_firstMiss prep) (p_values prep)))
    (careful_join c cfg inner prep dirtyIds) (exactly (p_ids prep))"
proof -
  define vals where "vals = p_values prep"
  define k where "k = p_firstMiss prep"
  have prep: "k \<le> length vals" "clean c (take k vals)" "p_prefix prep = id_text c (take k vals)"
    using assms(2) by (simp_all add: prepared_ok_def vals_def k_def)
  have ref: "ref_decode c (p_ids prep) = Some (id_text c vals)" if "settled c (drop k vals) t" for t
  proof -
    have "known c (take k vals @ drop k vals)"
      using settled_known [OF that] clean_known [OF prep(2)] by (simp only: known_simps)
    then show ?thesis by (simp add: prepared_ref [OF assms(2)] ref_text_known flip: vals_def)
  qed
  have seam0: "seam c vals k" using boundary_clean [OF prep(2)] by (simp add: seam_def)
  have all: "id_text c vals = id_text c (take k vals) @ id_text c (drop k vals)"
    using id_text_clean_append [OF prep(2), of "drop k vals"] by simp
  have finish: "gives (\<lambda>_. True) (js_ret out) (exactly (p_ids prep))"
    if "okv (Inr out) = ref_decode c (p_ids prep)" for out
    using that by (intro gives_ret) simp
  show ?thesis
  proof (cases "dirtyIds = 0")
    case True
    have "gives (settled c (drop k vals)) (\<lambda>s. (join_clean (tb_table (snd s)) (drop k vals) (p_prefix prep), s))
       (\<lambda>r t. \<exists>out. r = Inr out \<and> okv (Inr out) = ref_decode c (p_ids prep))"
      using assms(4) True ref all prep(3)
      by (auto simp: gives_def join_clean_text vals_def k_def)
    then have "gives (settled c (drop k vals))
       (js_bind (\<lambda>s. (join_clean (tb_table (snd s)) (drop k vals) (p_prefix prep), s)) (\<lambda>out.
         js_bind (count TableCalls) (\<lambda>_. js_ret out))) (exactly (p_ids prep))"
    proof (rule gives_bind)
      fix out
      have "gives (\<lambda>_. True) (js_bind (count TableCalls) (\<lambda>_. js_ret out)) (exactly (p_ids prep))"
        if "okv (Inr out) = ref_decode c (p_ids prep)"
        by (rule exact_count [OF finish [OF that]])
      then show "gives (\<lambda>t. \<exists>out'. Inr out = (Inr out' :: js_error + jstring) \<and> okv (Inr out') = ref_decode c (p_ids prep))
         (js_bind (count TableCalls) (\<lambda>_. js_ret out)) (exactly (p_ids prep))"
        by (auto simp: gives_def)
    qed auto
    then show ?thesis using True by (simp add: careful_join_def Let_def vals_def k_def)
  next
    case dirty: False
    show ?thesis
    proof (cases "tc_dirtyRunBatch cfg")
      case True
      then have mixed: "tc_mixedRuns cfg" using assms(3) by simp
      let ?Q1 = "\<lambda>r t. \<exists>pieces runs rids. r = Inr (pieces, runs) \<and> list_all2 (run_spec c vals) runs rids \<and>
          ref_decode c (p_ids prep) = Some (p_prefix prep @ pieces_text c rids pieces)"
      have "gives (settled c (drop k vals)) (batch_loop c cfg (length vals + 1) vals k [] []) ?Q1"
      proof (rule givesI)
        fix s r s'
        assume s: "good s" "settled c (drop k vals) (snd s)"
          and run: "batch_loop c cfg (length vals + 1) vals k [] [] s = (r, s')"
        have "good s' \<and> table_ext (snd s) (snd s') \<and>
          (\<exists>pieces' runs' rids'. r = Inr (pieces', runs') \<and> list_all2 (run_spec c vals) runs' rids' \<and>
             id_text c vals = p_prefix prep @ pieces_text c rids' pieces')"
          by (rule batch_loop_spec [OF mixed s seam0 prep(1) _ _ _ _ run, where rids = "[]"])
            (simp_all add: prep(3) pieces_text_def pieces_ok_def)
        then show "good s' \<and> table_ext (snd s) (snd s') \<and> ?Q1 r (snd s')"
          using ref [OF s(2)] by auto
      qed
      then have "gives (settled c (drop k vals)) (js_bind (batch_loop c cfg (length vals + 1) vals k [] []) (\<lambda>(pieces, runs).
         js_bind (decodeDirtyRuns vals runs) (\<lambda>decodedRuns.
         js_bind (count TableCalls) (\<lambda>_. js_bind (count MixedCalls) (\<lambda>_.
         js_ret (p_prefix prep @ concat (map (piece_text decodedRuns) pieces))))))) (exactly (p_ids prep))"
      proof (rule gives_bind)
        fix a :: "piece list \<times> dirty_run list"
        obtain pieces runs where a: "a = (pieces, runs)" by (cases a)
        have go: "gives (\<lambda>_. True) (js_bind (decodeDirtyRuns vals runs) (\<lambda>decodedRuns.
         js_bind (count TableCalls) (\<lambda>_. js_bind (count MixedCalls) (\<lambda>_.
         js_ret (p_prefix prep @ concat (map (piece_text decodedRuns) pieces)))))) (exactly (p_ids prep))"
          if spec: "list_all2 (run_spec c vals) runs rids"
            "ref_decode c (p_ids prep) = Some (p_prefix prep @ pieces_text c rids pieces)" for rids
        proof (rule gives_bind [OF gives_decodeDirtyRuns [OF mixed spec(1)]])
          fix decodedRuns
          have "gives (\<lambda>_. True) (js_bind (count TableCalls) (\<lambda>_. js_bind (count MixedCalls) (\<lambda>_.
             js_ret (p_prefix prep @ concat (map (piece_text decodedRuns) pieces))))) (exactly (p_ids prep))"
            if "decodedRuns = map (id_text c) rids"
            using that spec(2) by (intro exact_count finish) (simp add: pieces_text_def)
          then show "gives (\<lambda>t. Inr decodedRuns = (Inr (map (id_text c) rids) :: js_error + _))
            (js_bind (count TableCalls) (\<lambda>_. js_bind (count MixedCalls) (\<lambda>_.
             js_ret (p_prefix prep @ concat (map (piece_text decodedRuns) pieces))))) (exactly (p_ids prep))"
            by (auto simp: gives_def)
        qed simp
        show "gives (?Q1 (Inr a)) (case a of (pieces, runs) \<Rightarrow>
         js_bind (decodeDirtyRuns vals runs) (\<lambda>decodedRuns.
         js_bind (count TableCalls) (\<lambda>_. js_bind (count MixedCalls) (\<lambda>_.
         js_ret (p_prefix prep @ concat (map (piece_text decodedRuns) pieces)))))) (exactly (p_ids prep))"
          unfolding a prod.case
        proof (rule givesI)
          fix s r s'
          assume s: "good s" and q: "?Q1 (Inr (pieces, runs)) (snd s)"
            and run: "js_bind (decodeDirtyRuns vals runs) (\<lambda>decodedRuns.
              js_bind (count TableCalls) (\<lambda>_. js_bind (count MixedCalls) (\<lambda>_.
              js_ret (p_prefix prep @ concat (map (piece_text decodedRuns) pieces))))) s = (r, s')"
          from q obtain rids where "list_all2 (run_spec c vals) runs rids"
            "ref_decode c (p_ids prep) = Some (p_prefix prep @ pieces_text c rids pieces)" by auto
          from givesD [OF go [OF this] s TrueI run]
          show "good s' \<and> table_ext (snd s) (snd s') \<and> exactly (p_ids prep) r (snd s')" .
        qed
      qed auto
      then show ?thesis using dirty True by (simp add: careful_join_def Let_def vals_def k_def)
    next
      case False
      have "gives (settled c (drop k vals)) (mixed_loop c cfg inner (length vals + 1) prep k (p_prefix prep))
        (exactly (p_ids prep))"
      proof (rule givesI)
        fix s r s'
        assume s: "good s" "settled c (drop k vals) (snd s)"
          and run: "mixed_loop c cfg inner (length vals + 1) prep k (p_prefix prep) s = (r, s')"
        have "good s' \<and> table_ext (snd s) (snd s') \<and> r = Inr (id_text c vals)"
          by (rule mixed_loop_spec [OF assms(2) vals_def s seam0 prep(1) _ prep(3) run]) simp
        then show "good s' \<and> table_ext (snd s) (snd s') \<and> exactly (p_ids prep) r (snd s')"
          using ref [OF s(2)] by simp
      qed
      then have "gives (settled c (drop k vals)) (js_bind (mixed_loop c cfg inner (length vals + 1) prep k (p_prefix prep)) (\<lambda>out.
         js_bind (count TableCalls) (\<lambda>_. js_bind (count MixedCalls) (\<lambda>_. js_ret out)))) (exactly (p_ids prep))"
      proof (rule gives_bind)
        fix out
        have "gives (\<lambda>_. True) (js_bind (count TableCalls) (\<lambda>_. js_bind (count MixedCalls) (\<lambda>_. js_ret out))) (exactly (p_ids prep))"
          if "okv (Inr out) = ref_decode c (p_ids prep)"
          by (intro exact_count finish [OF that])
        then show "gives (exactly (p_ids prep) (Inr out))
          (js_bind (count TableCalls) (\<lambda>_. js_bind (count MixedCalls) (\<lambda>_. js_ret out))) (exactly (p_ids prep))"
          by (auto simp: gives_def)
      qed auto
      then show ?thesis using dirty False by (simp add: careful_join_def Let_def vals_def k_def)
    qed
  qed
qed

lemma exact_careful_sampled:
  assumes "core_laws c" and "config_ok cfg" and "prepared_ok c prep"
  shows "gives (\<lambda>_. True) (careful_sampled c cfg inner prep sampled) (exactly (p_ids prep))"
proof -
  let ?input = "p_ids prep" and ?len = "length (p_values prep)"
  let ?rest = "drop (p_firstMiss prep) (p_values prep)"
  let ?after = "\<lambda>seen. case seen of
          UnknownSeen \<Rightarrow>
            js_bind (count UnknownFallbackCalls) (\<lambda>_. latin1_or c cfg ?input (fallback inner ?input))
        | MixedTooDirty dirtyIds \<Rightarrow>
            js_bind (count_mixed_fallback cfg dirtyIds ?len) (\<lambda>_. fallback inner ?input)
        | TooDirty \<Rightarrow>
            js_bind (count DirtyFallbackCalls) (\<lambda>_.
              latin1_or c cfg ?input (bytes_or_fallback c cfg inner ?input))
        | AllSeen dirtyIds \<Rightarrow> careful_join c cfg inner prep dirtyIds"
  have mixedfb: "gives (\<lambda>_. True) (js_bind (count_mixed_fallback cfg d ?len) (\<lambda>_. fallback inner ?input)) (exactly ?input)" for d
    by (rule gives_bind [OF gives_count_mixed]) (auto intro: gives_conseq [OF exact_fallback])
  have lat: "gives (\<lambda>_. True) (latin1_or c cfg ?input (fallback inner ?input)) (exactly ?input)"
    by (intro exact_latin1_or exact_fallback)
  have latb: "gives (\<lambda>_. True) (latin1_or c cfg ?input (bytes_or_fallback c cfg inner ?input)) (exactly ?input)"
    if "\<not> tc_mixedRuns cfg"
    using that by (intro exact_latin1_or exact_bytes_or_fallback)
  have toodirty: "seen = TooDirty \<Longrightarrow> \<not> tc_mixedRuns cfg"
    if "classify_loop c cfg n ids d rs pd t = (Inr seen, t')" for n ids d rs pd t t' seen
    using that
    by (induction n ids d rs pd t arbitrary: t' rule: classify_loop.induct [of _ c cfg])
      (auto simp: Let_def js_bind_def split: prod.splits if_splits sum.splits)
  have "gives (\<lambda>_. True) (on_table (classify_loop c cfg ?len ?rest 0 0 False))
     (\<lambda>r t. \<exists>seen. r = Inr seen \<and> classified_ok ?rest 0 seen t \<and> (seen = TooDirty \<longrightarrow> \<not> tc_mixedRuns cfg))"
    by (rule gives_table) (use classify_loop_spec toodirty in blast)
  then have loop: "gives (\<lambda>_. True) (js_bind (on_table (classify_loop c cfg ?len ?rest 0 0 False)) ?after) (exactly ?input)"
  proof (rule gives_bind)
    fix seen
    show "gives (\<lambda>t. \<exists>seen'. Inr seen = (Inr seen' :: js_error + classified) \<and> classified_ok ?rest 0 seen' t \<and>
        (seen' = TooDirty \<longrightarrow> \<not> tc_mixedRuns cfg)) (?after seen) (exactly ?input)"
    proof (cases seen)
      case UnknownSeen
      show ?thesis unfolding UnknownSeen classified.case by (rule gives_conseq [OF exact_count [OF lat]]) simp_all
    next
      case (MixedTooDirty d)
      show ?thesis unfolding MixedTooDirty classified.case by (rule gives_conseq [OF mixedfb]) simp_all
    next
      case TooDirty
      show ?thesis
      proof (cases "tc_mixedRuns cfg")
        case True
        then show ?thesis using TooDirty by (simp add: gives_def)
      next
        case False
        show ?thesis
          unfolding TooDirty classified.case by (rule gives_conseq [OF exact_count [OF latb [OF False]]]) simp_all
      qed
    next
      case (AllSeen d)
      have batch: "tc_dirtyRunBatch cfg \<longrightarrow> tc_mixedRuns cfg" using assms(2) by (simp add: config_ok_def)
      show ?thesis
      proof (cases "d = 0 \<longrightarrow> clean c ?rest")
        case True
        show ?thesis
          unfolding AllSeen classified.case
          by (rule gives_conseq [OF exact_careful_join [OF assms(1,3) batch True]])
            (auto simp: classified_ok_def)
      next
        case False
        then show ?thesis by (auto simp: AllSeen gives_def classified_ok_def)
      qed
    qed
  qed auto
  show ?thesis
    unfolding careful_sampled_def Let_def
    by (intro gives_if exact_count exact_fallback lat latb loop) simp_all
qed

end

subsubsection \<open>The call as a whole\<close>

context table_over
begin

lemma exact_decodeCareful:
  assumes "core_laws c" and "config_ok cfg" and "k < input_length input"
    and "case input of
          Typed ids \<Rightarrow> clean c (take k ids) \<and> pre = id_text c (take k ids)
        | Arr vs \<Rightarrow> list_all validTokenId (take k vs) \<and> clean c (map u32_of_jsval (take k vs)) \<and>
            pre = id_text c (map u32_of_jsval (take k vs))
        | NotIds \<Rightarrow> False"
  shows "gives (\<lambda>_. True) (decodeCareful c cfg inner input k pre given) (exactly input)"
  unfolding decodeCareful_def
proof (rule gives_bind [where R = "\<lambda>r t. case tokenIds input of Inl _ \<Rightarrow> \<exists>e. r = Inl e
    | Inr ids \<Rightarrow> \<exists>prep. r = Inr prep \<and> prepared_ok c prep \<and> p_values prep = ids"])
  show "gives (\<lambda>_. True) (prepare cfg input k pre) (\<lambda>r t. case tokenIds input of Inl _ \<Rightarrow> \<exists>e. r = Inl e
    | Inr ids \<Rightarrow> \<exists>prep. r = Inr prep \<and> prepared_ok c prep \<and> p_values prep = ids)"
  proof (rule givesI)
    fix s r s'
    assume s: "good s" and run: "prepare cfg input k pre s = (r, s')"
    have "table_ok c cfg (snd s)" using s by (simp add: good_def)
    from prepare_spec [OF this run assms(3,4)] s
    show "good s' \<and> table_ext (snd s) (snd s') \<and> (case tokenIds input of Inl _ \<Rightarrow> \<exists>e. r = Inl e
      | Inr ids \<Rightarrow> \<exists>prep. r = Inr prep \<and> prepared_ok c prep \<and> p_values prep = ids)" by simp
  qed
next
  fix e :: js_error and t :: table
  assume "case tokenIds input of Inl _ \<Rightarrow> \<exists>e'. (Inl e :: js_error + prepared) = Inl e'
    | Inr ids \<Rightarrow> \<exists>prep. Inl e = Inr prep \<and> prepared_ok c prep \<and> p_values prep = ids"
  then show "okv (Inl e :: js_error + jstring) = ref_decode c input"
    by (cases "tokenIds input") (simp_all add: ref_decode_def)
next
  fix prep
  have go: "gives (\<lambda>_. True) (if tc_runStitcher cfg then decodeRunStitched c cfg inner prep
     else js_bind (case given of Some s \<Rightarrow> js_ret s | None \<Rightarrow> sampleDirty c (p_values prep))
       (careful_sampled c cfg inner prep)) (exactly (p_ids prep))" if ok: "prepared_ok c prep"
  proof (rule gives_if)
    assume "tc_runStitcher cfg"
    then show "gives (\<lambda>_. True) (decodeRunStitched c cfg inner prep) (exactly (p_ids prep))"
      using assms(2) ok by (intro exact_decodeRunStitched [OF assms(1)]) (simp_all add: config_ok_def)
  next
    have "gives (\<lambda>_. True) (case given of Some s \<Rightarrow> js_ret s | None \<Rightarrow> sampleDirty c (p_values prep))
      (\<lambda>r t. \<exists>sm. r = Inr sm)"
      using gives_sampleDirty [OF stable_True, of "p_values prep"]
      by (cases given) (auto intro!: gives_ret elim: gives_conseq)
    then show "gives (\<lambda>_. True) (js_bind (case given of Some s \<Rightarrow> js_ret s | None \<Rightarrow> sampleDirty c (p_values prep))
       (careful_sampled c cfg inner prep)) (exactly (p_ids prep))"
      by (rule gives_bind) (auto intro: gives_conseq [OF exact_careful_sampled [OF assms(1,2) ok]])
  qed
  have same: "ref_decode c (p_ids prep) = ref_decode c input"
    if "prepared_ok c prep" "tokenIds input = Inr (p_values prep)"
    using that by (simp add: prepared_ok_def ref_decode_def)
  show "gives (\<lambda>t. case tokenIds input of Inl _ \<Rightarrow> \<exists>e. (Inr prep :: js_error + prepared) = Inl e
    | Inr ids \<Rightarrow> \<exists>prep'. Inr prep = (Inr prep' :: js_error + prepared) \<and> prepared_ok c prep' \<and> p_values prep' = ids)
    (if tc_runStitcher cfg then decodeRunStitched c cfg inner prep
     else js_bind (case given of Some s \<Rightarrow> js_ret s | None \<Rightarrow> sampleDirty c (p_values prep))
       (careful_sampled c cfg inner prep)) (exactly input)"
  proof (cases "prepared_ok c prep \<and> tokenIds input = Inr (p_values prep)")
    case True
    then show ?thesis using go same by (auto elim: gives_conseq)
  next
    case False
    then show ?thesis by (cases "tokenIds input") (auto simp: gives_def)
  qed
qed

lemma exact_join_or_careful:
  assumes "core_laws c" and "config_ok cfg" and "input \<noteq> NotIds"
  shows "gives (\<lambda>_. True) (join_or_careful c cfg inner input sampled) (exactly input)"
  unfolding join_or_careful_def
proof (rule gives_bind [where R = "\<lambda>r t. \<exists>a. r = Inr a \<and> (case a of
       Joined out \<Rightarrow> \<exists>ids. tokenIds input = Inr ids \<and> clean c ids \<and> out = id_text c ids
     | Miss k pre \<Rightarrow> k < input_length input \<and>
         (case input of
            Typed ids \<Rightarrow> clean c (take k ids) \<and> pre = id_text c (take k ids)
          | Arr vs \<Rightarrow> list_all validTokenId (take k vs) \<and> clean c (map u32_of_jsval (take k vs)) \<and>
              pre = id_text c (map u32_of_jsval (take k vs))
          | NotIds \<Rightarrow> False))"])
  show "gives (\<lambda>_. True) (on_table (\<lambda>t. map_prod Inr (\<lambda>t. t) (joinKnownClean cfg input t)))
    (\<lambda>r t. \<exists>a. r = Inr a \<and> (case a of
       Joined out \<Rightarrow> \<exists>ids. tokenIds input = Inr ids \<and> clean c ids \<and> out = id_text c ids
     | Miss k pre \<Rightarrow> k < input_length input \<and>
         (case input of
            Typed ids \<Rightarrow> clean c (take k ids) \<and> pre = id_text c (take k ids)
          | Arr vs \<Rightarrow> list_all validTokenId (take k vs) \<and> clean c (map u32_of_jsval (take k vs)) \<and>
              pre = id_text c (map u32_of_jsval (take k vs))
          | NotIds \<Rightarrow> False)))"
  proof (rule gives_table)
    fix t r t'
    assume t: "table_ok c cfg t" and run: "map_prod Inr (\<lambda>t. t) (joinKnownClean cfg input t) = (r, t')"
    obtain a t1 where j: "joinKnownClean cfg input t = (a, t1)" by fastforce
    have "table_ok c cfg t1 \<and> table_ext t t1"
      using joinKnownClean_spec [OF t assms(3) j] t by (simp add: table_ext_def)
    then show "table_ok c cfg t' \<and> table_ext t t' \<and> (\<exists>a. r = Inr a \<and> (case a of
       Joined out \<Rightarrow> \<exists>ids. tokenIds input = Inr ids \<and> clean c ids \<and> out = id_text c ids
     | Miss k pre \<Rightarrow> k < input_length input \<and>
         (case input of
            Typed ids \<Rightarrow> clean c (take k ids) \<and> pre = id_text c (take k ids)
          | Arr vs \<Rightarrow> list_all validTokenId (take k vs) \<and> clean c (map u32_of_jsval (take k vs)) \<and>
              pre = id_text c (map u32_of_jsval (take k vs))
          | NotIds \<Rightarrow> False)))"
      using joinKnownClean_spec [OF t assms(3) j] run j by auto
  qed
next
  fix a
  show "gives (\<lambda>t. \<exists>a'. Inr a = (Inr a' :: js_error + join_attempt) \<and> (case a' of
       Joined out \<Rightarrow> \<exists>ids. tokenIds input = Inr ids \<and> clean c ids \<and> out = id_text c ids
     | Miss k pre \<Rightarrow> k < input_length input \<and>
         (case input of
            Typed ids \<Rightarrow> clean c (take k ids) \<and> pre = id_text c (take k ids)
          | Arr vs \<Rightarrow> list_all validTokenId (take k vs) \<and> clean c (map u32_of_jsval (take k vs)) \<and>
              pre = id_text c (map u32_of_jsval (take k vs))
          | NotIds \<Rightarrow> False)))
    (case a of Joined out \<Rightarrow> js_bind (count TableCalls) (\<lambda>_. js_ret out)
     | Miss firstMiss prefix \<Rightarrow> decodeCareful c cfg inner input firstMiss prefix sampled) (exactly input)"
    (is "gives ?P ?m ?Q")
  proof (cases a)
    case (Joined out)
    have "gives (\<lambda>_. True) (js_bind (count TableCalls) (\<lambda>_. js_ret out)) (exactly input)"
      if "tokenIds input = Inr ids" "clean c ids" "out = id_text c ids" for ids
      using that clean_known by (intro exact_count gives_ret) (simp add: ref_decode_def ref_text_known)
    then show ?thesis
      by (cases "\<exists>ids. tokenIds input = Inr ids \<and> clean c ids \<and> out = id_text c ids")
        (auto simp: Joined gives_def)
  next
    case (Miss k pre)
    show ?thesis
    proof (cases "?P undefined")
      case True
      have "gives (\<lambda>_. True) (decodeCareful c cfg inner input k pre sampled) (exactly input)"
        using True Miss by (intro exact_decodeCareful [OF assms(1,2)]) simp_all
      then show ?thesis unfolding Miss join_attempt.case by (rule gives_conseq) simp_all
    next
      case False
      then show ?thesis by (simp add: gives_def)
    qed
  qed
qed auto

lemma exact_decodePrepared:
  assumes "core_laws c" and "config_ok cfg" and "input \<noteq> NotIds"
  shows "gives (\<lambda>_. True) (decodePrepared c cfg inner input preparedByScratch) (exactly input)"
  unfolding decodePrepared_def
proof (intro gives_if)
  assume "input_length input = 0"
  then have "ref_decode c input = Some []"
    using assms(3) by (cases input) (simp_all add: ref_decode_def ref_text_known)
  then show "gives (\<lambda>_. True) (js_bind (count TableCalls) (\<lambda>_. js_ret [])) (exactly input)"
    by (intro exact_count gives_ret) simp
next
  show "gives (\<lambda>_. True) (js_bind (js_lift (tokenIds input)) (\<lambda>_. js_bind (count LargeFallbackCalls) (\<lambda>_. fallback inner input)))
    (exactly input)"
  proof (rule gives_bind [where R = "\<lambda>r t. r = tokenIds input"])
    show "gives (\<lambda>_. True) (js_lift (tokenIds input)) (\<lambda>r t. r = tokenIds input)"
      by (simp add: gives_def js_lift_def)
    show "okv (Inl e :: js_error + jstring) = ref_decode c input" if "Inl e = tokenIds input" for e
      using that [symmetric] by (simp add: ref_decode_def)
    show "gives (\<lambda>t. Inr a = tokenIds input) (js_bind (count LargeFallbackCalls) (\<lambda>_. fallback inner input)) (exactly input)" for a
      by (rule gives_conseq [OF exact_count [OF exact_fallback]]) simp_all
  qed
next
  show "gives (\<lambda>_. True) (js_bind (sampleDirty c (projr (tokenIds input))) (\<lambda>sampled.
        if s_unknown sampled then
          js_bind (count UnknownFallbackCalls) (\<lambda>_.
          js_bind (count DirectScratchCalls) (\<lambda>_. fallback inner input))
        else if exceeds cfg (s_sampledDirty sampled) (s_sampleCount sampled) (tc_maxMixedDirtyDensity cfg) then
          js_bind (count DirtyFallbackCalls) (\<lambda>_.
          js_bind (count SampledFallbackCalls) (\<lambda>_.
          js_bind (count MixedDensityFallbackCalls) (\<lambda>_.
          js_bind (count DirectScratchCalls) (\<lambda>_. fallback inner input))))
        else join_or_careful c cfg inner input (Some sampled))) (exactly input)"
  proof (rule gives_bind [OF gives_sampleDirty [OF stable_True]])
    fix sampled :: sample
    have "gives (\<lambda>_. True) (if s_unknown sampled then
          js_bind (count UnknownFallbackCalls) (\<lambda>_.
          js_bind (count DirectScratchCalls) (\<lambda>_. fallback inner input))
        else if exceeds cfg (s_sampledDirty sampled) (s_sampleCount sampled) (tc_maxMixedDirtyDensity cfg) then
          js_bind (count DirtyFallbackCalls) (\<lambda>_.
          js_bind (count SampledFallbackCalls) (\<lambda>_.
          js_bind (count MixedDensityFallbackCalls) (\<lambda>_.
          js_bind (count DirectScratchCalls) (\<lambda>_. fallback inner input))))
        else join_or_careful c cfg inner input (Some sampled)) (exactly input)"
      by (intro gives_if exact_count exact_fallback exact_join_or_careful assms)
    then show "gives (\<lambda>t. (\<exists>sm. Inr sampled = (Inr sm :: js_error + sample)) \<and> True)
      (if s_unknown sampled then
          js_bind (count UnknownFallbackCalls) (\<lambda>_.
          js_bind (count DirectScratchCalls) (\<lambda>_. fallback inner input))
        else if exceeds cfg (s_sampledDirty sampled) (s_sampleCount sampled) (tc_maxMixedDirtyDensity cfg) then
          js_bind (count DirtyFallbackCalls) (\<lambda>_.
          js_bind (count SampledFallbackCalls) (\<lambda>_.
          js_bind (count MixedDensityFallbackCalls) (\<lambda>_.
          js_bind (count DirectScratchCalls) (\<lambda>_. fallback inner input))))
        else join_or_careful c cfg inner input (Some sampled)) (exactly input)"
      by (rule gives_conseq) simp_all
  qed auto
next
  show "gives (\<lambda>_. True) (join_or_careful c cfg inner input None) (exactly input)"
    by (rule exact_join_or_careful [OF assms])
qed

end

lemma withValidated_invalid:
  assumes "\<not> list_all validate vs" and "\<And>x s. get (put x s) = x"
  shows "\<exists>sc sc'. withValidated get put validate vs use s = (Inl ids_error, put sc' (put sc s)) \<or>
     withValidated get put validate vs use s = (Inl ids_error, put sc s)"
proof -
  define target where "target = (if \<not> is_active (get s) then is_storage (scratch_begin (length vs) (get s))
      else replicate (length vs) 0)"
  obtain target1 where "store_ids validate 0 vs target = (False, target1)"
    using assms(1) store_ids_flag [of validate 0 vs target] by (cases "store_ids validate 0 vs target") auto
  then show ?thesis
    unfolding withValidated_def Let_def target_def [symmetric] by (simp add: assms(2)) blast
qed

context table_over
begin

lemma gives_withValidated:
  assumes "\<And>ids. gives (\<lambda>_. True) (use ids) (exactly (Typed ids))"
    and "get = (\<lambda>s. the (tb_scratch (snd s)))" and "put = (\<lambda>x s. (fst s, (snd s)\<lparr>tb_scratch := Some x\<rparr>))"
  shows "gives (\<lambda>_. True) (withValidated get put validTokenId vs use) (exactly (Arr vs))"
proof (rule givesI)
  fix s r s'
  assume s: "good s" and run: "withValidated get put validTokenId vs use s = (r, s')"
  have lens: "get (put x t) = x" for x t by (simp add: assms(2,3))
  have put: "good (put x t) = good t \<and> table_ext t' (snd (put x t)) = table_ext t' (snd t)" for x t t'
    by (simp add: assms(3) good_def table_ext_def)
  show "good s' \<and> table_ext (snd s) (snd s') \<and> okv r = ref_decode c (Arr vs)"
  proof (cases "list_all validTokenId vs")
    case False
    then have "ref_decode c (Arr vs) = None" by (simp add: ref_decode_def)
    moreover obtain sc sc' where "(r, s') = (Inl ids_error, put sc' (put sc s)) \<or> (r, s') = (Inl ids_error, put sc s)"
      using withValidated_invalid [OF False, of get put use s] lens run by metis
    moreover have "good (put sc' (put sc s))" "table_ext (snd s) (snd (put sc' (put sc s)))"
      "good (put sc s)" "table_ext (snd s) (snd (put sc s))"
      using s by (simp_all add: assms(3) good_def table_ext_def)
    ultimately show ?thesis by (metis okv.simps(1) prod.inject)
  next
    case True
    obtain sc where sc: "withValidated get put validTokenId vs use s =
       (case use (map u32_of_jsval vs) (put sc s) of
         (r, t) \<Rightarrow> (r, if is_active (get s) then t else put ((get t)\<lparr>is_active := False\<rparr>) t))"
      using withValidated_use [of validTokenId vs get put use s, OF True lens] by blast
    obtain r1 t1 where u: "use (map u32_of_jsval vs) (put sc s) = (r1, t1)" by (metis surj_pair)
    have "good (put sc s)" using s put by blast
    from givesD [OF assms(1) this TrueI u]
    have "good t1" "table_ext (snd (put sc s)) (snd t1)" "okv r1 = ref_decode c (Typed (map u32_of_jsval vs))"
      by simp_all
    moreover have "table_ext (snd s) (snd t1) = table_ext (snd (put sc s)) (snd t1)"
      by (simp add: assms(3) table_ext_def)
    moreover have "good (put x t1) = good t1" "table_ext (snd s) (snd (put x t1)) = table_ext (snd s) (snd t1)" for x
      by (simp_all add: assms(3) good_def table_ext_def)
    moreover have "r = r1" "s' = t1 \<or> s' = put ((get t1)\<lparr>is_active := False\<rparr>) t1"
      using run sc u by (auto split: if_splits)
    ultimately show ?thesis using True by (auto simp: ref_decode_def)
  qed
qed

lemma exact_table_decode:
  assumes "core_laws c" and "config_ok cfg"
  shows "gives (\<lambda>_. True) (table_decode c cfg inner input) (exactly input)"
proof (cases "input = NotIds")
  case True
  then show ?thesis by (auto simp: table_decode_def ref_decode_def intro!: gives_throw)
next
  case False
  have init: "gives (\<lambda>_. True) (on_table (table_initialize c cfg)) (\<lambda>r t. r = Inr ())"
    by (rule gives_table) (use table_initialize_spec in blast)
  have plain: "gives (\<lambda>_. True) (decodePrepared c cfg inner input False) (exactly input)"
    by (rule exact_decodePrepared [OF assms False])
  have scratch: "gives (\<lambda>_. True) (withValidated (\<lambda>s. the (tb_scratch (snd s)))
      (\<lambda>x s. (fst s, (snd s)\<lparr>tb_scratch := Some x\<rparr>)) (tc_validate cfg) vs
      (\<lambda>ids. decodePrepared c cfg inner (Typed ids) True)) (exactly (Arr vs))" for vs
    unfolding tc_validate_eq by (rule gives_withValidated) (simp_all add: exact_decodePrepared [OF assms])
  have "gives (\<lambda>_. True) (\<lambda>s. case (tb_scratch (snd s), input) of
          (Some _, Arr vs) \<Rightarrow>
            withValidated (\<lambda>s. the (tb_scratch (snd s)))
              (\<lambda>x s. (fst s, (snd s)\<lparr>tb_scratch := Some x\<rparr>))
              (tc_validate cfg) vs (\<lambda>ids. decodePrepared c cfg inner (Typed ids) True) s
        | _ \<Rightarrow> decodePrepared c cfg inner input False s) (exactly input)" (is "gives _ ?m _")
  proof (rule givesI)
    fix s r s'
    assume s: "good s" and run: "?m s = (r, s')"
    show "good s' \<and> table_ext (snd s) (snd s') \<and> exactly input r (snd s')"
    proof (cases "\<exists>x vs. tb_scratch (snd s) = Some x \<and> input = Arr vs")
      case True
      then obtain vs where vs: "input = Arr vs" by blast
      then have "withValidated (\<lambda>s. the (tb_scratch (snd s)))
              (\<lambda>x s. (fst s, (snd s)\<lparr>tb_scratch := Some x\<rparr>))
              (tc_validate cfg) vs (\<lambda>ids. decodePrepared c cfg inner (Typed ids) True) s = (r, s')"
        using run True by auto
      from givesD [OF scratch s TrueI this] show ?thesis by (simp add: vs)
    next
      case none: False
      then have "decodePrepared c cfg inner input False s = (r, s')"
        using run by (cases "tb_scratch (snd s)"; cases input) auto
      from givesD [OF plain s TrueI this] show ?thesis .
    qed
  qed
  then show ?thesis
    unfolding table_decode_def using False
    by (auto intro!: gives_bind [OF init] elim: gives_conseq)
qed

end

text \<open>The contract of a table over a decoder with the contract.\<close>

definition table_inv :: "('i \<Rightarrow> bool) \<Rightarrow> core \<Rightarrow> table_config \<Rightarrow> 'i \<times> table \<Rightarrow> bool" where
  "table_inv below c cfg s \<longleftrightarrow> below (fst s) \<and> table_ok c cfg (snd s)"

sublocale table_over \<subseteq> table: exact_decoder "table_decode c cfg inner" "table_inv inv c cfg" "ref_decode c"
proof (unfold_locales, goal_cases)
  case (1 s i r s')
  then have "good s" "core_laws c" "config_ok cfg" by (simp_all add: table_inv_def good_def table_ok_def)
  from givesD [OF exact_table_decode [OF this(2,3)] this(1) TrueI 1(2)]
  show ?case by (simp add: table_inv_def good_def)
qed

context table_over
begin

lemma contract: "exact_decoder (table_decode c cfg inner) (table_inv inv c cfg) (ref_decode c)"
  by (rule table.exact_decoder_axioms)

end

lemma table_decode_contract:
  "exact_decoder inner below (ref_decode c) \<Longrightarrow>
     exact_decoder (table_decode c cfg inner) (table_inv below c cfg) (ref_decode c)"
  by (rule table_over.contract [OF table_over.intro])

interpretation table_on_assembly: table_over "assembly_decode c" "assembly_inv c" c cfg for c cfg
  by unfold_locales

interpretation table_on_borrowed: table_over "borrowed_decode c" "borrowed_inv c" c cfg for c cfg
  by unfold_locales

interpretation table_on_utf16: table_over "utf16_decode c" "utf16_inv c" c cfg for c cfg
  by unfold_locales

interpretation table_on_raw: table_over "raw_decode c" "raw_inv c" c cfg for c cfg
  by unfold_locales

subsection \<open>Construction and the main properties\<close>

lemma table_config_ok:
  assumes "table_config_of fl c opts = Inr cfg"
  shows "config_ok cfg \<and> (tc_runCache cfg \<longrightarrow> tc_mixedRuns cfg) \<and>
    (tc_byteTable cfg \<longrightarrow> to_byteTable opts = JBool True)"
proof -
  have bool: "boolean_option name v = Inr True \<Longrightarrow> v = JBool True" for name v
    by (cases v) simp_all
  show ?thesis
    using assms bool unfolding table_config_of_def Let_def
    by (auto simp: try_bind_Inr config_ok_def)
qed

text \<open>
  The two facts about the surroundings a table needs: the token bytes fit the 32-bit offsets when
  it keeps an arena, and a caller's \<^verbatim>\<open>nativeUnmap\<close> inverts the Latin-1 string.
\<close>

definition table_surroundings :: "core \<Rightarrow> table_options \<Rightarrow> bool" where
  "table_surroundings c opts \<longleftrightarrow>
     (to_byteTable opts = JBool True \<longrightarrow> arena_fits c) \<and>
     (case lo_nativeUnmap (to_nativeLatin1Options opts) of
        UnmapFunction f \<Rightarrow> (\<forall>bs. f (latin1 bs) = Inr (Some bs)) | _ \<Rightarrow> True)"

lemma createDecodeTable_ok:
  assumes "core_laws c" and "createDecodeTable fl hasBuffer c (Options opts) = Inr (cfg, t)"
    and "table_surroundings c opts"
  shows "table_ok c cfg t"
proof -
  obtain runs latin where
    cfg: "table_config_of fl c opts = Inr cfg"
    and runs: "(if tc_runCache cfg then map_sum (\<lambda>e. e) Some (createMaximalRunCache (to_runCacheOptions opts))
               else Inr None) = Inr runs"
    and latin: "(if tc_nativeLatin1 cfg \<or> tc_portableLatin1 cfg
               then map_sum (\<lambda>e. e) Some (createNativeLatin1Decoder hasBuffer c
                      (Options ((to_nativeLatin1Options opts)\<lparr>lo_portable := JBool (tc_portableLatin1 cfg)\<rparr>)))
               else Inr None) = Inr latin"
    and t: "t = \<lparr>tb_table = replicate (c_vocabSize c) EUntouched, tb_status = replicate (c_vocabSize c) 0,
        tb_lengths = replicate (c_vocabSize c) 0, tb_initialized = False, tb_count = (\<lambda>_. 0),
        tb_bytes = (if tc_byteTable cfg \<or> tc_mixedRuns cfg
                    then Some (createTokenByteDecoder (c_vocabSize c)) else None),
        tb_runs = runs, tb_latin1 = latin,
        tb_scratch = (if tc_directScratch cfg then Some createValidatedIdScratch else None)\<rparr>"
    using assms(2) by (auto simp: createDecodeTable_def try_bind_Inr)
  note ok = table_config_ok [OF cfg]
  have r: "runs = None \<or> tc_mixedRuns cfg \<and> (\<exists>rc. runs = Some rc \<and> rc_wf rc \<and> rc_sound (id_text c) rc)"
    using runs ok createMaximalRunCache_wf
    by (cases "createMaximalRunCache (to_runCacheOptions opts)") (auto split: if_splits)
  have l: "(latin \<noteq> None \<longleftrightarrow> tc_nativeLatin1 cfg \<or> tc_portableLatin1 cfg) \<and>
     (\<forall>l. latin = Some l \<longrightarrow> latin1_ok c l \<and> l1_portable l = tc_portableLatin1 cfg)"
  proof (cases "tc_nativeLatin1 cfg \<or> tc_portableLatin1 cfg")
    case True
    let ?lo = "(to_nativeLatin1Options opts)\<lparr>lo_portable := JBool (tc_portableLatin1 cfg)\<rparr>"
    obtain l where l: "createNativeLatin1Decoder hasBuffer c (Options ?lo) = Inr l" "latin = Some l"
      using latin True by (cases "createNativeLatin1Decoder hasBuffer c (Options ?lo)") auto
    have "latin1_ok c l"
      by (rule createNativeLatin1Decoder_ok [OF l(1)]) (use assms(3) in \<open>simp add: table_surroundings_def\<close>)
    moreover have "l1_portable l = tc_portableLatin1 cfg"
      using l(1) by (auto simp: createNativeLatin1Decoder_def split: if_splits sum.splits)
    ultimately show ?thesis using True l(2) by simp
  qed (use latin in auto)
  have "bt_ok c (tc_byteTable cfg) (createTokenByteDecoder (c_vocabSize c))"
    using ok assms(3) by (intro createTokenByteDecoder_ok) (simp add: table_surroundings_def)
  then have "parts_ok c cfg t"
    using r l unfolding parts_ok_def t by auto
  moreover have "entries_ok c t" by (simp add: t entries_ok_def entry_ok_def)
  ultimately show ?thesis using assms(1) ok by (simp add: table_ok_def)
qed

text \<open>
  C4. The decode table changes nothing: built with any options, over any exact decoder, every
  call of any sequence of calls returns the text the tokenizer's own decode has for its input
  and throws exactly when that decode has no value (an invalid input, an unknown id). No cache,
  route, batch, scratch buffer or earlier call is visible in the results.
\<close>

theorem decode_table_exact:
  assumes "core_laws c" and "createDecodeTable fl hasBuffer c (Options opts) = Inr (cfg, t)"
    and "table_surroundings c opts"
    and "exact_decoder inner below (ref_decode c)" and "below i"
  shows "map okv (fst (decode_all (table_decode c cfg inner) inputs (i, t))) = map (ref_decode c) inputs"
proof -
  have "table_inv below c cfg (i, t)"
    using createDecodeTable_ok [OF assms(1-3)] assms(5) by (simp add: table_inv_def)
  then show ?thesis
    using exact_decoder.decode_all_exact [OF table_decode_contract [OF assms(4)]] by blast
qed

definition example_tokens :: "bytes list" where
  "example_tokens = [[0x41], [0xE2, 0x82], [0xAC], [0xF0, 0x9F], [], [0xC3, 0xA9]]"

definition example_table_options :: table_options where
  "example_table_options = \<lparr>to_seedEntries = JNum 2, to_seedIds = None, to_maxTableIds = JUndefined,
     to_maxDirtyDensity = JUndefined, to_byteTable = JUndefined, to_mixedRuns = JBool True,
     to_runCache = JBool True, to_nativeLatin1 = JUndefined, to_portableLatin1 = JUndefined,
     to_fusedValidation = JBool True, to_leanDispatch = JBool True, to_cleanUnroll = JBool True,
     to_directScratch = JUndefined, to_dirtyRunBatch = JBool True, to_runStitcher = JBool True,
     to_maxMixedDirtyDensity = JNum 1, to_mixedRunPenalty = JNum 0, to_now = NowDefault,
     to_runCacheOptions = Options JUndefined,
     to_nativeLatin1Options = \<lparr>lo_now = NowDefault, lo_nativeUnmap = UnmapDefault, lo_portable = JUndefined\<rparr>\<rparr>"

lemma example_table_created:
  "case createDecodeTable (\<lambda>q. q) True (table_core example_tokens) (Options example_table_options) of
     Inl _ \<Rightarrow> False | Inr _ \<Rightarrow> True"
  by (simp add: createDecodeTable_def table_config_of_def checked_vocabSize_def nonnegativeInteger_def
      seedIds_def createMaximalRunCache_def run_cache_capacity_def try_if_def Let_def table_core_def
      example_table_options_def example_tokens_def)

theorem decode_table_exact_witness:
  "\<exists>cfg t. createDecodeTable (\<lambda>q. q) True (table_core example_tokens) (Options example_table_options) = Inr (cfg, t) \<and>
     map okv (fst (decode_all (table_decode (table_core example_tokens) cfg (assembly_decode (table_core example_tokens)))
       [Typed [0, 1, 2], Typed [1, 9], Arr [JNum 5, JNum (1 / 2)]] (0, t))) =
     map (ref_decode (table_core example_tokens)) [Typed [0, 1, 2], Typed [1, 9], Arr [JNum 5, JNum (1 / 2)]]"
proof -
  let ?c = "table_core example_tokens"
  obtain cfg t where made: "createDecodeTable (\<lambda>q. q) True ?c (Options example_table_options) = Inr (cfg, t)"
    using example_table_created by (auto split: sum.splits)
  have "map okv (fst (decode_all (table_decode ?c cfg (assembly_decode ?c))
       [Typed [0, 1, 2], Typed [1, 9], Arr [JNum 5, JNum (1 / 2)]] (0, t))) =
     map (ref_decode ?c) [Typed [0, 1, 2], Typed [1, 9], Arr [JNum 5, JNum (1 / 2)]]"
    by (rule decode_table_exact [OF _ made _ assembly.exact_decoder_axioms])
      (simp_all add: table_surroundings_def example_table_options_def assembly_inv_def, simp add: table_core_def)
  with made show ?thesis by blast
qed

text \<open>The unrolled clean loop is the plain loop, on every list of elements.\<close>

theorem clean_unroll_equivalent:
  "join_ids (cfg\<lparr>tc_cleanUnroll := True\<rparr>) look es = join_ids (cfg\<lparr>tc_cleanUnroll := False\<rparr>) look es"
  by (simp add: join_ids_eq)

text \<open>
  The fast validator \<^verbatim>\<open>(value >>> 0) === value\<close> accepts exactly the values the slow one
  accepts: the integers from 0 to 4294967295 (both accept \<^verbatim>\<open>-0\<close>, which is 0 here).
\<close>

theorem fast_validator_equivalent: "validTokenIdFast v = validTokenId v"
  by (rule validTokenIdFast_eq)

lemma tokenString_text:
  assumes "table_ok c cfg t" and "tokenString c v t = Some s"
  shows "tok_state c (u32_of_jsval v) = 1 \<and> s = id_text c [u32_of_jsval v]"
proof -
  obtain q where v: "v = JNum q" and q: "0 \<le> q" "is_int_rat q" and p: "packed_string (tb_table t) (of_nat (nat \<lfloor>q\<rfloor>)) = Some s"
    using assms(2) by (auto simp: tokenString_def not_less split: jsval.splits if_splits)
  have "(of_nat (nat \<lfloor>q\<rfloor>) :: u32) = u32_of_jsval v"
    using q(1) v by (simp add: of_nat_nat)
  then have "packed_string (tb_table t) (u32_of_jsval v) = Some s" using p by simp
  from table_ok_packed [OF assms(1) this] show ?thesis by simp
qed

text \<open>
  What \<^verbatim>\<open>tokenString\<close> reports is the text of that token: it answers only for an integer id
  of the vocabulary whose bytes are valid UTF-8, with their decoding.
\<close>

theorem tokenString_sound:
  assumes "table_ok c cfg t" and "tokenString c v t = Some s"
  shows "\<exists>bs. c_tokenBytes c (u32_of_jsval v) = Inr bs \<and> isValidUtf8 bs \<and> s = fst (decodeValidUtf8 bs)"
  using tokenString_text [OF assms] id_text_single by (auto simp: tok_state_eqs)

theorem tokenString_sound_witness:
  "\<exists>cfg t s. table_ok (table_core example_tokens) cfg t \<and>
     tokenString (table_core example_tokens) (JNum 0) t = Some s \<and>
     (\<exists>bs. c_tokenBytes (table_core example_tokens) (u32_of_jsval (JNum 0)) = Inr bs \<and> isValidUtf8 bs \<and>
        s = fst (decodeValidUtf8 bs))"
proof -
  let ?c = "table_core example_tokens"
  obtain cfg t0 where made: "createDecodeTable (\<lambda>q. q) True ?c (Options example_table_options) = Inr (cfg, t0)"
    using example_table_created by (auto split: sum.splits)
  have ok0: "table_ok ?c cfg t0"
    by (rule createDecodeTable_ok [OF _ made]) (simp_all add: table_surroundings_def example_table_options_def)
  obtain r t where m: "materialize ?c 0 t0 = (r, t)" by fastforce
  have one: "tok_state ?c 0 = 1" by (simp add: tok_state_def table_tokenBytes_def example_tokens_def)
  have ok: "table_ok ?c cfg t" and p: "packed_string (tb_table t) 0 = Some (id_text ?c [0])"
    using materialize_spec [OF ok0 m] one by simp_all
  have "tokenString ?c (JNum 0) t = Some (id_text ?c [0])"
    using p by (simp add: tokenString_def table_core_def example_tokens_def)
  with ok tokenString_sound [OF ok this] show ?thesis by blast
qed

end
