(* ===== verification/Hot_Strings.thy ===== *)
theory Hot_Strings
  imports Decode_Table_Exact
begin

text \<open>
  The hot-string decoder, \<^verbatim>\<open>hypertok-js/src/decode-hotstrings.mjs\<close>: the first input is sampled,
  the strings of its most frequent valid tokens are kept, and later inputs are assembled from
  them and from runs given to the decoder below.
\<close>

subsection \<open>Options and state\<close>

record hot_options =
  ho_maxEntries :: jsval
  ho_maxPayloadBytes :: jsval
  ho_maxIndexBytes :: jsval
  ho_minCoverage :: jsval

record hot =
  hs_maxEntries :: nat
  hs_maxPayloadBytes :: nat
  hs_minCoverage :: rat
  hs_fl :: "rat \<Rightarrow> rat"
  hs_directIndex :: "nat list option"
  hs_cachedStrings :: "jstring list"
  hs_sparseCache :: "(u32 \<rightharpoonup> jstring) option"
  hs_initialized :: bool
  hs_active :: bool
  hs_observedTokens :: nat
  hs_observedDistinct :: nat
  hs_coveredTokens :: nat
  hs_payloadBytes :: nat
  hs_coveredDistinct :: nat

definition positiveSafeInteger :: "jsval \<Rightarrow> nat \<Rightarrow> string \<Rightarrow> js_error + nat" where
  "positiveSafeInteger v dflt name =
     (if v = JUndefined then Inr dflt
      else if \<not> number_isSafeInteger v \<or> (case v of JNum q \<Rightarrow> q < 1 | _ \<Rightarrow> False)
        then Inl (TypeError (name @ '' must be a positive safe integer''))
      else Inr (nat_of_jsval v))"

text \<open>The double \<^verbatim>\<open>0.9\<close>, and the check of the coverage bound.\<close>

fun min_coverage :: "jsval \<Rightarrow> js_error + rat" where
  "min_coverage JUndefined = Inr (8106479329266893 / 9007199254740992)"
| "min_coverage JNull = Inr (8106479329266893 / 9007199254740992)"
| "min_coverage (JNum q) =
     (if q < 0 \<or> 1 < q then Inl (TypeError ''minCoverage must be between zero and one'') else Inr q)"
| "min_coverage _ = Inl (TypeError ''minCoverage must be between zero and one'')"

text \<open>\<^verbatim>\<open>vocabSize\<close> of this file: null instead of an error.\<close>

definition hot_vocabSize :: "core \<Rightarrow> nat option" where
  "hot_vocabSize c =
     (if 0 < c_vocabSize c \<and> c_vocabSize c \<le> 9007199254740991 then Some (c_vocabSize c) else None)"

definition createHotStringDecoder ::
  "(rat \<Rightarrow> rat) \<Rightarrow> core \<Rightarrow> hot_options options \<Rightarrow> js_error + hot" where
  "createHotStringDecoder fl c opts =
     (case opts of
        NotObject \<Rightarrow> Inl (TypeError ''hot-string options must be an object'')
      | Options ho \<Rightarrow>
     try_bind (positiveSafeInteger (ho_maxEntries ho) 8192 ''maxEntries'') (\<lambda>maxEntries.
     try_bind (positiveSafeInteger (ho_maxPayloadBytes ho) 2097152 ''maxPayloadBytes'') (\<lambda>maxPayloadBytes.
     try_bind (positiveSafeInteger (ho_maxIndexBytes ho) 1048576 ''maxIndexBytes'') (\<lambda>maxIndexBytes.
     try_bind (min_coverage (ho_minCoverage ho)) (\<lambda>minCoverage.
     let directIndex = (case hot_vocabSize c of
           Some n \<Rightarrow> if n * 4 \<le> maxIndexBytes then Some (replicate n 0) else None
         | None \<Rightarrow> None)
     in Inr \<lparr>hs_maxEntries = maxEntries, hs_maxPayloadBytes = maxPayloadBytes,
          hs_minCoverage = minCoverage, hs_fl = fl, hs_directIndex = directIndex,
          hs_cachedStrings = [],
          hs_sparseCache = (if directIndex = None then Some Map.empty else None),
          hs_initialized = False, hs_active = False, hs_observedTokens = 0,
          hs_observedDistinct = 0, hs_coveredTokens = 0, hs_payloadBytes = 0,
          hs_coveredDistinct = 0\<rparr>)))))"

definition cachedString :: "u32 \<Rightarrow> hot \<Rightarrow> jstring option" where
  "cachedString tid h =
     (case hs_directIndex h of
        None \<Rightarrow> (case hs_sparseCache h of Some m \<Rightarrow> m tid | None \<Rightarrow> None)
      | Some slots \<Rightarrow>
          (if unat tid < length slots
           then (let slot = slots ! unat tid in
                 if slot = 0 then None
                 else if slot \<le> length (hs_cachedStrings h) then Some (hs_cachedStrings h ! (slot - 1))
                 else None)
           else None))"

subsection \<open>Counting and the heap of the most frequent ids\<close>

text \<open>The loop over the ids with a count per id; an id past the table ends it.\<close>

fun count_direct :: "core \<Rightarrow> u32 list \<Rightarrow> u32 list \<Rightarrow> nat \<Rightarrow> (js_error + u32 list) \<times> nat" where
  "count_direct c [] counts observed = (Inr counts, observed)"
| "count_direct c (tid # ids) counts observed =
     (if length counts \<le> unat tid
      then (case c_tokenBytes c tid of
              Inl e \<Rightarrow> (Inl e, observed)
            | Inr _ \<Rightarrow> (Inl (PlainError (''token id '' @ show_nat (unat tid) @ '' exceeds vocabSize'')), observed))
      else count_direct c ids (counts[unat tid := counts ! unat tid + 1])
             (if counts ! unat tid = 0 then observed + 1 else observed))"

record hot_heap =
  hh_ids :: "u32 list"
  hh_counts :: "u32 list"
  hh_size :: nat

definition hh_worse :: "u32 \<Rightarrow> u32 \<Rightarrow> u32 \<Rightarrow> u32 \<Rightarrow> bool" where
  "hh_worse leftCount leftId rightCount rightId \<longleftrightarrow>
     leftCount < rightCount \<or> (leftCount = rightCount \<and> rightId < leftId)"

definition worse_at :: "hot_heap \<Rightarrow> nat \<Rightarrow> nat \<Rightarrow> bool" where
  "worse_at hp left right =
     hh_worse (hh_counts hp ! left) (hh_ids hp ! left) (hh_counts hp ! right) (hh_ids hp ! right)"

definition swap_at :: "'a list \<Rightarrow> nat \<Rightarrow> nat \<Rightarrow> 'a list" where
  "swap_at xs left right = xs[left := xs ! right, right := xs ! left]"

definition hh_swap :: "nat \<Rightarrow> nat \<Rightarrow> hot_heap \<Rightarrow> hot_heap" where
  "hh_swap left right hp =
     hp\<lparr>hh_ids := swap_at (hh_ids hp) left right, hh_counts := swap_at (hh_counts hp) left right\<rparr>"

function sift_up :: "nat \<Rightarrow> hot_heap \<Rightarrow> hot_heap" where
  "sift_up index hp =
     (if index = 0 then hp
      else let parent = (index - 1) div 2 in
        if \<not> worse_at hp index parent then hp
        else sift_up parent (hh_swap index parent hp))"
  by pat_completeness auto
termination by (relation "measure fst") auto

declare sift_up.simps [simp del]

definition hh_push :: "u32 \<Rightarrow> u32 \<Rightarrow> hot_heap \<Rightarrow> hot_heap" where
  "hh_push tid freq hp =
     (let index = hh_size hp
      in sift_up index (hp\<lparr>hh_size := index + 1, hh_ids := (hh_ids hp)[index := tid],
           hh_counts := (hh_counts hp)[index := freq]\<rparr>))"

text \<open>The worse of the children at \<^verbatim>\<open>index * 2 + 1\<close> and \<^verbatim>\<open>index * 2 + 2\<close>.\<close>

definition hh_child :: "hot_heap \<Rightarrow> nat \<Rightarrow> nat" where
  "hh_child hp index =
     (let left = index * 2 + 1; right = left + 1
      in if right < hh_size hp \<and> worse_at hp right left then right else left)"

lemma hh_child_cases: "hh_child hp index = index * 2 + 1 \<or> hh_child hp index = index * 2 + 2"
  by (simp add: hh_child_def)

lemma hh_child_size: "index * 2 + 1 < hh_size hp \<Longrightarrow> hh_child hp index < hh_size hp"
  by (simp add: hh_child_def)

function sift_down :: "nat \<Rightarrow> hot_heap \<Rightarrow> hot_heap" where
  "sift_down index hp =
     (if hh_size hp \<le> index * 2 + 1 then hp
      else if \<not> worse_at hp (hh_child hp index) index then hp
      else sift_down (hh_child hp index) (hh_swap index (hh_child hp index) hp))"
  by pat_completeness auto
termination
proof (relation "measure (\<lambda>(index, hp). hh_size hp - index)", goal_cases)
  case (2 index hp)
  then show ?case using hh_child_cases [of hp index] by (auto simp: hh_swap_def)
qed simp

declare sift_down.simps [simp del]

definition replaceWorst :: "u32 \<Rightarrow> u32 \<Rightarrow> hot_heap \<Rightarrow> hot_heap" where
  "replaceWorst tid freq hp =
     sift_down 0 (hp\<lparr>hh_ids := (hh_ids hp)[0 := tid], hh_counts := (hh_counts hp)[0 := freq]\<rparr>)"

text \<open>One turn of the selection over all ids.\<close>

definition select_step :: "nat \<Rightarrow> u32 list \<Rightarrow> nat \<Rightarrow> hot_heap \<Rightarrow> hot_heap" where
  "select_step capacity counts tid hp =
     (let freq = counts ! tid in
      if freq = 0 then hp
      else if hh_size hp < capacity then hh_push (of_nat tid) freq hp
      else if hh_worse (hh_counts hp ! 0) (hh_ids hp ! 0) freq (of_nat tid)
        then replaceWorst (of_nat tid) freq hp
      else hp)"

definition select_hot :: "nat \<Rightarrow> u32 list \<Rightarrow> hot_heap" where
  "select_hot capacity counts =
     fold (select_step capacity counts) [0..<length counts]
       \<lparr>hh_ids = replicate capacity 0, hh_counts = replicate capacity 0, hh_size = 0\<rparr>"

text \<open>The sparse selection: ids by falling frequency, ties by rising id.\<close>

definition count_sparse :: "u32 list \<Rightarrow> u32 \<Rightarrow> nat" where
  "count_sparse ids tid = count_list ids tid"

definition select_sparse :: "nat \<Rightarrow> u32 list \<Rightarrow> u32 list" where
  "select_sparse maxEntries ids =
     take maxEntries (sort_key (\<lambda>tid. - int (count_sparse ids tid)) (sort_key unat (remdups ids)))"

subsection \<open>Initialization\<close>

text \<open>Keeping one string: appended and indexed, or put in the sparse map.\<close>

definition hot_store :: "u32 \<Rightarrow> jstring \<Rightarrow> hot \<Rightarrow> hot" where
  "hot_store tid value h =
     (case hs_directIndex h of
        None \<Rightarrow> h\<lparr>hs_sparseCache := map_option (\<lambda>m. m(tid \<mapsto> value)) (hs_sparseCache h)\<rparr>
      | Some slots \<Rightarrow>
          h\<lparr>hs_cachedStrings := hs_cachedStrings h @ [value],
            hs_directIndex := Some (slots[unat tid := length (hs_cachedStrings h) + 1])\<rparr>)"

text \<open>The loop that keeps the strings of the selected ids.\<close>

fun hot_fill :: "core \<Rightarrow> (u32 \<Rightarrow> nat) \<Rightarrow> u32 list \<Rightarrow> (hot, unit) js" where
  "hot_fill c frequency [] h = (Inr (), h)"
| "hot_fill c frequency (tid # ids) h =
     (if hs_coveredDistinct h = hs_maxEntries h then (Inr (), h)
      else case c_tokenBytes c tid of
        Inl e \<Rightarrow> (Inl e, h)
      | Inr bytes \<Rightarrow>
          (case textDecoder False True bytes of
             Inl (TypeError _) \<Rightarrow> hot_fill c frequency ids h
           | Inl e \<Rightarrow> (Inl e, h)
           | Inr value \<Rightarrow>
               (let retainedBytes = length value * 2 in
                if hs_maxPayloadBytes h < hs_payloadBytes h + retainedBytes
                then hot_fill c frequency ids h
                else
                  let h1 = hot_store tid value h
                  in hot_fill c frequency ids
                       (h1\<lparr>hs_coveredDistinct := hs_coveredDistinct h1 + 1,
                           hs_payloadBytes := hs_payloadBytes h1 + retainedBytes,
                           hs_coveredTokens := hs_coveredTokens h1 + frequency tid\<rparr>))))"

definition hot_finish :: "hot \<Rightarrow> hot" where
  "hot_finish h =
     (let coverage = hs_fl h (of_nat (hs_coveredTokens h) / of_nat (hs_observedTokens h));
          repeatedSingleUnits =
            65536 \<le> hs_observedTokens h \<and> coverage = 1 \<and> hs_observedDistinct h \<le> 2 \<and>
            hs_coveredDistinct h \<noteq> 0 \<and>
            hs_fl h (of_nat (hs_payloadBytes h) / of_nat (hs_coveredDistinct h)) \<le> 2;
          active = (hs_minCoverage h \<le> coverage \<and> \<not> repeatedSingleUnits);
          h1 = h\<lparr>hs_active := active\<rparr>
      in (if active then h1
          else h1\<lparr>hs_cachedStrings := [],
                  hs_sparseCache := map_option (\<lambda>_. Map.empty) (hs_sparseCache h1),
                  hs_directIndex := None, hs_coveredDistinct := 0, hs_payloadBytes := 0\<rparr>)
           \<lparr>hs_initialized := True\<rparr>)"

definition hot_select :: "core \<Rightarrow> u32 list \<Rightarrow> (hot, u32 list \<times> (u32 \<Rightarrow> nat)) js" where
  "hot_select c ids h =
     (case hs_directIndex h of
        Some slots \<Rightarrow>
          (case count_direct c ids (replicate (length slots) 0) (hs_observedDistinct h) of
             (Inl e, observed) \<Rightarrow> (Inl e, h\<lparr>hs_observedDistinct := observed\<rparr>)
           | (Inr counts, observed) \<Rightarrow>
               (Inr (hh_ids (select_hot (min (hs_maxEntries h) observed) counts),
                     \<lambda>tid. unat (counts ! unat tid)),
                h\<lparr>hs_observedDistinct := observed\<rparr>))
      | None \<Rightarrow>
          (Inr (select_sparse (hs_maxEntries h) ids, count_sparse ids),
           h\<lparr>hs_observedDistinct := length (remdups ids)\<rparr>))"

definition hot_initialize :: "core \<Rightarrow> u32 list \<Rightarrow> (hot, unit) js" where
  "hot_initialize c ids h =
     (if hs_initialized h \<or> ids = [] then (Inr (), h)
      else js_bind (hot_select c ids) (\<lambda>(selected, frequency).
           js_bind (js_modify (\<lambda>h. h\<lparr>hs_observedTokens := length ids\<rparr>)) (\<lambda>_.
           js_bind (hot_fill c frequency selected) (\<lambda>_.
           js_modify hot_finish))) h)"

subsection \<open>The decode call\<close>

text \<open>The loop over cached strings and runs of uncached ids.\<close>

function hot_loop :: "(u32 \<Rightarrow> jstring option) \<Rightarrow> 'i decoder \<Rightarrow> u32 list \<Rightarrow> jstring \<Rightarrow> ('i, jstring) js" where
  "hot_loop look inner [] out s = (Inr out, s)"
| "hot_loop look inner (tid # ids) out s =
     (case look tid of
        Some cached \<Rightarrow> hot_loop look inner ids (out @ cached) s
      | None \<Rightarrow>
          (case inner (Typed (tid # takeWhile (\<lambda>v. look v = None) ids)) s of
             (Inl e, s1) \<Rightarrow> (Inl e, s1)
           | (Inr decoded, s1) \<Rightarrow>
               hot_loop look inner (dropWhile (\<lambda>v. look v = None) ids) (out @ decoded) s1))"
  by pat_completeness auto
termination
  by (relation "measure (\<lambda>(look, inner, ids, out, s). length ids)")
    (auto simp: le_imp_less_Suc length_dropWhile_le)

definition hot_decode :: "core \<Rightarrow> 'i decoder \<Rightarrow> js_input \<Rightarrow> ('i \<times> hot, jstring) js" where
  "hot_decode c inner input =
     js_bind (js_lift (tokenIds input)) (\<lambda>ids.
     let below = js_zoom fst (\<lambda>i s. (i, snd s)) in
     if ids = [] then below (inner (Typed ids))
     else js_bind (js_zoom snd (\<lambda>h s. (fst s, h)) (hot_initialize c ids)) (\<lambda>_ s.
       if \<not> hs_active (snd s) then below (inner (Typed ids)) s
       else below (hot_loop (\<lambda>tid. cachedString tid (snd s)) inner ids []) s))"

definition hot_tokenString :: "u32 \<Rightarrow> hot \<Rightarrow> jstring option" where
  "hot_tokenString tid h = (if hs_active h then cachedString tid h else None)"

subsection \<open>Which ids the selection can name\<close>

definition heap_within :: "u32 set \<Rightarrow> hot_heap \<Rightarrow> bool" where
  "heap_within A hp \<longleftrightarrow> set (hh_ids hp) \<subseteq> A \<and> length (hh_counts hp) = length (hh_ids hp) \<and>
     hh_size hp \<le> length (hh_ids hp)"

lemma swap_at_set: "i < length xs \<Longrightarrow> j < length xs \<Longrightarrow> set (swap_at xs i j) = set xs"
  by (simp add: swap_at_def set_swap)

lemma swap_at_length [simp]: "length (swap_at xs i j) = length xs"
  by (simp add: swap_at_def)

lemma heap_within_swap:
  "heap_within A hp \<Longrightarrow> i < length (hh_ids hp) \<Longrightarrow> j < length (hh_ids hp) \<Longrightarrow> heap_within A (hh_swap i j hp)"
  by (simp add: heap_within_def hh_swap_def swap_at_set)

lemma hh_swap_fields [simp]:
  "hh_size (hh_swap i j hp) = hh_size hp" "length (hh_ids (hh_swap i j hp)) = length (hh_ids hp)"
  by (simp_all add: hh_swap_def)

lemma heap_within_sift_up: "heap_within A hp \<Longrightarrow> index < length (hh_ids hp) \<Longrightarrow> heap_within A (sift_up index hp)"
proof (induction index hp rule: sift_up.induct)
  case (1 index hp)
  have parent: "(index - 1) div 2 < length (hh_ids hp)" using "1.prems"(2) by linarith
  note swap = heap_within_swap [OF "1.prems" parent]
  show ?case
    using 1 swap parent by (subst sift_up.simps) (simp add: Let_def)
qed

lemma heap_within_sift_down: "heap_within A hp \<Longrightarrow> index < hh_size hp \<Longrightarrow> heap_within A (sift_down index hp)"
proof (induction index hp rule: sift_down.induct)
  case (1 index hp)
  show ?case
  proof (cases "hh_size hp \<le> index * 2 + 1 \<or> \<not> worse_at hp (hh_child hp index) index")
    case True
    then show ?thesis using "1.prems" by (subst sift_down.simps) auto
  next
    case False
    then have child: "hh_child hp index < hh_size hp" by (simp add: hh_child_size)
    have le: "hh_size hp \<le> length (hh_ids hp)" using "1.prems"(1) by (simp add: heap_within_def)
    have "heap_within A (hh_swap index (hh_child hp index) hp)"
      by (rule heap_within_swap [OF "1.prems"(1)]) (use child le "1.prems"(2) in linarith)+
    then have "heap_within A (sift_down (hh_child hp index) (hh_swap index (hh_child hp index) hp))"
      using "1.IH" False child by simp
    then show ?thesis using False by (subst sift_down.simps) simp
  qed
qed

lemma heap_within_write:
  "heap_within A hp \<Longrightarrow> tid \<in> A \<Longrightarrow>
     heap_within A (hp\<lparr>hh_ids := (hh_ids hp)[i := tid], hh_counts := (hh_counts hp)[i := freq]\<rparr>)"
  using set_update_subset_insert [of "hh_ids hp" i tid] by (auto simp: heap_within_def)

lemma heap_within_push:
  assumes "heap_within A hp" and "tid \<in> A" and "hh_size hp < length (hh_ids hp)"
  shows "heap_within A (hh_push tid freq hp)"
  unfolding hh_push_def Let_def
  by (rule heap_within_sift_up)
    (use heap_within_write [OF assms(1,2), of "hh_size hp" freq] assms(3) in \<open>simp_all add: heap_within_def\<close>)

lemma heap_within_replaceWorst:
  assumes "heap_within A hp" and "tid \<in> A" and "0 < hh_size hp"
  shows "heap_within A (replaceWorst tid freq hp)"
  unfolding replaceWorst_def
  by (rule heap_within_sift_down)
    (use heap_within_write [OF assms(1,2)] assms(3) in \<open>simp_all\<close>)

lemma sift_up_size [simp]: "hh_size (sift_up index hp) = hh_size hp"
proof (induction index hp rule: sift_up.induct)
  case (1 index hp)
  then show ?case by (subst sift_up.simps) (simp add: Let_def)
qed

lemma sift_down_size [simp]: "hh_size (sift_down index hp) = hh_size hp"
proof (induction index hp rule: sift_down.induct)
  case (1 index hp)
  then show ?case by (subst sift_down.simps) simp
qed

lemma hh_push_size [simp]: "hh_size (hh_push tid freq hp) = hh_size hp + 1"
  by (simp add: hh_push_def Let_def)

lemma replaceWorst_size [simp]: "hh_size (replaceWorst tid freq hp) = hh_size hp"
  by (simp add: replaceWorst_def)

lemma sift_up_length [simp]: "length (hh_ids (sift_up index hp)) = length (hh_ids hp)"
proof (induction index hp rule: sift_up.induct)
  case (1 index hp)
  then show ?case by (subst sift_up.simps) (simp add: Let_def)
qed

lemma sift_down_length [simp]: "length (hh_ids (sift_down index hp)) = length (hh_ids hp)"
proof (induction index hp rule: sift_down.induct)
  case (1 index hp)
  then show ?case by (subst sift_down.simps) simp
qed

lemma select_step_within:
  assumes "heap_within A hp" and "counts ! tid \<noteq> 0 \<Longrightarrow> of_nat tid \<in> A"
    and "length (hh_ids hp) = capacity" and "0 < capacity"
  shows "heap_within A (select_step capacity counts tid hp) \<and>
    length (hh_ids (select_step capacity counts tid hp)) = capacity"
proof (cases "counts ! tid = 0")
  case False
  then have A: "of_nat tid \<in> A" by (rule assms(2))
  show ?thesis
  proof (cases "hh_size hp < capacity")
    case True
    then show ?thesis using heap_within_push [OF assms(1) A] assms(3) False
      by (simp add: select_step_def Let_def hh_push_def)
  next
    case full: False
    then have "0 < hh_size hp" using assms(4) by simp
    from heap_within_replaceWorst [OF assms(1) A this] show ?thesis
      using full False assms(1,3) by (simp add: select_step_def Let_def replaceWorst_def)
  qed
qed (use assms in \<open>simp add: select_step_def\<close>)

lemma select_fold_within:
  assumes "\<And>n. n \<in> set ns \<Longrightarrow> counts ! n \<noteq> 0 \<Longrightarrow> of_nat n \<in> A" and "0 < capacity"
  shows "heap_within A hp \<Longrightarrow> length (hh_ids hp) = capacity \<Longrightarrow>
    heap_within A (fold (select_step capacity counts) ns hp)"
  using assms(1)
proof (induction ns arbitrary: hp)
  case (Cons n ns)
  have one: "heap_within A (select_step capacity counts n hp) \<and>
    length (hh_ids (select_step capacity counts n hp)) = capacity"
    by (rule select_step_within [OF Cons.prems(1) _ Cons.prems(2) assms(2)]) (simp add: Cons.prems(3))
  show ?case using Cons.IH [of "select_step capacity counts n hp"] one Cons.prems(3) by simp
qed simp

lemma select_hot_within:
  assumes "\<And>n. n < length counts \<Longrightarrow> counts ! n \<noteq> 0 \<Longrightarrow> of_nat n \<in> A" and "0 < capacity"
  shows "set (hh_ids (select_hot capacity counts)) \<subseteq> insert 0 A"
proof -
  have "heap_within (insert 0 A) (select_hot capacity counts)"
    unfolding select_hot_def
    by (rule select_fold_within) (use assms in \<open>auto simp: heap_within_def\<close>)
  then show ?thesis by (simp add: heap_within_def)
qed

text \<open>The counting loop: it throws only at an id the tokenizer does not know, and counts only the ids it saw.\<close>

lemma count_direct_error:
  assumes "core_laws c" and "c_vocabSize c \<le> length counts" and "count_direct c ids counts n = (Inl e, m)"
  shows "\<not> known c ids"
  using assms(2,3)
proof (induction ids arbitrary: counts n)
  case (Cons tid ids)
  show ?case
  proof (cases "length counts \<le> unat tid")
    case True
    then have "tok_state c tid = 3" using known_in_range [OF assms(1), of tid] Cons.prems(1) by linarith
    then show ?thesis by simp
  next
    case False
    with Cons.prems Cons.IH [of "counts[unat tid := counts ! unat tid + 1]"] show ?thesis by simp
  qed
qed simp

lemma count_direct_counts:
  assumes "count_direct c ids counts n = (Inr counts', m)"
  shows "length counts' = length counts \<and> n \<le> m \<and>
    (\<forall>k < length counts. counts' ! k \<noteq> 0 \<longrightarrow> counts ! k \<noteq> 0 \<or> of_nat k \<in> set ids) \<and>
    ((\<forall>k < length counts. counts ! k = 0) \<longrightarrow> ids \<noteq> [] \<longrightarrow> n < m)"
  using assms
proof (induction ids arbitrary: counts n)
  case (Cons tid ids)
  from Cons.prems have range: "unat tid < length counts" by (auto split: if_splits sum.splits)
  let ?k = "unat tid"
  let ?counts = "counts[?k := counts ! ?k + 1]" and ?n = "if counts ! ?k = 0 then n + 1 else n"
  have run: "count_direct c ids ?counts ?n = (Inr counts', m)" using Cons.prems range by simp
  note IH = Cons.IH [OF this]
  have "counts ! j \<noteq> 0 \<or> of_nat j \<in> set (tid # ids)" if "j < length counts" "counts' ! j \<noteq> 0" for j
    using IH that by (cases "j = ?k") (auto simp: nth_list_update)
  then show ?case using IH range by (auto split: if_splits)
qed simp

subsection \<open>The invariant\<close>

text \<open>
  What the decoder needs of the vocabulary: the platform decoder it calls drops a leading byte
  order mark, so no token may start with one; and id 0, which fills the unused places of the
  selection, must be known.
\<close>

definition hot_safe :: "core \<Rightarrow> bool" where
  "hot_safe c \<longleftrightarrow> core_laws c \<and> tok_state c 0 \<noteq> 3 \<and>
     (\<forall>tid bs. c_tokenBytes c tid = Inr bs \<longrightarrow> take 3 bs \<noteq> [0xEF, 0xBB, 0xBF])"

definition hot_text_ok :: "core \<Rightarrow> u32 \<Rightarrow> jstring \<Rightarrow> bool" where
  "hot_text_ok c tid v \<longleftrightarrow> tok_state c tid = 1 \<and> v = id_text c [tid]"

definition hot_slots_ok :: "core \<Rightarrow> hot \<Rightarrow> bool" where
  "hot_slots_ok c h \<longleftrightarrow>
     (case hs_directIndex h of
        None \<Rightarrow> (\<forall>m tid v. hs_sparseCache h = Some m \<longrightarrow> m tid = Some v \<longrightarrow> hot_text_ok c tid v)
      | Some slots \<Rightarrow> length slots = c_vocabSize c \<and>
          (\<forall>tid. unat tid < length slots \<longrightarrow> slots ! unat tid \<noteq> 0 \<longrightarrow>
             slots ! unat tid \<le> length (hs_cachedStrings h) \<and>
             hot_text_ok c tid (hs_cachedStrings h ! (slots ! unat tid - 1))))"

definition hot_ok :: "core \<Rightarrow> hot \<Rightarrow> bool" where
  "hot_ok c h \<longleftrightarrow> hot_safe c \<and> 1 \<le> hs_maxEntries h \<and> hot_slots_ok c h"

lemma hot_slots_ok_same:
  "hs_directIndex h' = hs_directIndex h \<Longrightarrow> hs_cachedStrings h' = hs_cachedStrings h \<Longrightarrow>
     hs_sparseCache h' = hs_sparseCache h \<Longrightarrow> hot_slots_ok c h' = hot_slots_ok c h"
  by (cases "hs_directIndex h") (simp_all add: hot_slots_ok_def)

lemma hot_ok_same:
  "hs_directIndex h' = hs_directIndex h \<Longrightarrow> hs_cachedStrings h' = hs_cachedStrings h \<Longrightarrow>
     hs_sparseCache h' = hs_sparseCache h \<Longrightarrow> hs_maxEntries h' = hs_maxEntries h \<Longrightarrow> hot_ok c h' = hot_ok c h"
  by (simp add: hot_ok_def hot_slots_ok_same [of h' h])

lemma hot_ok_counters [simp]:
  "hot_ok c (h\<lparr>hs_coveredDistinct := a, hs_payloadBytes := b, hs_coveredTokens := d\<rparr>) = hot_ok c h"
  "hot_ok c (h\<lparr>hs_observedDistinct := a\<rparr>) = hot_ok c h"
  "hot_ok c (h\<lparr>hs_observedTokens := a\<rparr>) = hot_ok c h"
  by (rule hot_ok_same; simp)+

lemma cachedString_sound: "hot_ok c h \<Longrightarrow> cachedString tid h = Some v \<Longrightarrow> hot_text_ok c tid v"
  by (auto simp: hot_ok_def hot_slots_ok_def cachedString_def Let_def split: option.splits if_splits)

text \<open>Without a byte order mark the fatal decoder gives the token's text, or fails.\<close>

lemma fatal_token_text:
  assumes "hot_safe c" and "c_tokenBytes c tid = Inr bs"
  shows "textDecoder False True bs =
    (if tok_state c tid = 1 then Inr (id_text c [tid])
     else Inl (TypeError ''The encoded data was not valid for encoding utf-8''))"
proof -
  have "take 3 bs \<noteq> [0xEF, 0xBB, 0xBF]" using assms by (simp add: hot_safe_def)
  moreover have "tok_state c tid = 1 \<longleftrightarrow> utf8_wellformed bs"
    using assms(2) by (simp add: tok_state_eqs isValidUtf8_iff_wellformed)
  moreover have "id_text c [tid] = utf8_lossy bs"
    using assms(2) by (simp add: id_text_def tok_bytes_id(1))
  ultimately show ?thesis by (simp add: textDecoder_def Let_def)
qed

lemma hot_store_ok:
  assumes "hot_ok c h" and "hot_text_ok c tid v"
  shows "hot_ok c (hot_store tid v h)"
proof (cases "hs_directIndex h")
  case None
  then show ?thesis using assms by (auto simp: hot_store_def hot_ok_def hot_slots_ok_def split: if_splits)
next
  case (Some slots)
  then have len: "length slots = c_vocabSize c" using assms(1) by (simp add: hot_ok_def hot_slots_ok_def)
  have range: "unat tid < length slots"
    using assms known_in_range [of c tid] len by (simp add: hot_ok_def hot_safe_def hot_text_ok_def)
  have old: "slots ! unat k \<le> length (hs_cachedStrings h) \<and>
      hot_text_ok c k (hs_cachedStrings h ! (slots ! unat k - 1))"
    if "unat k < length slots" "slots ! unat k \<noteq> 0" for k
    using assms(1) Some that by (simp add: hot_ok_def hot_slots_ok_def)
  let ?slots = "slots[unat tid := length (hs_cachedStrings h) + 1]"
  have "?slots ! unat k \<le> length (hs_cachedStrings h @ [v]) \<and>
      hot_text_ok c k ((hs_cachedStrings h @ [v]) ! (?slots ! unat k - 1))"
    if k: "unat k < length ?slots" "?slots ! unat k \<noteq> 0" for k
  proof (cases "k = tid")
    case True
    then show ?thesis using range assms(2) by (simp add: nth_append)
  next
    case False
    then have same: "?slots ! unat k = slots ! unat k" by (simp add: word_unat_eq_iff)
    with old [of k] k show ?thesis by (auto simp: nth_append)
  qed
  then show ?thesis
    using Some assms(1) len by (auto simp: hot_store_def hot_ok_def hot_slots_ok_def)
qed

lemma hot_fill_spec:
  assumes "hot_ok c h" and "hot_fill c frequency ids h = (r, h')"
  shows "hot_ok c h' \<and> (known c ids \<longrightarrow> r = Inr ())"
  using assms
proof (induction ids arbitrary: h)
  case (Cons tid ids)
  show ?case
  proof (cases "hs_coveredDistinct h = hs_maxEntries h")
    case False
    show ?thesis
    proof (cases "c_tokenBytes c tid")
      case (Inl e)
      then have "tok_state c tid = 3" by (simp add: tok_state_eqs)
      then show ?thesis using Cons.prems False Inl by simp
    next
      case (Inr bs)
      have safe: "hot_safe c" using Cons.prems(1) by (simp add: hot_ok_def)
      note fatal = fatal_token_text [OF safe Inr]
      show ?thesis
      proof (cases "tok_state c tid = 1")
        case False
        then show ?thesis using Cons.IH [OF Cons.prems(1)] Cons.prems(2) Inr fatal \<open>hs_coveredDistinct h \<noteq> _\<close>
          by simp
      next
        case True
        let ?v = "id_text c [tid]"
        let ?h1 = "hot_store tid ?v h"
        let ?h2 = "?h1\<lparr>hs_coveredDistinct := hs_coveredDistinct ?h1 + 1,
            hs_payloadBytes := hs_payloadBytes ?h1 + length ?v * 2,
            hs_coveredTokens := hs_coveredTokens ?h1 + frequency tid\<rparr>"
        have "hot_ok c ?h1" using hot_store_ok [OF Cons.prems(1)] True by (simp add: hot_text_ok_def)
        then have h2: "hot_ok c ?h2" by simp
        have "hot_fill c frequency (tid # ids) h =
            (if hs_maxPayloadBytes h < hs_payloadBytes h + length ?v * 2
             then hot_fill c frequency ids h else hot_fill c frequency ids ?h2)"
          using Inr fatal True \<open>hs_coveredDistinct h \<noteq> _\<close>
          by (simp add: Let_def)
        then have "hot_fill c frequency ids h = (r, h') \<or> hot_fill c frequency ids ?h2 = (r, h')"
          using Cons.prems(2) by (simp split: if_splits)
        with Cons.IH [OF Cons.prems(1)] Cons.IH [OF h2] show ?thesis by auto
      qed
    qed
  qed (use Cons.prems in auto)
qed simp

lemma hot_finish_ok: "hot_ok c h \<Longrightarrow> hot_ok c (hot_finish h)"
  by (auto simp: hot_finish_def Let_def hot_ok_def hot_slots_ok_def split: option.splits)

lemma known_mono: "set xs \<subseteq> set ys \<Longrightarrow> known c ys \<Longrightarrow> known c xs"
  by (auto simp: known_def)

lemma hot_select_spec:
  assumes "hot_ok c h" and "ids \<noteq> []" and "hot_select c ids h = (r, h')"
  shows "hot_ok c h' \<and> (known c ids \<longrightarrow> (\<exists>sel f. r = Inr (sel, f) \<and> known c sel))"
proof (cases "hs_directIndex h")
  case None
  have "set (select_sparse (hs_maxEntries h) ids) \<subseteq> set ids"
    by (auto simp: select_sparse_def dest: in_set_takeD)
  with known_mono [OF this] None assms show ?thesis by (auto simp: hot_select_def)
next
  case (Some slots)
  have laws: "core_laws c" and zero: "tok_state c 0 \<noteq> 3" and len: "length slots = c_vocabSize c"
    and max: "1 \<le> hs_maxEntries h"
    using assms(1) Some by (simp_all add: hot_ok_def hot_safe_def hot_slots_ok_def)
  obtain q observed where count: "count_direct c ids (replicate (length slots) 0) (hs_observedDistinct h) = (q, observed)"
    by fastforce
  show ?thesis
  proof (cases q)
    case (Inl e)
    have "\<not> known c ids"
      by (rule count_direct_error [OF laws _ count [unfolded Inl]]) (simp add: len)
    with Inl count Some assms(1,3) show ?thesis by (auto simp: hot_select_def)
  next
    case (Inr counts)
    note counts = count_direct_counts [OF count [unfolded Inr]]
    have positive: "0 < min (hs_maxEntries h) observed" using counts assms(2) max by auto
    have "set (hh_ids (select_hot (min (hs_maxEntries h) observed) counts)) \<subseteq> insert 0 (set ids)"
      by (rule select_hot_within [OF _ positive]) (use counts in auto)
    then have "known c ids \<Longrightarrow> known c (hh_ids (select_hot (min (hs_maxEntries h) observed) counts))"
      using zero known_mono [of "hh_ids (select_hot (min (hs_maxEntries h) observed) counts)" "0 # ids" c] by simp
    moreover have "r = Inr (hh_ids (select_hot (min (hs_maxEntries h) observed) counts), \<lambda>tid. unat (counts ! unat tid))"
      and "h' = h\<lparr>hs_observedDistinct := observed\<rparr>"
      using Inr count Some assms(3) by (simp_all add: hot_select_def)
    ultimately show ?thesis using assms(1) by simp
  qed
qed

lemma hot_initialize_spec:
  assumes "hot_ok c h" and "hot_initialize c ids h = (r, h')"
  shows "hot_ok c h' \<and> (known c ids \<longrightarrow> r = Inr ())"
proof (cases "hs_initialized h \<or> ids = []")
  case False
  obtain q h1 where select: "hot_select c ids h = (q, h1)" by fastforce
  note one = hot_select_spec [OF assms(1) _ select]
  show ?thesis
  proof (cases q)
    case (Inl e)
    then show ?thesis using False one select assms(2) by (auto simp: hot_initialize_def js_simps)
  next
    case (Inr p)
    obtain sel f where p: "p = (sel, f)" by fastforce
    let ?h2 = "h1\<lparr>hs_observedTokens := length ids\<rparr>"
    obtain q2 h3 where fill: "hot_fill c f sel ?h2 = (q2, h3)" by fastforce
    have "hot_ok c ?h2" using one False by simp
    note two = hot_fill_spec [OF this fill]
    show ?thesis using False one two Inr p select fill assms(2) hot_finish_ok
      by (auto simp: hot_initialize_def js_simps split: sum.splits)
  qed
qed (use assms in \<open>auto simp: hot_initialize_def\<close>)

subsection \<open>Exactness of a call\<close>

text \<open>
  A decoder over an exact one; a cached string is the text of a valid token, and a valid token is
  a boundary, so pieces may be decoded one by one.
\<close>

locale hot_over = below: exact_decoder inner inv "ref_decode c"
  for inner :: "js_input \<Rightarrow> 'i \<Rightarrow> (js_error + jstring) \<times> 'i" and inv and c
begin

lemma hot_loop_spec:
  assumes "core_laws c" and "\<And>tid v. look tid = Some v \<Longrightarrow> hot_text_ok c tid v"
    and "inv s" and "hot_loop look inner ids out s = (r, s')"
  shows "inv s' \<and> okv r = (if known c ids then Some (out @ id_text c ids) else None)"
  using assms(3,4)
proof (induction ids arbitrary: out s rule: length_induct)
  case (1 ids)
  show ?case
  proof (cases ids)
    case (Cons tid rest)
    show ?thesis
    proof (cases "look tid")
      case (Some v)
      then have v: "tok_state c tid = 1" "v = id_text c [tid]" using assms(2) by (auto simp: hot_text_ok_def)
      have "hot_loop look inner rest (out @ v) s = (r, s')" using "1.prems"(2) Cons Some by simp
      with "1.IH" Cons "1.prems"(1) have "inv s' \<and>
          okv r = (if known c rest then Some (out @ v @ id_text c rest) else None)" by force
      then show ?thesis using v Cons id_text_clean_Cons [of c tid rest] by simp
    next
      case None
      let ?run = "tid # takeWhile (\<lambda>k. look k = None) rest" and ?more = "dropWhile (\<lambda>k. look k = None) rest"
      have split: "ids = ?run @ ?more" using Cons by simp
      obtain q s1 where call: "inner (Typed ?run) s = (q, s1)" by fastforce
      have q: "okv q = ref_text c ?run" "inv s1"
        using below.exact [OF "1.prems"(1) call] by (simp_all add: ref_decode_def)
      have seam: "?more = [] \<or> tok_state c (hd ?more) = 1"
        using hd_dropWhile [of "\<lambda>k. look k = None" rest] assms(2) by (fastforce simp: hot_text_ok_def)
      have texts: "id_text c ids = id_text c ?run @ id_text c ?more"
        using id_text_append_clean [OF assms(1) seam, of ?run] split by simp
      have kn: "known c ids \<longleftrightarrow> known c ?run \<and> known c ?more"
        using known_simps(3) [of c ?run ?more] split by simp
      show ?thesis
      proof (cases q)
        case (Inl e)
        then show ?thesis using q kn "1.prems"(2) Cons None call by (auto simp: ref_text_known split: if_splits)
      next
        case (Inr t)
        then have t: "known c ?run" "t = id_text c ?run" using q by (auto simp: ref_text_known split: if_splits)
        have "hot_loop look inner ?more (out @ t) s1 = (r, s')" using "1.prems"(2) Cons None call Inr by simp
        moreover have "length ?more < length ids" using Cons length_dropWhile_le [of _ rest] by (simp add: le_imp_less_Suc)
        ultimately have "inv s' \<and> okv r = (if known c ?more then Some ((out @ t) @ id_text c ?more) else None)"
          using "1.IH" q(2) by blast
        then show ?thesis using t kn texts by simp
      qed
    qed
  qed (use "1.prems" in auto)
qed

lemma exact_hot_decode:
  assumes "inv (fst s)" and "hot_ok c (snd s)" and "hot_decode c inner input s = (r, s')"
  shows "okv r = ref_decode c input \<and> inv (fst s') \<and> hot_ok c (snd s')"
proof (cases "tokenIds input")
  case (Inl e)
  then show ?thesis using assms by (auto simp: hot_decode_def Let_def js_simps ref_decode_def)
next
  case (Inr ids)
  have ref: "ref_decode c input = ref_text c ids" by (simp add: ref_decode_def Inr)
  have typed: "ref_decode c (Typed ids) = ref_text c ids" by (simp add: ref_decode_def)
  obtain i h where s: "s = (i, h)" by fastforce
  obtain q i1 where call: "inner (Typed ids) i = (q, i1)" by fastforce
  have exact: "okv q = ref_text c ids" "inv i1" using below.exact [OF _ call] assms(1) s typed by auto
  show ?thesis
  proof (cases "ids = []")
    case True
    then show ?thesis using assms s Inr call exact ref by (auto simp: hot_decode_def Let_def js_simps)
  next
    case False
    obtain q0 h1 where init: "hot_initialize c ids h = (q0, h1)" by fastforce
    have one: "hot_ok c h1" "known c ids \<longrightarrow> q0 = Inr ()" using hot_initialize_spec [OF _ init] assms(2) s by auto
    show ?thesis
    proof (cases q0)
      case (Inl e)
      then show ?thesis using assms s Inr False init one ref
        by (auto simp: hot_decode_def Let_def js_simps ref_text_known)
    next
      case (Inr u)
      show ?thesis
      proof (cases "hs_active h1")
        case False
        then show ?thesis using assms s \<open>tokenIds input = Inr ids\<close> \<open>ids \<noteq> []\<close> init Inr call exact one ref
          by (auto simp: hot_decode_def Let_def js_simps)
      next
        case True
        obtain q2 i2 where loop: "hot_loop (\<lambda>tid. cachedString tid h1) inner ids [] i = (q2, i2)" by fastforce
        have laws: "core_laws c" using one(1) by (simp add: hot_ok_def hot_safe_def)
        have two: "inv i2 \<and> okv q2 = (if known c ids then Some ([] @ id_text c ids) else None)"
          by (rule hot_loop_spec [OF laws cachedString_sound [OF one(1)] _ loop]) (use assms(1) s in auto)
        have run: "(r, s') = (q2, (i2, h1))"
          using assms(3) s \<open>tokenIds input = Inr ids\<close> \<open>ids \<noteq> []\<close> init Inr True loop
          by (simp add: hot_decode_def Let_def js_simps)
        then show ?thesis using two one ref by (simp add: ref_text_known)
      qed
    qed
  qed
qed

end

definition hot_inv :: "('i \<Rightarrow> bool) \<Rightarrow> core \<Rightarrow> 'i \<times> hot \<Rightarrow> bool" where
  "hot_inv below c s \<longleftrightarrow> below (fst s) \<and> hot_ok c (snd s)"

sublocale hot_over \<subseteq> hot: exact_decoder "hot_decode c inner" "hot_inv inv c" "ref_decode c"
proof (unfold_locales, goal_cases)
  case (1 s i r s')
  then show ?case using exact_hot_decode [of s i r s'] by (simp add: hot_inv_def)
qed

context hot_over
begin

lemma contract: "exact_decoder (hot_decode c inner) (hot_inv inv c) (ref_decode c)"
  by (rule hot.exact_decoder_axioms)

end

lemma hot_decode_contract:
  "exact_decoder inner below (ref_decode c) \<Longrightarrow>
     exact_decoder (hot_decode c inner) (hot_inv below c) (ref_decode c)"
  by (rule hot_over.contract [OF hot_over.intro])

interpretation hot_on_assembly: hot_over "assembly_decode c" "assembly_inv c" c for c
  by unfold_locales

interpretation hot_on_raw: hot_over "raw_decode c" "raw_inv c" c for c
  by unfold_locales

interpretation hot_on_table: hot_over "table_decode c cfg (assembly_decode c)" "table_inv (assembly_inv c) c cfg" c
  for c cfg
  by unfold_locales

subsection \<open>Construction and the main properties\<close>

lemma createHotStringDecoder_ok:
  assumes "hot_safe c" and "createHotStringDecoder fl c opts = Inr h"
  shows "hot_ok c h"
proof -
  have vocab: "hot_vocabSize c = Some n \<Longrightarrow> n = c_vocabSize c" for n
    by (simp add: hot_vocabSize_def split: if_splits)
  have positive: "positiveSafeInteger v 8192 name = Inr k \<Longrightarrow> 1 \<le> k" for v name k
    by (cases v) (auto simp: positiveSafeInteger_def le_nat_iff split: if_splits)
  have "1 \<le> hs_maxEntries h"
    using assms(2) positive by (auto simp: createHotStringDecoder_def try_bind_Inr Let_def split: options.splits)
  moreover have "hs_directIndex h = None \<or> hs_directIndex h = Some (replicate (c_vocabSize c) 0)"
    using assms(2) vocab
    by (auto simp: createHotStringDecoder_def try_bind_Inr Let_def split: options.splits option.splits)
  moreover have "hs_sparseCache h = None \<or> hs_sparseCache h = Some Map.empty"
    using assms(2)
    by (auto simp: createHotStringDecoder_def try_bind_Inr Let_def split: options.splits if_splits)
  ultimately show ?thesis using assms(1) by (auto simp: hot_ok_def hot_slots_ok_def)
qed

text \<open>
  C6. The hot strings change nothing where no token starts with a byte order mark and id 0 is
  known: over any exact decoder every call of any sequence returns the reference text of its
  input, and throws exactly when the reference has no value, whichever ids the first input made
  hot and whether the cache was kept or given up.
\<close>

theorem hot_strings_exact:
  assumes "hot_safe c" and "createHotStringDecoder fl c opts = Inr h"
    and "exact_decoder inner below (ref_decode c)" and "below i"
  shows "map okv (fst (decode_all (hot_decode c inner) inputs (i, h))) = map (ref_decode c) inputs"
proof -
  have "hot_inv below c (i, h)"
    using createHotStringDecoder_ok [OF assms(1,2)] assms(4) by (simp add: hot_inv_def)
  then show ?thesis
    using exact_decoder.decode_all_exact [OF hot_decode_contract [OF assms(3)]] by blast
qed

definition default_hot_options :: hot_options where
  "default_hot_options = \<lparr>ho_maxEntries = JUndefined, ho_maxPayloadBytes = JUndefined,
     ho_maxIndexBytes = JUndefined, ho_minCoverage = JUndefined\<rparr>"

definition fresh_hot :: "nat \<Rightarrow> hot" where
  "fresh_hot n = \<lparr>hs_maxEntries = 8192, hs_maxPayloadBytes = 2097152,
     hs_minCoverage = 8106479329266893 / 9007199254740992, hs_fl = (\<lambda>q. q),
     hs_directIndex = Some (replicate n 0), hs_cachedStrings = [], hs_sparseCache = None,
     hs_initialized = False, hs_active = False, hs_observedTokens = 0, hs_observedDistinct = 0,
     hs_coveredTokens = 0, hs_payloadBytes = 0, hs_coveredDistinct = 0\<rparr>"

lemma fresh_hot_created:
  assumes "0 < c_vocabSize c" and "c_vocabSize c \<le> 262144"
  shows "createHotStringDecoder (\<lambda>q. q) c (Options default_hot_options) = Inr (fresh_hot (c_vocabSize c))"
  using assms by (simp add: createHotStringDecoder_def default_hot_options_def positiveSafeInteger_def
      hot_vocabSize_def fresh_hot_def)

lemma small_table_safe:
  assumes "toks \<noteq> []" and "hd toks \<noteq> []" and "\<forall>bs \<in> set toks. take 3 bs \<noteq> [0xEF, 0xBB, 0xBF]"
  shows "hot_safe (table_core toks)"
proof -
  have "tok_state (table_core toks) 0 \<noteq> 3"
    using assms(1,2) by (cases toks) (auto simp: tok_state_eqs table_tokenBytes_def)
  then show ?thesis using assms(3)
    by (auto simp: hot_safe_def table_tokenBytes_def split: if_splits)
qed

lemma example_vocab: "c_vocabSize (table_core example_tokens) = 6"
  by (simp add: table_core_def example_tokens_def)

theorem hot_strings_exact_witness:
  "map okv (fst (decode_all (hot_decode (table_core example_tokens) (assembly_decode (table_core example_tokens)))
       [Typed [0, 0, 1, 2, 0], Arr [JNum 5, JNum 0], Typed [9]] (0, fresh_hot 6))) =
     map (ref_decode (table_core example_tokens)) [Typed [0, 0, 1, 2, 0], Arr [JNum 5, JNum 0], Typed [9]]"
proof (rule hot_strings_exact [OF _ _ assembly.exact_decoder_axioms])
  show "hot_safe (table_core example_tokens)" by (rule small_table_safe) (simp_all add: example_tokens_def)
  show "createHotStringDecoder (\<lambda>q. q) (table_core example_tokens) (Options default_hot_options) = Inr (fresh_hot 6)"
    using fresh_hot_created [of "table_core example_tokens"] by (simp add: example_vocab)
  show "assembly_inv (table_core example_tokens) 0" by (simp add: assembly_inv_def) (simp add: table_core_def)
qed

lemmas hot_run_simps = hot_decode_def hot_initialize_def hot_select_def select_hot_def select_step_def
  hh_push_def sift_up.simps hot_store_def hot_finish_def cachedString_def js_simps Let_def

text \<open>
  C17. The condition on byte order marks is needed: with a token that is U+FEFF, the very first
  call already loses the character the reference decode returns.
\<close>

theorem hot_strings_drop_bom:
  "fst (hot_decode (table_core [[0xEF, 0xBB, 0xBF]]) (raw_decode (table_core [[0xEF, 0xBB, 0xBF]]))
      (Typed [0]) (0, fresh_hot 1)) = Inr [] \<and>
   ref_decode (table_core [[0xEF, 0xBB, 0xBF]]) (Typed [0]) = Some [0xFEFF]"
proof
  show "fst (hot_decode (table_core [[0xEF, 0xBB, 0xBF]]) (raw_decode (table_core [[0xEF, 0xBB, 0xBF]]))
      (Typed [0]) (0, fresh_hot 1)) = Inr []"
    by (simp add: hot_run_simps fresh_hot_def table_tokenBytes_def textDecoder_def)
  have "utf8_lossy [0xEF, 0xBB, 0xBF] = [0xFEFF]" by code_simp
  then show "ref_decode (table_core [[0xEF, 0xBB, 0xBF]]) (Typed [0]) = Some [0xFEFF]"
    by (simp add: ref_decode_def ref_text_def ref_bytes_def table_tokenBytes_def)
qed

lemma hot_initialize_fill_error:
  "hot_select c ids h = (Inr (sel, f), h1) \<Longrightarrow>
     hot_fill c f sel (h1\<lparr>hs_observedTokens := length ids\<rparr>) = (Inl e, h2) \<Longrightarrow>
     ids \<noteq> [] \<Longrightarrow> \<not> hs_initialized h \<Longrightarrow> hot_initialize c ids h = (Inl e, h2)"
  by (simp add: hot_initialize_def js_simps)

text \<open>
  C18. The condition on id 0 is needed: when id 0 is unknown, a first call that fails on it leaves
  its count behind, the next selection has a place too many, which holds id 0, and a valid input
  throws where the reference decode has a text.
\<close>

theorem hot_strings_failed_sample:
  "let c = table_core [[], [0x41]];
       (r1, s1) = hot_decode c (raw_decode c) (Typed [0]) (0, fresh_hot 2);
       (r2, s2) = hot_decode c (raw_decode c) (Typed [1]) s1
   in r1 = Inl (unknown_token 0) \<and> r2 = Inl (unknown_token 0) \<and> ref_decode c (Typed [1]) = Some [0x41]"
proof -
  let ?c = "table_core [[], [0x41]]"
  let ?s1 = "(0 :: nat, (fresh_hot 2)\<lparr>hs_observedDistinct := 1, hs_observedTokens := 1\<rparr>)"
  have one: "hot_decode ?c (raw_decode ?c) (Typed [0]) (0, fresh_hot 2) = (Inl (unknown_token 0), ?s1)"
    by (simp add: hot_run_simps fresh_hot_def table_tokenBytes_def numeral_2_eq_2)
  have selected: "hh_ids (select_hot 2 [0, 1]) = [1, 0]"
    by (simp add: hot_run_simps eval_nat_numeral)
  have "textDecoder False True [0x41] = Inr [0x41]" by code_simp
  then have fill: "fst (hot_fill ?c f [1, 0] h) = Inl (unknown_token 0)"
    if "hs_coveredDistinct h = 0" "hs_payloadBytes h = 0" "hs_maxEntries h = 8192" "hs_maxPayloadBytes h = 2097152"
    for f h
    using that by (simp add: table_tokenBytes_def hot_store_def split: option.splits)
  have two: "fst (hot_decode ?c (raw_decode ?c) (Typed [1]) ?s1) = Inl (unknown_token 0)"
  proof -
    let ?h = "(fresh_hot 2)\<lparr>hs_observedDistinct := 2, hs_observedTokens := 1\<rparr>"
    obtain f where select: "hot_select ?c [1] (snd ?s1) = (Inr ([1, 0], f), ?h)"
      using selected by (simp add: hot_select_def fresh_hot_def numeral_2_eq_2)
    obtain h3 where fail: "hot_fill ?c f [1, 0] (?h\<lparr>hs_observedTokens := length [1 :: u32]\<rparr>) = (Inl (unknown_token 0), h3)"
      using fill [of "?h\<lparr>hs_observedTokens := length [1 :: u32]\<rparr>" f]
      by (cases "hot_fill ?c f [1, 0] (?h\<lparr>hs_observedTokens := length [1 :: u32]\<rparr>)") (simp add: fresh_hot_def)
    have "hot_initialize ?c [1] (snd ?s1) = (Inl (unknown_token 0), h3)"
      by (rule hot_initialize_fill_error [OF select fail]) (simp_all add: fresh_hot_def)
    then show ?thesis by (simp add: hot_decode_def js_simps Let_def)
  qed
  have "utf8_lossy [0x41] = [0x41]" by code_simp
  then have "ref_decode ?c (Typed [1]) = Some [0x41]"
    by (simp add: ref_decode_def ref_text_def ref_bytes_def table_tokenBytes_def)
  with one two show ?thesis by (simp add: Let_def case_prod_beta)
qed

end
