(* ===== verification/Memo.thy ===== *)
theory Memo
  imports Decode_Table_Exact
begin

text \<open>
  The decode memo, \<^verbatim>\<open>hypertok-js/src/decode-memo.mjs\<close>: the results of inputs that are decoded
  again and again are kept per input object, each with a snapshot of the ids it was decoded from.
  Input objects are mutable, so a call carries the identity of its argument and what the object
  holds at that moment.
\<close>

subsection \<open>Input objects\<close>

text \<open>
  An own property as \<^verbatim>\<open>Object.getOwnPropertyDescriptor\<close> describes it. \<open>ob_ordinary\<close> says that
  the object has the ordinary prototype of its kind and, for a typed array, a buffer that is not
  shared.
\<close>

record property_descriptor =
  pd_accessor :: bool
  pd_enumerable :: bool
  pd_configurable :: bool
  pd_writable :: bool

record memo_arg =
  ob_addr :: nat
  ob_input :: js_input
  ob_ordinary :: bool
  ob_lengthWritable :: bool
  ob_props :: "nat \<Rightarrow> property_descriptor option"

fun input_values :: "js_input \<Rightarrow> jsval list" where
  "input_values (Typed ids) = map jsval_of_u32 ids"
| "input_values (Arr vs) = vs"
| "input_values NotIds = []"

definition nonSharedUint32Array :: "memo_arg \<Rightarrow> bool" where
  "nonSharedUint32Array a \<longleftrightarrow> (case ob_input a of Typed _ \<Rightarrow> ob_ordinary a | _ \<Rightarrow> False)"

definition memoContainer :: "memo_arg \<Rightarrow> bool" where
  "memoContainer a \<longleftrightarrow>
     (case ob_input a of Arr _ \<Rightarrow> ob_ordinary a | _ \<Rightarrow> nonSharedUint32Array a)"

definition plainDenseArray :: "memo_arg \<Rightarrow> bool" where
  "plainDenseArray a \<longleftrightarrow>
     (case ob_input a of
        Arr vs \<Rightarrow> ob_ordinary a \<and> ob_lengthWritable a \<and>
          list_all (\<lambda>index. case ob_props a index of
               None \<Rightarrow> False
             | Some d \<Rightarrow> \<not> pd_accessor d \<and> pd_enumerable d \<and> pd_configurable d \<and> pd_writable d)
            [0..<length vs]
      | _ \<Rightarrow> False)"

definition snapshot_of :: "memo_arg \<Rightarrow> nat \<Rightarrow> u32 list option" where
  "snapshot_of a maxIds =
     (let vs = input_values (ob_input a) in
      if length vs = 0 \<or> maxIds < length vs then None
      else if \<not> nonSharedUint32Array a \<and> \<not> plainDenseArray a then None
      else if list_all validTokenIdFast vs then Some (map u32_of_jsval vs) else None)"

definition sameContents :: "memo_arg \<Rightarrow> u32 list \<Rightarrow> bool" where
  "sameContents a expected \<longleftrightarrow>
     (let vs = input_values (ob_input a) in
      length vs = length expected \<and>
      (nonSharedUint32Array a \<or> (case ob_input a of Arr _ \<Rightarrow> True | _ \<Rightarrow> False)) \<and>
      list_all2 (\<lambda>v w. v = jsval_of_u32 w) vs expected)"

subsection \<open>State\<close>

text \<open>
  A stored record is shared between the map and the ring of slots and is updated in place; it is
  a position of \<open>mm_store\<close>. The map is weak: an object that is gone is never an argument again, so
  dropping its entry is not observable.
\<close>

record memo_record =
  mr_key :: nat
  mr_snapshot :: "u32 list"
  mr_output :: jstring

datatype memo_entry = Pending | Uncacheable | Stored nat

record memo =
  mm_maxEntries :: nat
  mm_maxIds :: nat
  mm_maxOutputCodeUnits :: nat
  mm_store :: "memo_record list"
  mm_records :: "nat \<rightharpoonup> memo_entry"
  mm_slots :: "nat option list"
  mm_nextSlot :: nat
  mm_entries :: int
  mm_snapshotBytes :: int
  mm_outputCodeUnits :: int
  mm_hits :: nat
  mm_misses :: nat
  mm_mismatches :: nat
  mm_uncacheable :: nat
  mm_evictions :: nat
  mm_tracking :: bool
  mm_probes :: "nat list"
  mm_observed :: "nat set"
  mm_observedCount :: nat
  mm_bypassed :: bool

record memo_options =
  mo_maxEntries :: jsval
  mo_maxIds :: jsval
  mo_maxOutputCodeUnits :: jsval

definition memo_positiveInteger :: "jsval \<Rightarrow> nat \<Rightarrow> string \<Rightarrow> js_error + nat" where
  "memo_positiveInteger v dflt name =
     (let resolved = (if v = JUndefined \<or> v = JNull then JNum (of_nat dflt) else v) in
      if \<not> number_isInteger resolved \<or> (case resolved of JNum q \<Rightarrow> q < 1 | _ \<Rightarrow> False)
      then Inl (TypeError (name @ '' must be a positive integer''))
      else Inr (nat_of_jsval resolved))"

definition createDecodeMemo :: "memo_options options \<Rightarrow> js_error + memo" where
  "createDecodeMemo opts =
     (case opts of
        NotObject \<Rightarrow> Inl (TypeError ''decode memo options must be an object'')
      | Options mo \<Rightarrow>
     try_bind (memo_positiveInteger (mo_maxEntries mo) 512 ''maxEntries'') (\<lambda>maxEntries.
     try_bind (memo_positiveInteger (mo_maxIds mo) 4096 ''maxIds'') (\<lambda>maxIds.
     try_bind (memo_positiveInteger (mo_maxOutputCodeUnits mo) 8192 ''maxOutputCodeUnits'') (\<lambda>maxOut.
     try_bind (try_if (4294967295 < maxEntries) (RangeError ''Invalid array length'')) (\<lambda>_.
     Inr \<lparr>mm_maxEntries = maxEntries, mm_maxIds = maxIds, mm_maxOutputCodeUnits = maxOut,
       mm_store = [], mm_records = Map.empty, mm_slots = replicate maxEntries None, mm_nextSlot = 0,
       mm_entries = 0, mm_snapshotBytes = 0, mm_outputCodeUnits = 0, mm_hits = 0, mm_misses = 0,
       mm_mismatches = 0, mm_uncacheable = 0, mm_evictions = 0, mm_tracking = False,
       mm_probes = [], mm_observed = {}, mm_observedCount = 0, mm_bypassed = False\<rparr>)))))"

subsection \<open>Operations\<close>

definition byteLength :: "u32 list \<Rightarrow> int" where
  "byteLength ids = 4 * int (length ids)"

definition removeRecord :: "nat \<Rightarrow> memo \<Rightarrow> memo" where
  "removeRecord rid m =
     (let r = mm_store m ! rid;
          m1 = (if mm_records m (mr_key r) = Some (Stored rid)
                then m\<lparr>mm_records := (mm_records m)(mr_key r := None)\<rparr> else m)
      in m1\<lparr>mm_snapshotBytes := mm_snapshotBytes m1 - byteLength (mr_snapshot r),
            mm_outputCodeUnits := mm_outputCodeUnits m1 - int (length (mr_output r)),
            mm_entries := mm_entries m1 - 1\<rparr>)"

definition bypassCapacity :: "memo \<Rightarrow> memo" where
  "bypassCapacity m =
     (fold (\<lambda>slot m. case slot of None \<Rightarrow> m | Some rid \<Rightarrow> removeRecord rid m) (mm_slots m) m)
       \<lparr>mm_slots := replicate (length (mm_slots m)) None, mm_nextSlot := 0, mm_bypassed := True\<rparr>"

definition mark_uncacheable :: "nat \<Rightarrow> memo \<Rightarrow> memo" where
  "mark_uncacheable addr m =
     m\<lparr>mm_uncacheable := mm_uncacheable m + 1, mm_records := (mm_records m)(addr \<mapsto> Uncacheable)\<rparr>"

text \<open>A new record in the next slot of the ring.\<close>

definition store_record :: "nat \<Rightarrow> u32 list \<Rightarrow> jstring \<Rightarrow> memo \<Rightarrow> memo" where
  "store_record addr ids value m =
     (let m1 = (case mm_slots m ! mm_nextSlot m of
             None \<Rightarrow> m
           | Some displaced \<Rightarrow>
               (removeRecord displaced m)\<lparr>mm_evictions := mm_evictions m + 1\<rparr>);
          rid = length (mm_store m1)
      in m1\<lparr>mm_store := mm_store m1 @ [\<lparr>mr_key = addr, mr_snapshot = ids, mr_output = value\<rparr>],
            mm_slots := (mm_slots m1)[mm_nextSlot m1 := Some rid],
            mm_nextSlot := (mm_nextSlot m1 + 1) mod mm_maxEntries m1,
            mm_records := (mm_records m1)(addr \<mapsto> Stored rid),
            mm_snapshotBytes := mm_snapshotBytes m1 + byteLength ids,
            mm_outputCodeUnits := mm_outputCodeUnits m1 + int (length value),
            mm_entries := mm_entries m1 + 1\<rparr>)"

text \<open>\<^verbatim>\<open>store\<close>, with whether the value is now kept.\<close>

definition memo_store :: "memo_arg \<Rightarrow> jstring \<Rightarrow> memo \<Rightarrow> bool \<times> memo" where
  "memo_store a value m =
     (if mm_maxOutputCodeUnits m < length value then (False, mark_uncacheable (ob_addr a) m)
      else case snapshot_of a (mm_maxIds m) of
        None \<Rightarrow> (False, mark_uncacheable (ob_addr a) m)
      | Some ids \<Rightarrow>
          (case mm_records m (ob_addr a) of
             Some (Stored rid) \<Rightarrow>
               (let old = mm_store m ! rid in
                (True, m\<lparr>mm_snapshotBytes := mm_snapshotBytes m + (byteLength ids - byteLength (mr_snapshot old)),
                         mm_outputCodeUnits := mm_outputCodeUnits m + (int (length value) - int (length (mr_output old))),
                         mm_store := (mm_store m)[rid := old\<lparr>mr_snapshot := ids, mr_output := value\<rparr>]\<rparr>))
           | _ \<Rightarrow> (True, store_record (ob_addr a) ids value m)))"

definition prime :: "memo_arg \<Rightarrow> jstring \<Rightarrow> memo \<Rightarrow> memo" where
  "prime a value m =
     (let n = length (input_values (ob_input a)) in
      if mm_maxOutputCodeUnits m < length value \<or> n = 0 \<or> mm_maxIds m < n
      then mark_uncacheable (ob_addr a) m
      else m\<lparr>mm_records := (mm_records m)(ob_addr a \<mapsto> Pending)\<rparr>)"

text \<open>A call on the decoder below, counted as a miss.\<close>

definition memo_miss :: "'i decoder \<Rightarrow> memo_arg \<Rightarrow> ('i \<times> memo, jstring) js" where
  "memo_miss inner a =
     js_bind (js_modify (\<lambda>s. (fst s, (snd s)\<lparr>mm_misses := mm_misses (snd s) + 1\<rparr>))) (\<lambda>_.
     js_zoom fst (\<lambda>i s. (i, snd s)) (inner (ob_input a)))"

definition on_memo :: "(memo \<Rightarrow> memo) \<Rightarrow> ('i \<times> memo, unit) js" where
  "on_memo f = js_modify (\<lambda>s. (fst s, f (snd s)))"

text \<open>The part of \<^verbatim>\<open>decode\<close> before tracking starts: the last eight inputs are probes.\<close>

definition start_tracking :: "memo_arg \<Rightarrow> jstring \<Rightarrow> memo \<Rightarrow> memo" where
  "start_tracking a value m =
     (case memo_store a value m of (kept, m1) \<Rightarrow>
        (let m2 = m1\<lparr>mm_tracking := kept\<rparr>;
             m3 = (if kept then m2\<lparr>mm_observed := insert (ob_addr a) (mm_observed m2), mm_observedCount := 1\<rparr>
                   else m2)
         in m3\<lparr>mm_probes := []\<rparr>))"

definition add_probe :: "memo_arg \<Rightarrow> jstring \<Rightarrow> memo \<Rightarrow> memo" where
  "add_probe a value m =
     (let n = length (input_values (ob_input a)) in
      if length (mm_probes m) < 8 \<and> memoContainer a \<and> length value \<le> mm_maxOutputCodeUnits m \<and>
         0 < n \<and> n \<le> mm_maxIds m
      then m\<lparr>mm_probes := mm_probes m @ [ob_addr a]\<rparr> else m)"

definition decode_probing :: "'i decoder \<Rightarrow> memo_arg \<Rightarrow> ('i \<times> memo, jstring) js" where
  "decode_probing inner a = (\<lambda>s.
     let repeatedProbe = (ob_addr a \<in> set (mm_probes (snd s))) in
     js_bind (memo_miss inner a) (\<lambda>value.
     js_bind (on_memo (if repeatedProbe then start_tracking a value else add_probe a value)) (\<lambda>_.
     js_ret value)) s)"

text \<open>The part of \<^verbatim>\<open>decode\<close> after the capacity checks, with the record found for the input.\<close>

definition finish_tracked :: "'i decoder \<Rightarrow> memo_arg \<Rightarrow> bool \<Rightarrow> memo_entry option \<Rightarrow> ('i \<times> memo, jstring) js" where
  "finish_tracked inner a eligible found =
     js_bind (memo_miss inner a) (\<lambda>value.
     js_bind (on_memo (\<lambda>m.
        if found = Some Uncacheable then m\<lparr>mm_uncacheable := mm_uncacheable m + 1\<rparr>
        else if found = None \<and> eligible then prime a value m
        else snd (memo_store a value m))) (\<lambda>_.
     js_ret value))"

definition lookup_tracked :: "'i decoder \<Rightarrow> memo_arg \<Rightarrow> bool \<Rightarrow> ('i \<times> memo, jstring) js" where
  "lookup_tracked inner a eligible = (\<lambda>s.
     let found = (if eligible then mm_records (snd s) (ob_addr a) else None) in
     case found of
       Some (Stored rid) \<Rightarrow>
         (if sameContents a (mr_snapshot (mm_store (snd s) ! rid))
          then (Inr (mr_output (mm_store (snd s) ! rid)),
                (fst s, (snd s)\<lparr>mm_hits := mm_hits (snd s) + 1\<rparr>))
          else finish_tracked inner a eligible found
                 (fst s, (snd s)\<lparr>mm_mismatches := mm_mismatches (snd s) + 1\<rparr>))
     | _ \<Rightarrow> finish_tracked inner a eligible found s)"

definition observe :: "nat \<Rightarrow> memo \<Rightarrow> memo" where
  "observe addr m =
     m\<lparr>mm_observed := insert addr (mm_observed m), mm_observedCount := mm_observedCount m + 1\<rparr>"

definition memo_decode :: "'i decoder \<Rightarrow> memo_arg \<Rightarrow> ('i \<times> memo, jstring) js" where
  "memo_decode inner a = (\<lambda>s.
     if \<not> mm_tracking (snd s) then decode_probing inner a s
     else if mm_bypassed (snd s) then memo_miss inner a s
     else let eligible = memoContainer a in
       if eligible \<and> ob_addr a \<notin> mm_observed (snd s)
       then let m1 = observe (ob_addr a) (snd s) in
            if mm_maxEntries m1 < mm_observedCount m1
            then memo_miss inner a (fst s, bypassCapacity m1)
            else lookup_tracked inner a eligible (fst s, m1)
       else lookup_tracked inner a eligible s)"

subsection \<open>The invariant\<close>

text \<open>
  Records are stored in order, the ring is their prefix, and no stored record is ever displaced:
  every record belongs to another observed object, and the memo gives up when it has observed
  more objects than it has slots.
\<close>

definition memo_key :: "memo_record list \<Rightarrow> nat \<Rightarrow> nat" where
  "memo_key rs rid = mr_key (rs ! rid)"

definition memo_ring :: "memo \<Rightarrow> bool" where
  "memo_ring m \<longleftrightarrow>
     (let n = length (mm_store m) in
      n \<le> mm_maxEntries m \<and> n \<le> card (mm_observed m) \<and> finite (mm_observed m) \<and>
      mm_slots m = map Some [0..<n] @ replicate (mm_maxEntries m - n) None \<and>
      mm_nextSlot m = n mod mm_maxEntries m \<and>
      mm_observedCount m = card (mm_observed m) \<and> mm_observedCount m \<le> mm_maxEntries m \<and>
      mr_key ` set (mm_store m) \<subseteq> mm_observed m \<and> inj_on (memo_key (mm_store m)) {..<n} \<and>
      (\<forall>a rid. mm_records m a = Some (Stored rid) \<longrightarrow> rid < n \<and> memo_key (mm_store m) rid = a) \<and>
      (\<forall>rid < n. mm_records m (memo_key (mm_store m) rid) \<in> {Some (Stored rid), Some Uncacheable}))"

definition memo_totals :: "memo \<Rightarrow> bool" where
  "memo_totals m \<longleftrightarrow>
     (let held = (if mm_bypassed m then [] else mm_store m) in
      mm_entries m = int (length held) \<and>
      mm_snapshotBytes m = (\<Sum>r\<leftarrow>held. byteLength (mr_snapshot r)) \<and>
      mm_outputCodeUnits m = (\<Sum>r\<leftarrow>held. int (length (mr_output r))))"

definition memo_sound :: "(u32 list \<Rightarrow> jstring option) \<Rightarrow> memo \<Rightarrow> bool" where
  "memo_sound text_of m \<longleftrightarrow>
     (\<forall>r \<in> set (mm_store m). text_of (mr_snapshot r) = Some (mr_output r) \<and>
        mr_snapshot r \<noteq> [] \<and> length (mr_snapshot r) \<le> mm_maxIds m \<and>
        length (mr_output r) \<le> mm_maxOutputCodeUnits m)"

definition memo_ok :: "(u32 list \<Rightarrow> jstring option) \<Rightarrow> memo \<Rightarrow> bool" where
  "memo_ok text_of m \<longleftrightarrow> 1 \<le> mm_maxEntries m \<and> mm_evictions m = 0 \<and> length (mm_slots m) = mm_maxEntries m \<and>
     memo_sound text_of m \<and> memo_totals m \<and>
     (if mm_bypassed m then mm_tracking m \<and> mm_slots m = replicate (mm_maxEntries m) None
      else memo_ring m) \<and>
     (\<not> mm_tracking m \<longrightarrow> mm_observed m = {} \<and> mm_observedCount m = 0)"

lemma createDecodeMemo_ok:
  assumes "createDecodeMemo opts = Inr m"
  shows "memo_ok text_of m \<and> \<not> mm_tracking m"
proof -
  have positive: "memo_positiveInteger v d name = Inr k \<Longrightarrow> 1 \<le> d \<Longrightarrow> 1 \<le> k" for v d name k
    by (cases v) (auto simp: memo_positiveInteger_def le_nat_iff of_nat_nat split: if_splits)
  show ?thesis
    using assms positive [of _ 512 "''maxEntries''"]
    by (fastforce simp: createDecodeMemo_def try_bind_Inr memo_ok_def memo_sound_def memo_totals_def
        memo_ring_def Let_def split: options.splits)
qed

text \<open>Snapshots and comparisons of contents read the ids of the input.\<close>

lemma snapshot_of_tokenIds: "snapshot_of a k = Some ids \<Longrightarrow>
    tokenIds (ob_input a) = Inr ids \<and> ids \<noteq> [] \<and> length ids \<le> k \<and> memoContainer a"
  by (cases "ob_input a")
    (auto simp: snapshot_of_def Let_def nonSharedUint32Array_def plainDenseArray_def memoContainer_def
      list_all_iff validTokenIdFast_eq comp_def split: if_splits)

lemma sameContents_tokenIds: "sameContents a ids \<Longrightarrow> tokenIds (ob_input a) = Inr ids"
proof (cases "ob_input a")
  case (Typed xs)
  assume "sameContents a ids"
  then have "list_all2 (\<lambda>v w. v = jsval_of_u32 w) (map jsval_of_u32 xs) ids"
    by (simp add: sameContents_def Typed)
  then have "map jsval_of_u32 xs = map jsval_of_u32 ids"
    by (simp add: list_all2_conv_all_nth list_eq_iff_nth_eq)
  then have "map u32_of_jsval (map jsval_of_u32 xs) = map u32_of_jsval (map jsval_of_u32 ids)" by simp
  then show ?thesis by (simp add: Typed comp_def)
next
  case (Arr vs)
  assume "sameContents a ids"
  then have "vs = map jsval_of_u32 ids"
    by (simp add: sameContents_def Arr list_all2_conv_all_nth list_eq_iff_nth_eq)
  then show ?thesis by (simp only: Arr tokenIds_u32s)
next
  case NotIds
  assume "sameContents a ids"
  then show ?thesis by (simp add: sameContents_def NotIds nonSharedUint32Array_def)
qed

subsection \<open>The operations keep the invariant\<close>

lemma removeRecord_fields [simp]:
  "mm_store (removeRecord rid m) = mm_store m" "mm_slots (removeRecord rid m) = mm_slots m"
  "mm_maxEntries (removeRecord rid m) = mm_maxEntries m" "mm_maxIds (removeRecord rid m) = mm_maxIds m"
  "mm_maxOutputCodeUnits (removeRecord rid m) = mm_maxOutputCodeUnits m"
  "mm_tracking (removeRecord rid m) = mm_tracking m" "mm_evictions (removeRecord rid m) = mm_evictions m"
  "mm_observed (removeRecord rid m) = mm_observed m" "mm_observedCount (removeRecord rid m) = mm_observedCount m"
  "mm_entries (removeRecord rid m) = mm_entries m - 1"
  "mm_snapshotBytes (removeRecord rid m) = mm_snapshotBytes m - byteLength (mr_snapshot (mm_store m ! rid))"
  "mm_outputCodeUnits (removeRecord rid m) = mm_outputCodeUnits m - int (length (mr_output (mm_store m ! rid)))"
  by (simp_all add: removeRecord_def Let_def)

definition remove_slot :: "nat option \<Rightarrow> memo \<Rightarrow> memo" where
  "remove_slot slot m = (case slot of None \<Rightarrow> m | Some rid \<Rightarrow> removeRecord rid m)"

lemma remove_slot_simps [simp]: "remove_slot None m = m" "remove_slot (Some rid) m = removeRecord rid m"
  by (simp_all add: remove_slot_def)

lemma remove_none [simp]: "(remove_slot None ^^ k) m = m"
  by (induction k) simp_all

lemma remove_all:
  "mm_store (fold remove_slot (map Some rids) m) = mm_store m \<and>
   mm_slots (fold remove_slot (map Some rids) m) = mm_slots m \<and>
   mm_maxEntries (fold remove_slot (map Some rids) m) = mm_maxEntries m \<and>
   mm_maxIds (fold remove_slot (map Some rids) m) = mm_maxIds m \<and>
   mm_maxOutputCodeUnits (fold remove_slot (map Some rids) m) = mm_maxOutputCodeUnits m \<and>
   mm_tracking (fold remove_slot (map Some rids) m) = mm_tracking m \<and>
   mm_evictions (fold remove_slot (map Some rids) m) = mm_evictions m \<and>
   mm_entries (fold remove_slot (map Some rids) m) = mm_entries m - int (length rids) \<and>
   mm_snapshotBytes (fold remove_slot (map Some rids) m) =
     mm_snapshotBytes m - (\<Sum>rid\<leftarrow>rids. byteLength (mr_snapshot (mm_store m ! rid))) \<and>
   mm_outputCodeUnits (fold remove_slot (map Some rids) m) =
     mm_outputCodeUnits m - (\<Sum>rid\<leftarrow>rids. int (length (mr_output (mm_store m ! rid))))"
  by (induction rids arbitrary: m) simp_all

lemma map_over_positions: "map (\<lambda>k. f (xs ! k)) [0..<length xs] = map f xs"
  by (rule nth_equalityI) simp_all

lemma bypassCapacity_ok:
  assumes "mm_slots m = map Some [0..<length (mm_store m)] @ replicate (mm_maxEntries m - length (mm_store m)) None"
    and "memo_totals m" and "memo_sound text_of m" and "mm_tracking m" and "\<not> mm_bypassed m"
    and "1 \<le> mm_maxEntries m" and "mm_evictions m = 0" and n: "length (mm_store m) \<le> mm_maxEntries m"
  shows "memo_ok text_of (bypassCapacity m) \<and> mm_tracking (bypassCapacity m)"
proof -
  let ?n = "length (mm_store m)"
  let ?m' = "fold remove_slot (map Some [0..<?n]) m"
  note slots = assms(1)
  have fold: "fold (\<lambda>slot m. case slot of None \<Rightarrow> m | Some rid \<Rightarrow> removeRecord rid m) (mm_slots m) m = ?m'"
    unfolding remove_slot_def [symmetric] slots by simp
  have "mm_entries ?m' = 0" "mm_snapshotBytes ?m' = 0" "mm_outputCodeUnits ?m' = 0"
    using remove_all [of "[0..<?n]" m] assms(2,5)
      map_over_positions [of "\<lambda>r. byteLength (mr_snapshot r)" "mm_store m"]
      map_over_positions [of "\<lambda>r. int (length (mr_output r))" "mm_store m"]
    by (simp_all add: memo_totals_def Let_def)
  then show ?thesis
    using remove_all [of "[0..<?n]" m] assms n unfolding bypassCapacity_def fold
    by (simp add: memo_ok_def memo_totals_def memo_sound_def slots)
qed


lemma memo_parts_counters [simp]:
  "memo_ring (m\<lparr>mm_misses := k\<rparr>) = memo_ring m" "memo_ring (m\<lparr>mm_hits := k\<rparr>) = memo_ring m"
  "memo_ring (m\<lparr>mm_mismatches := k\<rparr>) = memo_ring m" "memo_ring (m\<lparr>mm_uncacheable := k\<rparr>) = memo_ring m"
  "memo_ring (m\<lparr>mm_probes := ps\<rparr>) = memo_ring m" "memo_ring (m\<lparr>mm_tracking := b\<rparr>) = memo_ring m"
  by (simp_all add: memo_ring_def memo_key_def Let_def)

lemma memo_ok_counters [simp]:
  "memo_ok text_of (m\<lparr>mm_misses := k\<rparr>) = memo_ok text_of m" "memo_ok text_of (m\<lparr>mm_hits := k\<rparr>) = memo_ok text_of m"
  "memo_ok text_of (m\<lparr>mm_mismatches := k\<rparr>) = memo_ok text_of m" "memo_ok text_of (m\<lparr>mm_uncacheable := k\<rparr>) = memo_ok text_of m"
  "memo_ok text_of (m\<lparr>mm_probes := ps\<rparr>) = memo_ok text_of m"
  by (simp_all add: memo_ok_def memo_sound_def memo_totals_def)

lemma memo_ring_records:
  assumes "memo_ring m" and "\<And>rid. e \<noteq> Stored rid" and "e = Uncacheable \<or> mm_records m addr = None"
  shows "memo_ring (m\<lparr>mm_records := (mm_records m)(addr \<mapsto> e)\<rparr>)"
proof -
  let ?n = "length (mm_store m)" and ?r = "(mm_records m)(addr \<mapsto> e)"
  have old: "mm_records m a = Some (Stored rid) \<Longrightarrow> rid < ?n \<and> memo_key (mm_store m) rid = a"
    "rid < ?n \<Longrightarrow> mm_records m (memo_key (mm_store m) rid) \<in> {Some (Stored rid), Some Uncacheable}" for a rid
    using assms(1) by (simp_all add: memo_ring_def Let_def)
  have "?r a = Some (Stored rid) \<longrightarrow> rid < ?n \<and> memo_key (mm_store m) rid = a" for a rid
    using old(1) [of a rid] assms(2) by (cases "a = addr") simp_all
  moreover have "?r (memo_key (mm_store m) rid) \<in> {Some (Stored rid), Some Uncacheable}" if "rid < ?n" for rid
  proof (cases "memo_key (mm_store m) rid = addr")
    case True
    then show ?thesis using old(2) [OF that] assms(3) by auto
  qed (use old(2) [OF that] in simp)
  ultimately show ?thesis
    using assms(1) unfolding memo_ring_def Let_def by (simp del: fun_upd_apply)
qed

lemma memo_ok_records:
  assumes "memo_ok text_of m" and "\<And>rid. e \<noteq> Stored rid" and "e = Uncacheable \<or> mm_records m addr = None"
  shows "memo_ok text_of (m\<lparr>mm_records := (mm_records m)(addr \<mapsto> e)\<rparr>)"
  using assms(1) memo_ring_records [OF _ assms(2,3)]
  by (cases "mm_bypassed m") (simp_all add: memo_ok_def memo_sound_def memo_totals_def)

lemma mark_uncacheable_ok: "memo_ok text_of m \<Longrightarrow> memo_ok text_of (mark_uncacheable addr m)"
  using memo_ok_records [of text_of "m\<lparr>mm_uncacheable := mm_uncacheable m + 1\<rparr>" Uncacheable addr]
  by (simp add: mark_uncacheable_def)

lemma prime_ok: "memo_ok text_of m \<Longrightarrow> mm_records m (ob_addr a) = None \<Longrightarrow> memo_ok text_of (prime a value m)"
  using memo_ok_records [of text_of m Pending "ob_addr a"] mark_uncacheable_ok [of text_of m "ob_addr a"]
  by (simp add: prime_def Let_def)

lemma observe_ok:
  assumes "memo_ok text_of m" and "mm_tracking m" and "\<not> mm_bypassed m" and "addr \<notin> mm_observed m"
    and "mm_observedCount m + 1 \<le> mm_maxEntries m"
  shows "memo_ok text_of (observe addr m)"
proof -
  have "memo_ring m" using assms(1,3) by (simp add: memo_ok_def)
  then have "memo_ring (observe addr m)"
    using assms(4,5) by (auto simp: memo_ring_def memo_key_def observe_def Let_def)
  then show ?thesis
    using assms by (simp add: memo_ok_def memo_sound_def memo_totals_def observe_def)
qed

text \<open>A new record always finds its slot free.\<close>

lemma memo_ring_room:
  assumes "memo_ring m" and "addr \<in> mm_observed m" and "addr \<notin> mr_key ` set (mm_store m)"
  shows "length (mm_store m) < mm_maxEntries m"
proof -
  let ?n = "length (mm_store m)"
  have keys: "mr_key ` set (mm_store m) = memo_key (mm_store m) ` {..<?n}"
    by (force simp: memo_key_def in_set_conv_nth)
  have "card (mr_key ` set (mm_store m)) = ?n"
    using assms(1) keys by (simp add: card_image memo_ring_def Let_def)
  moreover have "card (insert addr (mr_key ` set (mm_store m))) \<le> card (mm_observed m)"
    using assms by (intro card_mono) (auto simp: memo_ring_def Let_def)
  ultimately show ?thesis using assms(1,3) by (simp add: memo_ring_def Let_def)
qed

lemma store_record_eq:
  assumes "memo_ring m" and "length (mm_store m) < mm_maxEntries m"
  shows "store_record addr ids value m =
    (let n = length (mm_store m) in
     m\<lparr>mm_store := mm_store m @ [\<lparr>mr_key = addr, mr_snapshot = ids, mr_output = value\<rparr>],
       mm_slots := map Some [0..<Suc n] @ replicate (mm_maxEntries m - Suc n) None,
       mm_nextSlot := Suc n mod mm_maxEntries m,
       mm_records := (mm_records m)(addr \<mapsto> Stored n),
       mm_snapshotBytes := mm_snapshotBytes m + byteLength ids,
       mm_outputCodeUnits := mm_outputCodeUnits m + int (length value),
       mm_entries := mm_entries m + 1\<rparr>)"
proof -
  let ?n = "length (mm_store m)"
  have slots: "mm_slots m = map Some [0..<?n] @ replicate (mm_maxEntries m - ?n) None"
    and next': "mm_nextSlot m = ?n"
    using assms by (simp_all add: memo_ring_def Let_def)
  have rest: "replicate (mm_maxEntries m - ?n) None = None # replicate (mm_maxEntries m - Suc ?n) None"
    using assms(2) by (metis Suc_diff_Suc replicate_Suc)
  have free: "mm_slots m ! ?n = None" and
    put: "(mm_slots m)[?n := Some ?n] = map Some [0..<Suc ?n] @ replicate (mm_maxEntries m - Suc ?n) None"
    using assms(2) by (simp_all add: slots rest nth_append list_update_append)
  show ?thesis using free put by (simp add: store_record_def Let_def next')
qed

lemma store_record_ok:
  assumes "memo_ok text_of m" and "\<not> mm_bypassed m" and "addr \<in> mm_observed m"
    and "addr \<notin> mr_key ` set (mm_store m)"
    and "text_of ids = Some value" and "ids \<noteq> []" and "length ids \<le> mm_maxIds m"
    and "length value \<le> mm_maxOutputCodeUnits m"
  shows "memo_ok text_of (store_record addr ids value m)"
proof -
  let ?n = "length (mm_store m)" and ?r = "\<lparr>mr_key = addr, mr_snapshot = ids, mr_output = value\<rparr>"
  let ?m' = "store_record addr ids value m"
  have ring: "memo_ring m" using assms(1,2) by (simp add: memo_ok_def)
  note room = memo_ring_room [OF ring assms(3,4)]
  note eq = store_record_eq [OF ring room, of addr ids "value", unfolded Let_def]
  have key: "memo_key (mm_store ?m') rid = (if rid < ?n then memo_key (mm_store m) rid else addr)" if "rid < Suc ?n" for rid
    using that by (auto simp: eq memo_key_def nth_append less_Suc_eq)
  have fresh: "memo_key (mm_store m) rid \<noteq> addr" if "rid < ?n" for rid
    using assms(4) that by (auto simp: memo_key_def)
  have inj: "inj_on (memo_key (mm_store ?m')) {..<Suc ?n}"
    using ring key fresh unfolding inj_on_def memo_ring_def Let_def by (metis lessThan_iff less_antisym)
  have "card (mm_observed m) \<ge> Suc ?n"
  proof -
    have keys: "insert addr (memo_key (mm_store m) ` {..<?n}) \<subseteq> mm_observed m"
      using ring assms(3) by (auto simp: memo_ring_def memo_key_def Let_def)
    have "card (insert addr (memo_key (mm_store m) ` {..<?n})) = Suc ?n"
      using ring fresh by (subst card_insert_disjoint) (auto simp: memo_ring_def Let_def card_image)
    then show ?thesis using card_mono [OF _ keys] ring by (simp add: memo_ring_def Let_def)
  qed
  moreover have "\<forall>a rid. mm_records ?m' a = Some (Stored rid) \<longrightarrow> rid < Suc ?n \<and> memo_key (mm_store ?m') rid = a"
    using ring key by (auto simp: eq memo_ring_def Let_def less_SucI split: if_splits)
  moreover have "\<forall>rid < Suc ?n. mm_records ?m' (memo_key (mm_store ?m') rid) \<in> {Some (Stored rid), Some Uncacheable}"
    using ring key fresh by (auto simp: eq memo_ring_def Let_def less_Suc_eq)
  ultimately have "memo_ring ?m'"
    using ring inj room assms(3) unfolding memo_ring_def Let_def by (simp add: eq)
  moreover have "memo_totals ?m'"
    using assms(1,2) by (simp add: memo_ok_def memo_totals_def eq Let_def)
  moreover have "memo_sound text_of ?m'" using assms by (auto simp: memo_ok_def memo_sound_def eq)
  ultimately show ?thesis using assms(1,2,3) room by (auto simp: memo_ok_def eq)
qed

lemma sum_list_update_int:
  "k < length xs \<Longrightarrow> (\<Sum>x\<leftarrow>xs[k := y]. f x) = (\<Sum>x\<leftarrow>xs. f x) + ((f y :: int) - f (xs ! k))"
  by (induction xs arbitrary: k) (auto split: nat.splits)

text \<open>An entry that is stored again is changed in place.\<close>

definition rewrite_record :: "nat \<Rightarrow> u32 list \<Rightarrow> jstring \<Rightarrow> memo \<Rightarrow> memo" where
  "rewrite_record rid ids value m =
     (let old = mm_store m ! rid in
      m\<lparr>mm_snapshotBytes := mm_snapshotBytes m + (byteLength ids - byteLength (mr_snapshot old)),
        mm_outputCodeUnits := mm_outputCodeUnits m + (int (length value) - int (length (mr_output old))),
        mm_store := (mm_store m)[rid := old\<lparr>mr_snapshot := ids, mr_output := value\<rparr>]\<rparr>)"

lemma rewrite_record_ok:
  assumes "memo_ok text_of m" and "\<not> mm_bypassed m" and "rid < length (mm_store m)"
    and "text_of ids = Some value" and "ids \<noteq> []" and "length ids \<le> mm_maxIds m"
    and "length value \<le> mm_maxOutputCodeUnits m"
  shows "memo_ok text_of (rewrite_record rid ids value m)"
proof -
  let ?old = "mm_store m ! rid" and ?m' = "rewrite_record rid ids value m"
  let ?new = "?old\<lparr>mr_snapshot := ids, mr_output := value\<rparr>"
  have store: "mm_store ?m' = (mm_store m)[rid := ?new]" by (simp add: rewrite_record_def Let_def)
  have keys: "memo_key (mm_store ?m') = memo_key (mm_store m)"
    using assms(3) by (auto simp: store memo_key_def nth_list_update fun_eq_iff)
  have "map mr_key (mm_store ?m') = map mr_key (mm_store m)"
    using assms(3) by (simp add: store map_update list_update_same_conv)
  then have key_set: "mr_key ` set (mm_store ?m') = mr_key ` set (mm_store m)"
    by (metis set_map)
  have "memo_ring m" using assms(1,2) by (simp add: memo_ok_def)
  then have ring: "memo_ring ?m'"
    using key_set keys unfolding memo_ring_def Let_def store
    by (simp add: rewrite_record_def Let_def)
  have totals: "memo_totals ?m'"
    using assms(1-3) sum_list_update_int [of rid "mm_store m" "\<lambda>r. byteLength (mr_snapshot r)" ?new]
      sum_list_update_int [of rid "mm_store m" "\<lambda>r. int (length (mr_output r))" ?new]
    by (simp add: memo_ok_def memo_totals_def rewrite_record_def Let_def)
  have sound: "memo_sound text_of ?m'"
    using assms set_update_subset_insert [of "mm_store m" rid ?new]
    by (fastforce simp: memo_ok_def memo_sound_def rewrite_record_def Let_def)
  show ?thesis using ring totals sound assms(1,2)
    by (simp add: memo_ok_def rewrite_record_def Let_def)
qed

lemma memo_store_ok:
  assumes "memo_ok text_of m" and "\<not> mm_bypassed m" and "decode_by text_of (ob_input a) = Some value"
    and "memoContainer a \<Longrightarrow>
      ob_addr a \<in> mm_observed m \<and> (mm_store m = [] \<or> mm_records m (ob_addr a) \<noteq> Some Uncacheable)"
  shows "memo_ok text_of (snd (memo_store a value m))"
proof (cases "mm_maxOutputCodeUnits m < length value \<or> snapshot_of a (mm_maxIds m) = None")
  case True
  then show ?thesis using mark_uncacheable_ok [OF assms(1)] by (auto simp: memo_store_def)
next
  case False
  then obtain ids where ids: "snapshot_of a (mm_maxIds m) = Some ids" "length value \<le> mm_maxOutputCodeUnits m" by auto
  note snap = snapshot_of_tokenIds [OF ids(1)]
  have texts: "text_of ids = Some value" using assms(3) snap by (simp add: decode_by_def)
  have ring: "memo_ring m" using assms(1,2) by (simp add: memo_ok_def)
  show ?thesis
  proof (cases "\<exists>rid. mm_records m (ob_addr a) = Some (Stored rid)")
    case True
    then obtain rid where rid: "mm_records m (ob_addr a) = Some (Stored rid)" by blast
    then have "rid < length (mm_store m)" using ring by (simp add: memo_ring_def Let_def)
    from rewrite_record_ok [OF assms(1,2) this texts] snap ids rid show ?thesis
      by (simp add: memo_store_def rewrite_record_def Let_def)
  next
    case False
    have "ob_addr a \<noteq> memo_key (mm_store m) rid" if "rid < length (mm_store m)" for rid
    proof
      assume "ob_addr a = memo_key (mm_store m) rid"
      then have "mm_records m (ob_addr a) \<in> {Some (Stored rid), Some Uncacheable}"
        using ring that by (simp add: memo_ring_def Let_def)
      then show False using False assms(4) snap that by auto
    qed
    then have "ob_addr a \<notin> mr_key ` set (mm_store m)" by (metis imageE in_set_conv_nth memo_key_def)
    from store_record_ok [OF assms(1,2) _ this texts] snap ids assms(4)
    have "memo_ok text_of (store_record (ob_addr a) ids value m)" by simp
    moreover have "snd (memo_store a value m) = store_record (ob_addr a) ids value m"
      using False ids by (auto simp: memo_store_def split: option.splits memo_entry.splits)
    ultimately show ?thesis by simp
  qed
qed

lemma memo_store_frame:
  "mm_tracking (snd (memo_store a value m)) = mm_tracking m"
  "mm_bypassed (snd (memo_store a value m)) = mm_bypassed m"
  "mm_observed (snd (memo_store a value m)) = mm_observed m"
  by (auto simp: memo_store_def store_record_def removeRecord_def mark_uncacheable_def Let_def
      split: option.splits memo_entry.splits)

lemma memo_store_observed:
  "memo_store a value (m\<lparr>mm_observed := A, mm_observedCount := k\<rparr>) =
     apsnd (\<lambda>m. m\<lparr>mm_observed := A, mm_observedCount := k\<rparr>) (memo_store a value m)"
  by (auto simp: memo_store_def store_record_def removeRecord_def mark_uncacheable_def Let_def
      split: option.splits memo_entry.splits)

lemma start_tracking_ok:
  assumes "memo_ok text_of m" and "\<not> mm_tracking m" and "decode_by text_of (ob_input a) = Some value"
  shows "memo_ok text_of (start_tracking a value m)"
proof -
  obtain kept m1 where store: "memo_store a value m = (kept, m1)" by fastforce
  have b: "\<not> mm_bypassed m" and max: "1 \<le> mm_maxEntries m" using assms(1,2) by (auto simp: memo_ok_def split: if_splits)
  have empty: "mm_store m = []" "mm_observed m = {}" "mm_observedCount m = 0"
    using assms(1,2) b by (auto simp: memo_ok_def memo_ring_def Let_def)
  show ?thesis
  proof (cases kept)
    case False
    then have "m1 = mark_uncacheable (ob_addr a) m"
      using store by (auto simp: memo_store_def Let_def split: if_splits option.splits memo_entry.splits)
    then have "memo_ok text_of m1" "\<not> mm_tracking m1"
      using mark_uncacheable_ok [OF assms(1)] assms(2) by (simp_all add: mark_uncacheable_def)
    then have "memo_ok text_of (m1\<lparr>mm_tracking := False\<rparr>)" by (cases m1) simp
    then show ?thesis by (simp add: start_tracking_def store False Let_def)
  next
    case True
    let ?w = "\<lambda>m. m\<lparr>mm_observed := {ob_addr a}, mm_observedCount := 1\<rparr>"
    have "memo_ring (?w (m\<lparr>mm_tracking := True\<rparr>))"
      using assms(1) b empty max by (simp add: memo_ok_def memo_ring_def Let_def)
    then have "memo_ok text_of (?w (m\<lparr>mm_tracking := True\<rparr>))"
      using assms(1) b by (simp add: memo_ok_def memo_totals_def memo_sound_def)
    then have "memo_ok text_of (snd (memo_store a value (?w (m\<lparr>mm_tracking := True\<rparr>))))"
      by (rule memo_store_ok) (use b empty assms(3) in simp_all)
    moreover have "memo_store a value (m\<lparr>mm_tracking := True\<rparr>) = apsnd (\<lambda>m. m\<lparr>mm_tracking := True\<rparr>) (memo_store a value m)"
      by (auto simp: memo_store_def store_record_def removeRecord_def mark_uncacheable_def Let_def
          split: option.splits memo_entry.splits)
    ultimately have "memo_ok text_of (?w (m1\<lparr>mm_tracking := True\<rparr>))"
      by (simp add: memo_store_observed store)
    moreover have "mm_observed m1 = {}"
      using memo_store_frame(3) [of a "value" m] empty store by simp
    ultimately show ?thesis by (simp add: start_tracking_def store True Let_def)
  qed
qed

subsection \<open>Exactness of a call\<close>

definition memo_inv :: "('i \<Rightarrow> bool) \<Rightarrow> (u32 list \<Rightarrow> jstring option) \<Rightarrow> 'i \<times> memo \<Rightarrow> bool" where
  "memo_inv below text_of s \<longleftrightarrow> below (fst s) \<and> memo_ok text_of (snd s)"

locale memo_over = below: exact_decoder inner inv "decode_by text_of"
  for inner :: "js_input \<Rightarrow> 'i \<Rightarrow> (js_error + jstring) \<times> 'i" and inv and text_of
begin

text \<open>Every call that reaches the decoder below has its value, and its bookkeeping may follow.\<close>

lemma miss_then:
  assumes "inv (fst s)" and "memo_ok text_of (snd s)"
    and "\<And>value m. decode_by text_of (ob_input a) = Some value \<Longrightarrow> m = (snd s)\<lparr>mm_misses := mm_misses (snd s) + 1\<rparr> \<Longrightarrow>
      memo_ok text_of (f value m)"
    and "js_bind (memo_miss inner a) (\<lambda>value. js_bind (on_memo (f value)) (\<lambda>_. js_ret value)) s = (r, s')"
  shows "okv r = decode_by text_of (ob_input a) \<and> memo_inv inv text_of s'"
proof -
  obtain i m where s: "s = (i, m)" by fastforce
  obtain q i1 where call: "inner (ob_input a) i = (q, i1)" by fastforce
  have exact: "okv q = decode_by text_of (ob_input a)" "inv i1" using below.exact [OF _ call] assms(1) s by auto
  show ?thesis
  proof (cases q)
    case (Inl e)
    then show ?thesis using exact assms(2,4) s call
      by (auto simp: memo_miss_def on_memo_def js_simps memo_inv_def)
  next
    case (Inr v)
    then have "decode_by text_of (ob_input a) = Some v" using exact(1) by simp
    from assms(3) [OF this refl] show ?thesis using exact assms(4) s call Inr
      by (auto simp: memo_miss_def on_memo_def js_simps memo_inv_def)
  qed
qed

lemma exact_miss:
  assumes "inv (fst s)" and "memo_ok text_of (snd s)" and "memo_miss inner a s = (r, s')"
  shows "okv r = decode_by text_of (ob_input a) \<and> memo_inv inv text_of s'"
proof -
  obtain i m where s: "s = (i, m)" by fastforce
  obtain q i1 where call: "inner (ob_input a) i = (q, i1)" by fastforce
  have "okv q = decode_by text_of (ob_input a)" "inv i1" using below.exact [OF _ call] assms(1) s by auto
  then show ?thesis using assms(2,3) s call by (auto simp: memo_miss_def js_simps memo_inv_def)
qed

lemma exact_probing:
  assumes "inv (fst s)" and "memo_ok text_of (snd s)" and "\<not> mm_tracking (snd s)"
    and "decode_probing inner a s = (r, s')"
  shows "okv r = decode_by text_of (ob_input a) \<and> memo_inv inv text_of s'"
proof (rule miss_then [OF assms(1,2) _ assms(4) [unfolded decode_probing_def Let_def]])
  fix v m
  assume v: "decode_by text_of (ob_input a) = Some v" and m: "m = (snd s)\<lparr>mm_misses := mm_misses (snd s) + 1\<rparr>"
  have "memo_ok text_of m" "\<not> mm_tracking m" using assms(2,3) m by simp_all
  moreover have "memo_ok text_of (add_probe a v m)" using \<open>memo_ok text_of m\<close> by (simp add: add_probe_def Let_def)
  ultimately show "memo_ok text_of ((if ob_addr a \<in> set (mm_probes (snd s)) then start_tracking a v else add_probe a v) m)"
    using start_tracking_ok v by simp
qed

lemma exact_finish:
  assumes "inv (fst s)" and "memo_ok text_of (snd s)" and "\<not> mm_bypassed (snd s)"
    and "eligible = memoContainer a" and "eligible \<longrightarrow> ob_addr a \<in> mm_observed (snd s)"
    and "found = (if eligible then mm_records (snd s) (ob_addr a) else None)"
    and "finish_tracked inner a eligible found s = (r, s')"
  shows "okv r = decode_by text_of (ob_input a) \<and> memo_inv inv text_of s'"
proof (rule miss_then [OF assms(1,2) _ assms(7) [unfolded finish_tracked_def]])
  fix v m
  assume v: "decode_by text_of (ob_input a) = Some v" and m: "m = (snd s)\<lparr>mm_misses := mm_misses (snd s) + 1\<rparr>"
  have ok: "memo_ok text_of m" using assms(2) m by simp
  have store: "found \<noteq> Some Uncacheable \<Longrightarrow> memo_ok text_of (snd (memo_store a v m))"
    by (rule memo_store_ok [OF ok _ v]) (use assms m in auto)
  have primed: "found = None \<Longrightarrow> eligible \<Longrightarrow> memo_ok text_of (prime a v m)"
    by (rule prime_ok [OF ok]) (use assms m in auto)
  show "memo_ok text_of
      (if found = Some Uncacheable then m\<lparr>mm_uncacheable := mm_uncacheable m + 1\<rparr>
       else if found = None \<and> eligible then prime a v m else snd (memo_store a v m))"
    using ok store primed by simp
qed

lemma stored_value:
  assumes "memo_ok text_of m" and "\<not> mm_bypassed m" and "mm_records m addr = Some (Stored rid)"
  shows "text_of (mr_snapshot (mm_store m ! rid)) = Some (mr_output (mm_store m ! rid))"
proof -
  have "rid < length (mm_store m)" using assms by (simp add: memo_ok_def memo_ring_def Let_def)
  then show ?thesis using assms(1) by (simp add: memo_ok_def memo_sound_def)
qed

lemma exact_lookup:
  assumes "inv (fst s)" and "memo_ok text_of (snd s)" and "\<not> mm_bypassed (snd s)"
    and "eligible = memoContainer a" and "eligible \<longrightarrow> ob_addr a \<in> mm_observed (snd s)"
    and "lookup_tracked inner a eligible s = (r, s')"
  shows "okv r = decode_by text_of (ob_input a) \<and> memo_inv inv text_of s'"
proof -
  let ?found = "if eligible then mm_records (snd s) (ob_addr a) else None"
  show ?thesis
  proof (cases "\<exists>rid. ?found = Some (Stored rid)")
    case True
    then obtain rid where rid: "eligible" "mm_records (snd s) (ob_addr a) = Some (Stored rid)" by (auto split: if_splits)
    let ?r = "mm_store (snd s) ! rid"
    let ?s1 = "(fst s, (snd s)\<lparr>mm_mismatches := mm_mismatches (snd s) + 1\<rparr>)"
    show ?thesis
    proof (cases "sameContents a (mr_snapshot ?r)")
      case True
      then have "decode_by text_of (ob_input a) = Some (mr_output ?r)"
        using sameContents_tokenIds [OF True] stored_value [OF assms(2,3) rid(2)] by (simp add: decode_by_def)
      then show ?thesis using assms(1,2,6) rid True by (auto simp: lookup_tracked_def memo_inv_def)
    next
      case False
      then have "finish_tracked inner a eligible ?found ?s1 = (r, s')"
        using assms(6) rid by (simp add: lookup_tracked_def)
      from exact_finish [OF _ _ _ assms(4) _ _ this] show ?thesis using assms(1-3,5) rid by simp
    qed
  next
    case False
    then have "finish_tracked inner a eligible ?found s = (r, s')"
      using assms(6) unfolding lookup_tracked_def Let_def
      by (cases ?found) (auto split: memo_entry.splits)
    from exact_finish [OF assms(1-5) refl this] show ?thesis .
  qed
qed

lemma exact_memo_decode:
  assumes "inv (fst s)" and "memo_ok text_of (snd s)" and "memo_decode inner a s = (r, s')"
  shows "okv r = decode_by text_of (ob_input a) \<and> memo_inv inv text_of s'"
proof (cases "mm_tracking (snd s) \<and> \<not> mm_bypassed (snd s)")
  case False
  show ?thesis
  proof (cases "mm_tracking (snd s)")
    case True
    then have "memo_miss inner a s = (r, s')" using False assms(3) by (simp add: memo_decode_def)
    then show ?thesis by (rule exact_miss [OF assms(1,2)])
  next
    case False
    then have "decode_probing inner a s = (r, s')" using assms(3) by (simp add: memo_decode_def)
    then show ?thesis by (rule exact_probing [OF assms(1,2) False])
  qed
next
  case tracking: True
  let ?m1 = "observe (ob_addr a) (snd s)"
  show ?thesis
  proof (cases "memoContainer a \<and> ob_addr a \<notin> mm_observed (snd s)")
    case True
    show ?thesis
    proof (cases "mm_maxEntries ?m1 < mm_observedCount ?m1")
      case over: True
      have "memo_ring (snd s)" using assms(2) tracking by (simp add: memo_ok_def)
      then have ring: "mm_slots (snd s) = map Some [0..<length (mm_store (snd s))] @
            replicate (mm_maxEntries (snd s) - length (mm_store (snd s))) None"
          "length (mm_store (snd s)) \<le> mm_maxEntries (snd s)"
        by (simp_all add: memo_ring_def Let_def)
      have "memo_ok text_of (bypassCapacity ?m1)"
        using bypassCapacity_ok [of ?m1 text_of] ring assms(2) tracking
        by (simp add: observe_def memo_ok_def memo_totals_def memo_sound_def)
      moreover have "memo_miss inner a (fst s, bypassCapacity ?m1) = (r, s')"
        using assms(3) tracking True over by (simp add: memo_decode_def Let_def)
      ultimately show ?thesis using exact_miss [of "(fst s, bypassCapacity ?m1)"] assms(1) by simp
    next
      case False
      then have ok: "memo_ok text_of ?m1"
        using observe_ok [OF assms(2)] tracking True by (simp add: observe_def)
      have "lookup_tracked inner a (memoContainer a) (fst s, ?m1) = (r, s')"
        using assms(3) tracking True False by (simp add: memo_decode_def Let_def)
      from exact_lookup [OF _ _ _ refl _ this] show ?thesis
        using assms(1) ok tracking by (simp add: observe_def)
    qed
  next
    case False
    then have "lookup_tracked inner a (memoContainer a) s = (r, s')"
      using assms(3) tracking by (auto simp: memo_decode_def Let_def)
    from exact_lookup [OF assms(1,2) _ refl _ this] show ?thesis using tracking False by auto
  qed
qed

end

sublocale memo_over \<subseteq> memo: exact_decoder "memo_decode inner" "memo_inv inv text_of" "\<lambda>a. decode_by text_of (ob_input a)"
proof (unfold_locales, goal_cases)
  case (1 s a r s')
  then show ?case using exact_memo_decode [of s a r s'] by (simp add: memo_inv_def)
qed

context memo_over
begin

lemma contract: "exact_decoder (memo_decode inner) (memo_inv inv text_of) (\<lambda>a. decode_by text_of (ob_input a))"
  by (rule memo.exact_decoder_axioms)

end

lemma memo_decode_by_contract:
  "exact_decoder inner below (decode_by text_of) \<Longrightarrow>
     exact_decoder (memo_decode inner) (memo_inv below text_of) (\<lambda>a. decode_by text_of (ob_input a))"
  by (rule memo_over.contract [OF memo_over.intro])

lemma memo_decode_contract:
  "exact_decoder inner below (ref_decode c) \<Longrightarrow>
     exact_decoder (memo_decode inner) (memo_inv below (ref_text c)) (\<lambda>a. ref_decode c (ob_input a))"
  unfolding ref_decode_by by (rule memo_decode_by_contract)

interpretation memo_on_assembly: memo_over "assembly_decode c" "assembly_inv c" "ref_text c" for c
  using assembly.exact_decoder_axioms unfolding ref_decode_by by (rule memo_over.intro)

interpretation memo_on_table: memo_over "table_decode c cfg (assembly_decode c)" "table_inv (assembly_inv c) c cfg" "ref_text c"
  for c cfg
  using table_decode_contract [OF assembly.exact_decoder_axioms] unfolding ref_decode_by by (rule memo_over.intro)

lemma memo_start:
  "createDecodeMemo opts = Inr m \<Longrightarrow> below i \<Longrightarrow> memo_inv below text_of (i, m)"
  using createDecodeMemo_ok [of opts m text_of] by (simp add: memo_inv_def)

subsection \<open>The main properties\<close>

text \<open>
  C5. The memo changes nothing: over any exact decoder, whatever objects are decoded in whatever
  order, and whatever is written into them between the calls, every call returns the reference
  text of what its argument holds at that moment, and throws exactly when there is none.
\<close>

theorem memo_exact:
  assumes "createDecodeMemo opts = Inr m" and "exact_decoder inner below (ref_decode c)" and "below i"
  shows "map okv (fst (decode_all (memo_decode inner) args (i, m))) = map (\<lambda>a. ref_decode c (ob_input a)) args"
  using exact_decoder.decode_all_exact [OF memo_decode_contract [OF assms(2)] memo_start [where below = below and i = i, OF assms(1,3)]]
  by blast

text \<open>
  The accounting of the memo: after any calls the ring holds exactly the counted entries, at
  most \<^verbatim>\<open>maxEntries\<close> of them, the byte and code unit totals are those of the entries, and the
  eviction counter is still zero: a container beyond the capacity makes the memo give up before
  any entry is displaced.
\<close>

theorem memo_accounting:
  assumes "createDecodeMemo opts = Inr m" and "exact_decoder inner below (ref_decode c)" and "below i"
    and "m' = snd (snd (decode_all (memo_decode inner) args (i, m)))"
  shows "mm_entries m' = int (length (filter (\<lambda>slot. slot \<noteq> None) (mm_slots m'))) \<and>
     mm_entries m' \<le> int (mm_maxEntries m') \<and>
     mm_snapshotBytes m' = (\<Sum>slot\<leftarrow>mm_slots m'. case slot of None \<Rightarrow> 0 | Some rid \<Rightarrow> byteLength (mr_snapshot (mm_store m' ! rid))) \<and>
     mm_outputCodeUnits m' = (\<Sum>slot\<leftarrow>mm_slots m'. case slot of None \<Rightarrow> 0 | Some rid \<Rightarrow> int (length (mr_output (mm_store m' ! rid)))) \<and>
     mm_evictions m' = 0"
proof -
  have ok: "memo_ok (ref_text c) m'"
    using exact_decoder.decode_all_exact [OF memo_decode_contract [OF assms(2)] memo_start [where below = below and i = i, OF assms(1,3)]] assms(4)
    by (simp add: memo_inv_def)
  show ?thesis
  proof (cases "mm_bypassed m'")
    case True
    then show ?thesis using ok by (simp add: memo_ok_def memo_totals_def sum_list_replicate)
  next
    case False
    let ?n = "length (mm_store m')"
    have slots: "mm_slots m' = map Some [0..<?n] @ replicate (mm_maxEntries m' - ?n) None" and n: "?n \<le> mm_maxEntries m'"
      and evictions: "mm_evictions m' = 0" and totals: "memo_totals m'"
      using ok False by (simp_all add: memo_ok_def memo_ring_def Let_def)
    have sums: "(\<Sum>slot\<leftarrow>mm_slots m'. case slot of None \<Rightarrow> 0 | Some rid \<Rightarrow> f (mm_store m' ! rid)) =
        (\<Sum>r\<leftarrow>mm_store m'. f r)" for f :: "memo_record \<Rightarrow> int"
      using map_over_positions [of f "mm_store m'"] by (simp add: slots sum_list_replicate comp_def)
    have "length (filter (\<lambda>slot. slot \<noteq> None) (mm_slots m')) = ?n" by (simp add: slots comp_def)
    then show ?thesis
      using totals False n evictions sums [of "\<lambda>r. byteLength (mr_snapshot r)"] sums [of "\<lambda>r. int (length (mr_output r))"]
      by (simp add: memo_totals_def Let_def)
  qed
qed


lemma jsval_of_u32_of_valid:
  assumes "validTokenId v" shows "jsval_of_u32 (u32_of_jsval v) = v"
proof -
  from assms obtain q where v: "v = JNum q" and q: "is_int_rat q" "0 \<le> q" "q \<le> 4294967295"
    by (cases v) auto
  have f: "of_int \<lfloor>q\<rfloor> = q" using q(1) by (simp add: is_int_rat_def)
  have nonneg: "0 \<le> \<lfloor>q\<rfloor>" using q(2) by simp
  have "\<lfloor>q\<rfloor> \<le> 4294967295" using q(3) f by (metis floor_mono floor_numeral)
  then have "unat (word_of_int \<lfloor>q\<rfloor> :: u32) = nat \<lfloor>q\<rfloor>"
    using nonneg by (simp add: unsigned_of_int take_bit_int_eq_self)
  moreover have "(of_nat (nat \<lfloor>q\<rfloor>) :: rat) = q" using nonneg f by (metis of_int_of_nat_eq of_nat_nat)
  ultimately show ?thesis by (simp add: v jsval_of_u32_def del: of_nat_unat)
qed

lemma snapshot_of_sameContents: "snapshot_of a k = Some ids \<Longrightarrow> sameContents a ids"
  by (cases "ob_input a")
    (auto simp: snapshot_of_def sameContents_def Let_def nonSharedUint32Array_def plainDenseArray_def
      list_all_iff validTokenIdFast_eq list_all2_conv_all_nth jsval_of_u32_of_valid
      split: if_splits)

subsection \<open>Witnesses\<close>

definition default_memo_options :: memo_options where
  "default_memo_options = \<lparr>mo_maxEntries = JNum 2, mo_maxIds = JUndefined, mo_maxOutputCodeUnits = JNull\<rparr>"

definition fresh_memo :: memo where
  "fresh_memo = \<lparr>mm_maxEntries = 2, mm_maxIds = 4096, mm_maxOutputCodeUnits = 8192,
     mm_store = [], mm_records = Map.empty, mm_slots = [None, None], mm_nextSlot = 0,
     mm_entries = 0, mm_snapshotBytes = 0, mm_outputCodeUnits = 0, mm_hits = 0, mm_misses = 0,
     mm_mismatches = 0, mm_uncacheable = 0, mm_evictions = 0, mm_tracking = False,
     mm_probes = [], mm_observed = {}, mm_observedCount = 0, mm_bypassed = False\<rparr>"

lemma fresh_memo_created: "createDecodeMemo (Options default_memo_options) = Inr fresh_memo"
  by (simp add: createDecodeMemo_def default_memo_options_def memo_positiveInteger_def try_if_def
      fresh_memo_def numeral_2_eq_2)

definition plain_array :: "nat \<Rightarrow> u32 list \<Rightarrow> memo_arg" where
  "plain_array addr ids = \<lparr>ob_addr = addr, ob_input = Arr (map jsval_of_u32 ids), ob_ordinary = True,
     ob_lengthWritable = True,
     ob_props = (\<lambda>_. Some \<lparr>pd_accessor = False, pd_enumerable = True, pd_configurable = True, pd_writable = True\<rparr>)\<rparr>"

definition memo_session :: "memo_arg list" where
  "memo_session = [plain_array 7 [0, 5], plain_array 7 [0, 5], plain_array 7 [0, 5], plain_array 7 [5, 0],
     plain_array 8 [1], plain_array 9 [2, 2]]"

theorem memo_exact_witness:
  "map okv (fst (decode_all (memo_decode (assembly_decode (table_core example_tokens))) memo_session (0, fresh_memo))) =
     map (\<lambda>a. ref_decode (table_core example_tokens) (ob_input a)) memo_session"
  by (rule memo_exact [OF fresh_memo_created assembly.exact_decoder_axioms])
    (simp add: assembly_inv_def, simp add: table_core_def)

theorem memo_accounting_witness:
  "\<exists>m'. m' = snd (snd (decode_all (memo_decode (assembly_decode (table_core example_tokens))) memo_session (0, fresh_memo))) \<and>
     mm_entries m' = int (length (filter (\<lambda>slot. slot \<noteq> None) (mm_slots m'))) \<and> mm_evictions m' = 0"
proof -
  have "assembly_inv (table_core example_tokens) 0" by (simp add: assembly_inv_def) (simp add: table_core_def)
  from memo_accounting [OF fresh_memo_created assembly.exact_decoder_axioms this refl, of memo_session]
  show ?thesis by blast
qed

text \<open>
  A container decoded again and again is answered from the memo from its third call on: the
  decoder below is not called, and only the hit counter moves. The container must hold ids the
  memo keeps, and its text must be within the limit.
\<close>

theorem memo_third_call_hits:
  assumes "createDecodeMemo opts = Inr m" and "exact_decoder inner below (ref_decode c)" and "below i"
    and "snapshot_of a (mm_maxIds m) = Some ids" and "ref_decode c (ob_input a) = Some v"
    and "length v \<le> mm_maxOutputCodeUnits m"
    and "snd (decode_all (memo_decode inner) [a, a] (i, m)) = (i2, m2)"
  shows "memo_decode inner a (i2, m2) = (Inr v, (i2, m2\<lparr>mm_hits := mm_hits m2 + 1\<rparr>))"
proof -
  note snap = snapshot_of_tokenIds [OF assms(4)]
  have fresh: "\<not> mm_tracking m" "mm_probes m = []" "\<not> mm_bypassed m" "mm_records m = Map.empty" "mm_store m = []"
    "mm_slots m = replicate (mm_maxEntries m) None" "mm_nextSlot m = 0"
    using assms(1) by (auto simp: createDecodeMemo_def try_bind_Inr split: options.splits)
  have max: "1 \<le> mm_maxEntries m" using createDecodeMemo_ok [OF assms(1), of "ref_text c"] by (simp add: memo_ok_def)
  obtain r1 i1 where one: "inner (ob_input a) i = (r1, i1)" by fastforce
  then have r1: "r1 = Inr v" "below i1"
    using exact_decoder.exact [OF assms(2,3) one] assms(5) by simp_all
  obtain r2 i2' where two: "inner (ob_input a) i1 = (r2, i2')" by fastforce
  then have r2: "r2 = Inr v" using exact_decoder.exact [OF assms(2) r1(2) two] assms(5) by simp
  have short: "0 < length (input_values (ob_input a))" "length (input_values (ob_input a)) \<le> mm_maxIds m"
    using assms(4) by (auto simp: snapshot_of_def Let_def split: if_splits)
  let ?m1 = "m\<lparr>mm_misses := mm_misses m + 1, mm_probes := [ob_addr a]\<rparr>"
  have call1: "memo_decode inner a (i, m) = (Inr v, (i1, ?m1))"
    using fresh one r1 assms(6) snap short
    by (simp add: memo_decode_def decode_probing_def memo_miss_def on_memo_def add_probe_def js_simps Let_def)
  let ?m2 = "?m1\<lparr>mm_misses := mm_misses m + 2\<rparr>"
  have call2: "memo_decode inner a (i1, ?m1) = (Inr v, (i2', start_tracking a v ?m2))"
    using fresh two r2
    by (simp add: memo_decode_def decode_probing_def memo_miss_def on_memo_def js_simps Let_def)
  have m2: "i2 = i2'" "m2 = start_tracking a v ?m2"
    using assms(7) call1 call2 by simp_all
  have tracked: "mm_tracking m2" "\<not> mm_bypassed m2" "ob_addr a \<in> mm_observed m2"
    "mm_records m2 (ob_addr a) = Some (Stored 0)" "mm_store m2 = [\<lparr>mr_key = ob_addr a, mr_snapshot = ids, mr_output = v\<rparr>]"
    using fresh assms(4,6) max
    by (simp_all add: m2 start_tracking_def memo_store_def store_record_def Let_def nth_append)
  have "sameContents a ids" by (rule snapshot_of_sameContents [OF assms(4)])
  then show ?thesis using tracked snap
    by (simp add: memo_decode_def lookup_tracked_def)
qed


theorem memo_third_call_hits_witness:
  "\<exists>i2 m2 v. ref_decode (table_core example_tokens) (Arr [JNum 0, JNum 5]) = Some v \<and>
     snd (decode_all (memo_decode (assembly_decode (table_core example_tokens))) [plain_array 7 [0, 5], plain_array 7 [0, 5]]
       (0, fresh_memo)) = (i2, m2) \<and>
     memo_decode (assembly_decode (table_core example_tokens)) (plain_array 7 [0, 5]) (i2, m2) =
       (Inr v, (i2, m2\<lparr>mm_hits := mm_hits m2 + 1\<rparr>))"
proof -
  let ?c = "table_core example_tokens" and ?a = "plain_array 7 [0, 5]" and ?v = "utf8_lossy [0x41, 0xC3, 0xA9]"
  obtain i2 m2 where run: "snd (decode_all (memo_decode (assembly_decode ?c)) [?a, ?a] (0, fresh_memo)) = (i2, m2)"
    by (metis surj_pair)
  have inv: "assembly_inv ?c 0" by (simp add: assembly_inv_def) (simp add: table_core_def)
  have input: "ob_input ?a = Arr [JNum 0, JNum 5]" by (simp add: plain_array_def jsval_of_u32_def)
  have ids: "tokenIds (ob_input ?a) = Inr [0, 5]" using tokenIds_u32s [of "[0, 5]"] by (simp add: plain_array_def)
  have v: "ref_decode ?c (ob_input ?a) = Some ?v"
    unfolding ref_decode_def ids by (simp add: ref_text_def ref_bytes_def table_tokenBytes_def example_tokens_def)
  have snap: "snapshot_of ?a (mm_maxIds fresh_memo) = Some [0, 5]"
    by (simp add: snapshot_of_def plainDenseArray_def plain_array_def fresh_memo_def validTokenIdFast_eq)
  have len: "length ?v \<le> mm_maxOutputCodeUnits fresh_memo" by code_simp
  show ?thesis
    using run v memo_third_call_hits [OF fresh_memo_created assembly.exact_decoder_axioms inv snap v len run]
    unfolding input by blast
qed

end
