(* ===== verification/String_Builtins.thy ===== *)
theory String_Builtins
  imports Decode_Table_Exact
begin

text \<open>
  The decoder of \<^verbatim>\<open>hypertok-js/src/decode-string-builtins.mjs\<close>: it calls the exported WebAssembly
  functions of the tokenizer itself and makes the string inside the engine, from the UTF-16 units
  the tokenizer left in its memory. The instance's exports are a parameter, operations on the
  state of its memory.
\<close>

record 'w wasm_exports =
  w_malloc :: "nat \<Rightarrow> 'w \<Rightarrow> nat \<times> 'w"
  w_set :: "nat \<Rightarrow> u32 list \<Rightarrow> 'w \<Rightarrow> 'w"
  w_decodeAssemblyUtf16 :: "nat \<Rightarrow> nat \<Rightarrow> nat \<Rightarrow> 'w \<Rightarrow> (nat \<times> nat \<times> bool) \<times> 'w"
  w_free :: "nat \<Rightarrow> nat \<Rightarrow> 'w \<Rightarrow> 'w"
  w_fromMemory :: "nat \<Rightarrow> nat \<Rightarrow> 'w \<Rightarrow> js_error + jstring"

text \<open>
  The registered contexts, by the identity of the tokenizer object; what is registered, when it
  is an object, has a memory or not.
\<close>

datatype 'w wasm_value = WasmNotObject | WasmNoMemory | WasmWithMemory "'w wasm_exports"

type_synonym 'w contexts = "nat \<rightharpoonup> 'w wasm_exports"

definition registerStringBuiltinsContext ::
  "nat option \<Rightarrow> 'w wasm_value \<Rightarrow> ('w contexts, bool) js" where
  "registerStringBuiltinsContext core wasm =
     (case core of
        None \<Rightarrow> js_throw (TypeError ''string builtins context requires a tokenizer'')
      | Some key \<Rightarrow>
          (case wasm of
             WasmWithMemory ex \<Rightarrow> js_bind (js_modify (\<lambda>contexts. contexts(key \<mapsto> ex))) (\<lambda>_. js_ret True)
           | _ \<Rightarrow> js_ret False))"

record 'w string_builtins =
  sb_exports :: "'w wasm_exports"
  sb_ptr :: nat
  sb_supported :: bool
  sb_decoderCalls :: nat
  sb_codeUnits :: nat
  sb_memory :: 'w

text \<open>
  \<open>supported\<close> is whether the engine compiled and instantiated the glue module; a failure is
  caught and leaves the tokenizer's own decode.
\<close>

definition createStringBuiltinsDecoder ::
  "'w contexts \<Rightarrow> bool \<Rightarrow> nat \<Rightarrow> nat \<Rightarrow> 'w \<Rightarrow> js_error + 'w string_builtins" where
  "createStringBuiltinsDecoder contexts supported key ptr mem =
     (case contexts key of
        None \<Rightarrow> Inl (PlainError ''string builtins require a registered wasm context'')
      | Some ex \<Rightarrow> Inr \<lparr>sb_exports = ex, sb_ptr = ptr, sb_supported = supported, sb_decoderCalls = 0,
          sb_codeUnits = 0, sb_memory = mem\<rparr>)"

definition builtins_decode :: "core \<Rightarrow> js_input \<Rightarrow> ('w string_builtins, jstring) js" where
  "builtins_decode c input =
     js_bind (js_lift (tokenIds input)) (\<lambda>ids sb.
       if \<not> sb_supported sb then (c_decode c ids, sb)
       else
         let ex = sb_exports sb;
             (pointer, w1) = w_malloc ex (length ids * 4) (sb_memory sb);
             w2 = w_set ex pointer ids w1;
             ((units, count, failed), w3) = w_decodeAssemblyUtf16 ex (sb_ptr sb) pointer (length ids) w2
         in if failed then (c_decode c ids, sb\<lparr>sb_memory := w3\<rparr>)
            else (w_fromMemory ex units count w3,
                  sb\<lparr>sb_decoderCalls := sb_decoderCalls sb + 1, sb_codeUnits := sb_codeUnits sb + count,
                     sb_memory := w_free ex units (count * 2) w3\<rparr>))"

text \<open>
  What the exports promise: a call that does not report failure leaves the UTF-16 text of the
  decoded ids where its result points, and the glue reads it back.
\<close>

definition exports_decode :: "core \<Rightarrow> nat \<Rightarrow> 'w wasm_exports \<Rightarrow> bool" where
  "exports_decode c ptr ex \<longleftrightarrow>
     (\<forall>ids mem pointer w1 units count w3.
        w_malloc ex (length ids * 4) mem = (pointer, w1) \<longrightarrow>
        w_decodeAssemblyUtf16 ex ptr pointer (length ids) (w_set ex pointer ids w1) = ((units, count, False), w3) \<longrightarrow>
        (\<exists>t. ref_text c ids = Some t \<and> w_fromMemory ex units count w3 = Inr t))"

definition builtins_inv :: "core \<Rightarrow> 'w string_builtins \<Rightarrow> bool" where
  "builtins_inv c sb \<longleftrightarrow> core_laws c \<and> exports_decode c (sb_ptr sb) (sb_exports sb)"

interpretation builtins: exact_decoder "builtins_decode c" "builtins_inv c" "ref_decode c" for c
proof (unfold_locales, goal_cases)
  case (1 s i r s')
  then have laws: "core_laws c" and promise: "exports_decode c (sb_ptr s) (sb_exports s)"
    by (simp_all add: builtins_inv_def)
  show ?case
  proof (cases "tokenIds i")
    case (Inl e)
    then show ?thesis using 1 by (auto simp: builtins_decode_def js_simps ref_decode_def)
  next
    case (Inr ids)
    have ref: "ref_decode c i = ref_text c ids" by (simp add: ref_decode_def Inr)
    show ?thesis
    proof (cases "sb_supported s")
      case False
      then show ?thesis using 1 Inr ref core_laws_decode [OF laws]
        by (auto simp: builtins_decode_def js_simps)
    next
      case True
      obtain pointer w1 where m: "w_malloc (sb_exports s) (length ids * 4) (sb_memory s) = (pointer, w1)" by fastforce
      obtain units n failed w3 where d:
        "w_decodeAssemblyUtf16 (sb_exports s) (sb_ptr s) pointer (length ids) (w_set (sb_exports s) pointer ids w1) =
           ((units, n, failed), w3)" by (metis surj_pair)
      show ?thesis
      proof (cases failed)
        case True
        then show ?thesis using 1 Inr ref core_laws_decode [OF laws] \<open>sb_supported s\<close> m d
          by (auto simp: builtins_decode_def js_simps builtins_inv_def)
      next
        case False
        then have "w_decodeAssemblyUtf16 (sb_exports s) (sb_ptr s) pointer (length ids)
            (w_set (sb_exports s) pointer ids w1) = ((units, n, False), w3)" using d by simp
        then obtain t where "ref_text c ids = Some t" "w_fromMemory (sb_exports s) units n w3 = Inr t"
          using promise m unfolding exports_decode_def by blast
        then show ?thesis using 1 Inr ref \<open>sb_supported s\<close> m d False
          by (auto simp: builtins_decode_def js_simps builtins_inv_def)
      qed
    qed
  qed
qed

interpretation table_on_builtins: table_over "builtins_decode c" "builtins_inv c" c cfg for c cfg
  by unfold_locales

subsection \<open>An instance of the exports\<close>

text \<open>A memory that holds the ids last written, decoded by the token table.\<close>

definition table_exports :: "bytes list \<Rightarrow> u32 list wasm_exports" where
  "table_exports toks =
     \<lparr>w_malloc = (\<lambda>_ w. (0, w)), w_set = (\<lambda>_ ids _. ids),
      w_decodeAssemblyUtf16 = (\<lambda>_ _ _ w.
         (case table_text toks w of Inl _ \<Rightarrow> ((0, 0, True), w) | Inr t \<Rightarrow> ((0, length t, False), w))),
      w_free = (\<lambda>_ _ w. w), w_fromMemory = (\<lambda>_ _ w. table_text toks w)\<rparr>"

lemma table_exports_decode: "exports_decode (table_core toks) ptr (table_exports toks)"
proof -
  have "okv (c_decode (table_core toks) ids) = ref_text (table_core toks) ids" for ids
    by (rule core_laws_decode) simp
  then have "ref_text (table_core toks) ids = okv (table_text toks ids)" for ids
    by (simp add: table_core_def)
  then show ?thesis by (auto simp: exports_decode_def table_exports_def split: sum.splits)
qed

text \<open>
  Registration and construction: a decoder is made exactly for a tokenizer whose context was
  registered with a memory, and then decodes exactly, whether or not the engine supports the
  string builtins and whatever calls were made before.
\<close>

theorem string_builtins_exact:
  assumes "core_laws c" and "exports_decode c ptr ex"
    and "registerStringBuiltinsContext (Some key) (WasmWithMemory ex) contexts = (r, contexts')"
  shows "r = Inr True \<and>
    (\<exists>sb. createStringBuiltinsDecoder contexts' supported key ptr mem = Inr sb \<and>
       map okv (fst (decode_all (builtins_decode c) inputs sb)) = map (ref_decode c) inputs)"
proof -
  have r: "r = Inr True" and k: "contexts' key = Some ex"
    using assms(3) by (auto simp: registerStringBuiltinsContext_def js_simps)
  let ?sb = "\<lparr>sb_exports = ex, sb_ptr = ptr, sb_supported = supported, sb_decoderCalls = 0,
    sb_codeUnits = 0, sb_memory = mem\<rparr>"
  have "builtins_inv c ?sb" using assms(1,2) by (simp add: builtins_inv_def)
  then have "map okv (fst (decode_all (builtins_decode c) inputs ?sb)) = map (ref_decode c) inputs"
    by (simp add: builtins.decode_all_exact)
  then show ?thesis using r k by (simp add: createStringBuiltinsDecoder_def)
qed

theorem string_builtins_exact_witness:
  "\<exists>contexts sb. registerStringBuiltinsContext (Some 3) (WasmWithMemory (table_exports example_tokens)) Map.empty = (Inr True, contexts) \<and>
     createStringBuiltinsDecoder contexts True 3 16 [] = Inr sb \<and>
     map okv (fst (decode_all (builtins_decode (table_core example_tokens)) [Typed [0, 1, 2], Typed [4]] sb)) =
       map (ref_decode (table_core example_tokens)) [Typed [0, 1, 2], Typed [4]]"
proof -
  obtain r contexts where reg:
    "registerStringBuiltinsContext (Some 3) (WasmWithMemory (table_exports example_tokens)) Map.empty = (r, contexts)"
    by fastforce
  from string_builtins_exact [OF table_core_laws table_exports_decode reg, of True 16 "[]" "[Typed [0, 1, 2], Typed [4]]"]
  show ?thesis using reg by blast
qed

end
