(* ===== verification/Composed.thy ===== *)
theory Composed
  imports Hot_Strings Memo String_Builtins
begin

text \<open>
  The decoder the package ships, \<^verbatim>\<open>hypertok-js/src/decode-composed.mjs\<close>: one of the direct
  decoders, and over it, as the options say, the decode table, the hot strings and the memo.
\<close>

subsection \<open>Options\<close>

record composed_options =
  co_assembly :: jsval
  co_borrowedOutput :: jsval
  co_utf16Output :: jsval
  co_table :: jsval
  co_byteTable :: jsval
  co_mixedRuns :: jsval
  co_runCache :: jsval
  co_nativeLatin1 :: jsval
  co_portableLatin1 :: jsval
  co_fusedValidation :: jsval
  co_leanDispatch :: jsval
  co_cleanUnroll :: jsval
  co_directScratch :: jsval
  co_memo :: jsval
  co_dirtyRunBatch :: jsval
  co_runStitcher :: jsval
  co_stringBuiltins :: jsval
  co_hotStrings :: jsval
  co_tableOptions :: table_options
  co_hotStringOptions :: "hot_options options"
  co_memoOptions :: "memo_options options"

record composed_flags =
  use_assembly :: bool
  use_borrowedOutput :: bool
  use_utf16Output :: bool
  use_table :: bool
  use_byteTable :: bool
  use_mixedRuns :: bool
  use_runCache :: bool
  use_nativeLatin1 :: bool
  use_portableLatin1 :: bool
  use_fusedValidation :: bool
  use_leanDispatch :: bool
  use_cleanUnroll :: bool
  use_directScratch :: bool
  use_memo :: bool
  use_dirtyRunBatch :: bool
  use_runStitcher :: bool
  use_stringBuiltins :: bool
  use_hotStrings :: bool

definition is_true :: "jsval \<Rightarrow> bool" where
  "is_true v \<longleftrightarrow> v = JBool True"

definition composed_flags_of :: "composed_options \<Rightarrow> composed_flags" where
  "composed_flags_of co =
     \<lparr>use_assembly = (co_assembly co \<noteq> JBool False), use_borrowedOutput = is_true (co_borrowedOutput co),
      use_utf16Output = is_true (co_utf16Output co), use_table = is_true (co_table co),
      use_byteTable = is_true (co_byteTable co), use_mixedRuns = is_true (co_mixedRuns co),
      use_runCache = is_true (co_runCache co), use_nativeLatin1 = is_true (co_nativeLatin1 co),
      use_portableLatin1 = is_true (co_portableLatin1 co),
      use_fusedValidation = is_true (co_fusedValidation co),
      use_leanDispatch = is_true (co_leanDispatch co), use_cleanUnroll = is_true (co_cleanUnroll co),
      use_directScratch = is_true (co_directScratch co), use_memo = is_true (co_memo co),
      use_dirtyRunBatch = is_true (co_dirtyRunBatch co), use_runStitcher = is_true (co_runStitcher co),
      use_stringBuiltins = is_true (co_stringBuiltins co), use_hotStrings = is_true (co_hotStrings co)\<rparr>"

text \<open>The combinations that are refused, in the order of the checks.\<close>

definition check_flags :: "composed_flags \<Rightarrow> js_error + unit" where
  "check_flags u =
     try_bind (try_if (use_borrowedOutput u \<and> \<not> use_assembly u)
       (TypeError ''borrowed output decode requires assembly decode'')) (\<lambda>_.
     try_bind (try_if (use_utf16Output u \<and> \<not> use_assembly u)
       (TypeError ''UTF-16 output decode requires assembly decode'')) (\<lambda>_.
     try_bind (try_if (use_borrowedOutput u \<and> use_utf16Output u)
       (TypeError ''borrowed output and UTF-16 output decode cannot both be on'')) (\<lambda>_.
     try_bind (try_if (use_byteTable u \<and> \<not> use_table u)
       (TypeError ''byte-table decode requires table decode'')) (\<lambda>_.
     try_bind (try_if (use_mixedRuns u \<and> \<not> use_table u)
       (TypeError ''mixed-run decode requires table decode'')) (\<lambda>_.
     try_bind (try_if (use_runCache u \<and> \<not> use_mixedRuns u)
       (TypeError ''maximal-run cache requires mixed-run decode'')) (\<lambda>_.
     try_bind (try_if (use_stringBuiltins u \<and> (use_borrowedOutput u \<or> use_utf16Output u))
       (TypeError ''string builtins require the dedicated assembly endpoint'')) (\<lambda>_.
     try_bind (try_if (use_dirtyRunBatch u \<and> \<not> use_mixedRuns u)
       (TypeError ''dirty-run batching requires mixed-run decode'')) (\<lambda>_.
     try_bind (try_if (use_runStitcher u \<and> \<not> use_dirtyRunBatch u)
       (TypeError ''run stitcher requires dirty-run batching'')) (\<lambda>_.
     try_bind (try_if (use_nativeLatin1 u \<and> \<not> use_table u)
       (TypeError ''native Latin-1 decode requires table decode'')) (\<lambda>_.
     try_if (use_portableLatin1 u \<and> \<not> use_table u)
       (TypeError ''portable Latin-1 decode requires table decode'')))))))))))"

subsection \<open>The direct decoder at the bottom\<close>

datatype 'w base =
    RawBase nat
  | AssemblyBase nat
  | BorrowedBase nat
  | Utf16Base nat
  | BuiltinsBase "'w string_builtins"

text \<open>What the surrounding engine gives: its buffers and clock rounding, and the builtins context.\<close>

record 'w engine =
  en_hasBuffer :: bool
  en_fl :: "rat \<Rightarrow> rat"
  en_contexts :: "'w contexts"
  en_supported :: bool
  en_key :: nat
  en_ptr :: nat
  en_memory :: 'w

definition create_base :: "'w engine \<Rightarrow> core \<Rightarrow> composed_flags \<Rightarrow> js_error + 'w base" where
  "create_base en c u =
     (if use_assembly u
      then if use_stringBuiltins u
        then map_sum (\<lambda>e. e) BuiltinsBase
               (createStringBuiltinsDecoder (en_contexts en) (en_supported en) (en_key en) (en_ptr en) (en_memory en))
      else if use_utf16Output u then map_sum (\<lambda>e. e) Utf16Base (createUtf16AssemblyDecoder c)
      else if use_borrowedOutput u then map_sum (\<lambda>e. e) BorrowedBase (createBorrowedAssemblyDecoder c)
      else map_sum (\<lambda>e. e) AssemblyBase (createAssemblyDecoder c)
      else Inr (RawBase 0))"

fun base_decode :: "core \<Rightarrow> js_input \<Rightarrow> ('w base, jstring) js" where
  "base_decode c input (RawBase n) = map_prod (\<lambda>r. r) RawBase (raw_decode c input n)"
| "base_decode c input (AssemblyBase n) = map_prod (\<lambda>r. r) AssemblyBase (assembly_decode c input n)"
| "base_decode c input (BorrowedBase n) = map_prod (\<lambda>r. r) BorrowedBase (borrowed_decode c input n)"
| "base_decode c input (Utf16Base n) = map_prod (\<lambda>r. r) Utf16Base (utf16_decode c input n)"
| "base_decode c input (BuiltinsBase sb) = map_prod (\<lambda>r. r) BuiltinsBase (builtins_decode c input sb)"

fun base_inv :: "core \<Rightarrow> 'w base \<Rightarrow> bool" where
  "base_inv c (RawBase n) = raw_inv c n"
| "base_inv c (AssemblyBase n) = assembly_inv c n"
| "base_inv c (BorrowedBase n) = borrowed_inv c n"
| "base_inv c (Utf16Base n) = utf16_inv c n"
| "base_inv c (BuiltinsBase sb) = builtins_inv c sb"

interpretation base: exact_decoder "base_decode c" "base_inv c" "ref_decode c" for c
proof (unfold_locales, goal_cases)
  case (1 s i r s')
  then show ?case
  proof (cases s)
    case (RawBase n)
    with 1 raw.exact [of c n i] show ?thesis by (cases "raw_decode c i n") auto
  next
    case (AssemblyBase n)
    with 1 assembly.exact [of c n i] show ?thesis by (cases "assembly_decode c i n") auto
  next
    case (BorrowedBase n)
    with 1 borrowed.exact [of c n i] show ?thesis by (cases "borrowed_decode c i n") auto
  next
    case (Utf16Base n)
    with 1 utf16.exact [of c n i] show ?thesis by (cases "utf16_decode c i n") auto
  next
    case (BuiltinsBase sb)
    with 1 builtins.exact [of c sb i] show ?thesis by (cases "builtins_decode c i sb") auto
  qed
qed

subsection \<open>Optional layers\<close>

text \<open>\<^verbatim>\<open>active\<close> after a layer that may be missing.\<close>

definition with_layer ::
  "('a \<Rightarrow> ('i \<times> 'l, jstring) js) \<Rightarrow> ('a \<Rightarrow> ('i, jstring) js) \<Rightarrow> 'a \<Rightarrow> ('i \<times> 'l option, jstring) js" where
  "with_layer layer below a = (\<lambda>(i, l).
     case l of
       None \<Rightarrow> (case below a i of (r, i1) \<Rightarrow> (r, (i1, None)))
     | Some x \<Rightarrow> (case layer a (i, x) of (r, (i1, x1)) \<Rightarrow> (r, (i1, Some x1))))"

definition layer_inv :: "('i \<times> 'l \<Rightarrow> bool) \<Rightarrow> ('i \<Rightarrow> bool) \<Rightarrow> 'i \<times> 'l option \<Rightarrow> bool" where
  "layer_inv up down s \<longleftrightarrow> (case snd s of None \<Rightarrow> down (fst s) | Some x \<Rightarrow> up (fst s, x))"

lemma with_layer_contract:
  assumes "exact_decoder layer up ref" and "exact_decoder below down ref"
  shows "exact_decoder (with_layer layer below) (layer_inv up down) ref"
proof (unfold_locales, goal_cases)
  case (1 s a r s')
  obtain i l where s: "s = (i, l)" by fastforce
  show ?case
  proof (cases l)
    case None
    obtain r1 i1 where call: "below a i = (r1, i1)" by fastforce
    show ?thesis using exact_decoder.exact [OF assms(2) _ call] 1 s None call
      by (auto simp: with_layer_def layer_inv_def)
  next
    case (Some x)
    obtain r1 i1 x1 where call: "layer a (i, x) = (r1, (i1, x1))" by (metis surj_pair)
    show ?thesis using exact_decoder.exact [OF assms(1) _ call] 1 s Some call
      by (auto simp: with_layer_def layer_inv_def)
  qed
qed

text \<open>The decode table with its configuration as its state.\<close>

definition configured_decode ::
  "core \<Rightarrow> 'i decoder \<Rightarrow> js_input \<Rightarrow> ('i \<times> table_config \<times> table, jstring) js" where
  "configured_decode c inner input = (\<lambda>(i, cfg, t).
     (case table_decode c cfg inner input (i, t) of (r, (i1, t1)) \<Rightarrow> (r, (i1, (cfg, t1)))))"

definition configured_inv :: "('i \<Rightarrow> bool) \<Rightarrow> core \<Rightarrow> 'i \<times> table_config \<times> table \<Rightarrow> bool" where
  "configured_inv below c = (\<lambda>(i, cfg, t). table_inv below c cfg (i, t))"

lemma configured_contract:
  assumes "exact_decoder inner below (ref_decode c)"
  shows "exact_decoder (configured_decode c inner) (configured_inv below c) (ref_decode c)"
proof (unfold_locales, goal_cases)
  case (1 s a r s')
  obtain i cfg t where s: "s = (i, cfg, t)" by (metis surj_pair)
  obtain r1 i1 t1 where call: "table_decode c cfg inner a (i, t) = (r1, (i1, t1))" by (metis surj_pair)
  show ?case using exact_decoder.exact [OF table_decode_contract [OF assms] _ call] 1 s call
    by (auto simp: configured_decode_def configured_inv_def)
qed

subsection \<open>The composed decoder\<close>

type_synonym 'w composed = "(('w base \<times> (table_config \<times> table) option) \<times> hot option) \<times> memo option"

text \<open>The options given to the table: the caller's, with the flags over them.\<close>

definition composed_table_options :: "composed_options \<Rightarrow> composed_flags \<Rightarrow> table_options" where
  "composed_table_options co u =
     (co_tableOptions co)\<lparr>to_byteTable := JBool (use_byteTable u), to_mixedRuns := JBool (use_mixedRuns u),
        to_runCache := JBool (use_runCache u), to_nativeLatin1 := JBool (use_nativeLatin1 u),
        to_portableLatin1 := JBool (use_portableLatin1 u),
        to_fusedValidation := JBool (use_fusedValidation u),
        to_leanDispatch := JBool (use_leanDispatch u), to_cleanUnroll := JBool (use_cleanUnroll u),
        to_directScratch := JBool (use_directScratch u), to_dirtyRunBatch := JBool (use_dirtyRunBatch u),
        to_runStitcher := JBool (use_runStitcher u)\<rparr>"

definition when_on :: "bool \<Rightarrow> js_error + 'a \<Rightarrow> js_error + 'a option" where
  "when_on b r = (if b then map_sum (\<lambda>e. e) Some r else Inr None)"

lemma when_on_Inr: "when_on b r = Inr x \<longleftrightarrow> (if b then \<exists>a. r = Inr a \<and> x = Some a else x = None)"
  by (cases r) (auto simp: when_on_def)

definition createComposedDecoder ::
  "'w engine \<Rightarrow> core \<Rightarrow> composed_options options \<Rightarrow> js_error + composed_flags \<times> 'w composed" where
  "createComposedDecoder en c opts =
     (case opts of
        NotObject \<Rightarrow> Inl (TypeError ''composed decode options must be an object'')
      | Options co \<Rightarrow>
     let u = composed_flags_of co in
     try_bind (check_flags u) (\<lambda>_.
     try_bind (create_base en c u) (\<lambda>base.
     try_bind (when_on (use_table u)
       (createDecodeTable (en_fl en) (en_hasBuffer en) c (Options (composed_table_options co u)))) (\<lambda>tbl.
     try_bind (when_on (use_hotStrings u)
       (createHotStringDecoder (en_fl en) c (co_hotStringOptions co))) (\<lambda>hot.
     try_bind (when_on (use_memo u) (createDecodeMemo (co_memoOptions co))) (\<lambda>memo.
     Inr (u, (((base, tbl), hot), memo))))))))"

definition below_memo :: "core \<Rightarrow> js_input \<Rightarrow> (('w base \<times> (table_config \<times> table) option) \<times> hot option, jstring) js" where
  "below_memo c = with_layer
     (hot_decode c (with_layer (configured_decode c (base_decode c)) (base_decode c)))
     (with_layer (configured_decode c (base_decode c)) (base_decode c))"

definition composed_decode :: "core \<Rightarrow> memo_arg \<Rightarrow> ('w composed, jstring) js" where
  "composed_decode c =
     with_layer (memo_decode (below_memo c)) (\<lambda>a. below_memo c (ob_input a))"

text \<open>\<^verbatim>\<open>decodeBytes\<close>, with the pieces copied one after the other.\<close>

definition gatherTokenBytes :: "core \<Rightarrow> js_input \<Rightarrow> js_error + bytes" where
  "gatherTokenBytes c input =
     try_bind (tokenIds input) (\<lambda>ids.
       foldl (\<lambda>out tid. try_bind out (\<lambda>pieces. map_sum (\<lambda>e. e) (\<lambda>bytes. pieces @ bytes) (c_tokenBytes c tid)))
         (Inr []) ids)"

definition composed_decodeBytes :: "core \<Rightarrow> composed_flags \<Rightarrow> js_input \<Rightarrow> js_error + bytes" where
  "composed_decodeBytes c u input =
     (if use_assembly u then try_bind (tokenIds input) (the (c_assemblyBytes c))
      else gatherTokenBytes c input)"

text \<open>
  \<^verbatim>\<open>tokenString\<close>: the hot strings first, then the table. An id that is not a number finds
  nothing (a string that spells an index is not modelled).
\<close>

definition hot_tokenString_of :: "jsval \<Rightarrow> hot \<Rightarrow> jstring option" where
  "hot_tokenString_of v h = (if validTokenId v then hot_tokenString (u32_of_jsval v) h else None)"

definition composed_tokenString :: "core \<Rightarrow> jsval \<Rightarrow> 'w composed \<Rightarrow> jstring option" where
  "composed_tokenString c v = (\<lambda>(((base, tbl), hot), memo).
     case Option.bind hot (hot_tokenString_of v) of
       Some s \<Rightarrow> Some s
     | None \<Rightarrow> Option.bind tbl (\<lambda>(cfg, t). tokenString c v t))"

subsection \<open>Exactness of the whole\<close>

abbreviation table_layer where
  "table_layer c \<equiv> with_layer (configured_decode c (base_decode c)) (base_decode c)"

abbreviation table_layer_inv where
  "table_layer_inv c \<equiv> layer_inv (configured_inv (base_inv c) c) (base_inv c)"

definition below_memo_inv :: "core \<Rightarrow> ('w base \<times> (table_config \<times> table) option) \<times> hot option \<Rightarrow> bool" where
  "below_memo_inv c = layer_inv (hot_inv (table_layer_inv c) c) (table_layer_inv c)"

definition composed_inv :: "core \<Rightarrow> 'w composed \<Rightarrow> bool" where
  "composed_inv c = layer_inv (memo_inv (below_memo_inv c) (ref_text c)) (below_memo_inv c)"

lemma table_layer_contract: "exact_decoder (table_layer c) (table_layer_inv c) (ref_decode c)"
  by (rule with_layer_contract [OF configured_contract [OF base.exact_decoder_axioms] base.exact_decoder_axioms])

lemma below_memo_contract: "exact_decoder (below_memo c) (below_memo_inv c) (ref_decode c)"
  unfolding below_memo_def below_memo_inv_def
  by (rule with_layer_contract [OF hot_decode_contract [OF table_layer_contract] table_layer_contract])

lemma exact_on_args:
  "exact_decoder dec down (ref_decode c) \<Longrightarrow>
     exact_decoder (\<lambda>a. dec (ob_input a)) down (\<lambda>a. ref_decode c (ob_input a))"
  unfolding exact_decoder_def by blast

interpretation composed: exact_decoder "composed_decode c" "composed_inv c" "\<lambda>a. ref_decode c (ob_input a)" for c
  unfolding composed_decode_def composed_inv_def
  by (rule with_layer_contract [OF memo_decode_contract [OF below_memo_contract]
        exact_on_args [OF below_memo_contract]])

text \<open>
  What each part needs of the tokenizer and of the engine, for the parts that are on.
\<close>

definition composed_surroundings :: "'w engine \<Rightarrow> core \<Rightarrow> composed_options \<Rightarrow> bool" where
  "composed_surroundings en c co \<longleftrightarrow>
     (let u = composed_flags_of co in
      core_laws c \<and>
      (use_table u \<longrightarrow> table_surroundings c (composed_table_options co u)) \<and>
      (use_hotStrings u \<longrightarrow> hot_safe c) \<and>
      (use_assembly u \<and> use_stringBuiltins u \<longrightarrow>
         (\<forall>ex. en_contexts en (en_key en) = Some ex \<longrightarrow> exports_decode c (en_ptr en) ex)))"

lemma create_base_inv:
  assumes "composed_surroundings en c co" and "create_base en c (composed_flags_of co) = Inr b"
  shows "base_inv c b"
  using assms
  by (auto simp: create_base_def composed_surroundings_def Let_def createStringBuiltinsDecoder_def
      createUtf16AssemblyDecoder_def createBorrowedAssemblyDecoder_def createAssemblyDecoder_def
      builtins_inv_def utf16_inv_def borrowed_inv_def assembly_inv_def raw_inv_def
      split: if_splits option.splits)

lemma createComposedDecoder_inv:
  assumes "composed_surroundings en c co" and "createComposedDecoder en c (Options co) = Inr (u, s)"
  shows "composed_inv c s"
proof -
  let ?u = "composed_flags_of co"
  obtain b tbl hot memo where
    b: "create_base en c ?u = Inr b"
    and tbl: "when_on (use_table ?u)
       (createDecodeTable (en_fl en) (en_hasBuffer en) c (Options (composed_table_options co ?u))) = Inr tbl"
    and hot: "when_on (use_hotStrings ?u) (createHotStringDecoder (en_fl en) c (co_hotStringOptions co)) = Inr hot"
    and memo: "when_on (use_memo ?u) (createDecodeMemo (co_memoOptions co)) = Inr memo"
    and s: "s = (((b, tbl), hot), memo)"
    using assms(2) by (auto simp: createComposedDecoder_def Let_def try_bind_Inr)
  have laws: "core_laws c" using assms(1) by (simp add: composed_surroundings_def Let_def)
  note base = create_base_inv [OF assms(1) b]
  have one: "table_layer_inv c (b, tbl)"
    using tbl base assms(1) createDecodeTable_ok [OF laws]
    by (fastforce simp: layer_inv_def configured_inv_def table_inv_def when_on_Inr composed_surroundings_def Let_def
        split: if_splits)
  have two: "below_memo_inv c ((b, tbl), hot)"
    using hot one assms(1) createHotStringDecoder_ok
    by (auto simp: below_memo_inv_def layer_inv_def hot_inv_def when_on_Inr composed_surroundings_def Let_def
        split: if_splits)
  show ?thesis
    using memo two createDecodeMemo_ok
    by (auto simp: s composed_inv_def layer_inv_def memo_inv_def when_on_Inr split: if_splits)
qed

subsection \<open>The main properties\<close>


definition example_engine :: "u32 list engine" where
  "example_engine = \<lparr>en_hasBuffer = True, en_fl = (\<lambda>q. q), en_contexts = Map.empty,
     en_supported = False, en_key = 0, en_ptr = 0, en_memory = []\<rparr>"

definition example_composed_options :: composed_options where
  "example_composed_options = \<lparr>co_assembly = JUndefined, co_borrowedOutput = JBool True, co_utf16Output = JUndefined,
     co_table = JBool True, co_byteTable = JUndefined, co_mixedRuns = JBool True, co_runCache = JBool True,
     co_nativeLatin1 = JUndefined, co_portableLatin1 = JUndefined, co_fusedValidation = JBool True,
     co_leanDispatch = JUndefined, co_cleanUnroll = JBool True, co_directScratch = JUndefined,
     co_memo = JBool True, co_dirtyRunBatch = JBool True, co_runStitcher = JBool True,
     co_stringBuiltins = JUndefined, co_hotStrings = JBool True,
     co_tableOptions = example_table_options, co_hotStringOptions = Options default_hot_options,
     co_memoOptions = Options default_memo_options\<rparr>"

lemma example_composed_flags: "composed_flags_of example_composed_options =
  \<lparr>use_assembly = True, use_borrowedOutput = True, use_utf16Output = False, use_table = True,
   use_byteTable = False, use_mixedRuns = True, use_runCache = True, use_nativeLatin1 = False,
   use_portableLatin1 = False, use_fusedValidation = True, use_leanDispatch = False, use_cleanUnroll = True,
   use_directScratch = False, use_memo = True, use_dirtyRunBatch = True, use_runStitcher = True,
   use_stringBuiltins = False, use_hotStrings = True\<rparr>"
  by (simp add: composed_flags_of_def example_composed_options_def is_true_def)

lemma example_hot_safe: "hot_safe (table_core example_tokens)"
  by (rule small_table_safe) (simp_all add: example_tokens_def)

lemma example_composed_surroundings:
  "composed_surroundings example_engine (table_core example_tokens) example_composed_options"
  using example_hot_safe unfolding composed_surroundings_def example_composed_flags
  by (simp add: table_surroundings_def composed_table_options_def example_composed_options_def example_table_options_def)

lemma example_composed_created:
  "\<exists>s. createComposedDecoder example_engine (table_core example_tokens) (Options example_composed_options) =
     Inr (composed_flags_of example_composed_options, s)"
proof -
  let ?c = "table_core example_tokens" and ?u = "composed_flags_of example_composed_options"
  have checks: "check_flags ?u = Inr ()"
    unfolding example_composed_flags by (simp add: check_flags_def try_if_def)
  have base: "create_base example_engine ?c ?u = Inr (BorrowedBase 0)"
    unfolding example_composed_flags
    by (simp add: create_base_def createBorrowedAssemblyDecoder_def) (simp add: table_core_def)
  have "\<exists>ct. createDecodeTable (\<lambda>q. q) True ?c (Options (composed_table_options example_composed_options ?u)) = Inr ct"
    unfolding example_composed_flags
    by (simp add: createDecodeTable_def table_config_of_def checked_vocabSize_def nonnegativeInteger_def
      seedIds_def createMaximalRunCache_def run_cache_capacity_def try_if_def Let_def table_core_def
      composed_table_options_def example_composed_options_def example_table_options_def example_tokens_def)
  then obtain ct where tbl: "createDecodeTable (\<lambda>q. q) True ?c (Options (composed_table_options example_composed_options ?u)) = Inr ct" ..
  have hot: "createHotStringDecoder (\<lambda>q. q) ?c (Options default_hot_options) = Inr (fresh_hot 6)"
    using fresh_hot_created [of ?c] by (simp add: example_vocab)
  have on: "use_table ?u" "use_hotStrings ?u" "use_memo ?u" by (simp_all add: example_composed_flags)
  have more: "co_hotStringOptions example_composed_options = Options default_hot_options"
    "co_memoOptions example_composed_options = Options default_memo_options"
    "en_fl example_engine = (\<lambda>q. q)" "en_hasBuffer example_engine = True"
    by (simp_all add: example_composed_options_def example_engine_def)
  show ?thesis
    unfolding createComposedDecoder_def
    by (simp add: Let_def checks base more tbl hot fresh_memo_created on when_on_def)
qed


lemma append_Nil_fun: "(@) [] = (\<lambda>r. r)"
  by (simp add: fun_eq_iff)

lemma gatherTokenBytes_exact:
  "okv (gatherTokenBytes c input) = Option.bind (okv (tokenIds input)) (ref_bytes c)"
proof -
  have fold: "okv (foldl (\<lambda>out tid. try_bind out (\<lambda>pieces. map_sum (\<lambda>e. e) (\<lambda>bytes. pieces @ bytes) (c_tokenBytes c tid))) out ids) =
      Option.bind (okv out) (\<lambda>b. map_option (\<lambda>r. b @ r) (ref_bytes c ids))" for out ids
  proof (induction ids arbitrary: out)
    case Nil
    then show ?case by (cases "okv out") simp_all
  next
    case (Cons tid ids)
    show ?case
      by (cases out; cases "c_tokenBytes c tid"; cases "ref_bytes c ids") (simp_all add: Cons.IH ref_bytes_Cons)
  qed
  show ?thesis by (cases "tokenIds input") (simp_all add: gatherTokenBytes_def fold append_Nil_fun option.map_ident)
qed



text \<open>
  What \<^verbatim>\<open>tokenString\<close> answers, from the hot strings or from the table, after any calls, is
  the decoding of that one token, whose bytes are valid UTF-8.
\<close>

theorem composed_tokenString_sound:
  assumes "composed_surroundings en c co" and "createComposedDecoder en c (Options co) = Inr (u, s)"
    and "composed_tokenString c v (snd (decode_all (composed_decode c) before s)) = Some str"
  shows "ref_decode c (Typed [u32_of_jsval v]) = Some str \<and>
    (\<exists>bs. c_tokenBytes c (u32_of_jsval v) = Inr bs \<and> isValidUtf8 bs)"
proof -
  let ?s = "snd (decode_all (composed_decode c) before s)" and ?tid = "u32_of_jsval v"
  have inv: "composed_inv c ?s"
    using composed.decode_all_exact [OF createComposedDecoder_inv [OF assms(1,2)]] by blast
  obtain b tbl hot memo where s: "?s = (((b, tbl), hot), memo)" by (metis surj_pair)
  have below: "below_memo_inv c ((b, tbl), hot)"
    using inv s by (auto simp: composed_inv_def layer_inv_def memo_inv_def split: option.splits)
  then have tables: "table_layer_inv c (b, tbl)"
    by (auto simp: below_memo_inv_def layer_inv_def hot_inv_def split: option.splits)
  have "tok_state c ?tid = 1 \<and> str = id_text c [?tid]"
  proof (cases "Option.bind hot (hot_tokenString_of v)")
    case (Some str')
    then obtain h where h: "hot = Some h" "hot_tokenString_of v h = Some str'" by (cases hot) auto
    have "hot_ok c h" using below h by (simp add: below_memo_inv_def layer_inv_def hot_inv_def)
    moreover have "cachedString ?tid h = Some str'"
      using h(2) by (auto simp: hot_tokenString_of_def hot_tokenString_def split: if_splits)
    ultimately have "hot_text_ok c ?tid str'" by (rule cachedString_sound)
    moreover have "str = str'" using assms(3) s Some by (simp add: composed_tokenString_def)
    ultimately show ?thesis by (simp add: hot_text_ok_def)
  next
    case None
    then obtain cfg t where t: "tbl = Some (cfg, t)" "tokenString c v t = Some str"
      using assms(3) s by (cases tbl) (auto simp: composed_tokenString_def)
    have "table_ok c cfg t" using tables t by (simp add: layer_inv_def configured_inv_def table_inv_def)
    from tokenString_text [OF this t(2)] show ?thesis .
  qed
  then show ?thesis
    by (auto simp: ref_decode_def ref_text_known tok_state_eqs)
qed


definition hot_only_options :: composed_options where
  "hot_only_options = example_composed_options\<lparr>co_assembly := JBool False, co_borrowedOutput := JUndefined,
     co_table := JUndefined, co_mixedRuns := JUndefined, co_runCache := JUndefined, co_memo := JUndefined,
     co_dirtyRunBatch := JUndefined, co_runStitcher := JUndefined\<rparr>"

lemma hot_only_flags:
  "check_flags (composed_flags_of hot_only_options) = Inr ()" "\<not> use_assembly (composed_flags_of hot_only_options)"
  "\<not> use_table (composed_flags_of hot_only_options)" "use_hotStrings (composed_flags_of hot_only_options)"
  "\<not> use_memo (composed_flags_of hot_only_options)"
  by (simp_all add: composed_flags_of_def hot_only_options_def example_composed_options_def is_true_def
      check_flags_def try_if_def)

theorem composed_tokenString_sound_witness:
  "\<exists>u s. createComposedDecoder example_engine (table_core [[0x41]]) (Options hot_only_options) = Inr (u, s) \<and>
     composed_tokenString (table_core [[0x41]]) (JNum 0)
       (snd (decode_all (composed_decode (table_core [[0x41]])) [plain_array 7 [0]] s)) = Some [0x41] \<and>
     ref_decode (table_core [[0x41]]) (Typed [0]) = Some [0x41]"
proof -
  let ?c = "table_core [[0x41]]" and ?u = "composed_flags_of hot_only_options"
  let ?s = "(((RawBase 0, None), Some (fresh_hot 1)), None) :: u32 list composed"
  have safe: "hot_safe ?c" by (rule small_table_safe) simp_all
  have around: "composed_surroundings example_engine ?c hot_only_options"
    using safe by (simp add: composed_surroundings_def Let_def hot_only_flags)
  have vocab: "c_vocabSize ?c = 1" by (simp add: table_core_def)
  have "co_hotStringOptions hot_only_options = Options default_hot_options"
    by (simp add: hot_only_options_def example_composed_options_def)
  then have made: "createComposedDecoder example_engine ?c (Options hot_only_options) = Inr (?u, ?s)"
    using fresh_hot_created [of ?c]
    by (simp add: createComposedDecoder_def Let_def hot_only_flags create_base_def when_on_def example_engine_def vocab)
  have units: "textDecoder False True [0x41] = Inr [0x41]" by code_simp
  have ids: "tokenIds (ob_input (plain_array 7 [0])) = Inr [0]"
    using tokenIds_u32s [of "[0]"] by (simp add: plain_array_def)
  obtain h where init: "hot_initialize ?c [0] (fresh_hot 1) = (Inr (), h)" "hs_active h"
    "cachedString 0 h = Some [0x41]"
    by (simp add: hot_run_simps fresh_hot_def table_tokenBytes_def units)
  have "composed_tokenString ?c (JNum 0)
       (snd (decode_all (composed_decode ?c) [plain_array 7 [0]] ?s)) = Some [0x41]"
    by (simp add: composed_decode_def below_memo_def with_layer_def hot_decode_def js_simps Let_def ids init del: One_nat_def
        add: composed_tokenString_def hot_tokenString_of_def hot_tokenString_def)
  with composed_tokenString_sound [OF around made this] made show ?thesis by auto
qed

text \<open>The contradictory combinations, as one condition.\<close>

definition contradictory :: "composed_flags \<Rightarrow> bool" where
  "contradictory u \<longleftrightarrow>
     (use_borrowedOutput u \<or> use_utf16Output u) \<and> \<not> use_assembly u \<or>
     use_borrowedOutput u \<and> use_utf16Output u \<or>
     (use_byteTable u \<or> use_mixedRuns u \<or> use_nativeLatin1 u \<or> use_portableLatin1 u) \<and> \<not> use_table u \<or>
     (use_runCache u \<or> use_dirtyRunBatch u) \<and> \<not> use_mixedRuns u \<or>
     use_runStitcher u \<and> \<not> use_dirtyRunBatch u \<or>
     use_stringBuiltins u \<and> (use_borrowedOutput u \<or> use_utf16Output u)"

lemma check_flags_ok: "(check_flags u = Inr ()) = (\<not> contradictory u)"
  unfolding check_flags_def contradictory_def by (simp add: try_bind_Inr) blast

text \<open>
  Which options are refused: contradictory ones always, with a \<^verbatim>\<open>TypeError\<close> before any decoder
  is made; a decoder that was made has the flags of its options, and they are not contradictory.
\<close>

theorem composed_refuses_contradictions:
  "case createComposedDecoder en c (Options co) of
     Inl e \<Rightarrow> (if contradictory (composed_flags_of co) then is_TypeError e else True)
   | Inr (u, s) \<Rightarrow> u = composed_flags_of co \<and> \<not> contradictory u"
proof (cases "check_flags (composed_flags_of co)")
  case (Inl e)
  then have "is_TypeError e" by (auto simp: check_flags_def try_if_def split: if_splits)
  then show ?thesis using Inl by (simp add: createComposedDecoder_def Let_def)
next
  case (Inr u)
  then have ok: "check_flags (composed_flags_of co) = Inr ()" by simp
  show ?thesis
    using ok [unfolded check_flags_ok] ok
    by (auto simp: createComposedDecoder_def Let_def try_bind_def split: sum.splits)
qed

end
