(* ===== verification/Optimization_Config.thy ===== *)
theory Optimization_Config
  imports Composed
begin

text \<open>
  The optimization switches, \<^verbatim>\<open>hypertok-js/src/optimization-config.mjs\<close>: from the caller's
  \<^verbatim>\<open>optimizations\<close> object to the flags of the composed decoder.
\<close>

subsection \<open>The definitions table\<close>

definition buildDefinitions :: "(string \<times> string) list" where
  "buildDefinitions =
     [(''forceSplit'', ''opt-force-split''), (''blockDispatch'', ''opt-block-dispatch''),
      (''relaxedSimd'', ''opt-relaxed-simd''), (''denseGrid'', ''opt-dense-grid''),
      (''scratchReuse'', ''opt-scratch-reuse''), (''marshalling'', ''opt-marshalling''),
      (''chunkPrescan'', ''opt-chunk-prescan''), (''scanTwoPhase'', ''opt-scan-two-phase''),
      (''levelSelect'', ''opt-level-select''), (''residentDiet'', ''opt-resident-diet''),
      (''coldDiet'', ''opt-cold-diet''), (''fusedPairRanks'', ''opt-fused-pair-ranks''),
      (''compactRanks'', ''opt-compact-ranks'')]"

text \<open>Key, whether it is admitted, and its default state.\<close>

definition runtimeDefinitions :: "(string \<times> bool \<times> string) list" where
  "runtimeDefinitions =
     [(''lazyWorkerImage'', True, ''auto''), (''decodeAssembly'', True, ''auto''),
      (''decodeBorrowedOutput'', True, ''auto''), (''decodeUtf16Output'', False, ''off''),
      (''decodeHotStrings'', False, ''auto''), (''decodeTable'', True, ''auto''),
      (''decodeByteTable'', False, ''off''), (''decodeMixedRuns'', True, ''auto''),
      (''decodeRunCache'', True, ''auto''), (''decodeLatin1Native'', False, ''off''),
      (''decodeLatin1Portable'', False, ''off''), (''decodeFusedValidation'', True, ''auto''),
      (''decodeLeanDispatch'', False, ''off''), (''decodeCleanUnroll'', False, ''off''),
      (''decodeDirectScratch'', True, ''auto''), (''decodeMemo'', True, ''auto''),
      (''decodeDirtyRunBatch'', True, ''auto''), (''decodeRunStitcher'', True, ''auto''),
      (''decodeStringBuiltins'', False, ''off'')]"

definition buildOptimizationKeys :: "string list" where
  "buildOptimizationKeys = map fst buildDefinitions"

definition optimizationKeys :: "string list" where
  "optimizationKeys = map fst runtimeDefinitions"

definition admittedOptimizations :: "string list" where
  "admittedOptimizations = map fst (filter (\<lambda>(_, admitted, _). admitted) runtimeDefinitions)"

definition selectedBuildOptimizations :: "string list" where
  "selectedBuildOptimizations =
     [''marshalling'', ''chunkPrescan'', ''scanTwoPhase'', ''levelSelect'', ''coldDiet'', ''fusedPairRanks'']"

definition buildFeatures :: "string list" where
  "buildFeatures =
     map snd (filter (\<lambda>(key, _). key \<in> set selectedBuildOptimizations) buildDefinitions) @
     [''opt-decode-assembly'', ''opt-decode-borrowed-output'', ''opt-decode-utf16-output'',
      ''opt-resolver-provenance'']"

subsection \<open>The caller's object\<close>

text \<open>
  An object is the list of its own enumerable properties, in order; \<^verbatim>\<open>undefined\<close> stands for no
  properties, anything else is refused.
\<close>

datatype configuration = CfgUndefined | CfgObject "(string \<times> jsval) list" | CfgOther

definition configurationObject :: "configuration \<Rightarrow> js_error + (string \<times> jsval) list" where
  "configurationObject v =
     (case v of CfgUndefined \<Rightarrow> Inr [] | CfgObject ps \<Rightarrow> Inr ps
      | CfgOther \<Rightarrow> Inl (TypeError ''optimizations must be an object''))"

fun check_keys :: "string list \<Rightarrow> js_error + unit" where
  "check_keys [] = Inr ()"
| "check_keys (key # ks) =
     (if key \<in> set buildOptimizationKeys
      then Inl (TypeError (key @ '' is fixed when the WebAssembly artifact is built''))
      else if key \<notin> set optimizationKeys then Inl (TypeError (''unknown optimization '' @ key))
      else check_keys ks)"

definition candidate_keys :: "string list" where
  "candidate_keys =
     [''lazyWorkerImage'', ''decodeByteTable'', ''decodeBorrowedOutput'', ''decodeUtf16Output'',
      ''decodeMixedRuns'', ''decodeRunCache'', ''decodeLatin1Native'', ''decodeLatin1Portable'',
      ''decodeFusedValidation'', ''decodeLeanDispatch'', ''decodeCleanUnroll'', ''decodeDirectScratch'',
      ''decodeMemo'', ''decodeDirtyRunBatch'', ''decodeRunStitcher'', ''decodeStringBuiltins'']"

text \<open>The state of one switch: what was given or the default, if it is one of the allowed words.\<close>

definition state_of :: "(string \<times> jsval) list \<Rightarrow> string \<times> bool \<times> string \<Rightarrow> js_error + string" where
  "state_of ps d =
     (case d of (key, _, dflt) \<Rightarrow>
        let given = (case map_of ps key of Some v \<Rightarrow> v | None \<Rightarrow> JStr dflt);
            candidate = (key \<in> set candidate_keys)
        in if given = JStr ''auto'' \<or> given = JStr ''off'' \<or> (candidate \<and> given = JStr ''on'')
           then Inr (case given of JStr s \<Rightarrow> s | _ \<Rightarrow> [])
           else Inl (TypeError (key @ '' must be '' @ (if candidate then ''auto, on, or off'' else ''auto or off''))))"

fun resolve_states ::
  "(string \<times> jsval) list \<Rightarrow> (string \<times> bool \<times> string) list \<Rightarrow>
     js_error + (string \<times> string) list \<times> (string \<times> string) list" where
  "resolve_states ps [] = Inr ([], [])"
| "resolve_states ps (d # ds) =
     try_bind (state_of ps d) (\<lambda>state.
     try_bind (resolve_states ps ds) (\<lambda>(states, overrides).
     Inr ((fst d, state) # states,
          (if map_of ps (fst d) \<noteq> None \<and> state \<noteq> ''auto''
           then (''hypertok.optimizations.'' @ fst d, state) # overrides else overrides))))"

subsection \<open>The resolved configuration\<close>

record optimization_config =
  oc_states :: "(string \<times> string) list"
  oc_admitted :: "string list"
  oc_artifactFeatures :: "string list"
  oc_artifactKey :: string
  oc_overrides :: "(string \<times> string) list"
  oc_lazyWorkerImage :: bool
  oc_decode :: composed_flags
  oc_raw :: bool

definition is_on :: "(string \<times> string) list \<Rightarrow> string \<Rightarrow> bool" where
  "is_on states key \<longleftrightarrow> map_of states key = Some ''on''"

definition admitted :: "(string \<times> string) list \<Rightarrow> string \<Rightarrow> bool" where
  "admitted states key \<longleftrightarrow> map_of states key = Some ''auto'' \<and> key \<in> set admittedOptimizations"

abbreviation on_or_admitted :: "(string \<times> string) list \<Rightarrow> string \<Rightarrow> bool" where
  "on_or_admitted states key \<equiv> is_on states key \<or> admitted states key"

definition check_states :: "(string \<times> string) list \<Rightarrow> js_error + unit" where
  "check_states st =
     try_bind (try_if (is_on st ''decodeByteTable'' \<and> is_on st ''decodeMixedRuns'')
       (TypeError ''decodeByteTable and decodeMixedRuns cannot both be on'')) (\<lambda>_.
     try_bind (try_if (is_on st ''decodeBorrowedOutput'' \<and> is_on st ''decodeUtf16Output'')
       (TypeError ''decodeBorrowedOutput and decodeUtf16Output cannot both be on'')) (\<lambda>_.
     try_if (is_on st ''decodeStringBuiltins'' \<and>
         (is_on st ''decodeBorrowedOutput'' \<or> is_on st ''decodeUtf16Output''))
       (TypeError ''decodeStringBuiltins requires the dedicated assembly endpoint'')))"

definition decode_flags :: "bool \<Rightarrow> (string \<times> string) list \<Rightarrow> composed_flags" where
  "decode_flags nodeRuntime st =
     (let assembly = admitted st ''decodeAssembly'';
          tbl = admitted st ''decodeTable'';
          byteTable = (assembly \<and> on_or_admitted st ''decodeByteTable'');
          mixedRuns = (assembly \<and> \<not> byteTable \<and> on_or_admitted st ''decodeMixedRuns'');
          stringBuiltins = (assembly \<and> on_or_admitted st ''decodeStringBuiltins'');
          dirtyRunBatch = (mixedRuns \<and> tbl \<and> on_or_admitted st ''decodeDirtyRunBatch'')
      in \<lparr>use_assembly = assembly,
          use_borrowedOutput = (assembly \<and> \<not> stringBuiltins \<and> on_or_admitted st ''decodeBorrowedOutput''),
          use_utf16Output = (assembly \<and> \<not> stringBuiltins \<and> nodeRuntime \<and> on_or_admitted st ''decodeUtf16Output''),
          use_table = (assembly \<and> tbl),
          use_byteTable = (byteTable \<and> tbl),
          use_mixedRuns = (mixedRuns \<and> tbl),
          use_runCache = (mixedRuns \<and> tbl \<and> on_or_admitted st ''decodeRunCache''),
          use_nativeLatin1 = (assembly \<and> tbl \<and> on_or_admitted st ''decodeLatin1Native''),
          use_portableLatin1 = (assembly \<and> tbl \<and> on_or_admitted st ''decodeLatin1Portable''),
          use_fusedValidation = (assembly \<and> tbl \<and> on_or_admitted st ''decodeFusedValidation''),
          use_leanDispatch = on_or_admitted st ''decodeLeanDispatch'',
          use_cleanUnroll = on_or_admitted st ''decodeCleanUnroll'',
          use_directScratch = (mixedRuns \<and> tbl \<and> on_or_admitted st ''decodeDirectScratch''),
          use_memo = on_or_admitted st ''decodeMemo'',
          use_dirtyRunBatch = dirtyRunBatch,
          use_runStitcher = (dirtyRunBatch \<and> on_or_admitted st ''decodeRunStitcher''),
          use_stringBuiltins = stringBuiltins,
          use_hotStrings = (assembly \<and> admitted st ''decodeHotStrings'')\<rparr>)"

definition resolveOptimizationConfig :: "bool \<Rightarrow> configuration \<Rightarrow> js_error + optimization_config" where
  "resolveOptimizationConfig nodeRuntime v =
     try_bind (configurationObject v) (\<lambda>ps.
     try_bind (check_keys (map fst ps)) (\<lambda>_.
     try_bind (resolve_states ps runtimeDefinitions) (\<lambda>(states, overrides).
     try_bind (check_states states) (\<lambda>_.
     Inr \<lparr>oc_states = states, oc_admitted = admittedOptimizations, oc_artifactFeatures = buildFeatures,
       oc_artifactKey = js_join '','' buildFeatures, oc_overrides = overrides,
       oc_lazyWorkerImage = on_or_admitted states ''lazyWorkerImage'',
       oc_decode = decode_flags nodeRuntime states,
       oc_raw = (\<not> admitted states ''decodeAssembly'')\<rparr>))))"

text \<open>The flags as \<^verbatim>\<open>createComposedDecoder\<close> is given them: no table, hot string or memo options.\<close>

definition no_table_options :: table_options where
  "no_table_options = \<lparr>to_seedEntries = JUndefined, to_seedIds = None, to_maxTableIds = JUndefined,
     to_maxDirtyDensity = JUndefined, to_byteTable = JUndefined, to_mixedRuns = JUndefined,
     to_runCache = JUndefined, to_nativeLatin1 = JUndefined, to_portableLatin1 = JUndefined,
     to_fusedValidation = JUndefined, to_leanDispatch = JUndefined, to_cleanUnroll = JUndefined,
     to_directScratch = JUndefined, to_dirtyRunBatch = JUndefined, to_runStitcher = JUndefined,
     to_maxMixedDirtyDensity = JUndefined, to_mixedRunPenalty = JUndefined, to_now = NowDefault,
     to_runCacheOptions = Options JUndefined,
     to_nativeLatin1Options = \<lparr>lo_now = NowDefault, lo_nativeUnmap = UnmapDefault, lo_portable = JUndefined\<rparr>\<rparr>"

definition composed_options_of :: "composed_flags \<Rightarrow> composed_options" where
  "composed_options_of u =
     \<lparr>co_assembly = JBool (use_assembly u), co_borrowedOutput = JBool (use_borrowedOutput u),
      co_utf16Output = JBool (use_utf16Output u), co_table = JBool (use_table u),
      co_byteTable = JBool (use_byteTable u), co_mixedRuns = JBool (use_mixedRuns u),
      co_runCache = JBool (use_runCache u), co_nativeLatin1 = JBool (use_nativeLatin1 u),
      co_portableLatin1 = JBool (use_portableLatin1 u), co_fusedValidation = JBool (use_fusedValidation u),
      co_leanDispatch = JBool (use_leanDispatch u), co_cleanUnroll = JBool (use_cleanUnroll u),
      co_directScratch = JBool (use_directScratch u), co_memo = JBool (use_memo u),
      co_dirtyRunBatch = JBool (use_dirtyRunBatch u), co_runStitcher = JBool (use_runStitcher u),
      co_stringBuiltins = JBool (use_stringBuiltins u), co_hotStrings = JBool (use_hotStrings u),
      co_tableOptions = no_table_options, co_hotStringOptions = Options default_hot_options,
      co_memoOptions = Options \<lparr>mo_maxEntries = JUndefined, mo_maxIds = JUndefined, mo_maxOutputCodeUnits = JUndefined\<rparr>\<rparr>"

lemma composed_flags_of_options [simp]: "composed_flags_of (composed_options_of u) = u"
  by (cases u) (simp add: composed_flags_of_def composed_options_of_def is_true_def)

subsection \<open>States\<close>

lemma resolve_states_spec:
  "resolve_states ps ds = Inr (states, overrides) \<Longrightarrow>
     map fst states = map fst ds \<and> set (map snd states) \<subseteq> {''auto'', ''off'', ''on''}"
proof (induction ds arbitrary: states overrides)
  case (Cons d ds)
  from Cons.prems obtain state states' overrides' where
    one: "state_of ps d = Inr state" "resolve_states ps ds = Inr (states', overrides')"
    and states: "states = (fst d, state) # states'"
    by (auto simp: try_bind_Inr)
  have "state \<in> {''auto'', ''off'', ''on''}"
    using one(1) by (auto simp: state_of_def Let_def split: prod.splits if_splits)
  then show ?case using Cons.IH [OF one(2)] states by auto
qed simp

text \<open>The admitted switches, as a list of the keys.\<close>

lemma admitted_keys: "admittedOptimizations =
  [''lazyWorkerImage'', ''decodeAssembly'', ''decodeBorrowedOutput'', ''decodeTable'', ''decodeMixedRuns'',
   ''decodeRunCache'', ''decodeFusedValidation'', ''decodeDirectScratch'', ''decodeMemo'',
   ''decodeDirtyRunBatch'', ''decodeRunStitcher'']"
  by (simp add: admittedOptimizations_def runtimeDefinitions_def)

lemma not_admitted [simp]:
  "\<not> admitted st ''decodeHotStrings''" "\<not> admitted st ''decodeUtf16Output''" "\<not> admitted st ''decodeByteTable''"
  "\<not> admitted st ''decodeStringBuiltins''" "\<not> admitted st ''decodeLatin1Native''" "\<not> admitted st ''decodeLatin1Portable''"
  by (simp_all add: admitted_def admitted_keys)

text \<open>
  Resolution is total and typed: a configuration is either refused with a \<^verbatim>\<open>TypeError\<close>, or
  gives every switch, in the order of the definitions, one of the three states.
\<close>

theorem resolve_total:
  "case resolveOptimizationConfig nodeRuntime v of
     Inl e \<Rightarrow> is_TypeError e
   | Inr r \<Rightarrow> map fst (oc_states r) = optimizationKeys \<and> set (map snd (oc_states r)) \<subseteq> {''auto'', ''off'', ''on''}"
proof -
  have keys: "check_keys ks = Inl e \<Longrightarrow> is_TypeError e" for ks e
    by (induction ks) (auto split: if_splits)
  have states: "resolve_states ps ds = Inl e \<Longrightarrow> is_TypeError e" for ps ds e
  proof (induction ds)
    case (Cons d ds)
    then show ?case
      by (cases "state_of ps d"; cases "resolve_states ps ds")
        (auto simp: state_of_def Let_def split: prod.splits if_splits)
  qed simp
  have checks: "check_states st = Inl e \<Longrightarrow> is_TypeError e" for st e
    by (auto simp: check_states_def try_if_def split: if_splits)
  show ?thesis
  proof (cases "resolveOptimizationConfig nodeRuntime v")
    case (Inl e)
    then have "is_TypeError e"
      using keys states checks
      by (auto simp: resolveOptimizationConfig_def try_bind_def configurationObject_def
          split: sum.splits configuration.splits prod.splits)
    then show ?thesis using Inl by simp
  next
    case (Inr r)
    then obtain ps overrides where "resolve_states ps runtimeDefinitions = Inr (oc_states r, overrides)"
      by (auto simp: resolveOptimizationConfig_def try_bind_Inr)
    from resolve_states_spec [OF this] show ?thesis using Inr by (simp add: optimizationKeys_def)
  qed
qed

text \<open>
  The configuration nobody changed: what the package does by default.
\<close>

theorem default_configuration:
  "\<exists>r. resolveOptimizationConfig nodeRuntime CfgUndefined = Inr r \<and> oc_lazyWorkerImage r \<and> oc_overrides r = [] \<and> \<not> oc_raw r \<and>
     oc_decode r = \<lparr>use_assembly = True, use_borrowedOutput = True, use_utf16Output = False, use_table = True,
       use_byteTable = False, use_mixedRuns = True, use_runCache = True, use_nativeLatin1 = False,
       use_portableLatin1 = False, use_fusedValidation = True, use_leanDispatch = False, use_cleanUnroll = False,
       use_directScratch = True, use_memo = True, use_dirtyRunBatch = True, use_runStitcher = True,
       use_stringBuiltins = False, use_hotStrings = False\<rparr>"
  by (simp add: resolveOptimizationConfig_def configurationObject_def runtimeDefinitions_def state_of_def
      check_states_def try_if_def is_on_def decode_flags_def admitted_def admitted_keys Let_def)

text \<open>
  Every resolved configuration is one the composed decoder accepts, but for one: borrowed
  output and UTF-16 output together, which happens exactly when, in Node, UTF-16 output is switched
  on while borrowed output is left to its default.
\<close>

theorem resolved_flags_accepted:
  assumes "resolveOptimizationConfig nodeRuntime v = Inr r"
  shows "(check_flags (oc_decode r) = Inr ()) =
    (\<not> (use_assembly (oc_decode r) \<and> \<not> use_stringBuiltins (oc_decode r) \<and> nodeRuntime \<and>
         is_on (oc_states r) ''decodeUtf16Output'' \<and> map_of (oc_states r) ''decodeBorrowedOutput'' = Some ''auto''))"
proof -
  obtain st where r: "oc_decode r = decode_flags nodeRuntime st" "oc_states r = st" "check_states st = Inr ()"
    using assms by (auto simp: resolveOptimizationConfig_def try_bind_Inr)
  have borrowed: "admitted st ''decodeBorrowedOutput'' \<longleftrightarrow> map_of st ''decodeBorrowedOutput'' = Some ''auto''"
    by (simp add: admitted_def admitted_keys)
  have "\<not> (is_on st ''decodeBorrowedOutput'' \<and> is_on st ''decodeUtf16Output'')"
    using r(3) by (simp add: check_states_def try_bind_Inr)
  then show ?thesis
    unfolding check_flags_ok contradictory_def r(1,2)
    by (auto simp: decode_flags_def Let_def borrowed)
qed


lemma resolve_object:
  "check_keys (map fst ps) = Inr () \<Longrightarrow> resolve_states ps runtimeDefinitions = Inr (st, ov) \<Longrightarrow> check_states st = Inr () \<Longrightarrow>
     resolveOptimizationConfig node (CfgObject ps) = Inr \<lparr>oc_states = st, oc_admitted = admittedOptimizations,
       oc_artifactFeatures = buildFeatures, oc_artifactKey = js_join '','' buildFeatures, oc_overrides = ov,
       oc_lazyWorkerImage = on_or_admitted st ''lazyWorkerImage'', oc_decode = decode_flags node st,
       oc_raw = (\<not> admitted st ''decodeAssembly'')\<rparr>"
  by (simp add: resolveOptimizationConfig_def configurationObject_def)

definition utf16_states :: "(string \<times> string) list" where
  "utf16_states = map (\<lambda>(k, _, d). (k, if k = ''decodeUtf16Output'' then ''on'' else d)) runtimeDefinitions"

lemma utf16_resolved:
  "resolve_states [(''decodeUtf16Output'', JStr ''on'')] runtimeDefinitions =
     Inr (utf16_states, [(''hypertok.optimizations.decodeUtf16Output'', ''on'')])"
  by (simp add: runtimeDefinitions_def utf16_states_def state_of_def candidate_keys_def)

lemma utf16_keys: "check_keys [''decodeUtf16Output''] = Inr ()"
  by (simp add: buildOptimizationKeys_def buildDefinitions_def optimizationKeys_def runtimeDefinitions_def)

lemma utf16_checked: "check_states utf16_states = Inr ()"
  by (simp add: check_states_def utf16_states_def runtimeDefinitions_def is_on_def try_if_def)

lemma utf16_configuration:
  "\<exists>r. resolveOptimizationConfig node (CfgObject [(''decodeUtf16Output'', JStr ''on'')]) = Inr r \<and>
     oc_states r = utf16_states \<and> oc_decode r = decode_flags node utf16_states"
  using resolve_object [OF _ utf16_resolved utf16_checked] utf16_keys by simp

theorem resolved_flags_accepted_witness:
  "\<exists>r. resolveOptimizationConfig False (CfgObject [(''decodeUtf16Output'', JStr ''on'')]) = Inr r \<and>
     check_flags (oc_decode r) = Inr ()"
  using utf16_configuration [of False] resolved_flags_accepted [of False "CfgObject [(''decodeUtf16Output'', JStr ''on'')]"]
  by blast


subsection \<open>From the configuration to exact decoding\<close>

definition core_complete :: "core \<Rightarrow> bool" where
  "core_complete c \<longleftrightarrow> 1 \<le> c_vocabSize c \<and> c_vocabSize c \<le> 9007199254740991 \<and>
     c_assemblyBytes c \<noteq> None \<and> c_borrowedView c \<noteq> None \<and> c_utf16 c \<noteq> None"

lemma resolved_table_created:
  assumes "core_complete c" and "check_flags u = Inr ()" and "use_directScratch u \<longrightarrow> use_mixedRuns u"
  shows "\<exists>ct. createDecodeTable fl hasBuffer c (Options (composed_table_options (composed_options_of u) u)) = Inr ct"
  using assms unfolding check_flags_ok contradictory_def
  by (auto simp: createDecodeTable_def table_config_of_def checked_vocabSize_def nonnegativeInteger_def
      seedIds_def createMaximalRunCache_def run_cache_capacity_def try_if_def Let_def core_complete_def
      composed_table_options_def composed_options_of_def no_table_options_def createNativeLatin1Decoder_def
      native_unmap_of_def unmap_available_def when_on_def split: sum.splits)

lemma resolved_facts:
  assumes "resolveOptimizationConfig nodeRuntime v = Inr r"
  shows "\<not> use_hotStrings (oc_decode r)" and "use_directScratch (oc_decode r) \<Longrightarrow> use_mixedRuns (oc_decode r)"
    and "use_stringBuiltins (oc_decode r) \<Longrightarrow> use_assembly (oc_decode r)"
  using assms by (auto simp: resolveOptimizationConfig_def try_bind_Inr decode_flags_def Let_def)

lemma when_on_value: "when_on w (Inr a) = Inr (if w then Some a else None)"
  by (simp add: when_on_def)

lemma when_on_off: "when_on False q = Inr None"
  by (simp add: when_on_def)

text \<open>
  What a caller of the package gets: with any accepted configuration other than the one above,
  over a tokenizer that keeps its laws and exports its endpoints, the decoder is made, and from
  then on every call, in any order, with any arrays, returns the lossy UTF-8 text of the ids it is
  given, and throws exactly for an invalid input or an unknown id. No switch is visible in a result.
\<close>

theorem configured_decode_exact:
  assumes "resolveOptimizationConfig nodeRuntime v = Inr r"
    and "\<not> (use_borrowedOutput (oc_decode r) \<and> use_utf16Output (oc_decode r))"
    and "core_laws c" and "core_complete c" and "use_byteTable (oc_decode r) \<Longrightarrow> arena_fits c"
    and "use_stringBuiltins (oc_decode r) \<Longrightarrow>
      \<exists>ex. en_contexts en (en_key en) = Some ex \<and> exports_decode c (en_ptr en) ex"
  shows "\<exists>s. createComposedDecoder en c (Options (composed_options_of (oc_decode r))) = Inr (oc_decode r, s) \<and>
    (\<forall>args. map okv (fst (decode_all (composed_decode c) args s)) = map (\<lambda>a. ref_decode c (ob_input a)) args)"
proof -
  let ?u = "oc_decode r" and ?co = "composed_options_of (oc_decode r)"
  obtain st where r: "?u = decode_flags nodeRuntime st"
    using assms(1) by (auto simp: resolveOptimizationConfig_def try_bind_Inr)
  have flags: "check_flags ?u = Inr ()"
    using assms(2) unfolding check_flags_ok contradictory_def r by (auto simp: decode_flags_def Let_def)
  note facts = resolved_facts [OF assms(1)]
  have base: "\<exists>b. create_base en c ?u = Inr b"
    using assms(4,6) facts(3)
    by (auto simp: create_base_def core_complete_def createStringBuiltinsDecoder_def createUtf16AssemblyDecoder_def
        createBorrowedAssemblyDecoder_def createAssemblyDecoder_def)
  then obtain b where b: "create_base en c ?u = Inr b" ..
  obtain ct where ct: "createDecodeTable (en_fl en) (en_hasBuffer en) c (Options (composed_table_options ?co ?u)) = Inr ct"
    using resolved_table_created [OF assms(4) flags] facts(2) by blast
  obtain m where m: "createDecodeMemo (co_memoOptions ?co) = Inr m"
    by (simp add: composed_options_of_def createDecodeMemo_def memo_positiveInteger_def try_if_def)
  obtain s where s: "createComposedDecoder en c (Options ?co) = Inr (?u, s)"
    by (simp add: createComposedDecoder_def Let_def flags b ct m when_on_value when_on_off facts(1))
  have "table_surroundings c (composed_table_options ?co ?u)"
    using assms(5)
    by (simp add: table_surroundings_def composed_table_options_def composed_options_of_def no_table_options_def)
  then have around: "composed_surroundings en c ?co"
    using assms(3,6) facts(1) by (auto simp: composed_surroundings_def Let_def)
  show ?thesis using s composed.decode_all_exact [OF createComposedDecoder_inv [OF around s]] by blast
qed

theorem configured_decode_exact_witness:
  "\<exists>r s. resolveOptimizationConfig True CfgUndefined = Inr r \<and>
     createComposedDecoder example_engine (table_core example_tokens) (Options (composed_options_of (oc_decode r))) =
       Inr (oc_decode r, s) \<and>
     map okv (fst (decode_all (composed_decode (table_core example_tokens)) memo_session s)) =
       map (\<lambda>a. ref_decode (table_core example_tokens) (ob_input a)) memo_session"
proof -
  obtain r where r: "resolveOptimizationConfig True CfgUndefined = Inr r"
    "\<not> use_utf16Output (oc_decode r)" "\<not> use_byteTable (oc_decode r)" "\<not> use_stringBuiltins (oc_decode r)"
    by (simp add: resolveOptimizationConfig_def configurationObject_def runtimeDefinitions_def state_of_def
      check_states_def try_if_def is_on_def decode_flags_def admitted_def admitted_keys Let_def)
  have complete: "core_complete (table_core example_tokens)"
    by (simp add: core_complete_def example_vocab) (simp add: table_core_def)
  show ?thesis
    using configured_decode_exact [OF r(1) _ table_core_laws complete, of example_engine] r by blast
qed

end
