(* ===== verification/Data_View.thy ===== *)
theory Data_View
  imports Prelude
begin

text \<open>
  Little-endian reads of a \<^verbatim>\<open>DataView\<close>, as \<^verbatim>\<open>resolver-provenance.mjs\<close> and
  \<^verbatim>\<open>public-runtime.mjs\<close> use them: a read that does not lie in the view throws.
\<close>

definition view_error :: js_error where
  "view_error = RangeError ''Offset is outside the bounds of the DataView''"

text \<open>The number whose base-256 digits, least significant first, are the bytes.\<close>

fun le_nat :: "bytes \<Rightarrow> nat" where
  "le_nat [] = 0"
| "le_nat (b # bs) = unat b + 256 * le_nat bs"

definition get_le :: "nat \<Rightarrow> bytes \<Rightarrow> nat \<Rightarrow> js_error + nat" where
  "get_le width bs offset =
     (if offset + width \<le> length bs then Inr (le_nat (take width (drop offset bs))) else Inl view_error)"

definition getUint8 :: "bytes \<Rightarrow> nat \<Rightarrow> js_error + nat" where
  "getUint8 = get_le 1"

definition getUint16 :: "bytes \<Rightarrow> nat \<Rightarrow> js_error + nat" where
  "getUint16 = get_le 2"

definition getUint32 :: "bytes \<Rightarrow> nat \<Rightarrow> js_error + nat" where
  "getUint32 = get_le 4"

definition getBigUint64 :: "bytes \<Rightarrow> nat \<Rightarrow> js_error + nat" where
  "getBigUint64 = get_le 8"

lemma le_nat_less: "le_nat bs < 256 ^ length bs"
proof (induction bs)
  case (Cons b bs)
  have "256 * (le_nat bs + 1) \<le> 256 * 256 ^ length bs" using Cons by (intro mult_le_mono2) simp
  moreover have "unat b \<le> 255" using unat_u8_less [of b] by linarith
  ultimately show ?case by simp
qed simp

lemma getUint_in_view:
  "offset + 1 \<le> length bs \<Longrightarrow> \<exists>n. getUint8 bs offset = Inr n"
  "offset + 2 \<le> length bs \<Longrightarrow> \<exists>n. getUint16 bs offset = Inr n"
  "offset + 4 \<le> length bs \<Longrightarrow> \<exists>n. getUint32 bs offset = Inr n"
  "offset + 8 \<le> length bs \<Longrightarrow> \<exists>n. getBigUint64 bs offset = Inr n"
  by (simp_all add: getUint8_def getUint16_def getUint32_def getBigUint64_def get_le_def)

text \<open>The bytes of a number, and reading them back from the middle of a view.\<close>

fun le_bytes :: "nat \<Rightarrow> nat \<Rightarrow> bytes" where
  "le_bytes 0 n = []"
| "le_bytes (Suc w) n = of_nat (n mod 256) # le_bytes w (n div 256)"

lemma length_le_bytes [simp]: "length (le_bytes w n) = w"
  by (induction w arbitrary: n) simp_all

lemma le_nat_le_bytes: "n < 256 ^ w \<Longrightarrow> le_nat (le_bytes w n) = n"
proof (induction w arbitrary: n)
  case (Suc w)
  have "n div 256 < 256 ^ w" using Suc.prems by (simp add: less_mult_imp_div_less mult.commute)
  moreover have "unat (of_nat (n mod 256) :: u8) = n mod 256"
    by (simp add: unat_of_nat take_bit_nat_def)
  ultimately show ?case using Suc.IH by simp
qed simp

lemma get_le_bytes:
  "n < 256 ^ w \<Longrightarrow> get_le w (xs @ le_bytes w n @ ys) (length xs) = Inr n"
  by (simp add: get_le_def le_nat_le_bytes)

end
