(* ===== verification/Provenance.thy ===== *)
theory Provenance
  imports Data_View
begin

text \<open>
  Handles of resolved vocabularies, \<^verbatim>\<open>hypertok-js/src/resolver-provenance.mjs\<close>: the bytes a
  resolver returned are copied, and the copy is only reachable through a module-private map. Typed
  arrays are addresses into a store of buffers, so that writing through an alias is visible.
\<close>

subsection \<open>Handles\<close>

record provenance =
  pv_buffers :: "bytes list"
  pv_bytesByHandle :: "nat \<rightharpoonup> nat"
  pv_handles :: nat

text \<open>A value a resolver returns: a typed array or an array buffer at an address, or something else.\<close>

datatype vocab_value = VocabTyped nat | VocabBuffer nat | VocabOther

definition vocabularyBytes :: "vocab_value \<Rightarrow> js_error + nat" where
  "vocabularyBytes v =
     (case v of VocabTyped addr \<Rightarrow> Inr addr | VocabBuffer addr \<Rightarrow> Inr addr
      | VocabOther \<Rightarrow> Inl (TypeError ''vocabulary resolver returned non-byte data''))"

text \<open>\<^verbatim>\<open>new Uint8Array(array)\<close>: a fresh buffer with the same contents.\<close>

definition copy_buffer :: "nat \<Rightarrow> (provenance, nat) js" where
  "copy_buffer addr = (\<lambda>p. (Inr (length (pv_buffers p)), p\<lparr>pv_buffers := pv_buffers p @ [pv_buffers p ! addr]\<rparr>))"

definition createResolvedVocabHandle :: "vocab_value \<Rightarrow> (provenance, nat) js" where
  "createResolvedVocabHandle v =
     js_bind (js_lift (vocabularyBytes v)) (\<lambda>addr.
     js_bind (copy_buffer addr) (\<lambda>ownedBytes p.
       (Inr (pv_handles p),
        p\<lparr>pv_handles := pv_handles p + 1,
          pv_bytesByHandle := (pv_bytesByHandle p)(pv_handles p \<mapsto> ownedBytes)\<rparr>)))"

text \<open>The loader around a resolver, whose outcome is a parameter.\<close>

definition createResolvedVocabLoader :: "(js_error + vocab_value) option \<Rightarrow> (provenance, nat) js" where
  "createResolvedVocabLoader resolve =
     (case resolve of
        None \<Rightarrow> js_throw (TypeError ''resolve must be a function'')
      | Some outcome \<Rightarrow> js_bind (js_lift outcome) createResolvedVocabHandle)"

definition isResolvedVocabHandle :: "nat \<Rightarrow> provenance \<Rightarrow> bool" where
  "isResolvedVocabHandle handle p \<longleftrightarrow> pv_bytesByHandle p handle \<noteq> None"

definition resolverOwnedBytes :: "nat \<Rightarrow> (provenance, nat) js" where
  "resolverOwnedBytes handle = (\<lambda>p.
     case pv_bytesByHandle p handle of
       None \<Rightarrow> (Inl (TypeError ''trusted construction requires a resolver-owned vocabulary handle''), p)
     | Some addr \<Rightarrow> (Inr addr, p))"

text \<open>The getter \<^verbatim>\<open>handle.bytes\<close>: a copy for every read.\<close>

definition handle_bytes :: "nat \<Rightarrow> (provenance, nat) js" where
  "handle_bytes handle = js_bind (resolverOwnedBytes handle) copy_buffer"

subsection \<open>What code outside the module can do\<close>

text \<open>
  A caller holds arrays it made and arrays it was given; it writes into them, makes handles of
  them and reads the bytes of handles. The ghost component records what each handle was made of.
\<close>

type_synonym caller_state = "provenance \<times> nat set \<times> (nat \<rightharpoonup> bytes)"

inductive caller_step :: "caller_state \<Rightarrow> caller_state \<Rightarrow> bool" where
  caller_new:
    "caller_step (p, known, made)
       (p\<lparr>pv_buffers := pv_buffers p @ [bs]\<rparr>, insert (length (pv_buffers p)) known, made)"
| caller_write:
    "addr \<in> known \<Longrightarrow>
     caller_step (p, known, made) (p\<lparr>pv_buffers := (pv_buffers p)[addr := bs]\<rparr>, known, made)"
| caller_create:
    "vocabularyBytes v = Inr addr \<Longrightarrow> addr \<in> known \<Longrightarrow> createResolvedVocabHandle v p = (Inr h, p') \<Longrightarrow>
     caller_step (p, known, made) (p', known, made(h \<mapsto> pv_buffers p ! addr))"
| caller_read:
    "handle_bytes h p = (Inr addr, p') \<Longrightarrow>
     caller_step (p, known, made) (p', insert addr known, made)"

inductive caller_reaches :: "caller_state \<Rightarrow> bool" where
  caller_start: "caller_reaches (\<lparr>pv_buffers = [], pv_bytesByHandle = Map.empty, pv_handles = 0\<rparr>, {}, Map.empty)"
| caller_next: "caller_reaches s \<Longrightarrow> caller_step s s' \<Longrightarrow> caller_reaches s'"

inductive_cases caller_stepE: "caller_step (p, known, made) s'"

definition isolated :: "caller_state \<Rightarrow> bool" where
  "isolated s \<longleftrightarrow> (case s of (p, known, made) \<Rightarrow>
     (\<forall>addr \<in> known. addr < length (pv_buffers p)) \<and>
     (\<forall>h. h \<ge> pv_handles p \<longrightarrow> pv_bytesByHandle p h = None) \<and>
     (\<forall>h. pv_bytesByHandle p h = None \<longleftrightarrow> made h = None) \<and>
     (\<forall>h addr. pv_bytesByHandle p h = Some addr \<longrightarrow>
        addr < length (pv_buffers p) \<and> addr \<notin> known \<and> made h = Some (pv_buffers p ! addr)))"

lemma isolated_step:
  assumes "caller_step s s'" and "isolated s"
  shows "isolated s'"
  using assms
proof (induction rule: caller_step.induct)
  case (caller_new p known made bs)
  then show ?case by (auto simp: isolated_def nth_append less_SucI)
next
  case (caller_write addr known p made bs)
  then show ?case by (fastforce simp: isolated_def nth_list_update)
next
  case (caller_create v addr known p h p' made)
  have "h = pv_handles p" and p': "p' = p\<lparr>pv_buffers := pv_buffers p @ [pv_buffers p ! addr],
      pv_handles := pv_handles p + 1,
      pv_bytesByHandle := (pv_bytesByHandle p)(pv_handles p \<mapsto> length (pv_buffers p))\<rparr>"
    using caller_create by (auto simp: createResolvedVocabHandle_def copy_buffer_def js_simps)
  then show ?case using caller_create by (auto simp: isolated_def nth_append less_SucI)
next
  case (caller_read h p addr p' known made)
  obtain a where a: "pv_bytesByHandle p h = Some a" "addr = length (pv_buffers p)"
    "p' = p\<lparr>pv_buffers := pv_buffers p @ [pv_buffers p ! a]\<rparr>"
    using caller_read(1) by (auto simp: handle_bytes_def resolverOwnedBytes_def copy_buffer_def js_simps split: option.splits)
  then show ?case using caller_read by (fastforce simp: isolated_def nth_append less_SucI)
qed

lemma isolated_reaches: "caller_reaches s \<Longrightarrow> isolated s"
proof (induction rule: caller_reaches.induct)
  case caller_start
  show ?case by (simp add: isolated_def)
next
  case (caller_next s s')
  then show ?case using isolated_step by blast
qed

text \<open>
  A handle keeps the bytes it was made of: whatever a caller does afterwards with the array it
  passed, with the arrays the handle's getter returned and with other handles, the bytes trusted
  construction reads are those the resolver returned; and the getter hands out an array with these
  bytes that is not the trusted one.
\<close>

theorem handle_bytes_isolated:
  assumes "caller_reaches (p, known, made)" and "made h = Some bs"
  shows "isResolvedVocabHandle h p \<and>
    (\<exists>addr. resolverOwnedBytes h p = (Inr addr, p) \<and> pv_buffers p ! addr = bs \<and> addr \<notin> known \<and>
       (\<exists>copy p'. handle_bytes h p = (Inr copy, p') \<and> copy \<noteq> addr \<and> pv_buffers p' ! copy = bs))"
proof -
  have "isolated (p, known, made)" using assms(1) by (rule isolated_reaches)
  then obtain addr where addr: "pv_bytesByHandle p h = Some addr" "pv_buffers p ! addr = bs" "addr \<notin> known"
    "addr < length (pv_buffers p)"
    using assms(2) by (cases "pv_bytesByHandle p h") (auto simp: isolated_def)
  then show ?thesis
    by (auto simp: isResolvedVocabHandle_def resolverOwnedBytes_def handle_bytes_def copy_buffer_def js_simps nth_append)
qed

theorem handle_bytes_isolated_witness:
  "\<exists>p known made. caller_reaches (p, known, made) \<and> made 0 = Some [1, 2] \<and> pv_buffers p ! 0 = [9] \<and>
     (\<exists>addr. resolverOwnedBytes 0 p = (Inr addr, p) \<and> pv_buffers p ! addr = [1, 2])"
proof -
  let ?p0 = "\<lparr>pv_buffers = [], pv_bytesByHandle = Map.empty, pv_handles = 0\<rparr>"
  let ?p1 = "?p0\<lparr>pv_buffers := [[1, 2]]\<rparr>"
  let ?p2 = "\<lparr>pv_buffers = [[1, 2], [1, 2]], pv_bytesByHandle = [0 \<mapsto> 1], pv_handles = 1\<rparr>"
  let ?p3 = "?p2\<lparr>pv_buffers := [[9], [1, 2]]\<rparr>"
  have "caller_reaches (?p1, {0}, Map.empty)"
    using caller_next [OF caller_start caller_new [of ?p0 "{}" Map.empty "[1, 2]"]] by simp
  moreover have "caller_step (?p1, {0}, Map.empty) (?p2, {0}, [0 \<mapsto> [1, 2]])"
    using caller_create [of "VocabTyped 0" 0 "{0}" ?p1 0 ?p2 Map.empty]
    by (simp add: vocabularyBytes_def createResolvedVocabHandle_def copy_buffer_def js_simps)
  ultimately have "caller_reaches (?p2, {0}, [0 \<mapsto> [1, 2]])" by (rule caller_next)
  then have "caller_reaches (?p3, {0}, [0 \<mapsto> [1, 2]])"
    using caller_next caller_write [of 0 "{0}" ?p2 "[0 \<mapsto> [1, 2]]" "[9]"] by fastforce
  with handle_bytes_isolated [OF this, of 0 "[1, 2]"] show ?thesis by fastforce
qed

subsection \<open>The worker image inside a vocabulary\<close>

text \<open>The check of one section of the file and the slice of its worker image.\<close>

definition built_state_image :: "bytes \<Rightarrow> nat \<Rightarrow> js_error + bytes" where
  "built_state_image bytes entry =
     try_bind (getUint32 bytes (entry + 4)) (\<lambda>sectionOffset.
     try_bind (getBigUint64 bytes (entry + 8)) (\<lambda>sectionLength.
     try_bind (try_if (9007199254740991 < sectionLength \<or> length bytes < sectionOffset + sectionLength)
       (RangeError ''resolver-owned built-state section is out of bounds'')) (\<lambda>_.
     try_bind (try_if (sectionLength < 64)
       (RangeError ''resolver-owned built-state header is truncated'')) (\<lambda>_.
     try_bind (getUint32 bytes (sectionOffset + 20)) (\<lambda>lookupLength.
     try_bind (getUint32 bytes (sectionOffset + 24)) (\<lambda>workerLength.
     let workerStart = sectionOffset + 64 + lookupLength;
         workerEnd = workerStart + workerLength
     in try_bind (try_if (sectionOffset + sectionLength < workerEnd)
          (RangeError ''resolver-owned worker image is out of bounds'')) (\<lambda>_.
        Inr (take (workerEnd - workerStart) (drop workerStart bytes)))))))))"

fun find_built_state :: "bytes \<Rightarrow> nat \<Rightarrow> nat list \<Rightarrow> js_error + bytes" where
  "find_built_state bytes tableOffset [] =
     Inl (RangeError ''resolver-owned vocabulary has no built-state section'')"
| "find_built_state bytes tableOffset (index # rest) =
     (let entry = tableOffset + index * 16 in
      try_bind (getUint32 bytes entry) (\<lambda>tag.
      if tag \<noteq> 1026 then find_built_state bytes tableOffset rest
      else built_state_image bytes entry))"

definition worker_image_of :: "bytes \<Rightarrow> js_error + bytes" where
  "worker_image_of bytes =
     try_bind (try_if (length bytes < 64)
       (RangeError ''resolver-owned vocabulary header is truncated'')) (\<lambda>_.
     try_bind (getUint32 bytes 24) (\<lambda>sectionCount.
     try_bind (getUint32 bytes 28) (\<lambda>tableOffset.
     let tableLength = sectionCount * 16 in
     try_bind (try_if (9007199254740991 < tableLength \<or> length bytes < tableOffset + tableLength)
       (RangeError ''resolver-owned vocabulary section table is out of bounds'')) (\<lambda>_.
     find_built_state bytes tableOffset [0..<sectionCount]))))"

definition resolverOwnedWorkerImage :: "nat \<Rightarrow> (provenance, bytes) js" where
  "resolverOwnedWorkerImage handle =
     js_bind (resolverOwnedBytes handle) (\<lambda>addr p. (worker_image_of (pv_buffers p ! addr), p))"

definition image_outcome :: "bytes \<Rightarrow> js_error + bytes \<Rightarrow> bool" where
  "image_outcome bytes r \<longleftrightarrow>
     (case r of Inl e \<Rightarrow> e \<noteq> view_error \<and> (\<exists>m. e = RangeError m)
      | Inr img \<Rightarrow> \<exists>before after. bytes = before @ img @ after \<and> 64 \<le> length before)"

lemma built_state_image_bounds:
  assumes "entry + 16 \<le> length bytes"
  shows "image_outcome bytes (built_state_image bytes entry)"
proof -
  obtain so sl where so: "getUint32 bytes (entry + 4) = Inr so" and sl: "getBigUint64 bytes (entry + 8) = Inr sl"
    using assms getUint_in_view(3) [of "entry + 4" bytes] getUint_in_view(4) [of "entry + 8" bytes] by auto
  show ?thesis
  proof (cases "9007199254740991 < sl \<or> length bytes < so + sl \<or> sl < 64")
    case True
    then show ?thesis by (auto simp: built_state_image_def so sl try_if_def image_outcome_def view_error_def)
  next
    case False
    then obtain ll wl where ll: "getUint32 bytes (so + 20) = Inr ll" and wl: "getUint32 bytes (so + 24) = Inr wl"
      using getUint_in_view(3) [of "so + 20" bytes] getUint_in_view(3) [of "so + 24" bytes] by auto
    let ?start = "so + 64 + ll"
    show ?thesis
    proof (cases "so + sl < ?start + wl")
      case True
      then show ?thesis using False
        by (simp add: built_state_image_def so sl ll wl try_if_def image_outcome_def view_error_def Let_def)
    next
      case fits: False
      have "bytes = take ?start bytes @ take wl (drop ?start bytes) @ drop (?start + wl) bytes"
        by (metis append.assoc append_take_drop_id take_add)
      moreover have "64 \<le> length (take ?start bytes)" using fits False by simp
      ultimately have "image_outcome bytes (Inr (take wl (drop ?start bytes)))"
        unfolding image_outcome_def by auto
      then show ?thesis using False fits
        by (simp add: built_state_image_def so sl ll wl try_if_def Let_def)
    qed
  qed
qed

lemma find_built_state_bounds:
  assumes "\<forall>k \<in> set idxs. tableOffset + k * 16 + 16 \<le> length bytes"
  shows "image_outcome bytes (find_built_state bytes tableOffset idxs)"
  using assms
proof (induction idxs)
  case Nil
  then show ?case by (simp add: image_outcome_def view_error_def)
next
  case (Cons k ks)
  obtain tag where tag: "getUint32 bytes (tableOffset + k * 16) = Inr tag"
    using Cons.prems getUint_in_view(3) [of "tableOffset + k * 16" bytes] by auto
  show ?case
  proof (cases "tag = 1026")
    case True
    have "image_outcome bytes (built_state_image bytes (tableOffset + k * 16))"
      by (rule built_state_image_bounds) (use Cons.prems in simp)
    then show ?thesis by (simp add: tag True Let_def)
  qed (use Cons tag in \<open>simp add: Let_def\<close>)
qed


end
