(* ===== verification/Vocab.thy ===== *)
theory Vocab
  imports Provenance
begin

text \<open>
  Loading a vocabulary: \<^verbatim>\<open>hypertok-js/src/vocab-resolve.mjs\<close> and
  \<^verbatim>\<open>hypertok-js/src/vocab-integrity.mjs\<close>. The readers, the network and the SHA-256 of the
  platform are parameters; what is modelled is which of them is asked, with what, and which bytes
  are returned.
\<close>

subsection \<open>Pinned digests\<close>

definition VOCAB_FILE_SHA256 :: "(string \<times> (string \<times> string) list) list" where
  "VOCAB_FILE_SHA256 =
     [(''cl100k'', [(''vocab.htk'', ''5fbde1cb8074b6198ea469711a33e68af2767bdf643bb694f0edf604a2831703'')]),
      (''command-a-plus'', [(''vocab.htk'', ''45fbdf64ea065e53e663ddf0c2ee1921bb03c382913ea33e06a3b80d0c1be3f7'')]),
      (''deepseek-v4'', [(''vocab.htk'', ''33d3a40a01a6df36bbf98f2be967eef442e7fff0b6ffe766c2b7f987134a06f3'')]),
      (''gemma4'', [(''vocab.htk'', ''ca4760bc8f7cf29793680e507ed154a3dfa02cb637e6cc87ec5fa5ececa05205'')]),
      (''glm5-2'', [(''vocab.htk'', ''3f381aca611a9d665d43c5b3d72411f02bb909dc665f0ca8ead6a8940c54a9d0'')]),
      (''gpt2'', [(''vocab.htk'', ''17e4cc7df1f4d95b80c43df52ecc31f9e5931a319e9964cffbf9dc4ed88c9da2'')]),
      (''kimi-k3'', [(''vocab.htk'', ''4e0cce4ec2b4b78733882d10756703bdb99db1cada31fc2c3280b0e05c71ab36'')]),
      (''llama3'', [(''vocab.htk'', ''33e1857c9b2ec0af8d6176ad1a7e6e783a37f010e637f18ebfbfb86597d908f9'')]),
      (''minimax-m3'', [(''vocab.htk'', ''81eed24ddbabc03221f97c5c46a088bb96efb13afd0fec2036c12aa17f8a51a9'')]),
      (''mistral-tekken'', [(''vocab.htk'', ''0f3aaad13e639abe29323c87e75c08159e1fa9d34f96e0b519cf189bfc62f763'')]),
      (''nemotron3'', [(''vocab.htk'', ''1f498097e8d3fcb17458e965dcde3e96fc458ed002807d9a0d04101468d5a63e'')]),
      (''o200k'', [(''vocab.htk'', ''a583ea153eee0f3547df36f1ad2f38e3d1e92c16942f4ddbafa4b7a9979cb111'')]),
      (''p50k'', [(''vocab.htk'', ''fc45b94be11649acf1d29bd2885c2d080810f8ad9f6942b9adbe8c1651e3824e''), (''p50k-edit.htk'', ''ec4fc02da668992fdd11cd304a6cb1c7631e29c3d8de978c2b65a13eb5e3a2da'')]),
      (''qwen3-6'', [(''vocab.htk'', ''ddf38305ea3f18a2aee3a073f4fac54b99b9f2aa08ec1967eda2f7ff3fabfb0d'')])]"

text \<open>\<^verbatim>\<open>byte.toString(16).padStart(2, "0")\<close>, for every byte.\<close>

definition hex_digit :: "nat \<Rightarrow> char" where
  "hex_digit n = ''0123456789abcdef'' ! n"

definition byte_hex :: "u8 \<Rightarrow> string" where
  "byte_hex b = [hex_digit (unat b div 16), hex_digit (unat b mod 16)]"

text \<open>\<open>subtle\<close> is the platform's digest, missing where there is no Web Crypto.\<close>

definition sha256Hex :: "(bytes \<Rightarrow> bytes) option \<Rightarrow> bytes \<Rightarrow> js_error + string" where
  "sha256Hex subtle bytes =
     (case subtle of
        None \<Rightarrow> Inl (PlainError ''Web Crypto is unavailable for vocabulary integrity verification'')
      | Some digest \<Rightarrow> Inr (concat (map byte_hex (digest bytes))))"

definition pinned_digest :: "string \<Rightarrow> string \<Rightarrow> string option" where
  "pinned_digest suffix file = Option.bind (map_of VOCAB_FILE_SHA256 suffix) (\<lambda>files. map_of files file)"

definition verifyVocabBytes ::
  "(bytes \<Rightarrow> bytes) option \<Rightarrow> bytes \<Rightarrow> string \<Rightarrow> string \<Rightarrow> string \<Rightarrow> js_error + bytes" where
  "verifyVocabBytes subtle bytes packageName suffix file =
     (case pinned_digest suffix file of
        None \<Rightarrow> Inl (RangeError (''no pinned digest for '' @ packageName @ ''/'' @ file))
      | Some expected \<Rightarrow>
          try_bind (sha256Hex subtle bytes) (\<lambda>actual.
          if actual \<noteq> expected then Inl (VocabIntegrity packageName file expected actual)
          else Inr bytes))"

subsection \<open>Arguments of a load\<close>

definition VOCAB_VERSIONS :: "(string \<times> string) list" where
  "VOCAB_VERSIONS =
     [(''cl100k'', ''1.0.0''), (''command-a-plus'', ''1.0.0''), (''deepseek-v4'', ''1.0.0''), (''gemma4'', ''1.0.0''), (''glm5-2'', ''1.0.0''), (''gpt2'', ''1.0.0''), (''kimi-k3'', ''1.0.0''), (''llama3'', ''1.0.0''), (''mistral-tekken'', ''1.0.0''), (''nemotron3'', ''1.0.0''), (''o200k'', ''1.0.0''), (''p50k'', ''1.0.0''), (''qwen3-6'', ''1.0.0'')]"

text \<open>\<^verbatim>\<open>vocabName\<close>: a suffix, or the full name of a package.\<close>

definition vocab_prefix :: string where
  "vocab_prefix = ''@hypertok/vocab-''"

definition vocabName :: "jsval \<Rightarrow> js_error + string" where
  "vocabName v =
     (case v of
        JStr given \<Rightarrow>
          (let name = (if take (length vocab_prefix) given = vocab_prefix
                       then drop (length vocab_prefix) given else given)
           in if name \<notin> set (map fst VOCAB_VERSIONS)
              then Inl (RangeError (''unknown hypertok vocabulary: '' @ given)) else Inr name)
      | _ \<Rightarrow> Inl (TypeError ''vocabulary name must be a string''))"

text \<open>The pattern \<^verbatim>\<open>/^[a-z0-9-]+\.htk$/u\<close>.\<close>

definition file_char :: "char \<Rightarrow> bool" where
  "file_char ch \<longleftrightarrow> ch \<in> set ''abcdefghijklmnopqrstuvwxyz0123456789-''"

definition file_pattern :: "string \<Rightarrow> bool" where
  "file_pattern s \<longleftrightarrow>
     (let n = length s - 4 in 4 < length s \<and> drop n s = ''.htk'' \<and> list_all file_char (take n s))"

definition vocabFile :: "jsval \<Rightarrow> js_error + string" where
  "vocabFile v =
     (case v of
        JUndefined \<Rightarrow> Inr ''vocab.htk''
      | JStr s \<Rightarrow> if file_pattern s then Inr s
                  else Inl (TypeError ''vocabulary file must be a package-root .htk filename'')
      | _ \<Rightarrow> Inl (TypeError ''vocabulary file must be a package-root .htk filename''))"

definition timeoutMilliseconds :: "jsval \<Rightarrow> js_error + rat" where
  "timeoutMilliseconds v =
     (case v of
        JUndefined \<Rightarrow> Inr 5000
      | JNum q \<Rightarrow> if q \<le> 0 then Inl (TypeError ''vocabulary load timeout must be a positive number'') else Inr q
      | _ \<Rightarrow> Inl (TypeError ''vocabulary load timeout must be a positive number''))"

subsection \<open>Fetching with a timeout\<close>

text \<open>
  What a fetch does: after some time, or never, it settles; with an error, with a response that is
  not ok (its status as text), or with an ok response and the outcome of reading its body.
\<close>

datatype fetch_outcome = FetchThrows js_error | FetchNotOk string | FetchOk "js_error + bytes"

record fetch_event =
  fe_after :: "rat option"
  fe_outcome :: fetch_outcome

definition fetch_result :: "fetch_outcome \<Rightarrow> js_error + bytes" where
  "fetch_result out =
     (case out of FetchThrows e \<Rightarrow> Inl e
      | FetchNotOk status \<Rightarrow> Inl (PlainError (''vocabulary fetch failed with status '' @ status))
      | FetchOk body \<Rightarrow> body)"

text \<open>
  The race of the request with the timer, which aborts the request when it fires. The number in
  the message is written by the platform, \<open>show_ms\<close>. The second component: was the request aborted.
\<close>

definition fetchWithTimeout ::
  "(rat \<Rightarrow> string) \<Rightarrow> fetch_event \<Rightarrow> rat \<Rightarrow> (js_error + bytes) \<times> bool" where
  "fetchWithTimeout show_ms ev timeoutMs =
     (case fe_after ev of
        Some t \<Rightarrow> if t < timeoutMs then (fetch_result (fe_outcome ev), False)
                  else (Inl (PlainError (''vocabulary load timed out after '' @ show_ms timeoutMs @ '' ms'')), True)
      | None \<Rightarrow> (Inl (PlainError (''vocabulary load timed out after '' @ show_ms timeoutMs @ '' ms'')), True))"

definition verifiedFetchedVocab ::
  "(bytes \<Rightarrow> bytes) option \<Rightarrow> (rat \<Rightarrow> string) \<Rightarrow> fetch_event \<Rightarrow> rat \<Rightarrow> string \<Rightarrow> string \<Rightarrow> string \<Rightarrow> js_error + bytes" where
  "verifiedFetchedVocab subtle show_ms ev timeoutMs packageName suffix file =
     try_bind (fst (fetchWithTimeout show_ms ev timeoutMs))
       (\<lambda>bytes. verifyVocabBytes subtle bytes packageName suffix file)"

subsection \<open>The loader\<close>

datatype local_outcome = LocalBytes bytes | LocalOther | LocalThrows js_error

text \<open>The surroundings of a loader: the local reader by package and file, the network by URL.\<close>

record vocab_world =
  vw_readLocal :: "string \<Rightarrow> string \<Rightarrow> local_outcome"
  vw_fetch :: "string \<Rightarrow> fetch_event"
  vw_subtle :: "(bytes \<Rightarrow> bytes) option"
  vw_show :: "rat \<Rightarrow> string"

record load_options =
  ld_file :: jsval
  ld_timeoutMs :: jsval

datatype load_argument = LoadDefault | LoadNotObject | LoadOptions load_options

definition vocab_url :: "string \<Rightarrow> string \<Rightarrow> string \<Rightarrow> string" where
  "vocab_url packageName version file =
     ''https://cdn.jsdelivr.net/npm/'' @ packageName @ ''@'' @ version @ ''/'' @ file"

text \<open>The result of a load and the URLs it fetched.\<close>

definition vocab_load :: "vocab_world \<Rightarrow> jsval \<Rightarrow> load_argument \<Rightarrow> (js_error + bytes) \<times> string list" where
  "vocab_load w name arg =
     (case (case arg of LoadDefault \<Rightarrow> Inr \<lparr>ld_file = JUndefined, ld_timeoutMs = JUndefined\<rparr>
            | LoadNotObject \<Rightarrow> Inl (TypeError ''vocabulary load options must be an object'')
            | LoadOptions os \<Rightarrow> Inr os) of
        Inl e \<Rightarrow> (Inl e, [])
      | Inr opts \<Rightarrow>
     (case vocabName name of Inl e \<Rightarrow> (Inl e, []) | Inr suffix \<Rightarrow>
     (case vocabFile (ld_file opts) of Inl e \<Rightarrow> (Inl e, []) | Inr file \<Rightarrow>
     (case timeoutMilliseconds (ld_timeoutMs opts) of Inl e \<Rightarrow> (Inl e, []) | Inr timeoutMs \<Rightarrow>
      let packageName = vocab_prefix @ suffix in
      (case vw_readLocal w packageName file of
         LocalBytes bytes \<Rightarrow> (Inr bytes, [])
       | _ \<Rightarrow>
           (let url = vocab_url packageName (the (map_of VOCAB_VERSIONS suffix)) file in
            (verifiedFetchedVocab (vw_subtle w) (vw_show w) (vw_fetch w url) timeoutMs packageName suffix file,
             [url])))))))"

text \<open>\<^verbatim>\<open>loadVocab\<close>: the bytes of a load as a new buffer, and a handle of it.\<close>

definition loadVocab :: "vocab_world \<Rightarrow> jsval \<Rightarrow> load_argument \<Rightarrow> (provenance, nat) js" where
  "loadVocab w name arg = (\<lambda>p.
     case fst (vocab_load w name arg) of
       Inl e \<Rightarrow> (Inl e, p)
     | Inr bytes \<Rightarrow> createResolvedVocabHandle (VocabTyped (length (pv_buffers p)))
                      (p\<lparr>pv_buffers := pv_buffers p @ [bytes]\<rparr>))"

subsection \<open>Properties\<close>

lemma hex_digit_less: "n < 16 \<Longrightarrow> hex_digit n \<in> set ''0123456789abcdef''"
  unfolding hex_digit_def by (rule nth_mem) simp

lemma hex_digit_inj:
  assumes "m < 16" and "n < 16" and "hex_digit m = hex_digit n"
  shows "m = n"
proof -
  have "distinct ''0123456789abcdef''" by simp
  then show ?thesis
    using assms nth_eq_iff_index_eq [of "''0123456789abcdef''" m n] by (simp add: hex_digit_def)
qed

lemma byte_hex_inj: "byte_hex a = byte_hex b \<Longrightarrow> a = b"
proof -
  assume eq: "byte_hex a = byte_hex b"
  have "unat a div 16 < 16" "unat b div 16 < 16"
    using unat_u8_less [of a] unat_u8_less [of b] by linarith+
  moreover have "unat a mod 16 < 16" "unat b mod 16 < 16" by simp_all
  ultimately have "unat a div 16 = unat b div 16" "unat a mod 16 = unat b mod 16"
    using eq hex_digit_inj by (auto simp only: byte_hex_def list.inject)
  then have "unat a = unat b" by (metis div_mult_mod_eq)
  then show ?thesis by (simp add: word_unat_eq_iff)
qed

text \<open>
  The hexadecimal text of a digest determines the digest: two byte strings with the same text
  are equal, so comparing the texts is comparing the digests.
\<close>

theorem hex_text_injective:
  "(concat (map byte_hex xs) = concat (map byte_hex ys)) = (xs = ys)"
proof (induction xs arbitrary: ys)
  case Nil
  show ?case by (cases ys) (simp_all add: byte_hex_def)
next
  case (Cons x xs)
  show ?case
  proof (cases ys)
    case Nil
    then show ?thesis by (simp add: byte_hex_def)
  next
    case (Cons y zs)
    have len: "length (byte_hex x) = length (byte_hex y)" by (simp add: byte_hex_def)
    have "(concat (map byte_hex (x # xs)) = concat (map byte_hex (y # zs))) =
        (byte_hex x = byte_hex y \<and> concat (map byte_hex xs) = concat (map byte_hex zs))"
      using len by simp
    then show ?thesis using Cons Cons.IH byte_hex_inj by auto
  qed
qed

text \<open>
  Every vocabulary that can be named has a pinned digest of its main file, so the check of
  fetched bytes never fails for want of a digest there.
\<close>

theorem every_version_pinned:
  "list_all (\<lambda>(name, version). pinned_digest name ''vocab.htk'' \<noteq> None \<and> vocabName (JStr name) = Inr name \<and>
     vocabName (JStr (vocab_prefix @ name)) = Inr name) VOCAB_VERSIONS"
  by (simp add: VOCAB_VERSIONS_def pinned_digest_def VOCAB_FILE_SHA256_def vocabName_def vocab_prefix_def)

lemma vocab_load_result:
  assumes "vocab_load w name arg = (Inr bs, urls)"
  shows "\<exists>suffix fname (opts :: load_options) timeoutMs. vocabName name = Inr suffix \<and> vocabFile (ld_file opts) = Inr fname \<and>
     timeoutMilliseconds (ld_timeoutMs opts) = Inr timeoutMs \<and>
     ((vw_readLocal w (vocab_prefix @ suffix) fname = LocalBytes bs \<and> urls = []) \<or>
     (let url = vocab_url (vocab_prefix @ suffix) (the (map_of VOCAB_VERSIONS suffix)) fname in urls = [url] \<and>
       verifiedFetchedVocab (vw_subtle w) (vw_show w) (vw_fetch w url) timeoutMs (vocab_prefix @ suffix) suffix fname = Inr bs))"
proof -
  obtain opts where opts: "(case arg of LoadDefault \<Rightarrow> Inr \<lparr>ld_file = JUndefined, ld_timeoutMs = JUndefined\<rparr>
      | LoadNotObject \<Rightarrow> Inl (TypeError ''vocabulary load options must be an object'')
      | LoadOptions os \<Rightarrow> Inr os) = (Inr opts :: js_error + load_options)"
    using assms by (cases arg) (auto simp: vocab_load_def)
  obtain suffix fname timeoutMs where args: "vocabName name = Inr suffix" "vocabFile (ld_file opts) = Inr fname"
    "timeoutMilliseconds (ld_timeoutMs opts) = Inr timeoutMs"
    using assms unfolding vocab_load_def opts by (auto split: sum.splits)
  show ?thesis
    using assms unfolding vocab_load_def opts
    by - (rule exI [of _ suffix], rule exI [of _ fname], rule exI [of _ opts], rule exI [of _ timeoutMs],
      auto simp: args Let_def split: local_outcome.splits)
qed

lemma verified_fetch_pinned:
  assumes "verifiedFetchedVocab subtle sh ev timeoutMs pkg suffix fname = Inr bs"
  shows "\<exists>digest t. subtle = Some digest \<and> pinned_digest suffix fname = Some (concat (map byte_hex (digest bs))) \<and>
    fe_after ev = Some t \<and> t < timeoutMs \<and> fe_outcome ev = FetchOk (Inr bs)"
proof -
  obtain bs' where fetched: "fst (fetchWithTimeout sh ev timeoutMs) = Inr bs'" and
    verified: "verifyVocabBytes subtle bs' pkg suffix fname = Inr bs"
    using assms by (auto simp: verifiedFetchedVocab_def try_bind_Inr)
  obtain expected where pinned: "pinned_digest suffix fname = Some expected"
    using verified by (cases "pinned_digest suffix fname") (simp_all add: verifyVocabBytes_def)
  obtain digest where digest: "subtle = Some digest"
    using verified pinned by (cases subtle) (simp_all add: verifyVocabBytes_def sha256Hex_def)
  have same: "bs' = bs" "concat (map byte_hex (digest bs)) = expected"
    using verified pinned digest by (auto simp: verifyVocabBytes_def sha256Hex_def split: if_splits)
  obtain t where "fe_after ev = Some t" "t < timeoutMs" "fetch_result (fe_outcome ev) = Inr bs"
    using fetched same(1) by (cases "fe_after ev") (auto simp: fetchWithTimeout_def split: if_splits)
  moreover from this(3) have "fe_outcome ev = FetchOk (Inr bs)"
    by (cases "fe_outcome ev") (simp_all add: fetch_result_def)
  ultimately show ?thesis using pinned digest same(2) by blast
qed


definition example_world :: vocab_world where
  "example_world = \<lparr>vw_readLocal = (\<lambda>_ _. LocalThrows (PlainError ''not installed'')),
     vw_fetch = (\<lambda>_. \<lparr>fe_after = Some 20, fe_outcome = FetchOk (Inr [1, 2, 3])\<rparr>),
     vw_subtle = Some (\<lambda>_. [0x17, 0xE4, 0xCC, 0x7D, 0xF1, 0xF4, 0xD9, 0x5B, 0x80, 0xC4, 0x3D, 0xF5, 0x2E, 0xCC, 0x31, 0xF9, 0xE5, 0x93, 0x1A, 0x31, 0x9E, 0x99, 0x64, 0xCF, 0xFB, 0xF9, 0xDC, 0x4E, 0xD8, 0x8C, 0x9D, 0xA2]),
     vw_show = (\<lambda>_. [])\<rparr>"

lemma example_load:
  "vocab_load example_world (JStr ''gpt2'') LoadDefault =
     (Inr [1, 2, 3], [''https://cdn.jsdelivr.net/npm/@hypertok/vocab-gpt2@1.0.0/vocab.htk''])"
proof -
  have name: "vocabName (JStr ''gpt2'') = Inr ''gpt2''"
    by (simp add: vocabName_def vocab_prefix_def VOCAB_VERSIONS_def)
  have pinned: "pinned_digest ''gpt2'' ''vocab.htk'' = Some ''17e4cc7df1f4d95b80c43df52ecc31f9e5931a319e9964cffbf9dc4ed88c9da2''"
    by (simp add: pinned_digest_def VOCAB_FILE_SHA256_def)
  have version: "map_of VOCAB_VERSIONS ''gpt2'' = Some ''1.0.0''" by (simp add: VOCAB_VERSIONS_def)
  show ?thesis
    by (simp add: vocab_load_def vocabFile_def timeoutMilliseconds_def name version Let_def example_world_def
        verifiedFetchedVocab_def fetchWithTimeout_def verifyVocabBytes_def pinned sha256Hex_def fetch_result_def
        byte_hex_def hex_digit_def vocab_url_def vocab_prefix_def)
qed


end
