(* ===== verification/Public_Runtime.thy ===== *)
theory Public_Runtime
  imports Data_View
begin

text \<open>
  The public handle: \<^verbatim>\<open>hypertok-js/src/public-runtime.mjs\<close> with the metadata it reads from the
  vocabulary file, and the registry of \<^verbatim>\<open>hypertok-js/src/shim-runtime.mjs\<close>.
\<close>

subsection \<open>The registry of runtimes\<close>

text \<open>Handles are identities; \<open>None\<close> stands for a value that is not an object.\<close>

type_synonym runtimes = "nat \<rightharpoonup> nat"

definition registerShimRuntime :: "nat option \<Rightarrow> nat option \<Rightarrow> (runtimes, nat) js" where
  "registerShimRuntime handle runtime =
     (case (handle, runtime) of
        (Some h, Some r) \<Rightarrow> js_bind (js_modify (\<lambda>runtimes. runtimes(h \<mapsto> r))) (\<lambda>_. js_ret h)
      | _ \<Rightarrow> js_throw (TypeError ''shim runtime registration requires object handles''))"

definition resolveShimRuntime :: "nat \<Rightarrow> runtimes \<Rightarrow> nat" where
  "resolveShimRuntime handle runtimes = (case runtimes handle of Some r \<Rightarrow> r | None \<Rightarrow> handle)"

subsection \<open>Metadata\<close>

record metadata =
  md_formatVersion :: nat
  md_structuralClass :: string
  md_vocabSize :: nat
  md_prefixMarker :: "u32 list"
  md_suffixMarker :: "u32 list"

text \<open>The posts of one section: position and id, five bytes each.\<close>

fun read_posts :: "bytes \<Rightarrow> nat \<Rightarrow> nat list \<Rightarrow> u32 list \<times> u32 list \<Rightarrow> js_error + u32 list \<times> u32 list" where
  "read_posts bs offset [] acc = Inr acc"
| "read_posts bs offset (postIndex # rest) (prefix, suffix) =
     (let post = offset + 4 + postIndex * 5 in
      try_bind (getUint8 bs post) (\<lambda>position.
      try_bind (getUint32 bs (post + 1)) (\<lambda>tid.
      read_posts bs offset rest
        (if position = 0 then (prefix @ [of_nat tid], suffix) else (prefix, suffix @ [of_nat tid])))))"

fun read_sections :: "bytes \<Rightarrow> nat \<Rightarrow> nat list \<Rightarrow> u32 list \<times> u32 list \<Rightarrow> js_error + u32 list \<times> u32 list" where
  "read_sections bs sectionTableOffset [] acc = Inr acc"
| "read_sections bs sectionTableOffset (index # rest) acc =
     (let entry = sectionTableOffset + index * 16 in
      try_bind (getUint32 bs entry) (\<lambda>tag.
      if tag \<noteq> 8 then read_sections bs sectionTableOffset rest acc
      else try_bind (getUint32 bs (entry + 4)) (\<lambda>offset.
           try_bind (getUint32 bs offset) (\<lambda>posts.
           try_bind (read_posts bs offset [0..<posts] acc) (\<lambda>acc'.
           read_sections bs sectionTableOffset rest acc')))))"

definition readMetadata :: "bytes \<Rightarrow> js_error + metadata" where
  "readMetadata bs =
     try_bind (getUint16 bs 8) (\<lambda>formatVersion.
     try_bind (getUint8 bs 10) (\<lambda>cls.
     try_bind (getUint32 bs 16) (\<lambda>vocabSize.
     try_bind (getUint32 bs 24) (\<lambda>sectionCount.
     try_bind (getUint32 bs 28) (\<lambda>sectionTableOffset.
     try_bind (read_sections bs sectionTableOffset [0..<sectionCount] ([], [])) (\<lambda>(prefix, suffix).
     Inr \<lparr>md_formatVersion = formatVersion,
       md_structuralClass = (if cls = 0 then ''byte_bpe'' else ''sentencepiece_bpe''),
       md_vocabSize = vocabSize, md_prefixMarker = prefix, md_suffixMarker = suffix\<rparr>))))))"

subsection \<open>The handle\<close>

text \<open>
  What the handle takes from the runtime below it: its tier, whether it has \<^verbatim>\<open>encodeSync\<close>, and
  whether its decode is the lean one. Its methods forward to the runtime.
\<close>

record 'r tier_handle =
  th_object :: nat
  th_tier :: string
  th_encodeSync :: "(jstring \<Rightarrow> 'r) option"

record public_handle =
  ph_object :: nat
  ph_tier :: string
  ph_metadata :: metadata

definition createPublicRuntime ::
  "'r tier_handle \<Rightarrow> bytes \<Rightarrow> nat \<Rightarrow> (runtimes, public_handle) js" where
  "createPublicRuntime runtime bs object =
     js_bind (js_lift (readMetadata bs)) (\<lambda>md runtimes.
     js_bind (registerShimRuntime (Some object) (Some (resolveShimRuntime (th_object runtime) runtimes))) (\<lambda>h.
     js_ret \<lparr>ph_object = h, ph_tier = th_tier runtime, ph_metadata = md\<rparr>) runtimes)"

definition public_encodeSync :: "'r tier_handle \<Rightarrow> jstring \<Rightarrow> js_error + 'r" where
  "public_encodeSync runtime s =
     (case th_encodeSync runtime of
        None \<Rightarrow> Inl (PlainError (''encodeSync is unavailable on the '' @ th_tier runtime @ '' tier''))
      | Some f \<Rightarrow> Inr (f s))"

subsection \<open>Properties\<close>

text \<open>
  Registered values are never keys, so that one step of resolution is final.
\<close>

definition flat_registry :: "runtimes \<Rightarrow> bool" where
  "flat_registry runtimes \<longleftrightarrow> (\<forall>h r. runtimes h = Some r \<longrightarrow> runtimes r = None)"

lemma flat_resolve: "flat_registry runtimes \<Longrightarrow> resolveShimRuntime (resolveShimRuntime h runtimes) runtimes = resolveShimRuntime h runtimes"
  by (auto simp: flat_registry_def resolveShimRuntime_def split: option.splits)

text \<open>
  A public handle resolves to the runtime its tier handle resolves to, in one step, however
  many handles were wrapped around it: a registration for a fresh object keeps the registry flat,
  and every handle registered before resolves as before.
\<close>

theorem public_handle_resolves:
  assumes "flat_registry runtimes" and "runtimes object = None" and "\<forall>h. runtimes h \<noteq> Some object"
    and "object \<noteq> resolveShimRuntime (th_object runtime) runtimes"
    and "createPublicRuntime runtime bs object runtimes = (Inr handle, runtimes')"
  shows "flat_registry runtimes' \<and> ph_object handle = object \<and>
    resolveShimRuntime object runtimes' = resolveShimRuntime (th_object runtime) runtimes \<and>
    (\<forall>h. h = object \<or> resolveShimRuntime h runtimes' = resolveShimRuntime h runtimes)"
proof -
  let ?r = "resolveShimRuntime (th_object runtime) runtimes"
  have eq: "runtimes' = runtimes(object \<mapsto> ?r)" "ph_object handle = object"
    using assms(5) by (auto simp: createPublicRuntime_def registerShimRuntime_def js_simps split: sum.splits)
  have "runtimes ?r = None"
    using assms(1) by (auto simp: resolveShimRuntime_def flat_registry_def split: option.splits)
  then have "flat_registry runtimes'" using assms(1-4) by (auto simp: eq flat_registry_def)
  then show ?thesis by (auto simp: eq resolveShimRuntime_def)
qed

text \<open>A file with one section of posts, as a writer lays it out.\<close>

definition post_bytes :: "(bool \<times> u32) list \<Rightarrow> bytes" where
  "post_bytes posts = concat (map (\<lambda>(atEnd, tid). (if atEnd then 1 else 0) # le_bytes 4 (unat tid)) posts)"

definition htk_file :: "nat \<Rightarrow> bool \<Rightarrow> nat \<Rightarrow> (bool \<times> u32) list \<Rightarrow> bytes" where
  "htk_file version sentencePiece vocabSize posts =
     replicate 8 0 @ le_bytes 2 version @ [if sentencePiece then 1 else 0] @ replicate 5 0 @
     le_bytes 4 vocabSize @ replicate 4 0 @ le_bytes 4 1 @ le_bytes 4 32 @
     le_bytes 4 8 @ le_bytes 4 48 @ replicate 8 0 @
     le_bytes 4 (length posts) @ post_bytes posts"

lemma length_post_bytes [simp]: "length (post_bytes posts) = 5 * length posts"
  by (induction posts) (auto simp: post_bytes_def)

lemma post_bytes_append: "post_bytes (xs @ ys) = post_bytes xs @ post_bytes ys"
  by (simp add: post_bytes_def)

lemma get_le_at: "n < 256 ^ w \<Longrightarrow> offset = length xs \<Longrightarrow> get_le w (xs @ le_bytes w n @ ys) offset = Inr n"
  by (simp add: get_le_bytes)

lemma getUint8_at: "offset = length xs \<Longrightarrow> getUint8 (xs @ b # ys) offset = Inr (unat b)"
  by (simp add: getUint8_def get_le_def)

lemma read_posts_file:
  assumes "length xs = offset + 4"
  shows "read_posts (xs @ post_bytes (done' @ posts)) offset [length done'..<length done' + length posts] (prefix, suffix) =
    Inr (prefix @ map snd (filter (\<lambda>p. \<not> fst p) posts), suffix @ map snd (filter fst posts))"
proof (induction posts arbitrary: done' prefix suffix)
  case (Cons p posts)
  obtain atEnd tid where p: "p = (atEnd, tid)" by fastforce
  let ?bs = "xs @ post_bytes (done' @ p # posts)" and ?post = "offset + 4 + length done' * 5"
  have bs: "?bs = (xs @ post_bytes done') @ (if atEnd then 1 else 0) # le_bytes 4 (unat tid) @ post_bytes posts"
    by (simp add: post_bytes_def p)
  have one: "getUint8 ?bs ?post = Inr (if atEnd then 1 else 0)"
    unfolding bs using assms by (subst getUint8_at) simp_all
  have "?bs = (xs @ post_bytes done' @ [if atEnd then 1 else 0]) @ le_bytes 4 (unat tid) @ post_bytes posts"
    using bs by simp
  then have two: "getUint32 ?bs (?post + 1) = Inr (unat tid)"
    unfolding getUint32_def using assms unat_u32_less [of tid] by (simp only:) (subst get_le_at, simp_all)
  have idx: "[length done'..<length done' + length (p # posts)] =
      length done' # [length (done' @ [p])..<length (done' @ [p]) + length posts]"
    by (subst upt_rec) simp
  show ?case
    unfolding idx read_posts.simps Let_def one two using Cons.IH [of "done' @ [p]"] p by auto
qed simp

lemma metadata_of_file:
  assumes "version < 65536" and "vocabSize < 4294967296" and "length posts < 4294967296"
  shows "readMetadata (htk_file version sentencePiece vocabSize posts) =
    Inr \<lparr>md_formatVersion = version,
      md_structuralClass = (if sentencePiece then ''sentencepiece_bpe'' else ''byte_bpe''),
      md_vocabSize = vocabSize, md_prefixMarker = map snd (filter (\<lambda>p. \<not> fst p) posts),
      md_suffixMarker = map snd (filter fst posts)\<rparr>"
proof -
  let ?bs = "htk_file version sentencePiece vocabSize posts"
  let ?a = "replicate 8 0 :: bytes" and ?b = "le_bytes 2 version" and ?c = "[if sentencePiece then 1 else 0 :: u8]"
  let ?d = "replicate 5 0 :: bytes" and ?e = "le_bytes 4 vocabSize" and ?f = "replicate 4 0 :: bytes"
  let ?h = "?a @ ?b @ ?c @ ?d @ ?e @ ?f @ le_bytes 4 1 @ le_bytes 4 32"
  let ?s = "le_bytes 4 8 @ le_bytes 4 48 @ replicate 8 0" and ?n = "le_bytes 4 (length posts)"
  have version: "getUint16 ?bs 8 = Inr version"
    unfolding getUint16_def htk_file_def using assms(1) by (subst get_le_at) simp_all
  have "?bs = (?a @ ?b) @ (if sentencePiece then 1 else 0) # (?d @ ?e @ ?f @ le_bytes 4 1 @ le_bytes 4 32 @ ?s @ ?n @ post_bytes posts)"
    by (simp add: htk_file_def)
  then have cls: "getUint8 ?bs 10 = Inr (if sentencePiece then 1 else 0)"
    by (simp only:) (subst getUint8_at, simp_all)
  have "?bs = (?a @ ?b @ ?c @ ?d) @ ?e @ (?f @ le_bytes 4 1 @ le_bytes 4 32 @ ?s @ ?n @ post_bytes posts)"
    by (simp add: htk_file_def)
  then have vocab: "getUint32 ?bs 16 = Inr vocabSize"
    unfolding getUint32_def using assms(2) by (simp only:) (subst get_le_at, simp_all)
  have "?bs = (?a @ ?b @ ?c @ ?d @ ?e @ ?f) @ le_bytes 4 1 @ (le_bytes 4 32 @ ?s @ ?n @ post_bytes posts)"
    by (simp add: htk_file_def)
  then have sections: "getUint32 ?bs 24 = Inr 1"
    unfolding getUint32_def by (simp only:) (subst get_le_at, simp_all)
  have "?bs = (?a @ ?b @ ?c @ ?d @ ?e @ ?f @ le_bytes 4 1) @ le_bytes 4 32 @ (?s @ ?n @ post_bytes posts)"
    by (simp add: htk_file_def)
  then have tbl: "getUint32 ?bs 28 = Inr 32"
    unfolding getUint32_def by (simp only:) (subst get_le_at, simp_all)
  have "?bs = ?h @ le_bytes 4 8 @ (le_bytes 4 48 @ replicate 8 0 @ ?n @ post_bytes posts)"
    by (simp add: htk_file_def)
  then have tag: "getUint32 ?bs 32 = Inr 8"
    unfolding getUint32_def by (simp only:) (subst get_le_at, simp_all)
  have "?bs = (?h @ le_bytes 4 8) @ le_bytes 4 48 @ (replicate 8 0 @ ?n @ post_bytes posts)"
    by (simp add: htk_file_def)
  then have off: "getUint32 ?bs 36 = Inr 48"
    unfolding getUint32_def by (simp only:) (subst get_le_at, simp_all)
  have "?bs = (?h @ ?s) @ ?n @ post_bytes posts" by (simp add: htk_file_def)
  then have n: "getUint32 ?bs 48 = Inr (length posts)"
    unfolding getUint32_def using assms(3) by (simp only:) (subst get_le_at, simp_all)
  have "?bs = (?h @ ?s @ ?n) @ post_bytes ([] @ posts)" by (simp add: htk_file_def)
  then have posts: "read_posts ?bs 48 [0..<length posts] ([], []) =
      Inr (map snd (filter (\<lambda>p. \<not> fst p) posts), map snd (filter fst posts))"
    using read_posts_file [of "?h @ ?s @ ?n" 48 "[]" posts "[]" "[]"] by simp
  show ?thesis
    unfolding readMetadata_def version cls vocab sections tbl try_bind_simps
    by (simp add: tag off n posts)
qed



theorem public_handle_resolves_witness:
  "\<exists>handle runtimes'. createPublicRuntime \<lparr>th_object = 5, th_tier = ''worker'', th_encodeSync = (None :: (jstring \<Rightarrow> nat) option)\<rparr>
       (htk_file 2 False 10 []) 9 [5 \<mapsto> 1] = (Inr handle, runtimes') \<and>
     flat_registry runtimes' \<and> resolveShimRuntime 9 runtimes' = 1"
proof -
  let ?r = "\<lparr>th_object = 5, th_tier = ''worker'', th_encodeSync = (None :: (jstring \<Rightarrow> nat) option)\<rparr>"
  have "readMetadata (htk_file 2 False 10 []) = Inr \<lparr>md_formatVersion = 2, md_structuralClass = ''byte_bpe'',
      md_vocabSize = 10, md_prefixMarker = [], md_suffixMarker = []\<rparr>"
    by (subst metadata_of_file) simp_all
  then obtain handle runtimes' where made: "createPublicRuntime ?r (htk_file 2 False 10 []) 9 [5 \<mapsto> 1] = (Inr handle, runtimes')"
    by (simp add: createPublicRuntime_def registerShimRuntime_def js_simps)
  have "flat_registry [5 \<mapsto> 1]" by (simp add: flat_registry_def)
  from public_handle_resolves [OF this _ _ _ made] made show ?thesis
    by (simp add: resolveShimRuntime_def)
qed

end
