(* ===== verification/Text_Encoder.thy ===== *)
theory Text_Encoder
  imports Utf8
begin

text \<open>
  The platform's \<^verbatim>\<open>TextEncoder\<close>, from the Encoding Standard: \<^verbatim>\<open>encode\<close>, and \<^verbatim>\<open>encodeInto\<close>,
  which writes as many whole code points as fit. A lone surrogate becomes U+FFFD.
\<close>

subsection \<open>Scalar values and their bytes\<close>

text \<open>The scalar value at the head of a string, and how many further units it takes.\<close>

definition first_scalar :: "u16 \<Rightarrow> jstring \<Rightarrow> nat \<times> nat" where
  "first_scalar u us =
     (if is_high u \<and> us \<noteq> [] \<and> is_low (hd us)
      then (65536 + 1024 * (unat u - 55296) + (unat (hd us) - 56320), 1)
      else if is_high u \<or> is_low u then (65533, 0)
      else (unat u, 0))"

definition scalar_bytes :: "nat \<Rightarrow> bytes" where
  "scalar_bytes n =
     (if n < 128 then [of_nat n]
      else if n < 2048 then [of_nat (192 + n div 64), of_nat (128 + n mod 64)]
      else if n < 65536
        then [of_nat (224 + n div 4096), of_nat (128 + n div 64 mod 64), of_nat (128 + n mod 64)]
      else [of_nat (240 + n div 262144), of_nat (128 + n div 4096 mod 64),
            of_nat (128 + n div 64 mod 64), of_nat (128 + n mod 64)])"

function utf8_encode :: "jstring \<Rightarrow> bytes" where
  "utf8_encode [] = []"
| "utf8_encode (u # us) =
     (case first_scalar u us of (n, k) \<Rightarrow> scalar_bytes n @ utf8_encode (drop k us))"
  by pat_completeness auto
termination by (relation "measure length") auto

function encodeInto :: "jstring \<Rightarrow> nat \<Rightarrow> nat \<times> bytes" where
  "encodeInto [] room = (0, [])"
| "encodeInto (u # us) room =
     (case first_scalar u us of (n, k) \<Rightarrow>
        (let bs = scalar_bytes n in
         if length bs \<le> room
         then (case encodeInto (drop k us) (room - length bs) of (rd, rest) \<Rightarrow> (Suc k + rd, bs @ rest))
         else (0, [])))"
  by pat_completeness auto
termination by (relation "measure (\<lambda>(s, room). length s)") auto

subsection \<open>Decoding what was encoded\<close>

definition is_scalar :: "nat \<Rightarrow> bool" where
  "is_scalar n \<longleftrightarrow> n < 55296 \<or> 57344 \<le> n \<and> n < 1114112"

lemma surrogate_ranges:
  "is_high u \<longleftrightarrow> 55296 \<le> unat u \<and> unat u \<le> 56319" "is_low u \<longleftrightarrow> 56320 \<le> unat u \<and> unat u \<le> 57343"
  by (simp_all add: is_high_def is_low_def word_le_nat_alt)

lemma unat_u16_less: "unat (u :: u16) < 65536"
  using unsigned_less [of u] by simp

lemma first_scalar_is_scalar: "is_scalar (fst (first_scalar u us))"
  using unat_u16_less [of u] by (auto simp: first_scalar_def is_scalar_def surrogate_ranges)

lemma unat_byte [simp]: "n < 256 \<Longrightarrow> unat (of_nat n :: u8) = n"
  by (simp add: unat_of_nat take_bit_nat_eq_self_iff)

lemma unat_u32_of_nat [simp]: "n < 4294967296 \<Longrightarrow> unat (of_nat n :: u32) = n"
  by (simp add: unat_of_nat take_bit_nat_eq_self_iff)

lemma digits64:
  fixes n :: nat
  shows "n = 64 * (n div 64) + n mod 64"
    and "n = 4096 * (n div 4096) + 64 * (n div 64 mod 64) + n mod 64"
    and "n = 262144 * (n div 262144) + 4096 * (n div 4096 mod 64) + 64 * (n div 64 mod 64) + n mod 64"
proof -
  have parts: "n div 4096 = n div 64 div 64" "n div 262144 = n div 4096 div 64"
    by (simp_all flip: div_mult2_eq)
  show one: "n = 64 * (n div 64) + n mod 64" by simp
  have "n div 64 = 64 * (n div 4096) + n div 64 mod 64" by (simp add: parts)
  with one show two: "n = 4096 * (n div 4096) + 64 * (n div 64 mod 64) + n mod 64" by linarith
  have "n div 4096 = 64 * (n div 262144) + n div 4096 mod 64" by (simp add: parts(2))
  with two show "n = 262144 * (n div 262144) + 4096 * (n div 4096 mod 64) + 64 * (n div 64 mod 64) + n mod 64"
    by linarith
qed

lemma mod64: "(n :: nat) mod 64 \<le> 63"
  using mod_less_divisor [of 64 n] by linarith

text \<open>The second byte of a long form, as the standard bounds it.\<close>

lemma second_digit:
  fixes n q d r :: nat
  assumes "r < 64"
  shows "n = 4096 * q + 64 * d + r \<Longrightarrow> 2048 \<le> n \<Longrightarrow> q = 0 \<Longrightarrow> 32 \<le> d"
    and "n = 4096 * q + 64 * d + r \<Longrightarrow> n < 55296 \<or> 57344 \<le> n \<Longrightarrow> d < 64 \<Longrightarrow> q = 13 \<Longrightarrow> d < 32"
  using assms by linarith+

lemma scalar_event:
  assumes "is_scalar n"
  shows "u_events u_init (scalar_bytes n @ r) = Some (of_nat n) # u_events u_init r"
proof -
  consider "n < 128" | "128 \<le> n" "n < 2048" | "2048 \<le> n" "n < 65536" | "65536 \<le> n" "n < 1114112"
    using assms by (fastforce simp: is_scalar_def)
  then show ?thesis
  proof cases
    case 1
    then have "(of_nat n :: u8) \<le> 0x7F" "(ucast (of_nat n :: u8) :: u32) = of_nat n"
      by (simp_all add: word_le_nat_alt word_unat_eq_iff)
    then show ?thesis using 1 by (simp add: scalar_bytes_def u_events_ascii del: u_events.simps)
  next
    case 2
    let ?f = "of_nat (192 + n div 64) :: u8" and ?a = "of_nat (128 + n mod 64) :: u8"
    have small: "n div 64 < 32" "2 \<le> n div 64" using 2 by (auto simp: less_mult_imp_div_less div_le_mono [of 128 n 64, simplified])
    have vals: "unat ?f = 192 + n div 64" "unat ?a = 128 + n mod 64"
      using small by (intro unat_byte; simp)+
    have ranges: "0xC2 \<le> ?f" "?f \<le> 0xDF" "0x80 \<le> ?a" "?a \<le> 0xBF"
      using small by (simp_all only: word_le_nat_alt vals) simp_all
    have "unat (cp2 ?f ?a) = n" using unat_cp2 [OF ranges] vals digits64(1) [of n] by simp
    then have "cp2 ?f ?a = of_nat n" using 2 by (simp add: word_unat_eq_iff)
    then show ?thesis using u_events_two [OF ranges, of r] 2 by (simp add: scalar_bytes_def del: u_events.simps)
  next
    case 3
    let ?f = "of_nat (224 + n div 4096) :: u8" and ?a = "of_nat (128 + n div 64 mod 64) :: u8" and ?b = "of_nat (128 + n mod 64) :: u8"
    have small: "n div 4096 < 16" using 3 by (simp add: less_mult_imp_div_less)
    have vals: "unat ?f = 224 + n div 4096" "unat ?a = 128 + n div 64 mod 64" "unat ?b = 128 + n mod 64" 
      using small by (intro unat_byte; simp)+
    have "n div 4096 = 0 \<Longrightarrow> 32 \<le> n div 64 mod 64"
      using second_digit(1) [OF _ digits64(2), of n] 3(1) by simp
    moreover have "n div 4096 = 13 \<Longrightarrow> n div 64 mod 64 < 32"
      using second_digit(2) [OF _ digits64(2), of n] assms by (auto simp: is_scalar_def)
    ultimately have second: "(if ?f = 0xE0 then 0xA0 else 0x80) \<le> ?a" "?a \<le> (if ?f = 0xED then 0x9F else 0xBF)"
      using vals mod64 [of "n div 64"] by (auto simp: word_le_nat_alt word_unat_eq_iff)
    have ranges: "0xE0 \<le> ?f" "?f \<le> 0xEF" "0x80 \<le> ?b" "?b \<le> 0xBF" "0x80 \<le> ?a" "?a \<le> 0xBF"
      using small by (simp_all only: word_le_nat_alt vals) simp_all
    have "unat (cp3 ?f ?a ?b) = n"
      using unat_cp3 [OF ranges(1,2,5,6,3,4)] vals digits64(2) [of n] by simp
    then have "cp3 ?f ?a ?b = of_nat n" using 3 by (simp add: word_unat_eq_iff)
    then show ?thesis using u_events_three [OF ranges(1,2) second ranges(3,4), of r] 3
      by (simp add: scalar_bytes_def del: u_events.simps)
  next
    case 4
    let ?f = "of_nat (240 + n div 262144) :: u8" and ?a = "of_nat (128 + n div 4096 mod 64) :: u8"
    let ?b = "of_nat (128 + n div 64 mod 64) :: u8" and ?d = "of_nat (128 + n mod 64) :: u8"
    have "n div 262144 < 5" using 4 by (simp add: less_mult_imp_div_less)
    then have small: "n div 262144 \<le> 4" by simp
    have vals: "unat ?f = 240 + n div 262144" "unat ?a = 128 + n div 4096 mod 64" "unat ?b = 128 + n div 64 mod 64"
      "unat ?d = 128 + n mod 64" 
      using small by (intro unat_byte; simp)+
    have top: "n div 4096 = 64 * (n div 262144) + n div 4096 mod 64"
    proof -
      have "n div 262144 = n div 4096 div 64" by (simp flip: div_mult2_eq)
      then show ?thesis by simp
    qed
    have bounds: "16 \<le> n div 4096" "n div 4096 < 272" using 4 by (auto simp: less_mult_imp_div_less)
    have "n div 262144 = 0 \<Longrightarrow> 16 \<le> n div 4096 mod 64" using top bounds by linarith
    moreover have "n div 262144 = 4 \<Longrightarrow> n div 4096 mod 64 < 16" using top bounds by linarith
    ultimately have second: "(if ?f = 0xF0 then 0x90 else 0x80) \<le> ?a" "?a \<le> (if ?f = 0xF4 then 0x8F else 0xBF)"
      using vals mod64 [of "n div 4096"] by (auto simp: word_le_nat_alt word_unat_eq_iff)
    have ranges: "0xF0 \<le> ?f" "?f \<le> 0xF4" "0x80 \<le> ?b" "?b \<le> 0xBF" "0x80 \<le> ?d" "?d \<le> 0xBF" "0x80 \<le> ?a" "?a \<le> 0xBF"
      using small by (simp_all only: word_le_nat_alt vals) simp_all
    have "unat (cp4 ?f ?a ?b ?d) = n"
      using unat_cp4 [OF ranges(1,2,7,8,3-6)] vals digits64(3) [of n] by simp
    then have "cp4 ?f ?a ?b ?d = of_nat n" using 4 by (simp add: word_unat_eq_iff)
    then show ?thesis using u_events_four [OF ranges(1,2) second ranges(3-6), of r] 4
      by (simp add: scalar_bytes_def del: u_events.simps)
  qed
qed

lemma unat_ucast_u16_u32 [simp]: "unat (ucast (u :: u16) :: u32) = unat u"
  using unat_u16_less [of u] by (simp add: unsigned_ucast_eq take_bit_nat_eq_self_iff)

lemma pair_units:
  assumes "is_high u" and "is_low v"
  shows "utf16_units (of_nat (65536 + 1024 * (unat u - 55296) + (unat v - 56320))) = [u, v]"
proof -
  define a b where "a = unat u - 55296" and "b = unat v - 56320"
  have r: "a < 1024" "b < 1024" "unat u = 55296 + a" "unat v = 56320 + b"
    using assms by (auto simp: surrogate_ranges a_def b_def)
  define n where "n = 65536 + 1024 * a + b"
  have n: "unat (of_nat n :: u32) = n"
    by (rule unat_u32_of_nat) (use r in \<open>simp add: n_def\<close>)
  obtain hi lo where units: "utf16_units (of_nat n) = [hi, lo]"
    "unat hi = 55296 + (unat (of_nat n :: u32) - 65536) div 1024" "unat lo = 56320 + (unat (of_nat n :: u32) - 65536) mod 1024"
  proof (rule utf16_units_big)
    show "65535 < unat (of_nat n :: u32)" "unat (of_nat n :: u32) \<le> 1114111"
      unfolding n using r by (simp_all add: n_def)
  qed
  have "unat hi = unat u" "unat lo = unat v" using units(2,3) r unfolding n by (simp_all add: n_def)
  then have "hi = u" "lo = v" by (simp_all add: word_unat_eq_iff)
  then show ?thesis using units(1) by (simp only: n_def a_def b_def)
qed

lemma first_scalar_units:
  "utf16_units (of_nat (fst (first_scalar u us))) @ utf16_lossy (drop (snd (first_scalar u us)) us) = utf16_lossy (u # us)"
proof (cases "is_high u \<and> us \<noteq> [] \<and> is_low (hd us)")
  case True
  then obtain v r where us: "us = v # r" by (cases us) auto
  then show ?thesis using True pair_units [of u v] by (simp add: first_scalar_def del: of_nat_add of_nat_mult)
next
  case False
  show ?thesis
  proof (cases "is_high u \<or> is_low u")
    case True
    have "utf16_units 65533 = [0xFFFD]" by (simp add: utf16_units_def)
    then show ?thesis using False True by (cases us) (auto simp: first_scalar_def)
  next
    case single: False
    have "utf16_units (of_nat (unat u)) = [ucast (of_nat (unat u) :: u32)]"
      by (rule utf16_units_small) (use unat_u16_less [of u] in simp)
    moreover have "(ucast (of_nat (unat u) :: u32) :: u16) = u"
      using unat_u16_less [of u] by (simp add: word_unat_eq_iff unat_ucast_u16)
    ultimately show ?thesis using single by (simp add: first_scalar_def utf16_lossy_unit)
  qed
qed


subsection \<open>Encoding into a view\<close>

text \<open>What fits is a prefix of the bytes, it ends between code points, and the rest follows.\<close>

lemma encodeInto_spec:
  "encodeInto s room = (rd, bs) \<Longrightarrow>
     rd \<le> length s \<and> length bs \<le> room \<and> utf8_encode s = bs @ utf8_encode (drop rd s) \<and>
     (rd = length s \<or> room < length bs + length (utf8_encode (drop rd s)))"
proof (induction s room arbitrary: rd bs rule: encodeInto.induct)
  case (2 u us room)
  obtain n k where nk: "first_scalar u us = (n, k)" by fastforce
  then have k: "k \<le> length us" by (auto simp: first_scalar_def split: if_splits) (cases us; simp)
  show ?case
  proof (cases "length (scalar_bytes n) \<le> room")
    case False
    then show ?thesis using 2 nk by auto
  next
    case True
    obtain rd' bs' where rest: "encodeInto (drop k us) (room - length (scalar_bytes n)) = (rd', bs')" by fastforce
    have eq: "rd = Suc k + rd'" "bs = scalar_bytes n @ bs'" using "2.prems" nk True rest by (simp_all add: Let_def)
    have "drop rd (u # us) = drop rd' (drop k us)" by (simp add: eq(1) add.commute)
    then show ?thesis using "2.IH" [OF nk [symmetric] refl True rest] nk k True eq by auto
  qed
qed simp

end
