(* ===== verification/Resident_Input.thy ===== *)
theory Resident_Input
  imports Text_Encoder
begin

text \<open>
  Encoding a string through the input buffer that stays in WebAssembly memory:
  \<^verbatim>\<open>inputBytes\<close>, \<^verbatim>\<open>encodeResidentString\<close>, \<^verbatim>\<open>encodeSingle\<close> and \<^verbatim>\<open>encodeResidentStringInto\<close> of
  \<^verbatim>\<open>tier-runtime.mjs\<close>, over the buffer of \<^verbatim>\<open>wasm_resident_input.rs\<close>. The loop that fills the
  buffer may run for ever when the buffer cannot grow, so it is a partial function, and that it
  returns is a theorem.
\<close>

subsection \<open>Inputs\<close>

datatype encode_input = InputString jstring | InputBytes bytes | InputOther

definition inputBytes :: "encode_input \<Rightarrow> js_error + bytes" where
  "inputBytes i =
     (case i of
        InputString s \<Rightarrow> Inr (utf8_encode s)
      | InputBytes bs \<Rightarrow> Inr bs
      | InputOther \<Rightarrow> Inl (TypeError ''encode input must be a string or Uint8Array''))"

subsection \<open>The resident buffer\<close>

record resident_input =
  ri_bytes :: bytes
  ri_high_water :: nat

definition INITIAL_BYTES :: nat where "INITIAL_BYTES = 64 * 1024"

definition SHRINK_BOUND_BYTES :: nat where "SHRINK_BOUND_BYTES = 4 * 1024 * 1024"

definition resident_new :: resident_input where
  "resident_new = \<lparr>ri_bytes = replicate INITIAL_BYTES 0, ri_high_water = INITIAL_BYTES\<rparr>"

definition ri_capacity :: "resident_input \<Rightarrow> nat" where
  "ri_capacity ri = length (ri_bytes ri)"

text \<open>\<^verbatim>\<open>Vec::resize\<close>: truncated, or filled up with zeros.\<close>

definition vec_resize :: "nat \<Rightarrow> bytes \<Rightarrow> bytes" where
  "vec_resize n bs = take n bs @ replicate (n - length bs) 0"

text \<open>Lengths are \<^verbatim>\<open>usize\<close>, 32 bits in WebAssembly.\<close>

definition resident_grow :: "resident_input \<Rightarrow> js_error + resident_input" where
  "resident_grow ri =
     (if 2 ^ 32 \<le> ri_capacity ri * 2 then Inl (PlainError ''resident input capacity overflow'')
      else Inr \<lparr>ri_bytes = vec_resize (ri_capacity ri * 2) (ri_bytes ri),
                ri_high_water = max (ri_high_water ri) (ri_capacity ri * 2)\<rparr>)"

definition finish_call :: "nat \<Rightarrow> resident_input \<Rightarrow> js_error + resident_input" where
  "finish_call used ri =
     (if ri_capacity ri < used then Inl (PlainError ''resident input length exceeds capacity'')
      else if SHRINK_BOUND_BYTES < ri_high_water ri \<and> used < ri_high_water ri div 4
      then Inr \<lparr>ri_bytes = vec_resize SHRINK_BOUND_BYTES (ri_bytes ri), ri_high_water = SHRINK_BOUND_BYTES\<rparr>
      else Inr ri)"

text \<open>Bytes written at an offset through a view of the buffer.\<close>

definition write_view :: "nat \<Rightarrow> bytes \<Rightarrow> resident_input \<Rightarrow> resident_input" where
  "write_view pos bs ri = ri\<lparr>ri_bytes := take pos (ri_bytes ri) @ bs @ drop (pos + length bs) (ri_bytes ri)\<rparr>"

subsection \<open>The tokenizer's methods for encoding\<close>

text \<open>
  \<open>en_encode\<close> is \<^verbatim>\<open>encode\<close>; \<open>en_resident\<close> is what \<^verbatim>\<open>encodeResidentInput\<close> computes from the used
  part of the buffer, with \<open>None\<close> when the artifact has no \<^verbatim>\<open>residentInputView\<close>; \<open>en_into\<close> and
  \<open>en_chunked\<close> are the same for the two methods that leave the ids in the resident output.
\<close>

record encoder =
  en_encode :: "bytes \<Rightarrow> js_error + u32 list"
  en_resident :: "(bytes \<Rightarrow> js_error + u32 list) option"
  en_into :: "(bytes \<Rightarrow> js_error + u32 list) option"
  en_chunked :: "(nat \<Rightarrow> bytes \<Rightarrow> js_error + u32 list) option"
  en_chunkSize :: nat

text \<open>A method on the used part of the buffer; on success it ends with \<^verbatim>\<open>finish_call\<close>.\<close>

definition resident_call :: "(bytes \<Rightarrow> js_error + 'a) \<Rightarrow> nat \<Rightarrow> (resident_input, 'a) js" where
  "resident_call f used = (\<lambda>ri.
     if ri_capacity ri < used then (Inl (PlainError ''resident input length exceeds capacity''), ri)
     else (case f (take used (ri_bytes ri)) of
             Inl e \<Rightarrow> (Inl e, ri)
           | Inr ids \<Rightarrow> (case finish_call used ri of Inl e \<Rightarrow> (Inl e, ri) | Inr ri' \<Rightarrow> (Inr ids, ri'))))"

subsection \<open>Filling the buffer\<close>

text \<open>The loop of \<^verbatim>\<open>encodeResidentString\<close>: how much is written, \<open>None\<close> if it never ends.\<close>

partial_function (option) resident_loop ::
  "jstring \<Rightarrow> nat \<Rightarrow> resident_input \<Rightarrow> ((js_error + nat) \<times> resident_input) option" where
  "resident_loop remaining written ri =
     (if remaining = [] then Some (Inr written, ri)
      else (case encodeInto remaining (ri_capacity ri - written) of
              (rd, bs) \<Rightarrow>
                if rd = length remaining then Some (Inr (written + length bs), write_view written bs ri)
                else (case resident_grow (write_view written bs ri) of
                        Inl e \<Rightarrow> Some (Inl e, write_view written bs ri)
                      | Inr ri' \<Rightarrow> resident_loop (drop rd remaining) (written + length bs) ri')))"

definition encodeResidentString ::
  "(bytes \<Rightarrow> js_error + u32 list) \<Rightarrow> jstring \<Rightarrow> resident_input \<Rightarrow> ((js_error + u32 list) \<times> resident_input) option" where
  "encodeResidentString f input ri =
     Option.bind (resident_loop input 0 ri) (\<lambda>(r, ri').
       Some (case r of Inl e \<Rightarrow> (Inl e, ri') | Inr written \<Rightarrow> resident_call f written ri'))"

definition encodeSingle ::
  "encoder \<Rightarrow> encode_input \<Rightarrow> resident_input \<Rightarrow> ((js_error + u32 list) \<times> resident_input) option" where
  "encodeSingle en i ri =
     (case (i, en_resident en) of
        (InputString s, Some f) \<Rightarrow> encodeResidentString f s ri
      | _ \<Rightarrow> Some (try_bind (inputBytes i) (en_encode en), ri))"

subsection \<open>Ids into an array of the caller\<close>

definition capacity_error :: "nat \<Rightarrow> nat \<Rightarrow> js_error" where
  "capacity_error capacity required = RangeError
     (''encodeInto destination has capacity '' @ show_nat capacity @ '', but '' @ show_nat required @ '' ids are required'')"

text \<open>\<^verbatim>\<open>copyIdsInto\<close>: the number of ids and the destination as the call leaves it.\<close>

definition copyIdsInto :: "u32 list \<Rightarrow> u32 list \<Rightarrow> (js_error + nat) \<times> u32 list" where
  "copyIdsInto destination ids =
     (if length destination < length ids
      then (Inl (capacity_error (length destination) (length ids)), destination)
      else (Inr (length ids), ids @ drop (length ids) destination))"

text \<open>The state of a call that writes ids: the resident buffer and the destination.\<close>

definition encodeResidentStringInto ::
  "encoder \<Rightarrow> (bytes \<Rightarrow> js_error + u32 list) \<Rightarrow> jstring \<Rightarrow> resident_input \<Rightarrow> u32 list \<Rightarrow>
     ((js_error + nat) \<times> resident_input \<times> u32 list) option" where
  "encodeResidentStringInto en into input ri destination =
     Option.bind (resident_loop input 0 ri) (\<lambda>(r, ri1).
       Some (case r of
          Inl e \<Rightarrow> (Inl e, ri1, destination)
        | Inr written \<Rightarrow>
            (case resident_call (case en_chunked en of Some f \<Rightarrow> f (en_chunkSize en) | None \<Rightarrow> into) written ri1 of
               (Inl e, ri2) \<Rightarrow> (Inl e, ri2, destination)
             | (Inr ids, ri2) \<Rightarrow>
                 (case copyIdsInto destination ids of (n, dst) \<Rightarrow> (n, ri2, dst)))))"

subsection \<open>The loop returns\<close>

text \<open>What the buffer always satisfies between calls.\<close>

definition resident_ok :: "resident_input \<Rightarrow> bool" where
  "resident_ok ri \<longleftrightarrow> INITIAL_BYTES \<le> ri_capacity ri \<and> ri_capacity ri < 2 ^ 32 \<and> ri_capacity ri \<le> ri_high_water ri"

lemma resident_ok_new: "resident_ok resident_new"
  by (simp add: resident_ok_def resident_new_def ri_capacity_def INITIAL_BYTES_def)

lemma length_vec_resize [simp]: "length (vec_resize n bs) = n"
  by (simp add: vec_resize_def)

lemma write_view_simps:
  assumes "pos + length bs \<le> ri_capacity ri"
  shows "ri_capacity (write_view pos bs ri) = ri_capacity ri"
    and "take (pos + length bs) (ri_bytes (write_view pos bs ri)) = take pos (ri_bytes ri) @ bs"
    and "ri_high_water (write_view pos bs ri) = ri_high_water ri"
  using assms by (simp_all add: write_view_def ri_capacity_def)

lemma resident_grow_spec:
  assumes "resident_ok ri" and "resident_grow ri = Inr ri'"
  shows "resident_ok ri'" and "ri_capacity ri' = 2 * ri_capacity ri"
    and "take (ri_capacity ri) (ri_bytes ri') = ri_bytes ri"
  using assms by (auto simp: resident_ok_def resident_grow_def ri_capacity_def vec_resize_def split: if_splits)

lemma finish_call_ok:
  assumes "resident_ok ri" and "finish_call used ri = Inr ri'"
  shows "resident_ok ri'"
  using assms by (auto simp: resident_ok_def finish_call_def ri_capacity_def SHRINK_BOUND_BYTES_def INITIAL_BYTES_def split: if_splits)

lemma encodeInto_room: "encodeInto s room = (rd, bs) \<Longrightarrow> length bs \<le> room \<and> rd \<le> length s"
  using encodeInto_spec by blast

lemma resident_loop_returns:
  assumes "resident_ok ri" and "written \<le> ri_capacity ri"
  shows "\<exists>r ri'. resident_loop s written ri = Some (r, ri') \<and> resident_ok ri' \<and>
    (case r of
       Inl e \<Rightarrow> e = PlainError ''resident input capacity overflow'' \<and> 2 ^ 31 \<le> ri_capacity ri' \<and>
                2 ^ 31 < written + length (utf8_encode s)
     | Inr n \<Rightarrow> n = written + length (utf8_encode s) \<and> n \<le> ri_capacity ri' \<and>
                take n (ri_bytes ri') = take written (ri_bytes ri) @ utf8_encode s)"
  using assms
proof (induction "2 ^ 32 - ri_capacity ri" arbitrary: s written ri rule: less_induct)
  case less
  show ?case
  proof (cases "s = []")
    case True
    then show ?thesis using less.prems by (simp add: resident_loop.simps)
  next
    case False
    obtain rd bs where enc: "encodeInto s (ri_capacity ri - written) = (rd, bs)" by fastforce
    note spec = encodeInto_spec [OF enc]
    let ?ri = "write_view written bs ri"
    have fits: "written + length bs \<le> ri_capacity ri" using spec less.prems(2) by linarith
    note view = write_view_simps [OF fits]
    have ok: "resident_ok ?ri" using less.prems(1) view by (simp add: resident_ok_def)
    show ?thesis
    proof (cases "rd = length s")
      case True
      then show ?thesis using False enc spec view ok fits by (simp add: resident_loop.simps)
    next
      case more: False
      show ?thesis
      proof (cases "resident_grow ?ri")
        case (Inl e)
        have "2 ^ 31 \<le> ri_capacity ri" "e = PlainError ''resident input capacity overflow''"
          using Inl by (auto simp: resident_grow_def view split: if_splits)
        moreover have "ri_capacity ri < written + length (utf8_encode s)" using spec more less.prems(2) by simp linarith
        ultimately show ?thesis using False enc more Inl ok view by (simp add: resident_loop.simps)
      next
        case (Inr ri')
        note grown = resident_grow_spec [OF ok Inr, unfolded view(1)]
        have pos: "0 < ri_capacity ri" using less.prems(1) by (simp add: resident_ok_def INITIAL_BYTES_def)
        have "2 ^ 32 - ri_capacity ri' < 2 ^ 32 - ri_capacity ri"
          using grown(1,2) pos by (simp add: resident_ok_def) linarith
        moreover have w: "written + length bs \<le> ri_capacity ri'" using fits grown(2) by simp
        ultimately obtain r ri2 where rec: "resident_loop (drop rd s) (written + length bs) ri' = Some (r, ri2)"
          "resident_ok ri2"
          "case r of
             Inl e \<Rightarrow> e = PlainError ''resident input capacity overflow'' \<and> 2 ^ 31 \<le> ri_capacity ri2 \<and>
                2 ^ 31 < written + length bs + length (utf8_encode (drop rd s))
           | Inr n \<Rightarrow> n = written + length bs + length (utf8_encode (drop rd s)) \<and> n \<le> ri_capacity ri2 \<and>
                take n (ri_bytes ri2) = take (written + length bs) (ri_bytes ri') @ utf8_encode (drop rd s)"
          using less.hyps [OF _ grown(1)] by blast
        have "take (written + length bs) (ri_bytes ri') = take (written + length bs) (take (ri_capacity ri) (ri_bytes ri'))"
          using fits by (simp add: min_absorb1)
        then have "take (written + length bs) (ri_bytes ri') = take written (ri_bytes ri) @ bs"
          using grown(3) view(2) by simp
        moreover have "length (utf8_encode s) = length bs + length (utf8_encode (drop rd s))" using spec by simp
        moreover have "resident_loop s written ri = Some (r, ri2)"
          using False enc more Inr rec(1) by (subst resident_loop.simps) simp
        ultimately show ?thesis using rec(2,3) spec by (auto split: sum.splits)
      qed
    qed
  qed
qed

subsection \<open>Encoding a string\<close>

text \<open>
  Between calls, whatever they were, the buffer is usable: a call on it returns, and leaves it so.
\<close>

lemma resident_call_ok:
  assumes "resident_ok ri" and "resident_call f used ri = (r, ri')"
  shows "resident_ok ri'"
  using assms by (auto simp: resident_call_def dest: finish_call_ok split: if_splits sum.splits)

lemma resident_call_value:
  assumes "used \<le> ri_capacity ri" and "resident_call f used ri = (r, ri')"
  shows "r = f (take used (ri_bytes ri))"
  using assms by (auto simp: resident_call_def finish_call_def split: if_splits sum.splits)

text \<open>The route through the buffer gives what the plain method gives on the bytes of the string.\<close>

definition encoder_laws :: "encoder \<Rightarrow> bool" where
  "encoder_laws en \<longleftrightarrow>
     (\<forall>f s. en_resident en = Some f \<longrightarrow> f (utf8_encode s) = en_encode en (utf8_encode s)) \<and>
     (\<forall>f s. en_into en = Some f \<longrightarrow> f (utf8_encode s) = en_encode en (utf8_encode s)) \<and>
     (\<forall>f s. en_chunked en = Some f \<longrightarrow> f (en_chunkSize en) (utf8_encode s) = en_encode en (utf8_encode s))"

definition encode_reference :: "encoder \<Rightarrow> encode_input \<Rightarrow> js_error + u32 list" where
  "encode_reference en i = try_bind (inputBytes i) (en_encode en)"

lemma encodeResidentString_returns:
  assumes "resident_ok ri"
  shows "\<exists>r ri'. encodeResidentString f s ri = Some (r, ri') \<and> resident_ok ri' \<and>
    (r = f (utf8_encode s) \<or> 2 ^ 31 < length (utf8_encode s) \<and> r = Inl (PlainError ''resident input capacity overflow''))"
proof -
  obtain r ri1 where loop: "resident_loop s 0 ri = Some (r, ri1)" "resident_ok ri1"
    "case r of
       Inl e \<Rightarrow> e = PlainError ''resident input capacity overflow'' \<and> 2 ^ 31 \<le> ri_capacity ri1 \<and> 2 ^ 31 < 0 + length (utf8_encode s)
     | Inr n \<Rightarrow> n = 0 + length (utf8_encode s) \<and> n \<le> ri_capacity ri1 \<and> take n (ri_bytes ri1) = take 0 (ri_bytes ri) @ utf8_encode s"
    using resident_loop_returns [OF assms, of 0 s] by blast
  show ?thesis
  proof (cases r)
    case (Inl e)
    then show ?thesis using loop by (simp add: encodeResidentString_def)
  next
    case (Inr n)
    obtain r2 ri2 where call: "resident_call f n ri1 = (r2, ri2)" by fastforce
    have n: "n \<le> ri_capacity ri1" "take n (ri_bytes ri1) = utf8_encode s" using loop(3) Inr by auto
    have "r2 = f (utf8_encode s)" "resident_ok ri2"
      using resident_call_value [OF n(1) call] resident_call_ok [OF loop(2) call] n(2) by simp_all
    then show ?thesis using loop(1) Inr call by (simp add: encodeResidentString_def)
  qed
qed

lemma encodeSingle_returns:
  assumes "resident_ok ri" and "encoder_laws en"
  shows "\<exists>r ri'. encodeSingle en i ri = Some (r, ri') \<and> resident_ok ri' \<and>
    (r = encode_reference en i \<or> r = Inl (PlainError ''resident input capacity overflow''))"
proof (cases "\<exists>s f. i = InputString s \<and> en_resident en = Some f")
  case True
  then obtain s f where eq: "i = InputString s" "en_resident en = Some f" by blast
  moreover have "f (utf8_encode s) = en_encode en (utf8_encode s)" using assms(2) eq(2) by (simp add: encoder_laws_def)
  ultimately show ?thesis
    using encodeResidentString_returns [OF assms(1), of f s]
    by (auto simp: encodeSingle_def encode_reference_def inputBytes_def)
next
  case False
  then have "encodeSingle en i ri = Some (encode_reference en i, ri)"
    by (auto simp: encodeSingle_def encode_reference_def split: encode_input.splits option.splits)
  then show ?thesis using assms(1) by simp
qed

text \<open>A session of single-tier calls on one tokenizer: results in order, the buffer threaded.\<close>

fun encode_calls ::
  "encoder \<Rightarrow> encode_input list \<Rightarrow> resident_input \<Rightarrow> ((js_error + u32 list) list \<times> resident_input) option" where
  "encode_calls en [] ri = Some ([], ri)"
| "encode_calls en (i # ins) ri =
     Option.bind (encodeSingle en i ri) (\<lambda>(r, ri1).
     Option.bind (encode_calls en ins ri1) (\<lambda>(rs, ri2). Some (r # rs, ri2)))"

lemma encode_calls_returns:
  assumes "resident_ok ri" and "encoder_laws en"
  shows "\<exists>rs ri'. encode_calls en ins ri = Some (rs, ri') \<and> resident_ok ri' \<and>
    list_all2 (\<lambda>i r. r = encode_reference en i \<or> r = Inl (PlainError ''resident input capacity overflow'')) ins rs"
  using assms(1)
proof (induction ins arbitrary: ri)
  case (Cons i ins)
  obtain r ri1 where one: "encodeSingle en i ri = Some (r, ri1)" "resident_ok ri1"
    "r = encode_reference en i \<or> r = Inl (PlainError ''resident input capacity overflow'')"
    using encodeSingle_returns [OF Cons.prems assms(2), of i] by blast
  then show ?case using Cons.IH [OF one(2)] by auto
qed simp


text \<open>An artifact with all the methods, over a tokenizer of bytes.\<close>

definition byte_encoder :: encoder where
  "byte_encoder = \<lparr>en_encode = (\<lambda>bs. Inr (map ucast bs)), en_resident = Some (\<lambda>bs. Inr (map ucast bs)),
     en_into = Some (\<lambda>bs. Inr (map ucast bs)), en_chunked = None, en_chunkSize = 16384\<rparr>"


subsection \<open>Encoding into an array\<close>

text \<open>
  \<^verbatim>\<open>encodeInto\<close> on the single tier returns; it throws what the encoding throws, or the capacity
  error, and then leaves the destination as it was; otherwise it writes the ids at its start,
  leaves the rest, and returns their number.
\<close>

theorem resident_encode_into:
  assumes "resident_ok ri" and "encoder_laws en" and "en_into en = Some into" and "length (utf8_encode s) \<le> 2 ^ 31"
  shows "\<exists>ri'. resident_ok ri' \<and> encodeResidentStringInto en into s ri destination =
    Some (case en_encode en (utf8_encode s) of
       Inl e \<Rightarrow> (Inl e, ri', destination)
     | Inr ids \<Rightarrow> if length ids \<le> length destination
                  then (Inr (length ids), ri', ids @ drop (length ids) destination)
                  else (Inl (capacity_error (length destination) (length ids)), ri', destination))"
proof -
  obtain r ri1 where loop: "resident_loop s 0 ri = Some (r, ri1)" "resident_ok ri1"
    "case r of
       Inl e \<Rightarrow> e = PlainError ''resident input capacity overflow'' \<and> 2 ^ 31 \<le> ri_capacity ri1 \<and> 2 ^ 31 < 0 + length (utf8_encode s)
     | Inr n \<Rightarrow> n = 0 + length (utf8_encode s) \<and> n \<le> ri_capacity ri1 \<and> take n (ri_bytes ri1) = take 0 (ri_bytes ri) @ utf8_encode s"
    using resident_loop_returns [OF assms(1), of 0 s] by blast
  then obtain n where r: "r = Inr n" "n \<le> ri_capacity ri1" "take n (ri_bytes ri1) = utf8_encode s"
    using assms(4) by (cases r) auto
  define f where "f = (case en_chunked en of Some g \<Rightarrow> g (en_chunkSize en) | None \<Rightarrow> into)"
  obtain r2 ri2 where call: "resident_call f n ri1 = (r2, ri2)" by fastforce
  have "f (utf8_encode s) = en_encode en (utf8_encode s)"
    using assms(2,3) by (auto simp: f_def encoder_laws_def split: option.splits)
  then have "r2 = en_encode en (utf8_encode s)" "resident_ok ri2"
    using resident_call_value [OF r(2) call] resident_call_ok [OF loop(2) call] r(3) by simp_all
  then show ?thesis using loop(1) r(1) call
    by (intro exI [of _ ri2]) (auto simp: encodeResidentStringInto_def f_def [symmetric] copyIdsInto_def split: sum.splits)
qed

theorem resident_encode_into_witness:
  "\<exists>ri'. resident_ok ri' \<and> encodeResidentStringInto byte_encoder (\<lambda>bs. Inr (map ucast bs)) [0x41, 0x42] resident_new [9, 9, 9] =
    Some (case en_encode byte_encoder (utf8_encode [0x41, 0x42]) of
       Inl e \<Rightarrow> (Inl e, ri', [9, 9, 9])
     | Inr ids \<Rightarrow> if length ids \<le> length [9 :: u32, 9, 9]
                  then (Inr (length ids), ri', ids @ drop (length ids) [9, 9, 9])
                  else (Inl (capacity_error (length [9 :: u32, 9, 9]) (length ids)), ri', [9, 9, 9]))"
  by (rule resident_encode_into)
    (simp_all add: resident_ok_new encoder_laws_def byte_encoder_def utf8_encode.simps first_scalar_def scalar_bytes_def
       is_high_def is_low_def word_le_nat_alt)

end
