(* ===== verification/Reserved.thy ===== *)
theory Reserved
  imports Resident_Input Decoder
begin

text \<open>
  Which reserved tokens a call matches and which it refuses: the policies of
  \<^verbatim>\<open>tier-runtime.mjs\<close> (and the same functions in \<^verbatim>\<open>index.mjs\<close>), and the translation of tiktoken's
  \<^verbatim>\<open>allowed_special\<close> and \<^verbatim>\<open>disallowed_special\<close> in \<^verbatim>\<open>tiktoken-shim.mjs\<close>.
\<close>

subsection \<open>Values of the options\<close>

text \<open>An ASCII literal as a JavaScript string.\<close>

definition js_literal :: "string \<Rightarrow> jstring" where
  "js_literal s = map (\<lambda>ch. of_nat (of_char ch)) s"

datatype name_value = NameString jstring | NameOther

fun is_name :: "name_value \<Rightarrow> bool" where
  "is_name (NameString _) = True"
| "is_name NameOther = False"

fun name_text :: "name_value \<Rightarrow> jstring" where
  "name_text (NameString s) = s"
| "name_text NameOther = []"

datatype selection_value = SelUndefined | SelString jstring | SelArray "name_value list" | SelOther

datatype policy_value = PolicyUndefined | PolicyNotObject | Policy selection_value selection_value

record selection =
  sel_all :: bool
  sel_names :: "jstring list"

text \<open>\<^verbatim>\<open>[...new Set(xs)]\<close>: a set iterates in the order of insertion.\<close>

definition set_add :: "'a list \<Rightarrow> 'a \<Rightarrow> 'a list" where
  "set_add s x = (if x \<in> set s then s else s @ [x])"

definition js_unique :: "'a list \<Rightarrow> 'a list" where
  "js_unique xs = foldl set_add [] xs"

subsection \<open>The policy of a call\<close>

definition selection_error :: "string \<Rightarrow> js_error" where
  "selection_error field = TypeError (field @ '' must be \"all\" or an array of reserved-token names'')"

definition reservedSelection :: "selection_value \<Rightarrow> bool \<Rightarrow> string \<Rightarrow> js_error + selection" where
  "reservedSelection v defaultAll field =
     (case v of
        SelUndefined \<Rightarrow> Inr \<lparr>sel_all = defaultAll, sel_names = []\<rparr>
      | SelString s \<Rightarrow> if s = js_literal ''all'' then Inr \<lparr>sel_all = True, sel_names = []\<rparr>
                       else Inl (selection_error field)
      | SelArray ns \<Rightarrow> if list_all is_name ns then Inr \<lparr>sel_all = False, sel_names = js_unique (map name_text ns)\<rparr>
                       else Inl (selection_error field)
      | SelOther \<Rightarrow> Inl (selection_error field))"

definition normalizeReservedPolicy :: "policy_value \<Rightarrow> js_error + selection \<times> selection" where
  "normalizeReservedPolicy p =
     (case (case p of PolicyUndefined \<Rightarrow> Some (SelUndefined, SelUndefined)
            | PolicyNotObject \<Rightarrow> None
            | Policy m r \<Rightarrow> Some (m, r)) of
        None \<Rightarrow> Inl (TypeError ''reserved policy must be an object'')
      | Some (m, r) \<Rightarrow>
          try_bind (reservedSelection m True ''reserved.match'') (\<lambda>matched.
          try_bind (reservedSelection r False ''reserved.refuse'') (\<lambda>refused.
          Inr (matched, refused))))"

subsection \<open>The tiktoken shim\<close>

definition selectedNames :: "selection_value \<Rightarrow> bool \<Rightarrow> jstring list \<Rightarrow> string \<Rightarrow> js_error + jstring list" where
  "selectedNames v defaultAll known field =
     (case v of
        SelUndefined \<Rightarrow> Inr (if defaultAll then known else [])
      | SelString s \<Rightarrow> if s = js_literal ''all'' then Inr known else Inl (selection_error field)
      | SelArray ns \<Rightarrow> if list_all is_name ns
                       then Inr (filter (\<lambda>nm. nm \<in> set known) (js_unique (map name_text ns)))
                       else Inl (selection_error field)
      | SelOther \<Rightarrow> Inl (selection_error field))"

definition name_array :: "jstring list \<Rightarrow> selection_value" where
  "name_array names = SelArray (map NameString names)"

definition tiktokenPolicy :: "selection_value \<Rightarrow> selection_value \<Rightarrow> jstring list \<Rightarrow> js_error + policy_value" where
  "tiktokenPolicy allowedValue disallowedValue known =
     (let allowedAll = (allowedValue = SelString (js_literal ''all'')) in
      try_bind (selectedNames allowedValue False known ''allowed_special'') (\<lambda>allowed.
      if allowedAll then Inr (Policy (SelString (js_literal ''all'')) (name_array []))
      else try_bind (selectedNames disallowedValue True known ''disallowed_special'') (\<lambda>disallowed.
           Inr (Policy (name_array allowed) (name_array (filter (\<lambda>nm. nm \<notin> set allowed) disallowed))))))"

subsection \<open>Encoding under a policy\<close>

text \<open>
  What the tokenizer's \<^verbatim>\<open>encodeReserved\<close> gives: ids, the byte offset each starts at, and the
  reserved names found in the text. The names travel as JSON, which both sides only copy.
\<close>

record reserved_encoding =
  re_ids :: "u32 list"
  re_starts :: "nat list"
  re_found :: "jstring list"

type_synonym encode_reserved =
  "bytes \<Rightarrow> bool \<Rightarrow> jstring list \<Rightarrow> bool \<Rightarrow> jstring list \<Rightarrow> js_error + reserved_encoding"

definition encodeReservedBytes :: "encode_reserved \<Rightarrow> bytes \<Rightarrow> policy_value \<Rightarrow> js_error + reserved_encoding" where
  "encodeReservedBytes f bs p =
     try_bind (normalizeReservedPolicy p) (\<lambda>(matched, refused).
     f bs (sel_all matched) (sel_names matched) (sel_all refused) (sel_names refused))"

text \<open>
  The runtime below a shim: what \<^verbatim>\<open>singleRuntime\<close> checks of it, its reserved names, and its
  methods \<^verbatim>\<open>encodeReservedSync\<close>, \<^verbatim>\<open>tokenBytes\<close> and \<^verbatim>\<open>decodeBytes\<close> on its state.
\<close>

record 's shim_core =
  sc_tier :: string
  sc_encodeReservedSync :: "(encode_input \<Rightarrow> policy_value \<Rightarrow> ('s, reserved_encoding) js) option"
  sc_tokenBytes :: "(jsval \<Rightarrow> ('s, bytes) js) option"
  sc_decodeBytes :: "(js_input \<Rightarrow> ('s, bytes) js) option"
  sc_reservedTokens :: "jstring list"

definition tiktoken_runtime_error :: js_error where
  "tiktoken_runtime_error = TypeError ''the tiktoken shim requires a resident single-tier runtime''"

text \<open>\<^verbatim>\<open>singleRuntime\<close>, after the handle is resolved; \<open>None\<close> is a missing runtime.\<close>

definition tiktoken_singleRuntime :: "'s shim_core option \<Rightarrow> js_error + 's shim_core" where
  "tiktoken_singleRuntime runtime =
     (case runtime of
        None \<Rightarrow> Inl tiktoken_runtime_error
      | Some core \<Rightarrow>
          if sc_tier core \<noteq> ''single'' \<or> sc_encodeReservedSync core = None \<or> sc_tokenBytes core = None \<or> sc_decodeBytes core = None
          then Inl tiktoken_runtime_error else Inr core)"

text \<open>The shim: the runtime it was made over and the set of reserved names read once.\<close>

record 's tiktoken_shim =
  ts_core :: "'s shim_core"
  ts_known :: "jstring list"

definition createTiktokenShim :: "'s shim_core option \<Rightarrow> js_error + 's tiktoken_shim" where
  "createTiktokenShim runtime =
     try_bind (tiktoken_singleRuntime runtime) (\<lambda>core.
     Inr \<lparr>ts_core = core, ts_known = js_unique (sc_reservedTokens core)\<rparr>)"

definition tiktoken_encodeReserved :: "'s tiktoken_shim \<Rightarrow> encode_input \<Rightarrow> policy_value \<Rightarrow> ('s, reserved_encoding) js" where
  "tiktoken_encodeReserved shim i policy = the (sc_encodeReservedSync (ts_core shim)) i policy"

definition tiktoken_encode ::
  "'s tiktoken_shim \<Rightarrow> encode_input \<Rightarrow> selection_value \<Rightarrow> selection_value \<Rightarrow> ('s, u32 list) js" where
  "tiktoken_encode shim i allowedSpecial disallowedSpecial =
     js_bind (js_lift (tiktokenPolicy allowedSpecial disallowedSpecial (ts_known shim))) (\<lambda>policy.
     js_bind (tiktoken_encodeReserved shim i policy) (\<lambda>e. js_ret (re_ids e)))"

definition tiktoken_encode_ordinary :: "'s tiktoken_shim \<Rightarrow> encode_input \<Rightarrow> ('s, u32 list) js" where
  "tiktoken_encode_ordinary shim i =
     js_bind (tiktoken_encodeReserved shim i (Policy (name_array []) (name_array []))) (\<lambda>e. js_ret (re_ids e))"

definition tiktoken_decode :: "'s tiktoken_shim \<Rightarrow> js_input \<Rightarrow> ('s, bytes) js" where
  "tiktoken_decode shim ids = the (sc_decodeBytes (ts_core shim)) ids"

subsection \<open>Sets of names\<close>

lemma set_foldl_set_add: "set (foldl set_add s xs) = set s \<union> set xs"
  by (induction xs arbitrary: s) (auto simp: set_add_def)

lemma distinct_foldl_set_add: "distinct (foldl set_add s xs) = distinct s"
  by (induction xs arbitrary: s) (auto simp: set_add_def)

lemma set_js_unique [simp]: "set (js_unique xs) = set xs"
  by (simp add: js_unique_def set_foldl_set_add)

lemma distinct_js_unique [simp]: "distinct (js_unique xs)"
  by (simp add: js_unique_def distinct_foldl_set_add)

lemma foldl_set_add_distinct: "distinct xs \<Longrightarrow> set s \<inter> set xs = {} \<Longrightarrow> foldl set_add s xs = s @ xs"
proof (induction xs arbitrary: s)
  case (Cons x xs)
  then have "x \<notin> set s" "set (s @ [x]) \<inter> set xs = {}" by auto
  then show ?case using Cons.IH [of "s @ [x]"] Cons.prems by (simp add: set_add_def)
qed simp

lemma js_unique_distinct: "distinct xs \<Longrightarrow> js_unique xs = xs"
  using foldl_set_add_distinct [of xs "[]"] by (simp add: js_unique_def)

lemma name_array_names: "list_all is_name (map NameString names)" "map name_text (map NameString names) = names"
  by (simp_all add: list_all_iff comp_def)

lemma reservedSelection_names:
  "distinct names \<Longrightarrow> reservedSelection (name_array names) d field = Inr \<lparr>sel_all = False, sel_names = names\<rparr>"
  by (simp only: reservedSelection_def name_array_def selection_value.case name_array_names if_True js_unique_distinct)

subsection \<open>The meaning of a policy\<close>

text \<open>The reserved names a normalized policy matches and refuses, of those the vocabulary has.\<close>

definition selected :: "jstring list \<Rightarrow> selection \<Rightarrow> jstring set" where
  "selected known sel = (if sel_all sel then set known else set (sel_names sel) \<inter> set known)"

text \<open>What an option of tiktoken names: all, the default, or the listed names that exist.\<close>

fun option_names :: "jstring list \<Rightarrow> jstring set \<Rightarrow> selection_value \<Rightarrow> jstring set" where
  "option_names known d SelUndefined = d"
| "option_names known d (SelArray ns) = name_text ` set ns \<inter> set known"
| "option_names known d _ = set known"

lemma selectedNames_set:
  assumes "selectedNames v d known field = Inr names" and "distinct known"
  shows "set names = option_names known (if d then set known else {}) v" and "distinct names" and "set names \<subseteq> set known"
  using assms by (auto simp: selectedNames_def split: selection_value.splits if_splits)

text \<open>
  The policy the tiktoken shim passes on: it is always one the runtime accepts; of the
  reserved names it matches the allowed ones, all when \<^verbatim>\<open>allowed_special\<close> is \<^verbatim>\<open>"all"\<close>, and refuses
  the disallowed ones, all by default, that are not allowed; no name is both matched and refused.
\<close>

theorem tiktoken_policy_meaning:
  assumes "tiktokenPolicy a d known = Inr p" and "distinct known"
  shows "\<exists>matched refused. normalizeReservedPolicy p = Inr (matched, refused) \<and>
    selected known matched = option_names known {} a \<and>
    selected known refused = option_names known (set known) d - option_names known {} a"
proof (cases "a = SelString (js_literal ''all'')")
  case True
  then have "p = Policy (SelString (js_literal ''all'')) (name_array [])"
    using assms(1) by (simp add: tiktokenPolicy_def selectedNames_def)
  moreover have "option_names known (set known) d \<subseteq> set known" by (cases d) auto
  ultimately show ?thesis using True
    by (auto simp: normalizeReservedPolicy_def reservedSelection_names reservedSelection_def [of "SelString _"] selected_def)
next
  case False
  then obtain allowed disallowed where names: "selectedNames a False known ''allowed_special'' = Inr allowed"
    "selectedNames d True known ''disallowed_special'' = Inr disallowed"
    "p = Policy (name_array allowed) (name_array (filter (\<lambda>nm. nm \<notin> set allowed) disallowed))"
    using assms(1) by (auto simp: tiktokenPolicy_def try_bind_Inr)
  note a = selectedNames_set [OF names(1) assms(2)] and d = selectedNames_set [OF names(2) assms(2)]
  have "normalizeReservedPolicy p =
      Inr (\<lparr>sel_all = False, sel_names = allowed\<rparr>, \<lparr>sel_all = False, sel_names = filter (\<lambda>nm. nm \<notin> set allowed) disallowed\<rparr>)"
    using a(2) d(2) by (simp add: names(3) normalizeReservedPolicy_def reservedSelection_names)
  then show ?thesis using a(1,3) d(1,3) by (auto simp: selected_def)
qed

text \<open>A vocabulary with two reserved names, of which one is allowed, with one that does not exist.\<close>

theorem tiktoken_policy_meaning_witness:
  "\<exists>p matched refused. tiktokenPolicy (SelArray [NameString [1], NameString [3]]) SelUndefined [[1], [2]] = Inr p \<and>
     normalizeReservedPolicy p = Inr (matched, refused) \<and>
     selected [[1], [2]] matched = {[1]} \<and> selected [[1], [2]] refused = {[2]}"
proof -
  let ?p = "Policy (name_array [[1]]) (name_array [[2]])"
  have p: "tiktokenPolicy (SelArray [NameString [1], NameString [3]]) SelUndefined [[1], [2]] = Inr ?p"
    by (simp add: tiktokenPolicy_def selectedNames_def js_unique_def set_add_def Let_def)
  have "distinct [[1], [2] :: jstring]" by simp
  from tiktoken_policy_meaning [OF p this] obtain matched refused
    where "normalizeReservedPolicy ?p = Inr (matched, refused)" "selected [[1], [2]] matched = {[1]}" "selected [[1], [2]] refused = {[2]}"
    by auto
  then show ?thesis using p by blast
qed

text \<open>What the fields of a policy may be.\<close>

definition selection_valid :: "selection_value \<Rightarrow> bool" where
  "selection_valid v \<longleftrightarrow>
     (case v of SelUndefined \<Rightarrow> True | SelString s \<Rightarrow> s = js_literal ''all'' | SelArray ns \<Rightarrow> list_all is_name ns | SelOther \<Rightarrow> False)"

definition policy_valid :: "policy_value \<Rightarrow> bool" where
  "policy_valid p \<longleftrightarrow>
     (case p of PolicyUndefined \<Rightarrow> True | PolicyNotObject \<Rightarrow> False | Policy m r \<Rightarrow> selection_valid m \<and> selection_valid r)"

lemma reservedSelection_checked:
  "case reservedSelection v d field of
     Inl e \<Rightarrow> is_TypeError e \<and> \<not> selection_valid v
   | Inr sel \<Rightarrow> selection_valid v \<and> distinct (sel_names sel)"
  by (auto simp: reservedSelection_def selection_valid_def selection_error_def split: selection_value.splits)

text \<open>
  A policy is refused with a TypeError exactly when one of its fields is neither absent, nor
  \<^verbatim>\<open>"all"\<close>, nor an array of strings; an accepted one names every reserved token at most once.
\<close>

theorem reserved_policy_checked:
  "case normalizeReservedPolicy p of
     Inl e \<Rightarrow> is_TypeError e \<and> \<not> policy_valid p
   | Inr (matched, refused) \<Rightarrow> policy_valid p \<and> distinct (sel_names matched) \<and> distinct (sel_names refused)"
proof (cases p)
  case PolicyUndefined
  then show ?thesis by (simp add: normalizeReservedPolicy_def reservedSelection_def policy_valid_def)
next
  case PolicyNotObject
  then show ?thesis by (simp add: normalizeReservedPolicy_def policy_valid_def)
next
  case (Policy m r)
  then show ?thesis
    using reservedSelection_checked [of m True "''reserved.match''"] reservedSelection_checked [of r False "''reserved.refuse''"]
    by (auto simp: normalizeReservedPolicy_def policy_valid_def split: sum.splits)
qed

end
