(* ===== verification/Worker_Rpc.thy ===== *)
theory Worker_Rpc
  imports Prelude
begin

text \<open>
  Calls to a worker by messages: the class \<^verbatim>\<open>RpcWorker\<close> of \<^verbatim>\<open>tier-runtime.mjs\<close> as a state
  machine, and its composition with a worker that handles the messages in any order, replies
  that arrive in any order, error events and \<^verbatim>\<open>close\<close> at any time.
\<close>

subsection \<open>The client\<close>

text \<open>
  The fields of the class; \<open>rw_settled\<close> is the ghost log of the promises settled so far, the
  newest first, and \<open>rw_posted\<close> of the messages posted with their ids.
\<close>

record ('m, 'v) rpc_worker =
  rw_nextId :: nat
  rw_pending :: "nat list"
  rw_failure :: "js_error option"
  rw_terminated :: bool
  rw_posted :: "(nat \<times> 'm) list"
  rw_settled :: "(nat \<times> (js_error + 'v)) list"

definition new_rpc :: "('m, 'v) rpc_worker" where
  "new_rpc = \<lparr>rw_nextId = 0, rw_pending = [], rw_failure = None, rw_terminated = False,
     rw_posted = [], rw_settled = []\<rparr>"

text \<open>The listener for messages: a reply \<^verbatim>\<open>{id, ok, value}\<close> or \<^verbatim>\<open>{id, ok, error}\<close>.\<close>

definition rpc_message :: "nat \<times> (string + 'v) \<Rightarrow> ('m, 'v) rpc_worker \<Rightarrow> ('m, 'v) rpc_worker" where
  "rpc_message reply rw =
     (case reply of (cid, r) \<Rightarrow>
        if cid \<notin> set (rw_pending rw) then rw
        else rw\<lparr>rw_pending := filter (\<lambda>i. i \<noteq> cid) (rw_pending rw),
                rw_settled := (cid, case r of Inl msg \<Rightarrow> Inl (PlainError msg) | Inr v \<Rightarrow> Inr v) # rw_settled rw\<rparr>)"

text \<open>The error event; absent texts are empty, an absent line or column is 0.\<close>

record error_event =
  ev_message :: string
  ev_filename :: string
  ev_lineno :: nat
  ev_colno :: nat

definition event_error :: "error_event \<Rightarrow> js_error" where
  "event_error ev =
     (let location = (if ev_filename ev = [] then []
                      else ev_filename ev @ '':'' @ show_nat (ev_lineno ev) @ '':'' @ show_nat (ev_colno ev));
          parts = filter (\<lambda>part. part \<noteq> []) [ev_message ev, location]
      in PlainError (case parts of [] \<Rightarrow> ''execution worker failed''
                     | [p] \<Rightarrow> p | p # q # _ \<Rightarrow> p @ '' at '' @ q))"

text \<open>All pending calls are rejected, in the order they were made.\<close>

definition reject_all :: "js_error \<Rightarrow> ('m, 'v) rpc_worker \<Rightarrow> ('m, 'v) rpc_worker" where
  "reject_all e rw =
     rw\<lparr>rw_settled := rev (map (\<lambda>cid. (cid, Inl e)) (rw_pending rw)) @ rw_settled rw, rw_pending := []\<rparr>"

definition rpc_error :: "error_event \<Rightarrow> ('m, 'v) rpc_worker \<Rightarrow> ('m, 'v) rpc_worker" where
  "rpc_error ev rw = reject_all (event_error ev) (rw\<lparr>rw_failure := Some (event_error ev)\<rparr>)"

text \<open>A call is rejected at once after a failure; otherwise its id identifies its promise.\<close>

definition rpc_call :: "'m \<Rightarrow> ('m, 'v) rpc_worker \<Rightarrow> (js_error + nat) \<times> ('m, 'v) rpc_worker" where
  "rpc_call m rw =
     (case rw_failure rw of
        Some e \<Rightarrow> (Inl e, rw)
      | None \<Rightarrow> (Inr (rw_nextId rw),
                 rw\<lparr>rw_nextId := Suc (rw_nextId rw), rw_pending := rw_pending rw @ [rw_nextId rw],
                    rw_posted := rw_posted rw @ [(rw_nextId rw, m)]\<rparr>))"

definition closed_error :: js_error where
  "closed_error = PlainError ''execution worker closed''"

definition rpc_close :: "('m, 'v) rpc_worker \<Rightarrow> ('m, 'v) rpc_worker" where
  "rpc_close rw =
     reject_all closed_error
       (rw\<lparr>rw_terminated := True,
          rw_failure := (case rw_failure rw of None \<Rightarrow> Some closed_error | Some e \<Rightarrow> Some e)\<rparr>)"

subsection \<open>The client and its worker\<close>

text \<open>
  The whole: the client, the state of the worker, the messages it has not handled, and its
  replies not yet delivered. A step of the worker handles one message; messages and replies may
  overtake each other, which allows more than the platform does.
\<close>

type_synonym ('m, 'v, 'w) rpc_state = "('m, 'v) rpc_worker \<times> 'w \<times> (nat \<times> 'm) list \<times> (nat \<times> (string + 'v)) list"

inductive rpc_step ::
  "('m \<Rightarrow> 'w \<Rightarrow> (string + 'v) \<times> 'w) \<Rightarrow> ('m, 'v, 'w) rpc_state \<Rightarrow> ('m, 'v, 'w) rpc_state \<Rightarrow> bool"
  for handle :: "'m \<Rightarrow> 'w \<Rightarrow> (string + 'v) \<times> 'w" where
  call: "rpc_call m rw = (Inr cid, rw') \<Longrightarrow>
    rpc_step handle (rw, w, inbox, replies) (rw', w, inbox @ [(cid, m)], replies)"
| work: "\<not> rw_terminated rw \<Longrightarrow> (cid, m) \<in> set inbox \<Longrightarrow> handle m w = (r, w') \<Longrightarrow>
    rpc_step handle (rw, w, inbox, replies) (rw, w', remove1 (cid, m) inbox, replies @ [(cid, r)])"
| deliver: "reply \<in> set replies \<Longrightarrow>
    rpc_step handle (rw, w, inbox, replies) (rpc_message reply rw, w, inbox, remove1 reply replies)"
| crash: "rpc_step handle (rw, w, inbox, replies) (rpc_error ev rw, w, inbox, replies)"
| shut: "rpc_step handle (rw, w, inbox, replies) (rpc_close rw, w, inbox, replies)"

inductive rpc_reaches ::
  "('m \<Rightarrow> 'w \<Rightarrow> (string + 'v) \<times> 'w) \<Rightarrow> 'w \<Rightarrow> ('m, 'v, 'w) rpc_state \<Rightarrow> bool"
  for handle :: "'m \<Rightarrow> 'w \<Rightarrow> (string + 'v) \<times> 'w" and w0 :: 'w where
  start: "rpc_reaches handle w0 (new_rpc, w0, [], [])"
| step: "rpc_reaches handle w0 c \<Longrightarrow> rpc_step handle c c' \<Longrightarrow> rpc_reaches handle w0 c'"

inductive_cases rpc_stepE: "rpc_step handle (rw, w, inbox, replies) c'"

subsection \<open>The bookkeeping of calls\<close>

text \<open>
  Every call made is pending or settled, never both, and settled once; after a failure none is
  pending.
\<close>

definition calls_ok :: "('m, 'v) rpc_worker \<Rightarrow> bool" where
  "calls_ok rw \<longleftrightarrow> distinct (rw_pending rw) \<and> distinct (map fst (rw_settled rw)) \<and>
     set (rw_pending rw) \<inter> fst ` set (rw_settled rw) = {} \<and>
     set (rw_pending rw) \<union> fst ` set (rw_settled rw) = {..<rw_nextId rw} \<and>
     map fst (rw_posted rw) = [0..<rw_nextId rw] \<and>
     (rw_failure rw \<noteq> None \<longrightarrow> rw_pending rw = []) \<and> (rw_terminated rw \<longrightarrow> rw_failure rw \<noteq> None)"

lemma calls_ok_new: "calls_ok new_rpc"
  by (simp add: calls_ok_def new_rpc_def lessThan_def)

lemma calls_ok_message:
  assumes "calls_ok rw"
  shows "calls_ok (rpc_message reply rw)"
proof (cases "fst reply \<in> set (rw_pending rw)")
  case True
  then have "rw_failure rw = None" using assms by (auto simp: calls_ok_def)
  then show ?thesis using assms True by (auto simp: calls_ok_def rpc_message_def split: prod.splits)
next
  case False
  then show ?thesis using assms by (auto simp: rpc_message_def split: prod.splits)
qed

lemma settled_reject: "map fst (rw_settled (reject_all e rw)) = rev (rw_pending rw) @ map fst (rw_settled rw)"
  by (simp add: reject_all_def comp_def rev_map)

lemma calls_ok_fst: "calls_ok rw \<longleftrightarrow> distinct (rw_pending rw) \<and> distinct (map fst (rw_settled rw)) \<and>
     set (rw_pending rw) \<inter> set (map fst (rw_settled rw)) = {} \<and>
     set (rw_pending rw) \<union> set (map fst (rw_settled rw)) = {..<rw_nextId rw} \<and>
     map fst (rw_posted rw) = [0..<rw_nextId rw] \<and>
     (rw_failure rw \<noteq> None \<longrightarrow> rw_pending rw = []) \<and> (rw_terminated rw \<longrightarrow> rw_failure rw \<noteq> None)"
  by (simp add: calls_ok_def)

lemma calls_ok_reject:
  assumes "calls_ok rw" and "rw_failure rw' \<noteq> None"
    and "rw_pending rw' = rw_pending rw" "rw_settled rw' = rw_settled rw" "rw_nextId rw' = rw_nextId rw" "rw_posted rw' = rw_posted rw"
  shows "calls_ok (reject_all e rw')"
proof -
  have "rw_pending (reject_all e rw') = []" "rw_failure (reject_all e rw') \<noteq> None"
    "rw_nextId (reject_all e rw') = rw_nextId rw" "rw_posted (reject_all e rw') = rw_posted rw"
    using assms by (simp_all add: reject_all_def)
  then show ?thesis using assms(1) unfolding calls_ok_fst settled_reject assms(3,4) by auto
qed

lemma calls_ok_error: "calls_ok rw \<Longrightarrow> calls_ok (rpc_error ev rw)"
  unfolding rpc_error_def by (erule calls_ok_reject) simp_all

lemma calls_ok_close: "calls_ok rw \<Longrightarrow> calls_ok (rpc_close rw)"
  unfolding rpc_close_def by (erule calls_ok_reject) (simp_all split: option.splits)

lemma calls_ok_call:
  assumes "calls_ok rw" and "rpc_call m rw = (r, rw')"
  shows "calls_ok rw'"
proof (cases "rw_failure rw")
  case (Some e)
  then show ?thesis using assms by (simp add: rpc_call_def)
next
  case None
  let ?n = "rw_nextId rw"
  note ok = assms(1) [unfolded calls_ok_fst]
  have fields: "rw_pending rw' = rw_pending rw @ [?n]" "rw_settled rw' = rw_settled rw" "rw_nextId rw' = Suc ?n"
    "rw_posted rw' = rw_posted rw @ [(?n, m)]" "rw_failure rw' = None" "rw_terminated rw' = rw_terminated rw"
    using assms(2) None by (auto simp: rpc_call_def)
  have "rw_terminated rw = False" using ok None by simp
  moreover have new: "?n \<notin> set (rw_pending rw)" "?n \<notin> set (map fst (rw_settled rw))" using ok by blast+
  moreover have "set (rw_pending rw @ [?n]) \<union> set (map fst (rw_settled rw)) = {..<Suc ?n}"
    using ok by (simp only: lessThan_Suc set_append list.set) blast
  ultimately show ?thesis unfolding calls_ok_fst fields using ok by simp
qed

lemma calls_ok_step: "rpc_step handle (rw, w, inbox, replies) c' \<Longrightarrow> calls_ok rw \<Longrightarrow> calls_ok (fst c')"
  by (erule rpc_stepE) (auto simp: calls_ok_message calls_ok_error calls_ok_close dest: calls_ok_call)

lemma calls_ok_reaches: "rpc_reaches handle w0 c \<Longrightarrow> calls_ok (fst c)"
proof (induction rule: rpc_reaches.induct)
  case start
  then show ?case by (simp add: calls_ok_new)
next
  case (step c c')
  then show ?case by (cases c) (auto dest: calls_ok_step)
qed

subsection \<open>What a resolved call holds\<close>

text \<open>
  The contract of a worker: for the messages its client sends, states the handler keeps, and what
  it may answer to each.
\<close>

locale answering_worker =
  fixes handle :: "'m \<Rightarrow> 'w \<Rightarrow> (string + 'v) \<times> 'w"
    and sent :: "'m \<Rightarrow> bool"
    and live :: "'w \<Rightarrow> bool"
    and answer :: "'m \<Rightarrow> 'v \<Rightarrow> bool"
  assumes keeps: "live w \<Longrightarrow> sent m \<Longrightarrow> handle m w = (r, w') \<Longrightarrow> live w'"
    and answers: "live w \<Longrightarrow> sent m \<Longrightarrow> handle m w = (Inr v, w') \<Longrightarrow> answer m v"
begin

definition answered :: "(nat \<times> 'm) list \<Rightarrow> nat \<Rightarrow> 'v \<Rightarrow> bool" where
  "answered posted cid v \<longleftrightarrow> (\<exists>m. (cid, m) \<in> set posted \<and> answer m v)"

definition traffic_ok :: "('m, 'v, 'w) rpc_state \<Rightarrow> bool" where
  "traffic_ok c \<longleftrightarrow>
     (case c of (rw, w, inbox, replies) \<Rightarrow>
        live w \<and> set inbox \<subseteq> set (rw_posted rw) \<and>
        (\<forall>cid v. (cid, Inr v) \<in> set replies \<longrightarrow> answered (rw_posted rw) cid v) \<and>
        (\<forall>cid v. (cid, Inr v) \<in> set (rw_settled rw) \<longrightarrow> answered (rw_posted rw) cid v))"

lemma answered_mono: "answered posted cid v \<Longrightarrow> set posted \<subseteq> set posted' \<Longrightarrow> answered posted' cid v"
  by (auto simp: answered_def)

lemma traffic_ok_client:
  assumes "traffic_ok (rw, w, inbox, replies)" and "rw_posted rw' = rw_posted rw"
    and "\<And>cid v. (cid, Inr v) \<in> set (rw_settled rw') \<Longrightarrow> answered (rw_posted rw) cid v"
    and "set replies' \<subseteq> set replies"
  shows "traffic_ok (rw', w, inbox, replies')"
  using assms by (auto simp: traffic_ok_def)

lemma settled_reject_all: "(cid, Inr v) \<in> set (rw_settled (reject_all e rw)) \<longleftrightarrow> (cid, Inr v) \<in> set (rw_settled rw)"
  by (auto simp: reject_all_def)

lemma traffic_ok_step:
  assumes "rpc_step handle c c'" and "traffic_ok c" and "\<forall>x \<in> set (rw_posted (fst c')). sent (snd x)"
  shows "traffic_ok c'"
  using assms
proof (induction rule: rpc_step.induct)
  case (call m rw cid rw' w inbox replies)
  then have "rw_posted rw' = rw_posted rw @ [(cid, m)]" "rw_settled rw' = rw_settled rw"
    by (auto simp: rpc_call_def split: option.splits)
  then show ?case using call.prems by (fastforce simp: traffic_ok_def answered_def)
next
  case (work rw cid m inbox w r w' replies)
  have posted: "(cid, m) \<in> set (rw_posted rw)" "live w" using work by (auto simp: traffic_ok_def)
  then have sent: "sent m" using work.prems(2) by auto
  have "live w'" using keeps [OF posted(2) sent work.hyps(3)] .
  moreover have "r = Inr v \<Longrightarrow> answered (rw_posted rw) cid v" for v
    using answers [OF posted(2) sent] work.hyps(3) posted(1) by (auto simp: answered_def)
  ultimately show ?case using work.prems by (auto simp: traffic_ok_def dest: notin_set_remove1)
next
  case (deliver reply replies rw w inbox)
  obtain cid r where reply: "reply = (cid, r)" by fastforce
  show ?case
  proof (rule traffic_ok_client [OF deliver.prems(1)])
    show "rw_posted (rpc_message reply rw) = rw_posted rw" by (simp add: rpc_message_def reply)
    show "set (remove1 reply replies) \<subseteq> set replies" by (rule set_remove1_subset)
    fix cid' v assume "(cid', Inr v) \<in> set (rw_settled (rpc_message reply rw))"
    then have "(cid', Inr v) \<in> set (rw_settled rw) \<or> (cid', Inr v) \<in> set replies"
      using deliver.hyps by (auto simp: rpc_message_def reply split: if_splits sum.splits)
    then show "answered (rw_posted rw) cid' v" using deliver.prems by (auto simp: traffic_ok_def)
  qed
next
  case (crash rw w inbox replies ev)
  then show ?case
    by (auto simp: rpc_error_def settled_reject_all reject_all_def traffic_ok_def intro!: traffic_ok_client)
next
  case (shut rw w inbox replies)
  then show ?case
    by (auto simp: rpc_close_def settled_reject_all reject_all_def traffic_ok_def intro!: traffic_ok_client)
qed

lemma posted_step: "rpc_step handle c c' \<Longrightarrow> set (rw_posted (fst c)) \<subseteq> set (rw_posted (fst c'))"
  by (induction rule: rpc_step.induct)
    (auto simp: rpc_call_def rpc_message_def rpc_error_def rpc_close_def reject_all_def split: option.splits prod.splits)

lemma traffic_ok_reaches:
  assumes "rpc_reaches handle w0 c" and "live w0" and "\<forall>x \<in> set (rw_posted (fst c)). sent (snd x)"
  shows "traffic_ok c"
  using assms(1,3)
proof (induction rule: rpc_reaches.induct)
  case start
  then show ?case using assms(2) by (simp add: traffic_ok_def new_rpc_def)
next
  case (step c c')
  have "\<forall>x \<in> set (rw_posted (fst c)). sent (snd x)" using step.prems posted_step [OF step.hyps(2)] by blast
  then show ?case using step by (blast intro: traffic_ok_step)
qed

lemma resolved_answer:
  assumes "rpc_reaches handle w0 (rw, w, inbox, replies)" and "live w0" and "\<forall>x \<in> set (rw_posted rw). sent (snd x)"
    and "(cid, Inr v) \<in> set (rw_settled rw)"
  shows "\<exists>m. (cid, m) \<in> set (rw_posted rw) \<and> answer m v"
  using traffic_ok_reaches [OF assms(1,2)] assms(3,4) by (fastforce simp: traffic_ok_def answered_def)

end

subsection \<open>An undisturbed call\<close>

lemma undisturbed_call:
  assumes "rpc_reaches handle w0 (rw, w, [], [])" and "rw_failure rw = None" and "\<not> rw_terminated rw"
    and "handle m w = (r, w')"
  shows "rpc_reaches handle w0 (rpc_message (rw_nextId rw, r) (snd (rpc_call m rw)), w', [], [])"
proof -
  let ?rw = "snd (rpc_call m rw)"
  have "rpc_step handle (rw, w, [], []) (?rw, w, [(rw_nextId rw, m)], [])"
    using rpc_step.call [of m rw "rw_nextId rw" ?rw handle w "[]" "[]"] assms(2) by (simp add: rpc_call_def)
  moreover have "rpc_step handle (?rw, w, [(rw_nextId rw, m)], []) (?rw, w', [], [(rw_nextId rw, r)])"
    using rpc_step.work [of ?rw "rw_nextId rw" m "[(rw_nextId rw, m)]" handle w r w' "[]"] assms(2-4)
    by (simp add: rpc_call_def)
  moreover have "rpc_step handle (?rw, w', [], [(rw_nextId rw, r)]) (rpc_message (rw_nextId rw, r) ?rw, w', [], [])"
    using rpc_step.deliver [of "(rw_nextId rw, r)" "[(rw_nextId rw, r)]" handle ?rw w' "[]"] by simp
  ultimately show ?thesis using assms(1) by (blast intro: rpc_reaches.step)
qed

subsection \<open>Properties\<close>

text \<open>
  C12. Calls to a worker: in every reachable state of a client, its worker and the messages between
  them, each call made is pending or was settled, once; and after an error of the worker or
  \<^verbatim>\<open>close\<close> none is pending, and a new call is rejected at once with the recorded failure.
\<close>

theorem rpc_calls_settle_once:
  assumes "rpc_reaches handle w0 (rw, w, inbox, replies)"
  shows "distinct (map fst (rw_settled rw)) \<and>
    set (rw_pending rw) \<inter> fst ` set (rw_settled rw) = {} \<and>
    set (rw_pending rw) \<union> fst ` set (rw_settled rw) = {..<rw_nextId rw} \<and>
    (case rw_failure rw of None \<Rightarrow> True | Some e \<Rightarrow> rw_pending rw = [] \<and> rpc_call m rw = (Inl e, rw))"
  using calls_ok_reaches [OF assms] by (auto simp: calls_ok_def rpc_call_def split: option.splits)

text \<open>A worker that doubles numbers; one call is answered, one is rejected by \<^verbatim>\<open>close\<close>.\<close>

definition doubling :: "nat \<Rightarrow> unit \<Rightarrow> (string + nat) \<times> unit" where
  "doubling m w = (Inr (2 * m), w)"

lemma doubling_run:
  "\<exists>rw. rpc_reaches doubling () (rw, (), [(1, 5)], []) \<and>
     rw_settled rw = [(1, Inl closed_error), (0, Inr 42)] \<and> rw_nextId rw = 2 \<and> rw_pending rw = [] \<and>
     rw_failure rw = Some closed_error"
proof -
  define a :: "(nat, nat) rpc_worker" where "a = snd (rpc_call 21 new_rpc)"
  define b where "b = snd (rpc_call 5 a)"
  define c where "c = rpc_message (0, Inr 42) b"
  note defs = a_def b_def c_def rpc_call_def new_rpc_def rpc_message_def
  have s1: "rpc_step doubling (new_rpc, (), [], []) (a, (), [(0, 21)], [])"
    using rpc_step.call [of 21 new_rpc 0 a doubling "()" "[]" "[]"] by (simp add: defs)
  have s2: "rpc_step doubling (a, (), [(0, 21)], []) (b, (), [(0, 21), (1, 5)], [])"
    using rpc_step.call [of 5 a 1 b doubling "()" "[(0, 21)]" "[]"] by (simp add: defs)
  have s3: "rpc_step doubling (b, (), [(0, 21), (1, 5)], []) (b, (), [(1, 5)], [(0, Inr 42)])"
    using rpc_step.work [of b 0 21 "[(0, 21), (1, 5)]" doubling "()" "Inr 42" "()" "[]"]
    by (simp add: defs doubling_def)
  have s4: "rpc_step doubling (b, (), [(1, 5)], [(0, Inr 42)]) (c, (), [(1, 5)], [])"
    using rpc_step.deliver [of "(0, Inr 42)" "[(0, Inr 42)]" doubling b "()" "[(1, 5)]"] by (simp add: c_def)
  have s5: "rpc_step doubling (c, (), [(1, 5)], []) (rpc_close c, (), [(1, 5)], [])"
    by (rule rpc_step.shut)
  have "rpc_reaches doubling () (rpc_close c, (), [(1, 5)], [])"
    by (rule rpc_reaches.step [OF rpc_reaches.step [OF rpc_reaches.step [OF rpc_reaches.step
       [OF rpc_reaches.step [OF rpc_reaches.start s1] s2] s3] s4] s5])
  then show ?thesis
    by (intro exI [of _ "rpc_close c"]) (simp add: defs rpc_close_def reject_all_def)
qed

theorem rpc_calls_settle_once_witness:
  "\<exists>rw. rpc_call (7 :: nat) rw = (Inl closed_error, rw) \<and> rw_settled rw = [(1, Inl closed_error), (0, Inr (42 :: nat))] \<and>
     set (rw_pending rw) \<union> fst ` set (rw_settled rw) = {..<rw_nextId rw}"
proof -
  obtain rw where rw: "rpc_reaches doubling () (rw, (), [(1, 5)], [])" "rw_settled rw = [(1, Inl closed_error), (0, Inr 42)]"
    "rw_failure rw = Some closed_error" "rw_pending rw = []"
    using doubling_run by blast
  from rpc_calls_settle_once [OF rw(1), of 7] rw(2-4)
  have "{1, 0} = {..<rw_nextId rw}" "rpc_call 7 rw = (Inl closed_error, rw)" by (auto simp del: One_nat_def)
  then show ?thesis using rw(2) \<open>rw_pending rw = []\<close> by (intro exI [of _ rw]) (simp del: One_nat_def)
qed

end
