(* ===== verification/Tier_Worker.thy ===== *)
theory Tier_Worker
  imports Worker_Rpc
begin

text \<open>
  The two workers: the message handlers of \<^verbatim>\<open>tier-worker.mjs\<close> (a tokenizer of its own, rebuilt from
  a worker image) and \<^verbatim>\<open>shared-controller.mjs\<close> (the threaded tokenizer). A handler runs as one
  step; while \<^verbatim>\<open>initialize\<close> awaits its module the clients send nothing else.
\<close>

subsection \<open>Ids in one array\<close>

text \<open>\<^verbatim>\<open>subarray\<close> and \<^verbatim>\<open>slice\<close>: the ends are clamped to the array.\<close>

definition js_subarray :: "nat \<Rightarrow> nat \<Rightarrow> 'a list \<Rightarrow> 'a list" where
  "js_subarray a b xs = take (b - a) (drop a xs)"

text \<open>\<^verbatim>\<open>set\<close>: one array copied into another at an offset.\<close>

definition js_set :: "'a list \<Rightarrow> nat \<Rightarrow> 'a list \<Rightarrow> 'a list" where
  "js_set part offset xs = take offset xs @ part @ drop (offset + length part) xs"

fun flatten_loop :: "u32 list list \<Rightarrow> nat \<Rightarrow> u32 list \<Rightarrow> u32 list" where
  "flatten_loop [] offset flat = flat"
| "flatten_loop (part # parts) offset flat = flatten_loop parts (offset + length part) (js_set part offset flat)"

definition flattenIds :: "u32 list list \<Rightarrow> u32 list" where
  "flattenIds parts = flatten_loop parts 0 (replicate (sum_list (map length parts)) 0)"

lemma flatten_loop_concat:
  "length flat = offset + sum_list (map length parts) \<Longrightarrow> flatten_loop parts offset flat = take offset flat @ concat parts"
  by (induction parts arbitrary: offset flat) (simp_all add: js_set_def)

lemma flattenIds_concat [simp]: "flattenIds parts = concat parts"
  by (simp add: flattenIds_def flatten_loop_concat)

subsection \<open>Errors as messages\<close>

text \<open>\<^verbatim>\<open>error instanceof Error ? error.message : String(error)\<close>.\<close>

fun error_message :: "js_error \<Rightarrow> string" where
  "error_message (TypeError m) = m"
| "error_message (RangeError m) = m"
| "error_message (PlainError m) = m"
| "error_message (VocabIntegrity packageName file expected actual) =
     ''vocabulary integrity check failed for '' @ packageName @ ''/'' @ file @ '': expected SHA-256 '' @ expected @ '', received '' @ actual"

text \<open>What a handler posts back: the message of what it threw, or the value.\<close>

definition response :: "js_error + 'v \<Rightarrow> string + 'v" where
  "response r = (case r of Inl e \<Rightarrow> Inl (error_message e) | Inr v \<Rightarrow> Inr v)"

subsection \<open>The worker of a pool\<close>

text \<open>The tokenizer a worker holds and the module it imports, as far as the handler calls them.\<close>

record worker_tokenizer =
  wt_vocabSize :: nat
  wt_encodePretoken :: "bytes \<Rightarrow> js_error + u32 list"
  wt_sourceDigest :: bytes

record worker_module =
  wm_default :: "js_error + unit"
  wm_fromWorkerImage :: "bytes \<Rightarrow> bytes \<Rightarrow> js_error + worker_tokenizer"
  wm_fromTiktoken :: "bytes \<Rightarrow> string \<Rightarrow> js_error + worker_tokenizer"

record init_request =
  iq_moduleUrl :: string
  iq_vocabulary :: bytes
  iq_scheme :: string
  iq_format :: string
  iq_workerImage :: bytes
  iq_sourceDigest :: bytes
  iq_workerId :: nat

datatype worker_message =
    InitializeMsg init_request
  | EncodePretokens bytes "u32 list"
  | CloseMsg
  | OtherMsg string

datatype worker_value =
    Initialized nat nat bool bytes
  | Pretokens "u32 list" "u32 list" nat
  | ClosedValue

record tier_worker =
  tw_tokenizer :: "worker_tokenizer option"
  tw_workerId :: nat

definition make_tokenizer :: "(string \<Rightarrow> js_error + worker_module) \<Rightarrow> init_request \<Rightarrow> js_error + worker_tokenizer" where
  "make_tokenizer load q =
     try_bind (load (iq_moduleUrl q)) (\<lambda>m.
     try_bind (wm_default m) (\<lambda>_.
     if iq_format q = ''htk'' then wm_fromWorkerImage m (iq_workerImage q) (iq_sourceDigest q)
     else wm_fromTiktoken m (iq_vocabulary q) (iq_scheme q)))"

text \<open>The pretokens between pairs of ends, encoded in order.\<close>

fun encode_ranges :: "(bytes \<Rightarrow> js_error + u32 list) \<Rightarrow> bytes \<Rightarrow> u32 list \<Rightarrow> js_error + u32 list list" where
  "encode_ranges f input (a # b # ranges) =
     try_bind (f (js_subarray (unat a) (unat b) input)) (\<lambda>ids.
     try_bind (encode_ranges f input ranges) (\<lambda>rest. Inr (ids # rest)))"
| "encode_ranges f input _ = Inr []"

definition encode_lengths :: "u32 list list \<Rightarrow> u32 list" where
  "encode_lengths encoded = map (\<lambda>ids. of_nat (length ids)) encoded"

definition handle_encodePretokens :: "tier_worker \<Rightarrow> bytes \<Rightarrow> u32 list \<Rightarrow> js_error + worker_value" where
  "handle_encodePretokens w input ranges =
     (case tw_tokenizer w of
        None \<Rightarrow> Inl (PlainError ''worker tokenizer is not initialized'')
      | Some tok \<Rightarrow>
          if odd (length ranges) then Inl (PlainError ''worker pretoken ranges are not paired'')
          else try_bind (encode_ranges (wt_encodePretoken tok) input ranges) (\<lambda>encoded.
               Inr (Pretokens (flattenIds encoded) (encode_lengths encoded) (tw_workerId w))))"

definition worker_handle ::
  "(string \<Rightarrow> js_error + worker_module) \<Rightarrow> worker_message \<Rightarrow> tier_worker \<Rightarrow> (string + worker_value) \<times> tier_worker" where
  "worker_handle load m w =
     (case m of
        InitializeMsg q \<Rightarrow>
          (let w' = w\<lparr>tw_workerId := iq_workerId q\<rparr> in
           case make_tokenizer load q of
             Inl e \<Rightarrow> (response (Inl e), w')
           | Inr tok \<Rightarrow>
               (Inr (Initialized (iq_workerId q) (wt_vocabSize tok) (iq_format q = ''htk'')
                      (if iq_format q = ''htk'' then wt_sourceDigest tok else [])),
                w'\<lparr>tw_tokenizer := Some tok\<rparr>))
      | EncodePretokens input ranges \<Rightarrow> (response (handle_encodePretokens w input ranges), w)
      | CloseMsg \<Rightarrow> (Inr ClosedValue, w\<lparr>tw_tokenizer := None\<rparr>)
      | OtherMsg operation \<Rightarrow> (Inl (''unknown tier-worker operation '' @ operation), w))"

subsection \<open>The controller of the shared tier\<close>

record threaded_tokenizer =
  tt_workerCount :: nat
  tt_vocabSize :: nat
  tt_imported :: bool
  tt_sourceDigest :: bytes
  tt_encode :: "bytes \<Rightarrow> js_error + u32 list"
  tt_telemetry :: "bytes \<Rightarrow> u32 list"

record threaded_module =
  tm_default :: "js_error + unit"
  tm_initThreadPool :: "nat \<Rightarrow> js_error + unit"
  tm_fromWorkerImage :: "bytes \<Rightarrow> bytes \<Rightarrow> nat \<Rightarrow> js_error + threaded_tokenizer"
  tm_fromTiktoken :: "bytes \<Rightarrow> string \<Rightarrow> nat \<Rightarrow> js_error + threaded_tokenizer"

text \<open>The request of the shared tier has a worker count where that of a pool has a worker id.\<close>

datatype controller_message =
    SharedInitialize init_request nat
  | SharedEncode bytes
  | SharedClose
  | SharedOther string

datatype controller_value =
    SharedInitialized nat nat bool bytes
  | SharedEncoded "u32 list" "u32 list"
  | SharedClosed

definition make_threaded ::
  "(string \<Rightarrow> js_error + threaded_module) \<Rightarrow> init_request \<Rightarrow> nat \<Rightarrow> js_error + threaded_tokenizer" where
  "make_threaded load q workerCount =
     try_bind (load (iq_moduleUrl q)) (\<lambda>m.
     try_bind (tm_default m) (\<lambda>_.
     try_bind (tm_initThreadPool m workerCount) (\<lambda>_.
     if iq_format q = ''htk'' then tm_fromWorkerImage m (iq_workerImage q) (iq_sourceDigest q) workerCount
     else tm_fromTiktoken m (iq_vocabulary q) (iq_scheme q) workerCount)))"

definition controller_handle ::
  "(string \<Rightarrow> js_error + threaded_module) \<Rightarrow> controller_message \<Rightarrow> threaded_tokenizer option \<Rightarrow>
     (string + controller_value) \<times> threaded_tokenizer option" where
  "controller_handle load m tokenizer =
     (case m of
        SharedInitialize q workerCount \<Rightarrow>
          (case make_threaded load q workerCount of
             Inl e \<Rightarrow> (response (Inl e), tokenizer)
           | Inr tok \<Rightarrow> (Inr (SharedInitialized (tt_workerCount tok) (tt_vocabSize tok) (tt_imported tok) (tt_sourceDigest tok)), Some tok))
      | SharedEncode input \<Rightarrow>
          (case tokenizer of
             None \<Rightarrow> (Inl ''shared controller is not initialized'', tokenizer)
           | Some tok \<Rightarrow>
               (response (try_bind (tt_encode tok input) (\<lambda>ids. Inr (SharedEncoded ids (tt_telemetry tok input)))), tokenizer))
      | SharedClose \<Rightarrow> (Inr SharedClosed, None)
      | SharedOther operation \<Rightarrow> (Inl (''unknown shared-controller operation '' @ operation), tokenizer))"

subsection \<open>What a worker answers\<close>

text \<open>A client initializes a worker with one request.\<close>

definition worker_sent :: "init_request \<Rightarrow> worker_message \<Rightarrow> bool" where
  "worker_sent q m \<longleftrightarrow> (\<forall>q'. m = InitializeMsg q' \<longrightarrow> q' = q)"

definition worker_live :: "(string \<Rightarrow> js_error + worker_module) \<Rightarrow> init_request \<Rightarrow> tier_worker \<Rightarrow> bool" where
  "worker_live load q w \<longleftrightarrow>
     (\<forall>tok. tw_tokenizer w = Some tok \<longrightarrow> make_tokenizer load q = Inr tok \<and> tw_workerId w = iq_workerId q)"

definition worker_answer ::
  "(string \<Rightarrow> js_error + worker_module) \<Rightarrow> init_request \<Rightarrow> worker_message \<Rightarrow> worker_value \<Rightarrow> bool" where
  "worker_answer load q m v \<longleftrightarrow>
     (case m of
        InitializeMsg _ \<Rightarrow>
          (\<exists>tok. make_tokenizer load q = Inr tok \<and>
             v = Initialized (iq_workerId q) (wt_vocabSize tok) (iq_format q = ''htk'')
                   (if iq_format q = ''htk'' then wt_sourceDigest tok else []))
      | EncodePretokens input ranges \<Rightarrow>
          (\<exists>tok encoded. make_tokenizer load q = Inr tok \<and> even (length ranges) \<and>
             encode_ranges (wt_encodePretoken tok) input ranges = Inr encoded \<and>
             v = Pretokens (concat encoded) (encode_lengths encoded) (iq_workerId q))
      | CloseMsg \<Rightarrow> v = ClosedValue
      | OtherMsg _ \<Rightarrow> False)"

lemma worker_keeps:
  assumes "worker_live load q w" and "worker_sent q m" and "worker_handle load m w = (r, w')"
  shows "worker_live load q w'"
proof (cases m)
  case (InitializeMsg q')
  then have "q' = q" using assms(2) by (simp add: worker_sent_def)
  then show ?thesis using assms InitializeMsg
    by (cases "make_tokenizer load q") (auto simp: worker_handle_def worker_live_def Let_def)
qed (use assms in \<open>auto simp: worker_handle_def worker_live_def\<close>)

lemma encodePretokens_value:
  assumes "worker_live load q w" and "handle_encodePretokens w input ranges = Inr v"
  shows "worker_answer load q (EncodePretokens input ranges) v"
  using assms by (auto simp: handle_encodePretokens_def worker_answer_def worker_live_def try_bind_Inr split: option.splits if_splits)

lemma response_Inr [simp]: "response r = Inr v \<longleftrightarrow> r = Inr v"
  by (simp add: response_def split: sum.splits)

lemma worker_answers:
  assumes "worker_live load q w" and "worker_sent q m" and "worker_handle load m w = (Inr v, w')"
  shows "worker_answer load q m v"
proof (cases m)
  case (InitializeMsg q')
  then have "q' = q" using assms(2) by (simp add: worker_sent_def)
  then show ?thesis using assms(3) InitializeMsg
    by (cases "make_tokenizer load q") (auto simp: worker_handle_def worker_answer_def Let_def response_def)
next
  case (EncodePretokens input ranges)
  then show ?thesis using assms by (auto simp: worker_handle_def intro: encodePretokens_value)
qed (use assms in \<open>auto simp: worker_handle_def worker_answer_def\<close>)

interpretation tier_worker: answering_worker "worker_handle load" "worker_sent q" "worker_live load q" "worker_answer load q"
  for load q
  by unfold_locales (auto intro: worker_keeps worker_answers)

definition idle_worker :: tier_worker where
  "idle_worker = \<lparr>tw_tokenizer = None, tw_workerId = 0\<rparr>"

lemma idle_worker_live: "worker_live load q idle_worker"
  by (simp add: worker_live_def idle_worker_def)

text \<open>
  C13. What a call to a pool worker resolves to: whatever else was called, in whatever order the
  messages and replies travel, and whatever fails, a resolved \<^verbatim>\<open>encodePretokens\<close> holds the ids of
  the ranges of its own message, as the tokenizer built for this worker encodes them, end to end,
  with the length of each; an initialization resolves only when that tokenizer was built.
\<close>

theorem worker_call_resolves:
  assumes "rpc_reaches (worker_handle load) idle_worker (rw, w, inbox, replies)"
    and "\<forall>x \<in> set (rw_posted rw). worker_sent q (snd x)" and "(cid, Inr v) \<in> set (rw_settled rw)"
  shows "\<exists>m. (cid, m) \<in> set (rw_posted rw) \<and> worker_answer load q m v"
  using assms(1) idle_worker_live assms(2,3) by (rule tier_worker.resolved_answer)

text \<open>A worker whose tokenizer gives one id per byte, initialized and then given two pretokens.\<close>

definition sample_worker_tokenizer :: worker_tokenizer where
  "sample_worker_tokenizer = \<lparr>wt_vocabSize = 256, wt_encodePretoken = (\<lambda>bs. Inr (map ucast bs)), wt_sourceDigest = [1]\<rparr>"

definition sample_load :: "string \<Rightarrow> js_error + worker_module" where
  "sample_load url = Inr \<lparr>wm_default = Inr (), wm_fromWorkerImage = (\<lambda>_ _. Inr sample_worker_tokenizer),
     wm_fromTiktoken = (\<lambda>_ _. Inr sample_worker_tokenizer)\<rparr>"

definition sample_request :: init_request where
  "sample_request = \<lparr>iq_moduleUrl = [], iq_vocabulary = [], iq_scheme = [], iq_format = ''htk'',
     iq_workerImage = [], iq_sourceDigest = [1], iq_workerId = 3\<rparr>"

lemma sample_worker_run:
  "\<exists>rw w. rpc_reaches (worker_handle sample_load) idle_worker (rw, w, [], []) \<and>
     rw_posted rw = [(0, InitializeMsg sample_request), (1, EncodePretokens [7, 8, 9] [0, 1, 1, 3])] \<and>
     (1, Inr (Pretokens [7, 8, 9] [1, 2] 3)) \<in> set (rw_settled rw)"
proof -
  define w1 :: tier_worker where "w1 = \<lparr>tw_tokenizer = Some sample_worker_tokenizer, tw_workerId = 3\<rparr>"
  define rw1 :: "(worker_message, worker_value) rpc_worker" where
    "rw1 = rpc_message (rw_nextId (new_rpc :: (worker_message, worker_value) rpc_worker), Inr (Initialized 3 256 True [1])) (snd (rpc_call (InitializeMsg sample_request) new_rpc))"
  define rw2 where "rw2 = rpc_message (rw_nextId rw1, Inr (Pretokens [7, 8, 9] [1, 2] 3)) (snd (rpc_call (EncodePretokens [7, 8, 9] [0, 1, 1, 3]) rw1))"
  note rdefs = rw1_def rw2_def rpc_message_def rpc_call_def new_rpc_def
  have "rpc_reaches (worker_handle sample_load) idle_worker (new_rpc, idle_worker, [], [])"
    by (rule rpc_reaches.start)
  then have "rpc_reaches (worker_handle sample_load) idle_worker (rw1, w1, [], [])"
    unfolding rw1_def
    by (rule undisturbed_call)
      (simp_all add: new_rpc_def worker_handle_def make_tokenizer_def sample_load_def sample_request_def
        sample_worker_tokenizer_def idle_worker_def w1_def)
  then have "rpc_reaches (worker_handle sample_load) idle_worker (rw2, w1, [], [])"
    unfolding rw2_def
    by (rule undisturbed_call)
      (simp_all add: rdefs worker_handle_def handle_encodePretokens_def w1_def sample_worker_tokenizer_def
        js_subarray_def encode_lengths_def response_def)
  then show ?thesis by (intro exI [of _ rw2] exI [of _ w1]) (simp add: rdefs)
qed

theorem worker_call_resolves_witness:
  "\<exists>m. (1 :: nat, m) \<in> set [(0, InitializeMsg sample_request), (1, EncodePretokens [7, 8, 9] [0, 1, 1, 3])] \<and>
     worker_answer sample_load sample_request m (Pretokens [7, 8, 9] [1, 2] 3)"
proof -
  obtain rw w where run: "rpc_reaches (worker_handle sample_load) idle_worker (rw, w, [], [])"
    "rw_posted rw = [(0, InitializeMsg sample_request), (1, EncodePretokens [7, 8, 9] [0, 1, 1, 3])]"
    "(1, Inr (Pretokens [7, 8, 9] [1, 2] 3)) \<in> set (rw_settled rw)"
    using sample_worker_run by blast
  have "\<forall>x \<in> set (rw_posted rw). worker_sent sample_request (snd x)" by (simp add: run(2) worker_sent_def)
  from worker_call_resolves [OF run(1) this run(3)] show ?thesis unfolding run(2) .
qed

subsection \<open>What the shared controller answers\<close>

definition controller_sent :: "init_request \<Rightarrow> nat \<Rightarrow> controller_message \<Rightarrow> bool" where
  "controller_sent q n m \<longleftrightarrow> (\<forall>q' n'. m = SharedInitialize q' n' \<longrightarrow> q' = q \<and> n' = n)"

definition controller_live ::
  "(string \<Rightarrow> js_error + threaded_module) \<Rightarrow> init_request \<Rightarrow> nat \<Rightarrow> threaded_tokenizer option \<Rightarrow> bool" where
  "controller_live load q n tokenizer \<longleftrightarrow> (\<forall>tok. tokenizer = Some tok \<longrightarrow> make_threaded load q n = Inr tok)"

definition controller_answer ::
  "(string \<Rightarrow> js_error + threaded_module) \<Rightarrow> init_request \<Rightarrow> nat \<Rightarrow> controller_message \<Rightarrow> controller_value \<Rightarrow> bool" where
  "controller_answer load q n m v \<longleftrightarrow>
     (case m of
        SharedInitialize _ _ \<Rightarrow>
          (\<exists>tok. make_threaded load q n = Inr tok \<and>
             v = SharedInitialized (tt_workerCount tok) (tt_vocabSize tok) (tt_imported tok) (tt_sourceDigest tok))
      | SharedEncode input \<Rightarrow>
          (\<exists>tok ids. make_threaded load q n = Inr tok \<and> tt_encode tok input = Inr ids \<and>
             v = SharedEncoded ids (tt_telemetry tok input))
      | SharedClose \<Rightarrow> v = SharedClosed
      | SharedOther _ \<Rightarrow> False)"

interpretation shared_controller: answering_worker "controller_handle load" "controller_sent q n" "controller_live load q n" "controller_answer load q n"
  for load q n
proof (unfold_locales, goal_cases)
  case (1 w m r w')
  then show ?case
    by (cases m; cases "make_threaded load q n")
      (auto simp: controller_handle_def controller_sent_def controller_live_def split: option.splits)
next
  case (2 w m v w')
  then show ?case
    by (cases m; cases "make_threaded load q n")
      (auto simp: controller_handle_def controller_sent_def controller_live_def controller_answer_def response_def try_bind_Inr
        split: option.splits sum.splits)
qed

text \<open>
  A resolved \<^verbatim>\<open>encode\<close> of the shared controller holds the ids the threaded tokenizer built for it
  gives for the bytes of its own message, whatever else was called and whatever the order of
  messages and replies.
\<close>

theorem controller_encode_resolves:
  assumes "rpc_reaches (controller_handle load) None (rw, w, inbox, replies)"
    and "\<forall>x \<in> set (rw_posted rw). controller_sent q n (snd x)" and "(cid, Inr (SharedEncoded ids telemetry)) \<in> set (rw_settled rw)"
  shows "\<exists>input tok. (cid, SharedEncode input) \<in> set (rw_posted rw) \<and> make_threaded load q n = Inr tok \<and>
    tt_encode tok input = Inr ids \<and> telemetry = tt_telemetry tok input"
proof -
  have "controller_live load q n None" by (simp add: controller_live_def)
  from shared_controller.resolved_answer [OF assms(1) this assms(2,3)] obtain m
    where "(cid, m) \<in> set (rw_posted rw)" "controller_answer load q n m (SharedEncoded ids telemetry)" by blast
  then show ?thesis by (cases m) (auto simp: controller_answer_def)
qed

definition sample_threaded :: threaded_tokenizer where
  "sample_threaded = \<lparr>tt_workerCount = 2, tt_vocabSize = 256, tt_imported = True, tt_sourceDigest = [1],
     tt_encode = (\<lambda>bs. Inr (map ucast bs)), tt_telemetry = (\<lambda>bs. [1, 1, 1, 0, 2])\<rparr>"

definition sample_threaded_load :: "string \<Rightarrow> js_error + threaded_module" where
  "sample_threaded_load url = Inr \<lparr>tm_default = Inr (), tm_initThreadPool = (\<lambda>_. Inr ()),
     tm_fromWorkerImage = (\<lambda>_ _ _. Inr sample_threaded), tm_fromTiktoken = (\<lambda>_ _ _. Inr sample_threaded)\<rparr>"

lemma sample_controller_run:
  "\<exists>rw w. rpc_reaches (controller_handle sample_threaded_load) None (rw, w, [], []) \<and>
     rw_posted rw = [(0, SharedInitialize sample_request 2), (1, SharedEncode [7, 8])] \<and>
     (1, Inr (SharedEncoded [7, 8] [1, 1, 1, 0, 2])) \<in> set (rw_settled rw)"
proof -
  define rw1 :: "(controller_message, controller_value) rpc_worker" where
    "rw1 = rpc_message (rw_nextId (new_rpc :: (controller_message, controller_value) rpc_worker), Inr (SharedInitialized 2 256 True [1]))
      (snd (rpc_call (SharedInitialize sample_request 2) new_rpc))"
  define rw2 where "rw2 = rpc_message (rw_nextId rw1, Inr (SharedEncoded [7, 8] [1, 1, 1, 0, 2])) (snd (rpc_call (SharedEncode [7, 8]) rw1))"
  note rdefs = rw1_def rw2_def rpc_message_def rpc_call_def new_rpc_def
  note sdefs = controller_handle_def make_threaded_def sample_threaded_load_def sample_request_def sample_threaded_def response_def
  have "rpc_reaches (controller_handle sample_threaded_load) None (new_rpc, None, [], [])"
    by (rule rpc_reaches.start)
  then have "rpc_reaches (controller_handle sample_threaded_load) None (rw1, Some sample_threaded, [], [])"
    unfolding rw1_def by (rule undisturbed_call) (simp_all add: new_rpc_def sdefs)
  then have "rpc_reaches (controller_handle sample_threaded_load) None (rw2, Some sample_threaded, [], [])"
    unfolding rw2_def by (rule undisturbed_call) (simp_all add: rdefs sdefs)
  then show ?thesis by (intro exI [of _ rw2] exI [of _ "Some sample_threaded"]) (simp add: rdefs)
qed

theorem controller_encode_resolves_witness:
  "\<exists>input tok. (1 :: nat, SharedEncode input) \<in> set [(0, SharedInitialize sample_request 2), (1, SharedEncode [7, 8])] \<and>
     make_threaded sample_threaded_load sample_request 2 = Inr tok \<and> tt_encode tok input = Inr [7, 8] \<and>
     [1, 1, 1, 0, 2] = tt_telemetry tok input"
proof -
  obtain rw w where run: "rpc_reaches (controller_handle sample_threaded_load) None (rw, w, [], [])"
    "rw_posted rw = [(0, SharedInitialize sample_request 2), (1, SharedEncode [7, 8])]"
    "(1, Inr (SharedEncoded [7, 8] [1, 1, 1, 0, 2])) \<in> set (rw_settled rw)"
    using sample_controller_run by blast
  have "\<forall>x \<in> set (rw_posted rw). controller_sent sample_request 2 (snd x)" by (simp add: run(2) controller_sent_def)
  from controller_encode_resolves [OF run(1) this run(3)] show ?thesis unfolding run(2) .
qed

end
