(* ===== verification/Worker_Pool.thy ===== *)
theory Worker_Pool
  imports Tier_Worker
begin

text \<open>
  Encoding with a pool of workers: \<^verbatim>\<open>IndependentWorkerPool\<close>, \<^verbatim>\<open>encodeLongPretoken\<close> and
  \<^verbatim>\<open>encodeWithWorkers\<close> of \<^verbatim>\<open>tier-runtime.mjs\<close>. The calls in flight are answered in any order; an
  answer is delivered by one step, which runs the code that awaits it. The pretokenizer and the
  reconciler of overlapping chunks are WebAssembly and parameters of the model.
\<close>

subsection \<open>The pool\<close>

text \<open>\<open>pl_size\<close> is the number of workers; a worker is named by its place.\<close>

record pool =
  pl_size :: nat
  pl_nextWorker :: nat
  pl_active :: "nat set"
  pl_tasks :: nat

definition new_pool :: "nat \<Rightarrow> pool" where
  "new_pool workers = \<lparr>pl_size = workers, pl_nextWorker = 0, pl_active = {}, pl_tasks = 0\<rparr>"

definition resetTelemetry :: "pool \<Rightarrow> pool" where
  "resetTelemetry pool = pool\<lparr>pl_active := {}, pl_tasks := 0\<rparr>"

text \<open>The entries of a batch in one buffer, with the two ends of each.\<close>

fun pack_loop :: "bytes list \<Rightarrow> nat \<Rightarrow> nat \<Rightarrow> bytes \<Rightarrow> u32 list \<Rightarrow> bytes \<times> u32 list" where
  "pack_loop [] index inputOffset input ranges = (input, ranges)"
| "pack_loop (bs # entries) index inputOffset input ranges =
     pack_loop entries (index + 1) (inputOffset + length bs) (js_set bs inputOffset input)
       (ranges[index * 2 := of_nat inputOffset, index * 2 + 1 := of_nat (inputOffset + length bs)])"

definition pack_batch :: "bytes list \<Rightarrow> bytes \<times> u32 list" where
  "pack_batch entries =
     pack_loop entries 0 0 (replicate (sum_list (map length entries)) 0) (replicate (length entries * 2) 0)"

text \<open>The parts of the answer, by their lengths, and where they end.\<close>

fun slice_loop :: "u32 list \<Rightarrow> nat \<Rightarrow> u32 list \<Rightarrow> u32 list list \<times> nat" where
  "slice_loop [] offset flatIds = ([], offset)"
| "slice_loop (n # lengths) offset flatIds =
     (case slice_loop lengths (offset + unat n) flatIds of
        (encoded, end) \<Rightarrow> (js_subarray offset (offset + unat n) flatIds # encoded, end))"

text \<open>The answer to \<^verbatim>\<open>encodePretokens\<close>: \<^verbatim>\<open>flatIds\<close>, \<^verbatim>\<open>lengths\<close> and \<^verbatim>\<open>workerId\<close>, or a rejection.\<close>

type_synonym batch_answer = "js_error + u32 list \<times> u32 list \<times> nat"

text \<open>\<^verbatim>\<open>encodeBatch\<close> after its \<^verbatim>\<open>await\<close>.\<close>

definition batch_finish :: "bytes list \<Rightarrow> batch_answer \<Rightarrow> pool \<Rightarrow> (js_error + u32 list list) \<times> pool" where
  "batch_finish entries answer pool =
     (case answer of
        Inl e \<Rightarrow> (Inl e, pool)
      | Inr (flatIds, lengths, workerId) \<Rightarrow>
          (let pool' = pool\<lparr>pl_active := insert workerId (pl_active pool), pl_tasks := pl_tasks pool + length entries\<rparr> in
           case slice_loop lengths 0 flatIds of
             (encoded, offset) \<Rightarrow>
               if offset \<noteq> length flatIds \<or> length encoded \<noteq> length entries
               then (Inl (PlainError ''worker result lengths do not match the encoded batch''), pool')
               else (Inr encoded, pool')))"

subsection \<open>Calls in flight\<close>

text \<open>
  A call of a batch: the job that awaits it, the place of its result there, the worker and the
  entries. \<open>pool_dispatch\<close> is \<^verbatim>\<open>encodeBatch\<close> up to its \<^verbatim>\<open>await\<close>.
\<close>

record batch_call =
  bc_job :: nat
  bc_slot :: nat
  bc_worker :: nat
  bc_entries :: "bytes list"

definition pool_dispatch :: "nat \<Rightarrow> nat \<Rightarrow> bytes list \<Rightarrow> pool \<times> batch_call list \<Rightarrow> pool \<times> batch_call list" where
  "pool_dispatch job slot entries s =
     (case s of (pool, inflight) \<Rightarrow>
       (pool\<lparr>pl_nextWorker := (pl_nextWorker pool + 1) mod pl_size pool\<rparr>,
        inflight @ [\<lparr>bc_job = job, bc_slot = slot, bc_worker = pl_nextWorker pool, bc_entries = entries\<rparr>]))"

fun dispatch_chunks :: "nat \<Rightarrow> nat \<Rightarrow> bytes list \<Rightarrow> pool \<times> batch_call list \<Rightarrow> pool \<times> batch_call list" where
  "dispatch_chunks job slot [] s = s"
| "dispatch_chunks job slot (chunk # chunks) s = dispatch_chunks job (slot + 1) chunks (pool_dispatch job slot [chunk] s)"

subsection \<open>Jobs\<close>

text \<open>
  The reconciler of one long pretoken. The ranges travel as flat arrays of pairs; a requested
  range is an empty array, \<open>None\<close>, or two ends.
\<close>

record 'o overlap_core =
  oc_begin :: "bytes \<Rightarrow> nat \<Rightarrow> js_error + 'o"
  oc_initialRanges :: "'o \<Rightarrow> js_error + (nat \<times> nat) list"
  oc_acceptInitial :: "u32 list \<Rightarrow> u32 list \<Rightarrow> 'o \<Rightarrow> js_error + (nat \<times> nat) option \<times> 'o"
  oc_acceptEnlargement :: "u32 list \<Rightarrow> 'o \<Rightarrow> js_error + (nat \<times> nat) option \<times> 'o"
  oc_takeIds :: "'o \<Rightarrow> js_error + u32 list"

text \<open>
  The promises of \<^verbatim>\<open>encodeWithWorkers\<close>: a batch of short pretokens, the two phases of a long one,
  and how they end. \<open>JobDone\<close> has the ids of each pretoken, its initial chunks and enlargements.
\<close>

datatype 'o job =
    BatchJob "bytes list"
  | InitialJob 'o bytes "(nat \<times> nat) list" "u32 list option list"
  | EnlargeJob 'o bytes nat nat "nat \<times> nat"
  | JobDone "u32 list list" nat nat
  | JobFailed js_error

text \<open>The loop of \<^verbatim>\<open>encodeLongPretoken\<close> from its test on, with what the reconciler returned.\<close>

definition enlarge_loop ::
  "'o overlap_core \<Rightarrow> nat \<Rightarrow> bytes \<Rightarrow> nat \<Rightarrow> nat \<Rightarrow> js_error + (nat \<times> nat) option \<times> 'o \<Rightarrow>
     pool \<times> batch_call list \<Rightarrow> 'o job \<times> pool \<times> batch_call list" where
  "enlarge_loop oc job pretoken initialChunks enlargements accepted s =
     (case accepted of
        Inl e \<Rightarrow> (JobFailed e, s)
      | Inr (None, reconciliation) \<Rightarrow>
          ((case oc_takeIds oc reconciliation of
              Inl e \<Rightarrow> JobFailed e
            | Inr ids \<Rightarrow> JobDone [ids] initialChunks enlargements), s)
      | Inr (Some (a, b), reconciliation) \<Rightarrow>
          (EnlargeJob reconciliation pretoken initialChunks enlargements (a, b),
           pool_dispatch job 0 [js_subarray a b pretoken] s))"

text \<open>After a chunk arrived: when all have, they are handed to the reconciler.\<close>

definition initial_step ::
  "'o overlap_core \<Rightarrow> nat \<Rightarrow> 'o \<Rightarrow> bytes \<Rightarrow> (nat \<times> nat) list \<Rightarrow> u32 list option list \<Rightarrow>
     pool \<times> batch_call list \<Rightarrow> 'o job \<times> pool \<times> batch_call list" where
  "initial_step oc job reconciliation pretoken ranges slots s =
     (case those slots of
        None \<Rightarrow> (InitialJob reconciliation pretoken ranges slots, s)
      | Some initial \<Rightarrow>
          enlarge_loop oc job pretoken (length ranges) 0
            (oc_acceptInitial oc (flattenIds initial) (encode_lengths initial) reconciliation) s)"

text \<open>\<^verbatim>\<open>encodeLongPretoken\<close> up to its first \<^verbatim>\<open>await\<close>.\<close>

definition start_long ::
  "'o overlap_core \<Rightarrow> nat \<Rightarrow> nat \<Rightarrow> bytes \<Rightarrow> pool \<times> batch_call list \<Rightarrow> 'o job \<times> pool \<times> batch_call list" where
  "start_long oc chunkSize job pretoken s =
     (case try_bind (oc_begin oc pretoken chunkSize) (\<lambda>reconciliation.
           try_bind (oc_initialRanges oc reconciliation) (\<lambda>ranges. Inr (reconciliation, ranges))) of
        Inl e \<Rightarrow> (JobFailed e, s)
      | Inr (reconciliation, ranges) \<Rightarrow>
          initial_step oc job reconciliation pretoken ranges (replicate (length ranges) None)
            (dispatch_chunks job 0 (map (\<lambda>(a, b). js_subarray a b pretoken) ranges) s))"

text \<open>What a job does with the outcome of one of its calls.\<close>

definition resume_job ::
  "'o overlap_core \<Rightarrow> nat \<Rightarrow> nat \<Rightarrow> js_error + u32 list list \<Rightarrow> 'o job \<Rightarrow> pool \<times> batch_call list \<Rightarrow>
     'o job \<times> pool \<times> batch_call list" where
  "resume_job oc job slot outcome jb s =
     (case jb of
        BatchJob entries \<Rightarrow>
          ((case outcome of Inl e \<Rightarrow> JobFailed e | Inr encoded \<Rightarrow> JobDone encoded (length entries) 0), s)
      | InitialJob reconciliation pretoken ranges slots \<Rightarrow>
          (case outcome of
             Inl e \<Rightarrow> (JobFailed e, s)
           | Inr encoded \<Rightarrow> initial_step oc job reconciliation pretoken ranges (slots[slot := Some (hd encoded)]) s)
      | EnlargeJob reconciliation pretoken initialChunks enlargements requested \<Rightarrow>
          (case outcome of
             Inl e \<Rightarrow> (JobFailed e, s)
           | Inr encoded \<Rightarrow>
               enlarge_loop oc job pretoken initialChunks (enlargements + 1)
                 (oc_acceptEnlargement oc (hd encoded) reconciliation) s)
      | _ \<Rightarrow> (jb, s))"

subsection \<open>Encoding an input\<close>

datatype plan = ShortBatch "bytes list" | LongPretoken bytes

definition flushShortBatch :: "bytes list \<Rightarrow> plan list" where
  "flushShortBatch shortBatch = (if shortBatch = [] then [] else [ShortBatch shortBatch])"

fun plan_loop :: "nat \<Rightarrow> bytes list \<Rightarrow> bytes list \<Rightarrow> plan list" where
  "plan_loop chunkSize [] shortBatch = flushShortBatch shortBatch"
| "plan_loop chunkSize (pretoken # pretokens) shortBatch =
     (if chunkSize < length pretoken
      then flushShortBatch shortBatch @ LongPretoken pretoken # plan_loop chunkSize pretokens []
      else let shortBatch' = shortBatch @ [pretoken] in
           if length shortBatch' = 1024 then flushShortBatch shortBatch' @ plan_loop chunkSize pretokens []
           else plan_loop chunkSize pretokens shortBatch')"

text \<open>
  The state of a call of \<^verbatim>\<open>encodeWithWorkers\<close>: the pool, the calls in flight, the jobs, and the
  first rejection that \<^verbatim>\<open>Promise.all\<close> saw.
\<close>

record 'o encode_run =
  er_pool :: pool
  er_inflight :: "batch_call list"
  er_jobs :: "'o job list"
  er_rejected :: "js_error option"

definition note_rejection :: "'o job \<Rightarrow> js_error option \<Rightarrow> js_error option" where
  "note_rejection jb rejected =
     (case (rejected, jb) of (None, JobFailed e) \<Rightarrow> Some e | _ \<Rightarrow> rejected)"

definition start_job :: "'o overlap_core \<Rightarrow> nat \<Rightarrow> 'o encode_run \<Rightarrow> plan \<Rightarrow> 'o encode_run" where
  "start_job oc chunkSize run pl =
     (let job = length (er_jobs run);
          s = (er_pool run, er_inflight run)
      in case (case pl of
                 ShortBatch entries \<Rightarrow> (BatchJob entries, pool_dispatch job 0 entries s)
               | LongPretoken pretoken \<Rightarrow> start_long oc chunkSize job pretoken s) of
           (jb, pool, inflight) \<Rightarrow>
             run\<lparr>er_pool := pool, er_inflight := inflight, er_jobs := er_jobs run @ [jb],
                 er_rejected := note_rejection jb (er_rejected run)\<rparr>)"

definition start_encode :: "'o overlap_core \<Rightarrow> nat \<Rightarrow> bytes list \<Rightarrow> pool \<Rightarrow> 'o encode_run" where
  "start_encode oc chunkSize pretokens pool =
     foldl (start_job oc chunkSize)
       \<lparr>er_pool = resetTelemetry pool, er_inflight = [], er_jobs = [], er_rejected = None\<rparr>
       (plan_loop chunkSize pretokens [])"

text \<open>The delivery of the answer to the call at a place of the calls in flight.\<close>

definition deliver_answer :: "'o overlap_core \<Rightarrow> nat \<Rightarrow> batch_answer \<Rightarrow> 'o encode_run \<Rightarrow> 'o encode_run" where
  "deliver_answer oc k answer run =
     (let cl = er_inflight run ! k;
          rest = take k (er_inflight run) @ drop (Suc k) (er_inflight run);
          j = bc_job cl
      in case batch_finish (bc_entries cl) answer (er_pool run) of
           (outcome, pool) \<Rightarrow>
             (case resume_job oc j (bc_slot cl) outcome (er_jobs run ! j) (pool, rest) of
                (jb, pool', inflight) \<Rightarrow>
                  run\<lparr>er_pool := pool', er_inflight := inflight, er_jobs := (er_jobs run)[j := jb],
                      er_rejected := note_rejection jb (er_rejected run)\<rparr>))"

record worker_telemetry =
  wt_pretokens :: nat
  wt_tasks :: nat
  wt_initialChunks :: nat
  wt_enlargements :: nat
  wt_activeWorkers :: nat

fun job_ids :: "'o job \<Rightarrow> u32 list list" where
  "job_ids (JobDone idss _ _) = idss"
| "job_ids _ = []"

fun job_done :: "'o job \<Rightarrow> bool" where
  "job_done (JobDone _ _ _) = True"
| "job_done _ = False"

fun job_chunks :: "'o job \<Rightarrow> nat" where
  "job_chunks (JobDone _ chunks _) = chunks"
| "job_chunks _ = 0"

fun job_enlargements :: "'o job \<Rightarrow> nat" where
  "job_enlargements (JobDone _ _ enlargements) = enlargements"
| "job_enlargements _ = 0"

text \<open>How the promise of \<^verbatim>\<open>encodeWithWorkers\<close> is settled, \<open>None\<close> while it is not.\<close>

definition encode_outcome :: "nat \<Rightarrow> 'o encode_run \<Rightarrow> (js_error + u32 list \<times> worker_telemetry) option" where
  "encode_outcome pretokens run =
     (case er_rejected run of
        Some e \<Rightarrow> Some (Inl e)
      | None \<Rightarrow>
          if list_all job_done (er_jobs run)
          then Some (Inr (flattenIds (concat (map job_ids (er_jobs run))),
             \<lparr>wt_pretokens = pretokens, wt_tasks = pl_tasks (er_pool run),
              wt_initialChunks = sum_list (map job_chunks (er_jobs run)),
              wt_enlargements = sum_list (map job_enlargements (er_jobs run)),
              wt_activeWorkers = card (pl_active (er_pool run))\<rparr>))
          else None)"

subsection \<open>A batch and its answer\<close>

text \<open>Entries encoded one by one.\<close>

fun encode_each :: "(bytes \<Rightarrow> js_error + u32 list) \<Rightarrow> bytes list \<Rightarrow> js_error + u32 list list" where
  "encode_each f [] = Inr []"
| "encode_each f (entry # entries) =
     try_bind (f entry) (\<lambda>ids. try_bind (encode_each f entries) (\<lambda>rest. Inr (ids # rest)))"

lemma encode_each_length: "encode_each f entries = Inr encoded \<Longrightarrow> length encoded = length entries"
  by (induction entries arbitrary: encoded) (auto simp: try_bind_Inr)

lemma encode_each_nth:
  "encode_each f entries = Inr encoded \<longleftrightarrow>
     length encoded = length entries \<and> (\<forall>i < length entries. f (entries ! i) = Inr (encoded ! i))"
proof (induction entries arbitrary: encoded)
  case (Cons entry entries)
  show ?case
    by (cases encoded) (auto simp: try_bind_Inr Cons.IH All_less_Suc2)
qed auto

lemma encode_each_append:
  "encode_each f xs = Inr as \<Longrightarrow> encode_each f ys = Inr bs \<Longrightarrow> encode_each f (xs @ ys) = Inr (as @ bs)"
  by (induction xs arbitrary: as) (auto simp: try_bind_Inr)

lemma encode_each_concat:
  "list_all2 (\<lambda>es encoded. encode_each f es = Inr encoded) ess encodeds \<Longrightarrow> encode_each f (concat ess) = Inr (concat encodeds)"
  by (induction rule: list_all2_induct) (auto intro: encode_each_append)

fun pack_ranges :: "nat \<Rightarrow> bytes list \<Rightarrow> u32 list" where
  "pack_ranges offset [] = []"
| "pack_ranges offset (bs # entries) = of_nat offset # of_nat (offset + length bs) # pack_ranges (offset + length bs) entries"

lemma take_two_updates:
  "Suc n < length xs \<Longrightarrow> take (Suc (Suc n)) (xs[n := a, Suc n := b]) = take n xs @ [a, b]"
  by (simp add: take_Suc_conv_app_nth)

lemma pack_loop_eq:
  "length ranges = 2 * (index + length entries) \<Longrightarrow> length input = inputOffset + sum_list (map length entries) \<Longrightarrow>
   pack_loop entries index inputOffset input ranges =
     (take inputOffset input @ concat entries, take (2 * index) ranges @ pack_ranges inputOffset entries)"
proof (induction entries arbitrary: index inputOffset input ranges)
  case (Cons bs entries)
  have "take (2 * (index + 1)) (ranges[2 * index := of_nat inputOffset, Suc (2 * index) := of_nat (inputOffset + length bs)]) =
      take (2 * index) ranges @ [of_nat inputOffset, of_nat (inputOffset + length bs)]"
    using Cons.prems(1) take_two_updates [of "2 * index" ranges "of_nat inputOffset" "of_nat (inputOffset + length bs)"] by simp
  then show ?case using Cons by (simp add: js_set_def mult.commute)
qed simp

lemma pack_batch_eq: "pack_batch entries = (concat entries, pack_ranges 0 entries)"
  by (simp add: pack_batch_def pack_loop_eq)

lemma unat_of_nat_u32: "n < 2 ^ 32 \<Longrightarrow> unat (of_nat n :: u32) = n"
  by (simp add: unsigned_of_nat take_bit_nat_eq_self_iff)

lemma encode_packed:
  "offset + sum_list (map length entries) < 2 ^ 32 \<Longrightarrow> offset = length before \<Longrightarrow>
   encode_ranges f (before @ concat entries) (pack_ranges offset entries) = encode_each f entries"
proof (induction entries arbitrary: offset before)
  case (Cons bs entries)
  have "unat (of_nat offset :: u32) = offset" "unat (of_nat (offset + length bs) :: u32) = offset + length bs"
    using Cons.prems(1) by (simp_all add: unat_of_nat_u32 del: of_nat_add)
  moreover have "encode_ranges f ((before @ bs) @ concat entries) (pack_ranges (offset + length bs) entries) = encode_each f entries"
    by (rule Cons.IH) (use Cons.prems in simp_all)
  ultimately show ?case using Cons.prems(2) by (simp add: js_subarray_def del: of_nat_add)
qed simp

lemma slice_encoded:
  "\<forall>ids \<in> set encoded. length ids < 2 ^ 32 \<Longrightarrow> offset = length before \<Longrightarrow>
   slice_loop (encode_lengths encoded) offset (before @ concat encoded) = (encoded, offset + length (concat encoded))"
proof (induction encoded arbitrary: offset before)
  case (Cons ids encoded)
  have "unat (of_nat (length ids) :: u32) = length ids" using Cons.prems(1) by (simp add: unat_of_nat_u32)
  moreover have "slice_loop (encode_lengths encoded) (offset + length ids) ((before @ ids) @ concat encoded) =
      (encoded, offset + length ids + length (concat encoded))"
    by (rule Cons.IH) (use Cons.prems in simp_all)
  ultimately show ?case using Cons.prems(2) by (simp add: encode_lengths_def js_subarray_def)
qed (simp add: encode_lengths_def)

text \<open>
  What may arrive for a call: a rejection, or the answer of the handler of its worker, whose
  tokenizer encodes a pretoken as \<open>enc\<close> does.
\<close>

definition batch_answers :: "(bytes \<Rightarrow> js_error + u32 list) \<Rightarrow> bytes list \<Rightarrow> nat \<Rightarrow> batch_answer \<Rightarrow> bool" where
  "batch_answers enc entries worker answer \<longleftrightarrow>
     (case answer of
        Inl _ \<Rightarrow> True
      | Inr v \<Rightarrow> \<exists>encoded. encode_ranges enc (fst (pack_batch entries)) (snd (pack_batch entries)) = Inr encoded \<and>
                   v = (concat encoded, encode_lengths encoded, worker))"

text \<open>The ids of one pretoken are an array in WebAssembly memory.\<close>

definition short_arrays :: "(bytes \<Rightarrow> js_error + u32 list) \<Rightarrow> bool" where
  "short_arrays enc \<longleftrightarrow> (\<forall>bs ids. enc bs = Inr ids \<longrightarrow> length ids < 2 ^ 32)"

lemma batch_finish_exact:
  assumes "short_arrays enc" and "batch_answers enc entries worker answer" and "sum_list (map length entries) < 2 ^ 32"
    and "batch_finish entries answer pool = (outcome, pool')"
  shows "case outcome of
      Inl _ \<Rightarrow> True
    | Inr encoded \<Rightarrow> encode_each enc entries = Inr encoded \<and>
        pool' = pool\<lparr>pl_active := insert worker (pl_active pool), pl_tasks := pl_tasks pool + length entries\<rparr>"
proof (cases answer)
  case (Inl e)
  then show ?thesis using assms(4) by (auto simp: batch_finish_def)
next
  case (Inr v)
  then obtain encoded where each: "encode_each enc entries = Inr encoded" and v: "v = (concat encoded, encode_lengths encoded, worker)"
    using assms(2,3) encode_packed [of 0 entries "[]" enc] by (auto simp: batch_answers_def pack_batch_eq)
  then have "\<forall>ids \<in> set encoded. length ids < 2 ^ 32"
    using assms(1) unfolding encode_each_nth short_arrays_def by (metis in_set_conv_nth)
  from slice_encoded [OF this, of 0 "[]"] show ?thesis
    using assms(4) encode_each_length [OF each] by (auto simp: batch_finish_def Inr v each)
qed

text \<open>The worker of the pool model is the worker of the handler, by what its calls resolve to.\<close>

lemma worker_answer_batch:
  assumes "worker_answer load q (EncodePretokens (fst (pack_batch entries)) (snd (pack_batch entries))) (Pretokens flatIds lengths worker)"
    and "make_tokenizer load q = Inr tok"
  shows "batch_answers (wt_encodePretoken tok) entries worker (Inr (flatIds, lengths, worker))"
  using assms by (auto simp: worker_answer_def batch_answers_def)

subsection \<open>The plan covers the input\<close>

fun plan_entries :: "plan \<Rightarrow> bytes list" where
  "plan_entries (ShortBatch entries) = entries"
| "plan_entries (LongPretoken pretoken) = [pretoken]"

lemma flushShortBatch_entries: "concat (map plan_entries (flushShortBatch shortBatch)) = shortBatch"
  by (simp add: flushShortBatch_def)

lemma plan_loop_entries: "concat (map plan_entries (plan_loop chunkSize pretokens shortBatch)) = shortBatch @ pretokens"
  by (induction chunkSize pretokens shortBatch rule: plan_loop.induct) (simp_all add: flushShortBatch_entries Let_def)

text \<open>A batch has at most 1024 entries, none longer than a chunk; what is longer is its own job.\<close>

lemma plan_loop_shape:
  assumes "length shortBatch < 1024" and "\<forall>p \<in> set shortBatch. length p \<le> chunkSize" and "pl \<in> set (plan_loop chunkSize pretokens shortBatch)"
  shows "case pl of ShortBatch es \<Rightarrow> es \<noteq> [] \<and> length es \<le> 1024 \<and> (\<forall>p \<in> set es. length p \<le> chunkSize)
    | LongPretoken p \<Rightarrow> chunkSize < length p"
  using assms
  by (induction chunkSize pretokens shortBatch rule: plan_loop.induct)
    (auto simp: flushShortBatch_def Let_def split: if_splits)

end
