(* ===== verification/Worker_Pool_Exact.thy ===== *)
theory Worker_Pool_Exact
  imports Worker_Pool
begin

text \<open>
  Encoding with a pool of workers is exact and settles: an invariant of the jobs and the calls
  in flight, kept by every delivery, and a measure every delivery decreases.
\<close>

subsection \<open>What the pool relies on\<close>

definition range_part :: "bytes \<Rightarrow> nat \<times> nat \<Rightarrow> bytes" where
  "range_part pretoken r = (case r of (a, b) \<Rightarrow> js_subarray a b pretoken)"

text \<open>
  The contract of the reconciler, with the pretokens it may be working on: given the ids of the
  ranges it asked for, it ends, and with the ids of the whole pretoken; each enlargement leaves
  less to reconcile.
\<close>

definition overlap_laws ::
  "'o overlap_core \<Rightarrow> (bytes \<Rightarrow> js_error + u32 list) \<Rightarrow> (bytes \<Rightarrow> 'o \<Rightarrow> bool) \<Rightarrow>
     (bytes \<Rightarrow> (nat \<times> nat) option \<Rightarrow> 'o \<Rightarrow> bool) \<Rightarrow> ('o \<Rightarrow> nat) \<Rightarrow> bool" where
  "overlap_laws oc enc fresh pending weight \<longleftrightarrow>
     (\<forall>p n ov. oc_begin oc p n = Inr ov \<longrightarrow> fresh p ov) \<and>
     (\<forall>p ov rs idss req ov'. fresh p ov \<and> oc_initialRanges oc ov = Inr rs \<and>
        encode_each enc (map (range_part p) rs) = Inr idss \<and>
        oc_acceptInitial oc (concat idss) (encode_lengths idss) ov = Inr (req, ov') \<longrightarrow>
        pending p req ov' \<and> weight ov' \<le> weight ov) \<and>
     (\<forall>p r ov ids req ov'. pending p (Some r) ov \<and> enc (range_part p r) = Inr ids \<and>
        oc_acceptEnlargement oc ids ov = Inr (req, ov') \<longrightarrow> pending p req ov' \<and> weight ov' < weight ov) \<and>
     (\<forall>p ov ids. pending p None ov \<and> oc_takeIds oc ov = Inr ids \<longrightarrow> enc p = Inr ids)"

lemma overlap_lawsD:
  assumes "overlap_laws oc enc fresh pending weight"
  shows "oc_begin oc p n = Inr ov \<Longrightarrow> fresh p ov"
    and "fresh p ov \<Longrightarrow> oc_initialRanges oc ov = Inr rs \<Longrightarrow> encode_each enc (map (range_part p) rs) = Inr idss \<Longrightarrow>
      oc_acceptInitial oc (concat idss) (encode_lengths idss) ov = Inr (req, ov') \<Longrightarrow> pending p req ov' \<and> weight ov' \<le> weight ov"
    and "pending p (Some r) ov \<Longrightarrow> enc (range_part p r) = Inr ids \<Longrightarrow> oc_acceptEnlargement oc ids ov = Inr (req, ov') \<Longrightarrow>
      pending p req ov' \<and> weight ov' < weight ov"
    and "pending p None ov \<Longrightarrow> oc_takeIds oc ov = Inr ids \<Longrightarrow> enc p = Inr ids"
  using assms unfolding overlap_laws_def by blast+

subsection \<open>The invariant of one job\<close>

text \<open>A job is on its way to the ids of the pretokens it was planned for.\<close>

fun job_ok ::
  "'o overlap_core \<Rightarrow> (bytes \<Rightarrow> js_error + u32 list) \<Rightarrow> (bytes \<Rightarrow> 'o \<Rightarrow> bool) \<Rightarrow>
     (bytes \<Rightarrow> (nat \<times> nat) option \<Rightarrow> 'o \<Rightarrow> bool) \<Rightarrow> plan \<Rightarrow> 'o job \<Rightarrow> bool" where
  "job_ok oc enc fresh pending pl (BatchJob entries) = (pl = ShortBatch entries)"
| "job_ok oc enc fresh pending pl (InitialJob ov pretoken rs slots) =
     (pl = LongPretoken pretoken \<and> fresh pretoken ov \<and> oc_initialRanges oc ov = Inr rs \<and> length slots = length rs \<and>
      (\<forall>i < length rs. \<forall>ids. slots ! i = Some ids \<longrightarrow> enc (range_part pretoken (rs ! i)) = Inr ids))"
| "job_ok oc enc fresh pending pl (EnlargeJob ov pretoken n k r) =
     (pl = LongPretoken pretoken \<and> pending pretoken (Some r) ov)"
| "job_ok oc enc fresh pending pl (JobDone idss n k) = (encode_each enc (plan_entries pl) = Inr idss)"
| "job_ok oc enc fresh pending pl (JobFailed e) = True"

text \<open>The calls in flight a job waits for: one for each result it lacks.\<close>

fun job_calls :: "'o job \<Rightarrow> batch_call list \<Rightarrow> bool" where
  "job_calls (BatchJob entries) cs = (\<exists>cl. cs = [cl] \<and> bc_entries cl = entries)"
| "job_calls (InitialJob ov pretoken rs slots) cs =
     (distinct (map bc_slot cs) \<and> bc_slot ` set cs = {i. i < length rs \<and> slots ! i = None} \<and>
      (\<forall>cl \<in> set cs. bc_entries cl = [range_part pretoken (rs ! bc_slot cl)]) \<and> None \<in> set slots)"
| "job_calls (EnlargeJob ov pretoken n k r) cs = (\<exists>cl. cs = [cl] \<and> bc_entries cl = [range_part pretoken r])"
| "job_calls (JobDone idss n k) cs = (cs = [])"
| "job_calls (JobFailed e) cs = True"

text \<open>What a job may still dispatch, beyond the calls in flight.\<close>

fun job_weight :: "('o \<Rightarrow> nat) \<Rightarrow> 'o job \<Rightarrow> nat" where
  "job_weight weight (InitialJob ov pretoken rs slots) = weight ov + 1"
| "job_weight weight (EnlargeJob ov pretoken n k r) = weight ov"
| "job_weight weight _ = 0"

text \<open>The tasks a job has finished.\<close>

fun job_tasks :: "'o job \<Rightarrow> nat" where
  "job_tasks (InitialJob ov pretoken rs slots) = length (filter (\<lambda>sl. sl \<noteq> None) slots)"
| "job_tasks (EnlargeJob ov pretoken n k r) = n + k"
| "job_tasks (JobDone idss n k) = n + k"
| "job_tasks _ = 0"

fun job_failed :: "'o job \<Rightarrow> bool" where
  "job_failed (JobFailed e) = True"
| "job_failed _ = False"

subsection \<open>A step of one job\<close>

text \<open>
  The outcome of a step: the job as it goes on, and the calls it added at the end. \<open>cs\<close> are the
  calls of the job that were in flight without those.
\<close>

definition step_ok ::
  "'o overlap_core \<Rightarrow> (bytes \<Rightarrow> js_error + u32 list) \<Rightarrow> (bytes \<Rightarrow> 'o \<Rightarrow> bool) \<Rightarrow>
     (bytes \<Rightarrow> (nat \<times> nat) option \<Rightarrow> 'o \<Rightarrow> bool) \<Rightarrow> plan \<Rightarrow> nat \<Rightarrow> batch_call list \<Rightarrow> batch_call list \<Rightarrow>
     ('o job \<times> pool \<times> batch_call list) \<Rightarrow> (nat \<Rightarrow> 'o job \<Rightarrow> bool) \<Rightarrow> bool" where
  "step_ok oc enc fresh pending pl j cs inflight result extra \<longleftrightarrow>
     (case result of (jb, pool, inflight') \<Rightarrow>
       \<exists>new. inflight' = inflight @ new \<and> (\<forall>cl \<in> set new. bc_job cl = j) \<and>
         job_ok oc enc fresh pending pl jb \<and> job_calls jb (cs @ new) \<and> extra (length new) jb)"

lemma step_okI:
  assumes "result = (jb, pool, inflight @ new)" and "\<forall>cl \<in> set new. bc_job cl = j"
    and "job_ok oc enc fresh pending pl jb" and "job_calls jb (cs @ new)" and "extra (length new) jb"
  shows "step_ok oc enc fresh pending pl j cs inflight result extra"
  using assms by (auto simp: step_ok_def)

lemma enlarge_loop_ok:
  assumes laws: "overlap_laws oc enc fresh pending weight"
    and accepted: "\<And>req ov. accepted = Inr (req, ov) \<Longrightarrow> pending pretoken req ov \<and> weight ov < bound"
  shows "step_ok oc enc fresh pending (LongPretoken pretoken) j [] inflight
    (enlarge_loop oc j pretoken n k accepted (pool, inflight))
    (\<lambda>added jb. job_weight weight jb + added \<le> bound \<and> (job_failed jb \<or> job_tasks jb = n + k))"
proof (cases accepted)
  case (Inl e)
  then show ?thesis by (intro step_okI [where new = "[]"]) (auto simp: enlarge_loop_def)
next
  case (Inr v)
  then obtain req ov where eq: "accepted = Inr (req, ov)" by (cases v) auto
  note acc = accepted [OF eq]
  show ?thesis
  proof (cases req)
    case None
    show ?thesis
    proof (cases "oc_takeIds oc ov")
      case (Inl e)
      then show ?thesis using eq None by (intro step_okI [where new = "[]"]) (auto simp: enlarge_loop_def)
    next
      case (Inr ids)
      then have "enc pretoken = Inr ids" using overlap_lawsD(4) [OF laws] acc None by blast
      then show ?thesis using eq None Inr
        by (intro step_okI [where new = "[]"]) (auto simp: enlarge_loop_def)
    qed
  next
    case (Some r)
    then obtain a b where r: "req = Some (a, b)" by (cases r) auto
    let ?cl = "\<lparr>bc_job = j, bc_slot = 0, bc_worker = pl_nextWorker pool, bc_entries = [range_part pretoken (a, b)]\<rparr>"
    show ?thesis using eq r acc
      by (intro step_okI [where new = "[?cl]"]) (auto simp: enlarge_loop_def pool_dispatch_def range_part_def)
  qed
qed

lemma filter_update_length:
  "i < length slots \<Longrightarrow> slots ! i = None \<Longrightarrow>
   length (filter (\<lambda>sl. sl \<noteq> None) (slots[i := Some x])) = length (filter (\<lambda>sl. sl \<noteq> None) slots) + 1"
  by (induction slots arbitrary: i) (auto split: nat.splits)

lemma those_slots:
  assumes "those slots = Some initial" and "length slots = length rs"
    and "\<forall>i < length rs. \<forall>ids. slots ! i = Some ids \<longrightarrow> enc (range_part pretoken (rs ! i)) = Inr ids"
  shows "encode_each enc (map (range_part pretoken) rs) = Inr initial"
  using assms by (auto simp: those_eq_Some encode_each_nth)

lemma initial_step_ok:
  assumes laws: "overlap_laws oc enc fresh pending weight"
    and job: "job_ok oc enc fresh pending pl (InitialJob ov pretoken rs slots)"
    and calls: "distinct (map bc_slot cs)" "bc_slot ` set cs = {i. i < length rs \<and> slots ! i = None}"
      "\<forall>cl \<in> set cs. bc_entries cl = [range_part pretoken (rs ! bc_slot cl)]"
  shows "step_ok oc enc fresh pending pl j cs inflight
    (initial_step oc j ov pretoken rs slots (pool, inflight))
    (\<lambda>added jb. job_weight weight jb + added \<le> weight ov + 1 \<and>
       (job_failed jb \<or> job_tasks jb = length (filter (\<lambda>sl. sl \<noteq> None) slots)))"
proof (cases "those slots")
  case None
  then have "None \<in> set slots" by (simp add: those_eq_None)
  then show ?thesis using job calls None
    by (intro step_okI [where new = "[]"]) (auto simp: initial_step_def)
next
  case (Some initial)
  have pl: "pl = LongPretoken pretoken" "length slots = length rs" using job by simp_all
  have full: "slots = map Some initial" using Some by (simp add: those_eq_Some)
  then have "{i. i < length rs \<and> slots ! i = None} = {}" using pl(2) by auto
  with calls(2) have "bc_slot ` set cs = {}" by (rule trans)
  then have cs: "cs = []" by simp
  have each: "encode_each enc (map (range_part pretoken) rs) = Inr initial"
    using job by (intro those_slots [OF Some]) auto
  let ?accepted = "oc_acceptInitial oc (flattenIds initial) (encode_lengths initial) ov"
  have "step_ok oc enc fresh pending (LongPretoken pretoken) j [] inflight
    (enlarge_loop oc j pretoken (length rs) 0 ?accepted (pool, inflight))
    (\<lambda>added jb. job_weight weight jb + added \<le> weight ov + 1 \<and> (job_failed jb \<or> job_tasks jb = length rs + 0))"
  proof (rule enlarge_loop_ok [OF laws])
    fix req ov' assume "?accepted = Inr (req, ov')"
    then show "pending pretoken req ov' \<and> weight ov' < weight ov + 1"
      using overlap_lawsD(2) [OF laws _ _ each, of ov req ov'] job by (simp add: less_Suc_eq_le)
  qed
  moreover have "length rs = length (filter (\<lambda>sl. sl \<noteq> None) slots)" using pl(2) by (simp add: full comp_def)
  ultimately show ?thesis using Some pl(1) by (simp add: initial_step_def cs)
qed

lemma resume_job_ok:
  assumes laws: "overlap_laws oc enc fresh pending weight"
    and job: "job_ok oc enc fresh pending pl jb"
    and calls: "job_calls jb (xs @ cl # ys)"
    and outcome: "\<And>encoded. outcome = Inr encoded \<Longrightarrow> \<not> job_failed jb \<Longrightarrow> encode_each enc (bc_entries cl) = Inr encoded"
  shows "step_ok oc enc fresh pending pl j (xs @ ys) inflight (resume_job oc j (bc_slot cl) outcome jb (pool, inflight))
    (\<lambda>added jb'. job_weight weight jb' + added \<le> job_weight weight jb \<and>
       (job_failed jb' \<or> (\<exists>encoded. outcome = Inr encoded) \<and> job_tasks jb' = job_tasks jb + length (bc_entries cl)))"
proof (cases "\<exists>e. outcome = Inl e \<or> jb = JobFailed e")
  case True
  then obtain e where e: "outcome = Inl e \<or> jb = JobFailed e" by blast
  show ?thesis
    by (rule step_okI [where new = "[]" and jb = "JobFailed (case jb of JobFailed e' \<Rightarrow> e' | _ \<Rightarrow> e)"])
      (use e calls in \<open>auto simp: resume_job_def split: job.splits\<close>)
next
  case False
  then obtain encoded where enc: "outcome = Inr encoded" by (cases outcome) auto
  have ok: "\<not> job_failed jb" using False by (cases jb) auto
  have each: "encode_each enc (bc_entries cl) = Inr encoded" using outcome [OF enc ok] .
  show ?thesis
  proof (cases jb)
    case (BatchJob entries)
    then show ?thesis using job calls each enc
      by (intro step_okI [where new = "[]"]) (auto simp: resume_job_def append_eq_Cons_conv dest: encode_each_length)
  next
    case (EnlargeJob ov pretoken n k r)
    have "xs = [] \<and> ys = []" "bc_entries cl = [range_part pretoken r]" using calls EnlargeJob by (auto simp: append_eq_Cons_conv)
    moreover from this obtain ids where "encoded = [ids]" "enc (range_part pretoken r) = Inr ids"
      using each by (auto simp: try_bind_Inr)
    moreover have "pending pretoken req ov' \<and> weight ov' < weight ov"
      if "oc_acceptEnlargement oc ids ov = Inr (req, ov')" for req ov'
      by (rule overlap_lawsD(3) [OF laws _ calculation(4) that]) (use job EnlargeJob in auto)
    ultimately show ?thesis
      using enlarge_loop_ok [OF laws, of "oc_acceptEnlargement oc ids ov" pretoken "weight ov" j inflight n "k + 1" pool] job EnlargeJob enc
      by (simp add: resume_job_def step_ok_def)
  next
    case (InitialJob ov pretoken rs slots)
    let ?s = "bc_slot cl"
    have s: "?s < length rs" "slots ! ?s = None" "bc_entries cl = [range_part pretoken (rs ! ?s)]" "length slots = length rs"
      "distinct (map bc_slot (xs @ cl # ys))" "bc_slot ` set (xs @ cl # ys) = {i. i < length rs \<and> slots ! i = None}"
      using calls job InitialJob by auto
    obtain ids where ids: "encoded = [ids]" "enc (range_part pretoken (rs ! ?s)) = Inr ids"
      using each s(3) by (auto simp: try_bind_Inr)
    have minus: "bc_slot ` set (xs @ ys) = bc_slot ` set (xs @ cl # ys) - {?s}" using s(5) by (auto simp: image_def)
    have "{i. i < length rs \<and> slots ! i = None} - {?s} = {i. i < length rs \<and> slots[?s := Some ids] ! i = None}"
      using s(1,4) by (auto simp: nth_list_update split: if_splits)
    with minus have slots': "bc_slot ` set (xs @ ys) = {i. i < length rs \<and> slots[?s := Some ids] ! i = None}"
      by (simp only: s(6))
    have job': "job_ok oc enc fresh pending pl (InitialJob ov pretoken rs (slots[?s := Some ids]))"
      using job InitialJob ids(2) s(1) by (auto simp: nth_list_update split: if_splits)
    have "length (filter (\<lambda>sl. sl \<noteq> None) (slots[?s := Some ids])) = length (filter (\<lambda>sl. sl \<noteq> None) slots) + 1"
      using filter_update_length [of ?s slots ids] s(1,2,4) by simp
    then have tasks: "job_tasks jb + length (bc_entries cl) = length (filter (\<lambda>sl. sl \<noteq> None) (slots[?s := Some ids]))"
      by (simp only: InitialJob s(3) job_tasks.simps list.size)
    have res: "resume_job oc j ?s outcome jb (pool, inflight) = initial_step oc j ov pretoken rs (slots[?s := Some ids]) (pool, inflight)"
      by (simp add: resume_job_def InitialJob enc ids(1))
    have "step_ok oc enc fresh pending pl j (xs @ ys) inflight (initial_step oc j ov pretoken rs (slots[?s := Some ids]) (pool, inflight))
      (\<lambda>added jb'. job_weight weight jb' + added \<le> weight ov + 1 \<and>
        (job_failed jb' \<or> job_tasks jb' = length (filter (\<lambda>sl. sl \<noteq> None) (slots[?s := Some ids]))))"
    proof (rule initial_step_ok [OF laws job'])
      show "distinct (map bc_slot (xs @ ys))" using s(5) by simp
      show "bc_slot ` set (xs @ ys) = {i. i < length rs \<and> slots[?s := Some ids] ! i = None}" by (rule slots')
      show "\<forall>cl \<in> set (xs @ ys). bc_entries cl = [range_part pretoken (rs ! bc_slot cl)]" using calls InitialJob by auto
    qed
    then show ?thesis unfolding res tasks by (simp add: InitialJob enc)
  qed (use calls ok in auto)
qed

subsection \<open>The invariant of a run\<close>

definition calls_of :: "nat \<Rightarrow> batch_call list \<Rightarrow> batch_call list" where
  "calls_of j inflight = filter (\<lambda>cl. bc_job cl = j) inflight"

definition run_ok ::
  "'o overlap_core \<Rightarrow> (bytes \<Rightarrow> js_error + u32 list) \<Rightarrow> (bytes \<Rightarrow> 'o \<Rightarrow> bool) \<Rightarrow>
     (bytes \<Rightarrow> (nat \<times> nat) option \<Rightarrow> 'o \<Rightarrow> bool) \<Rightarrow> plan list \<Rightarrow> 'o encode_run \<Rightarrow> bool" where
  "run_ok oc enc fresh pending plans run \<longleftrightarrow>
     length (er_jobs run) = length plans \<and> (\<forall>cl \<in> set (er_inflight run). bc_job cl < length plans) \<and>
     (\<forall>j < length plans. job_ok oc enc fresh pending (plans ! j) (er_jobs run ! j) \<and>
        job_calls (er_jobs run ! j) (calls_of j (er_inflight run))) \<and>
     (er_rejected run = None \<longleftrightarrow> (\<forall>jb \<in> set (er_jobs run). \<not> job_failed jb)) \<and>
     (er_rejected run = None \<longrightarrow> pl_tasks (er_pool run) = sum_list (map job_tasks (er_jobs run)))"

definition run_weight :: "('o \<Rightarrow> nat) \<Rightarrow> 'o encode_run \<Rightarrow> nat" where
  "run_weight weight run = length (er_inflight run) + sum_list (map (job_weight weight) (er_jobs run))"

definition plan_fits :: "plan \<Rightarrow> bool" where
  "plan_fits pl \<longleftrightarrow> sum_list (map length (plan_entries pl)) < 2 ^ 32"

lemma calls_of_simps [simp]:
  "calls_of j [] = []" "calls_of j (cs @ cs') = calls_of j cs @ calls_of j cs'"
  "calls_of j (cl # cs) = (if bc_job cl = j then cl # calls_of j cs else calls_of j cs)"
  by (simp_all add: calls_of_def)

lemma calls_of_own: "\<forall>cl \<in> set cs. bc_job cl = i \<Longrightarrow> calls_of j cs = (if i = j then cs else [])"
  by (induction cs) auto

lemma length_range_part: "length (range_part p r) \<le> length p"
  by (cases r) (simp add: range_part_def js_subarray_def)

lemma call_fits:
  assumes "job_ok oc enc fresh pending pl jb" and "job_calls jb cs" and "cl \<in> set cs" and "plan_fits pl" and "\<not> job_failed jb"
  shows "sum_list (map length (bc_entries cl)) < 2 ^ 32"
  using assms length_range_part [of _ "_ ! bc_slot cl"]
  by (cases jb) (auto simp: plan_fits_def intro: le_less_trans [OF length_range_part])

lemma enlarge_loop_pool:
  "enlarge_loop oc j p n k accepted (pool, inflight) = (jb, pool', inflight') \<Longrightarrow> pl_tasks pool' = pl_tasks pool"
  by (auto simp: enlarge_loop_def pool_dispatch_def split: sum.splits option.splits prod.splits)

lemma initial_step_pool:
  "initial_step oc j ov p rs slots (pool, inflight) = (jb, pool', inflight') \<Longrightarrow> pl_tasks pool' = pl_tasks pool"
  by (auto simp: initial_step_def dest: enlarge_loop_pool split: option.splits)

lemma resume_job_pool:
  "resume_job oc j slot outcome jb (pool, inflight) = (jb', pool', inflight') \<Longrightarrow> pl_tasks pool' = pl_tasks pool"
  by (auto simp: resume_job_def dest: enlarge_loop_pool initial_step_pool split: job.splits sum.splits)

lemma note_rejection_None: "note_rejection jb rejected = None \<longleftrightarrow> rejected = None \<and> \<not> job_failed jb"
  by (cases jb) (auto simp: note_rejection_def split: option.splits)

lemma sum_list_jobs:
  assumes "j < length jobs"
  shows "sum_list (map f (jobs[j := jb])) + f (jobs ! j) = sum_list (map f jobs) + (f jb :: nat)"
proof -
  have "map f (jobs[j := jb]) = (map f jobs)[j := f jb]" by (rule map_update)
  moreover have "f (jobs ! j) \<le> sum_list (map f jobs)" using assms member_le_sum_list [of "f (jobs ! j)" "map f jobs"] by simp
  ultimately show ?thesis using assms by (simp add: sum_list_update)
qed

lemma failed_update:
  assumes "j < length jobs" and "job_failed (jobs ! j) \<longrightarrow> job_failed jb"
  shows "(\<forall>x \<in> set (jobs[j := jb]). \<not> job_failed x) \<longleftrightarrow> (\<forall>x \<in> set jobs. \<not> job_failed x) \<and> \<not> job_failed jb"
proof
  assume all: "\<forall>x \<in> set (jobs[j := jb]). \<not> job_failed x"
  then have "\<not> job_failed jb" using assms(1) by (simp add: set_update_memI)
  moreover have "\<not> job_failed x" if "x \<in> set jobs" for x
  proof -
    obtain i where i: "i < length jobs" "x = jobs ! i" using \<open>x \<in> set jobs\<close> by (auto simp: in_set_conv_nth)
    show ?thesis
    proof (cases "i = j")
      case True
      then show ?thesis using assms(2) i(2) calculation by blast
    next
      case False
      then have "x \<in> set (jobs[j := jb])" using i by (metis in_set_conv_nth length_list_update nth_list_update_neq)
      then show ?thesis using all by blast
    qed
  qed
  ultimately show "(\<forall>x \<in> set jobs. \<not> job_failed x) \<and> \<not> job_failed jb" by blast
next
  assume "(\<forall>x \<in> set jobs. \<not> job_failed x) \<and> \<not> job_failed jb"
  then show "\<forall>x \<in> set (jobs[j := jb]). \<not> job_failed x" using set_update_subset_insert by fastforce
qed

subsection \<open>Every delivery keeps the invariant\<close>

text \<open>One job goes on, and the others and their calls stay.\<close>

lemma run_ok_update:
  assumes ok: "run_ok oc enc fresh pending plans run"
    and j: "j < length plans" and inflight: "er_inflight run = as @ cl # bs" "bc_job cl = j"
    and new: "\<forall>cl \<in> set new. bc_job cl = j"
    and job: "job_ok oc enc fresh pending (plans ! j) jb" "job_calls jb (calls_of j (as @ bs) @ new)"
    and failed: "job_failed (er_jobs run ! j) \<longrightarrow> job_failed jb"
    and tasks: "job_failed jb \<or> pl_tasks pool = pl_tasks (er_pool run) + n \<and> job_tasks jb = job_tasks (er_jobs run ! j) + n"
    and run': "run' = run\<lparr>er_pool := pool, er_inflight := (as @ bs) @ new, er_jobs := (er_jobs run)[j := jb],
      er_rejected := note_rejection jb (er_rejected run)\<rparr>"
  shows "run_ok oc enc fresh pending plans run'"
proof -
  note o = ok [unfolded run_ok_def]
  have len: "length (er_jobs run) = length plans" using o by blast
  have others: "calls_of i ((as @ bs) @ new) = calls_of i (er_inflight run)" if "i \<noteq> j" for i
    using that inflight calls_of_own [OF new, of i] by auto
  have own: "calls_of j ((as @ bs) @ new) = calls_of j (as @ bs) @ new" using calls_of_own [OF new, of j] by simp
  have jobs: "\<forall>i < length plans. job_ok oc enc fresh pending (plans ! i) ((er_jobs run)[j := jb] ! i) \<and>
      job_calls ((er_jobs run)[j := jb] ! i) (calls_of i ((as @ bs) @ new))"
  proof (intro allI impI)
    fix i assume i: "i < length plans"
    show "job_ok oc enc fresh pending (plans ! i) ((er_jobs run)[j := jb] ! i) \<and>
      job_calls ((er_jobs run)[j := jb] ! i) (calls_of i ((as @ bs) @ new))"
    proof (cases "i = j")
      case True
      show ?thesis unfolding True own using job j len by simp
    next
      case False
      show ?thesis unfolding others [OF False] using o i False by simp
    qed
  qed
  have bound: "\<forall>cl \<in> set ((as @ bs) @ new). bc_job cl < length plans"
    using o new j inflight by auto
  have rejected: "note_rejection jb (er_rejected run) = None \<longleftrightarrow> (\<forall>x \<in> set ((er_jobs run)[j := jb]). \<not> job_failed x)"
    using o failed_update [of j "er_jobs run" jb] failed j len by (simp add: note_rejection_None)
  have "note_rejection jb (er_rejected run) = None \<longrightarrow> pl_tasks pool = sum_list (map job_tasks ((er_jobs run)[j := jb]))"
    using o tasks sum_list_jobs [of j "er_jobs run" job_tasks jb] j len by (auto simp: note_rejection_None)
  then show ?thesis unfolding run_ok_def run' using len bound jobs rejected by simp
qed

lemma deliver_ok:
  assumes laws: "overlap_laws oc enc fresh pending weight" and short: "short_arrays enc"
    and ok: "run_ok oc enc fresh pending plans run" and fits: "\<forall>pl \<in> set plans. plan_fits pl"
    and k: "k < length (er_inflight run)"
    and answer: "batch_answers enc (bc_entries (er_inflight run ! k)) (bc_worker (er_inflight run ! k)) answer"
  shows "run_ok oc enc fresh pending plans (deliver_answer oc k answer run) \<and>
    run_weight weight (deliver_answer oc k answer run) < run_weight weight run"
proof -
  let ?cl = "er_inflight run ! k" and ?as = "take k (er_inflight run)" and ?bs = "drop (Suc k) (er_inflight run)"
  let ?j = "bc_job ?cl"
  note o = ok [unfolded run_ok_def]
  have inflight: "er_inflight run = ?as @ ?cl # ?bs" using k by (rule id_take_nth_drop)
  have j: "?j < length plans" using o k by simp
  let ?jb = "er_jobs run ! ?j"
  have job: "job_ok oc enc fresh pending (plans ! ?j) ?jb" "job_calls ?jb (calls_of ?j (er_inflight run))" using o j by blast+
  have calls: "calls_of ?j (er_inflight run) = calls_of ?j ?as @ ?cl # calls_of ?j ?bs"
    by (subst inflight) simp
  obtain outcome pool where fin: "batch_finish (bc_entries ?cl) answer (er_pool run) = (outcome, pool)" by fastforce
  obtain jb pool' inflight' where res: "resume_job oc ?j (bc_slot ?cl) outcome ?jb (pool, ?as @ ?bs) = (jb, pool', inflight')"
    by (metis prod.exhaust)
  have exact: "encode_each enc (bc_entries ?cl) = Inr encoded \<and> pl_tasks pool = pl_tasks (er_pool run) + length (bc_entries ?cl)"
    if "outcome = Inr encoded" "\<not> job_failed ?jb" for encoded
  proof -
    have "?cl \<in> set (calls_of ?j (er_inflight run))" unfolding calls by simp
    then have "sum_list (map length (bc_entries ?cl)) < 2 ^ 32" using call_fits job that(2) fits j by fastforce
    from batch_finish_exact [OF short answer this fin] show ?thesis using that(1) by simp
  qed
  have "step_ok oc enc fresh pending (plans ! ?j) ?j (calls_of ?j ?as @ calls_of ?j ?bs) (?as @ ?bs) (jb, pool', inflight')
    (\<lambda>added jb'. job_weight weight jb' + added \<le> job_weight weight ?jb \<and>
       (job_failed jb' \<or> (\<exists>encoded. outcome = Inr encoded) \<and> job_tasks jb' = job_tasks ?jb + length (bc_entries ?cl)))"
    unfolding res [symmetric] using resume_job_ok [OF laws job(1)] job(2) exact unfolding calls by blast
  then obtain new where new: "inflight' = (?as @ ?bs) @ new" "\<forall>cl \<in> set new. bc_job cl = ?j"
    "job_ok oc enc fresh pending (plans ! ?j) jb" "job_calls jb (calls_of ?j (?as @ ?bs) @ new)"
    "job_weight weight jb + length new \<le> job_weight weight ?jb"
    "job_failed jb \<or> (\<exists>encoded. outcome = Inr encoded) \<and> job_tasks jb = job_tasks ?jb + length (bc_entries ?cl)"
    unfolding step_ok_def by auto
  have run': "deliver_answer oc k answer run =
      run\<lparr>er_pool := pool', er_inflight := (?as @ ?bs) @ new, er_jobs := (er_jobs run)[?j := jb],
        er_rejected := note_rejection jb (er_rejected run)\<rparr>"
    by (simp add: deliver_answer_def Let_def fin res new(1))
  have failed: "job_failed ?jb \<longrightarrow> job_failed jb" using res by (cases ?jb) (auto simp: resume_job_def)
  have "job_failed jb \<or> pl_tasks pool' = pl_tasks (er_pool run) + length (bc_entries ?cl) \<and> job_tasks jb = job_tasks ?jb + length (bc_entries ?cl)"
    using new(6) exact failed resume_job_pool [OF res] by auto
  from run_ok_update [OF ok j inflight refl new(2-4) failed this run']
  have "run_ok oc enc fresh pending plans (deliver_answer oc k answer run)" .
  moreover have "length (er_inflight run) = length (?as @ ?bs) + 1" by (subst inflight) simp
  then have "run_weight weight (deliver_answer oc k answer run) < run_weight weight run"
    using sum_list_jobs [of ?j "er_jobs run" "job_weight weight" jb] new(5) j o unfolding run' run_weight_def by simp
  ultimately show ?thesis by blast
qed

subsection \<open>The invariant holds when all jobs are started\<close>

lemma dispatch_chunks_calls:
  "\<exists>pool' cs. dispatch_chunks j slot chunks (pool, inflight) = (pool', inflight @ cs) \<and> pl_tasks pool' = pl_tasks pool \<and>
     (\<forall>cl \<in> set cs. bc_job cl = j) \<and> map bc_slot cs = [slot..<slot + length chunks] \<and>
     map bc_entries cs = map (\<lambda>chunk. [chunk]) chunks"
proof (induction chunks arbitrary: slot pool inflight)
  case (Cons chunk chunks)
  let ?cl = "\<lparr>bc_job = j, bc_slot = slot, bc_worker = pl_nextWorker pool, bc_entries = [chunk]\<rparr>"
  let ?pool = "pool\<lparr>pl_nextWorker := (pl_nextWorker pool + 1) mod pl_size pool\<rparr>"
  obtain pool' cs where IH: "dispatch_chunks j (slot + 1) chunks (?pool, inflight @ [?cl]) = (pool', (inflight @ [?cl]) @ cs)"
    "pl_tasks pool' = pl_tasks ?pool" "\<forall>cl \<in> set cs. bc_job cl = j" "map bc_slot cs = [slot + 1..<slot + 1 + length chunks]"
    "map bc_entries cs = map (\<lambda>chunk. [chunk]) chunks"
    using Cons.IH [of "slot + 1" ?pool "inflight @ [?cl]"] by blast
  have "[slot..<slot + length (chunk # chunks)] = slot # [slot + 1..<slot + 1 + length chunks]"
    by (subst upt_conv_Cons) simp_all
  then show ?case
    by (intro exI [of _ pool'] exI [of _ "?cl # cs"]) (use IH in \<open>simp add: pool_dispatch_def del: upt_Suc\<close>)
qed simp

lemma start_long_ok:
  assumes laws: "overlap_laws oc enc fresh pending weight"
  shows "step_ok oc enc fresh pending (LongPretoken p) j [] inflight (start_long oc chunkSize j p (pool, inflight))
    (\<lambda>added jb. job_failed jb \<or> job_tasks jb = 0 + 0)"
proof (cases "try_bind (oc_begin oc p chunkSize) (\<lambda>ov. try_bind (oc_initialRanges oc ov) (\<lambda>rs. Inr (ov, rs)))")
  case (Inl e)
  then show ?thesis by (intro step_okI [where new = "[]"]) (auto simp: start_long_def)
next
  case (Inr v)
  obtain ov rs where v: "v = (ov, rs)" by fastforce
  then have begun: "oc_begin oc p chunkSize = Inr ov" "oc_initialRanges oc ov = Inr rs" using Inr by (auto simp: try_bind_Inr)
  let ?chunks = "map (\<lambda>(a, b). js_subarray a b p) rs"
  obtain pool' cs where cs: "dispatch_chunks j 0 ?chunks (pool, inflight) = (pool', inflight @ cs)"
    "\<forall>cl \<in> set cs. bc_job cl = j" "map bc_slot cs = [0..<length rs]" "map bc_entries cs = map (\<lambda>chunk. [chunk]) ?chunks"
    using dispatch_chunks_calls [of j 0 ?chunks pool inflight] by auto
  let ?slots = "replicate (length rs) (None :: u32 list option)"
  have slot: "bc_slot (cs ! i) = i \<and> bc_entries (cs ! i) = [range_part p (rs ! i)]" if "i < length cs" for i
  proof -
    have len: "length cs = length rs" using arg_cong [OF cs(3), of length] by simp
    have "map bc_slot cs ! i = i" "map bc_entries cs ! i = [range_part p (rs ! i)]"
      using that len unfolding cs(3,4) by (simp_all add: range_part_def)
    then show ?thesis using that by simp
  qed
  have "step_ok oc enc fresh pending (LongPretoken p) j cs (inflight @ cs)
    (initial_step oc j ov p rs ?slots (pool', inflight @ cs))
    (\<lambda>added jb. job_weight weight jb + added \<le> weight ov + 1 \<and>
       (job_failed jb \<or> job_tasks jb = length (filter (\<lambda>sl. sl \<noteq> None) ?slots)))"
  proof (rule initial_step_ok [OF laws])
    show "job_ok oc enc fresh pending (LongPretoken p) (InitialJob ov p rs ?slots)"
      using begun overlap_lawsD(1) [OF laws] by simp
    show "distinct (map bc_slot cs)" unfolding cs(3) by simp
    have "bc_slot ` set cs = set (map bc_slot cs)" by simp
    then show "bc_slot ` set cs = {i. i < length rs \<and> ?slots ! i = None}" unfolding cs(3) by auto
    show "\<forall>cl \<in> set cs. bc_entries cl = [range_part p (rs ! bc_slot cl)]"
      using slot by (metis in_set_conv_nth)
  qed
  moreover have "start_long oc chunkSize j p (pool, inflight) = initial_step oc j ov p rs ?slots (pool', inflight @ cs)"
    by (simp add: start_long_def begun cs(1))
  ultimately show ?thesis
    using cs(2) unfolding step_ok_def by (auto intro: exI [of _ "cs @ _"])
qed

lemma start_long_pool:
  assumes "start_long oc chunkSize j p (pool, inflight) = (jb, pool', inflight')"
  shows "pl_tasks pool' = pl_tasks pool"
proof (cases "try_bind (oc_begin oc p chunkSize) (\<lambda>ov. try_bind (oc_initialRanges oc ov) (\<lambda>rs. Inr (ov, rs)))")
  case (Inl e)
  then show ?thesis using assms by (simp add: start_long_def)
next
  case (Inr v)
  obtain ov rs where v: "v = (ov, rs)" by fastforce
  obtain pool1 cs where "dispatch_chunks j 0 (map (\<lambda>(a, b). js_subarray a b p) rs) (pool, inflight) = (pool1, inflight @ cs)"
    "pl_tasks pool1 = pl_tasks pool"
    using dispatch_chunks_calls [of j 0 "map (\<lambda>(a, b). js_subarray a b p) rs" pool inflight] by blast
  then show ?thesis using assms Inr v by (auto simp: start_long_def dest: initial_step_pool)
qed

lemma run_ok_extend:
  assumes ok: "run_ok oc enc fresh pending plans run"
    and step: "step_ok oc enc fresh pending pl (length plans) [] (er_inflight run) (jb, pool, inflight) (\<lambda>added jb. job_failed jb \<or> job_tasks jb = 0)"
    and tasks: "pl_tasks pool = pl_tasks (er_pool run)"
  shows "run_ok oc enc fresh pending (plans @ [pl])
    (run\<lparr>er_pool := pool, er_inflight := inflight, er_jobs := er_jobs run @ [jb], er_rejected := note_rejection jb (er_rejected run)\<rparr>)"
proof -
  note o = ok [unfolded run_ok_def]
  obtain new where new: "inflight = er_inflight run @ new" "\<forall>cl \<in> set new. bc_job cl = length plans"
    "job_ok oc enc fresh pending pl jb" "job_calls jb new" "job_failed jb \<or> job_tasks jb = 0"
    using step unfolding step_ok_def by auto
  have none: "calls_of (length plans) (er_inflight run) = []" using o by (auto simp: calls_of_def filter_empty_conv)
  have jobs: "\<forall>j < length (plans @ [pl]). job_ok oc enc fresh pending ((plans @ [pl]) ! j) ((er_jobs run @ [jb]) ! j) \<and>
      job_calls ((er_jobs run @ [jb]) ! j) (calls_of j inflight)"
  proof (intro allI impI)
    fix j assume "j < length (plans @ [pl])"
    then consider "j < length plans" | "j = length plans" by fastforce
    then show "job_ok oc enc fresh pending ((plans @ [pl]) ! j) ((er_jobs run @ [jb]) ! j) \<and>
        job_calls ((er_jobs run @ [jb]) ! j) (calls_of j inflight)"
    proof cases
      case 1
      then show ?thesis using o calls_of_own [OF new(2), of j] by (simp add: new(1) nth_append)
    next
      case 2
      have "(er_jobs run @ [jb]) ! j = jb" using o 2 by (simp add: nth_append)
      then show ?thesis using calls_of_own [OF new(2), of j] none new(3,4) by (simp add: new(1) 2)
    qed
  qed
  moreover have "\<forall>cl \<in> set inflight. bc_job cl < length (plans @ [pl])" using o new(1,2) by (auto simp: less_Suc_eq)
  ultimately show ?thesis using o new(5) tasks unfolding run_ok_def by (auto simp: note_rejection_None)
qed

lemma start_job_ok:
  assumes laws: "overlap_laws oc enc fresh pending weight" and ok: "run_ok oc enc fresh pending plans run"
  shows "run_ok oc enc fresh pending (plans @ [pl]) (start_job oc chunkSize run pl)"
proof -
  have len: "length (er_jobs run) = length plans" using ok by (simp add: run_ok_def)
  define started where "started = (case pl of
      ShortBatch entries \<Rightarrow> (BatchJob entries, pool_dispatch (length plans) 0 entries (er_pool run, er_inflight run))
    | LongPretoken pretoken \<Rightarrow> start_long oc chunkSize (length plans) pretoken (er_pool run, er_inflight run))"
  obtain jb pool inflight where eq: "started = (jb, pool, inflight)" by (metis prod.exhaust)
  have "step_ok oc enc fresh pending pl (length plans) [] (er_inflight run) started (\<lambda>added jb. job_failed jb \<or> job_tasks jb = 0)"
  proof (cases pl)
    case (ShortBatch entries)
    then show ?thesis
      by (intro step_okI [where new = "[\<lparr>bc_job = length plans, bc_slot = 0, bc_worker = pl_nextWorker (er_pool run), bc_entries = entries\<rparr>]"])
        (auto simp: started_def pool_dispatch_def)
  next
    case (LongPretoken p)
    then show ?thesis using start_long_ok [OF laws, of p "length plans" "er_inflight run" chunkSize "er_pool run"] by (simp add: started_def)
  qed
  moreover have "pl_tasks pool = pl_tasks (er_pool run)"
  proof (cases pl)
    case (LongPretoken p)
    then have "start_long oc chunkSize (length plans) p (er_pool run, er_inflight run) = (jb, pool, inflight)"
      using eq by (simp add: started_def)
    then show ?thesis by (rule start_long_pool)
  qed (use eq in \<open>auto simp: started_def pool_dispatch_def\<close>)
  moreover have "start_job oc chunkSize run pl =
      run\<lparr>er_pool := pool, er_inflight := inflight, er_jobs := er_jobs run @ [jb], er_rejected := note_rejection jb (er_rejected run)\<rparr>"
    using eq by (simp add: start_job_def Let_def len started_def)
  ultimately show ?thesis using run_ok_extend [OF ok] eq by simp
qed

lemma start_jobs_ok:
  assumes laws: "overlap_laws oc enc fresh pending weight"
  shows "run_ok oc enc fresh pending plans run \<Longrightarrow>
    run_ok oc enc fresh pending (plans @ pls) (foldl (start_job oc chunkSize) run pls)"
proof (induction pls arbitrary: plans run)
  case (Cons pl pls)
  from Cons.IH [OF start_job_ok [OF laws Cons.prems]] show ?case by simp
qed simp

lemma start_encode_ok:
  assumes "overlap_laws oc enc fresh pending weight"
  shows "run_ok oc enc fresh pending (plan_loop chunkSize pretokens []) (start_encode oc chunkSize pretokens pool)"
proof -
  have "run_ok oc enc fresh pending [] \<lparr>er_pool = resetTelemetry pool, er_inflight = [], er_jobs = [], er_rejected = None\<rparr>"
    by (simp add: run_ok_def resetTelemetry_def)
  from start_jobs_ok [OF assms this] show ?thesis by (simp add: start_encode_def)
qed

lemma plan_loop_fits:
  assumes "sum_list (map length pretokens) < 2 ^ 32"
  shows "\<forall>pl \<in> set (plan_loop chunkSize pretokens []). plan_fits pl"
proof
  fix pl assume "pl \<in> set (plan_loop chunkSize pretokens [])"
  then obtain xs ys where split: "plan_loop chunkSize pretokens [] = xs @ pl # ys" by (auto simp: in_set_conv_decomp)
  have "pretokens = concat (map plan_entries (plan_loop chunkSize pretokens []))" by (simp add: plan_loop_entries)
  then have "sum_list (map length pretokens) = sum_list (map length (concat (map plan_entries xs))) +
      sum_list (map length (plan_entries pl)) + sum_list (map length (concat (map plan_entries ys)))"
    unfolding split by simp
  then show "plan_fits pl" using assms by (simp add: plan_fits_def)
qed

subsection \<open>Runs\<close>

text \<open>
  The answers of the workers, delivered one by one: to any call in flight, in any order, each the
  right ids or an error. The number counts them.
\<close>

inductive pool_run ::
  "(bytes \<Rightarrow> js_error + u32 list) \<Rightarrow> 'o overlap_core \<Rightarrow> 'o encode_run \<Rightarrow> nat \<Rightarrow> 'o encode_run \<Rightarrow> bool"
  for enc :: "bytes \<Rightarrow> js_error + u32 list" and oc :: "'o overlap_core" and run0 :: "'o encode_run" where
  idle: "pool_run enc oc run0 0 run0"
| answer: "pool_run enc oc run0 n run \<Longrightarrow> k < length (er_inflight run) \<Longrightarrow>
    batch_answers enc (bc_entries (er_inflight run ! k)) (bc_worker (er_inflight run ! k)) a \<Longrightarrow>
    pool_run enc oc run0 (Suc n) (deliver_answer oc k a run)"

lemma pool_run_ok:
  assumes "pool_run enc oc run0 n run" and laws: "overlap_laws oc enc fresh pending weight" and "short_arrays enc"
    and "run_ok oc enc fresh pending plans run0" and "\<forall>pl \<in> set plans. plan_fits pl"
  shows "run_ok oc enc fresh pending plans run \<and> n + run_weight weight run \<le> run_weight weight run0"
  using assms(1)
proof (induction rule: pool_run.induct)
  case idle
  then show ?case using assms(4) by simp
next
  case (answer n run k a)
  with deliver_ok [OF laws assms(3) _ assms(5) answer.hyps(2,3)] show ?case by fastforce
qed

lemma run_outcome_ids:
  assumes ok: "run_ok oc enc fresh pending plans run" and alldone: "list_all job_done (er_jobs run)"
  shows "encode_each enc (concat (map plan_entries plans)) = Inr (concat (map job_ids (er_jobs run)))"
    and "sum_list (map job_tasks (er_jobs run)) = sum_list (map job_chunks (er_jobs run)) + sum_list (map job_enlargements (er_jobs run))"
proof -
  note o = ok [unfolded run_ok_def]
  have len: "length (er_jobs run) = length plans" using o by blast
  have "list_all2 (\<lambda>es encoded. encode_each enc es = Inr encoded) (map plan_entries plans) (map job_ids (er_jobs run))"
  proof (unfold list_all2_conv_all_nth, intro conjI allI impI)
    fix i assume "i < length (map plan_entries plans)"
    then have i: "i < length plans" by simp
    then have "job_done (er_jobs run ! i)" using alldone len by (simp add: list_all_length)
    then obtain idss n k where jb: "er_jobs run ! i = JobDone idss n k" by (cases "er_jobs run ! i") auto
    then have "job_ok oc enc fresh pending (plans ! i) (JobDone idss n k)" using o i by (metis (no_types))
    then show "encode_each enc (map plan_entries plans ! i) = Inr (map job_ids (er_jobs run) ! i)"
      using i len jb by simp
  qed (simp add: len)
  then show "encode_each enc (concat (map plan_entries plans)) = Inr (concat (map job_ids (er_jobs run)))"
    by (rule encode_each_concat)
  have "job_tasks jb = job_chunks jb + job_enlargements jb" if "jb \<in> set (er_jobs run)" for jb
    using alldone that by (cases jb) (auto simp: list_all_iff)
  then have "map job_tasks (er_jobs run) = map (\<lambda>jb. job_chunks jb + job_enlargements jb) (er_jobs run)" by simp
  then show "sum_list (map job_tasks (er_jobs run)) = sum_list (map job_chunks (er_jobs run)) + sum_list (map job_enlargements (er_jobs run))"
    by (simp only: sum_list_addf)
qed

text \<open>A job without calls in flight has ended.\<close>

lemma job_without_calls:
  assumes "job_ok oc enc fresh pending pl jb" and "job_calls jb []"
  shows "job_done jb \<or> job_failed jb"
proof (cases jb)
  case (InitialJob ov p rs slots)
  then obtain i where "i < length slots" "slots ! i = None" using assms(2) by (auto simp: in_set_conv_nth)
  then show ?thesis using assms InitialJob by auto
qed (use assms in auto)

lemma run_ended:
  assumes ok: "run_ok oc enc fresh pending plans run" and "er_inflight run = []"
  shows "encode_outcome m run \<noteq> None"
proof -
  note o = ok [unfolded run_ok_def]
  have "job_done jb \<or> job_failed jb" if "jb \<in> set (er_jobs run)" for jb
  proof -
    obtain i where i: "i < length plans" "jb = er_jobs run ! i" using o \<open>jb \<in> set (er_jobs run)\<close> unfolding in_set_conv_nth by fastforce
    have "job_ok oc enc fresh pending (plans ! i) (er_jobs run ! i) \<and> job_calls (er_jobs run ! i) (calls_of i (er_inflight run))"
      using o i(1) by blast
    then have "job_ok oc enc fresh pending (plans ! i) jb" "job_calls jb []" using i(2) assms(2) by simp_all
    then show ?thesis by (rule job_without_calls)
  qed
  moreover have "er_rejected run = None \<longleftrightarrow> (\<forall>jb \<in> set (er_jobs run). \<not> job_failed jb)" using o by blast
  ultimately have "er_rejected run = None \<Longrightarrow> list_all job_done (er_jobs run)" by (auto simp: list_all_iff)
  then show ?thesis by (cases "er_rejected run") (simp_all add: encode_outcome_def)
qed

subsection \<open>Properties\<close>

text \<open>The worker that always answers, and runs of it.\<close>

definition worker_reply :: "(bytes \<Rightarrow> js_error + u32 list) \<Rightarrow> bytes list \<Rightarrow> nat \<Rightarrow> batch_answer" where
  "worker_reply enc entries worker =
     (case encode_ranges enc (fst (pack_batch entries)) (snd (pack_batch entries)) of
        Inl e \<Rightarrow> Inl e
      | Inr encoded \<Rightarrow> Inr (concat encoded, encode_lengths encoded, worker))"

lemma worker_reply_answers: "batch_answers enc entries worker (worker_reply enc entries worker)"
  by (simp add: batch_answers_def worker_reply_def split: sum.splits)

definition serve :: "(bytes \<Rightarrow> js_error + u32 list) \<Rightarrow> 'o overlap_core \<Rightarrow> nat \<Rightarrow> 'o encode_run \<Rightarrow> 'o encode_run" where
  "serve enc oc k run =
     (let cl = er_inflight run ! k in deliver_answer oc k (worker_reply enc (bc_entries cl) (bc_worker cl)) run)"

lemma serve_run:
  "pool_run enc oc run0 n run \<Longrightarrow> k < length (er_inflight run) \<Longrightarrow> pool_run enc oc run0 (Suc n) (serve enc oc k run)"
  unfolding serve_def Let_def by (rule pool_run.answer) (auto simp: worker_reply_answers)

lemma pool_encode_exact:
  assumes "overlap_laws oc enc fresh pending weight" and "short_arrays enc" and "sum_list (map length pretokens) < 2 ^ 32"
    and "pool_run enc oc (start_encode oc chunkSize pretokens pool) n run"
    and "encode_outcome m run = Some (Inr (ids, telemetry))"
  shows "\<exists>idss. encode_each enc pretokens = Inr idss \<and> ids = concat idss \<and>
    wt_tasks telemetry = wt_initialChunks telemetry + wt_enlargements telemetry"
proof -
  have ok: "run_ok oc enc fresh pending (plan_loop chunkSize pretokens []) run"
    using pool_run_ok [OF assms(4,1,2) start_encode_ok [OF assms(1)] plan_loop_fits [OF assms(3)]] by blast
  have fin: "er_rejected run = None" "list_all job_done (er_jobs run)"
    and eq: "ids = concat (concat (map job_ids (er_jobs run)))" "wt_tasks telemetry = pl_tasks (er_pool run)"
      "wt_initialChunks telemetry = sum_list (map job_chunks (er_jobs run))"
      "wt_enlargements telemetry = sum_list (map job_enlargements (er_jobs run))"
    using assms(5) by (auto simp: encode_outcome_def split: option.splits if_splits)
  have "pl_tasks (er_pool run) = sum_list (map job_tasks (er_jobs run))" using ok fin(1) by (simp add: run_ok_def)
  then show ?thesis using run_outcome_ids [OF ok fin(2)] eq by (auto simp: plan_loop_entries)
qed

text \<open>
  C8. Encoding with a pool of workers gives the ids of the pretokens, in order: whatever the order
  in which the workers answer and however the pretokens are batched, chunked and enlarged, an
  encode that resolves holds the ids each pretoken has on its own, and counts as many tasks as
  initial chunks and enlargements.
\<close>

theorem worker_pool_exact:
  assumes "overlap_laws oc enc fresh pending weight" and "short_arrays enc" and "sum_list (map length pretokens) < 2 ^ 32"
    and "pool_run enc oc (start_encode oc chunkSize pretokens pool) n run"
    and "encode_outcome m run = Some (Inr (ids, telemetry))"
  shows "\<exists>idss. encode_each enc pretokens = Inr idss \<and> ids = concat idss \<and>
    wt_tasks telemetry = wt_initialChunks telemetry + wt_enlargements telemetry"
  using pool_encode_exact [OF assms] .

text \<open>
  C9. Encoding with a pool of workers settles: the number of answers it can take is bounded from
  the start, and when none is awaited any more the encode has resolved or was rejected.
\<close>

theorem worker_pool_settles:
  assumes "overlap_laws oc enc fresh pending weight" and "short_arrays enc" and "sum_list (map length pretokens) < 2 ^ 32"
    and "pool_run enc oc (start_encode oc chunkSize pretokens pool) n run"
  shows "n + run_weight weight run \<le> run_weight weight (start_encode oc chunkSize pretokens pool) \<and>
    (er_inflight run = [] \<longrightarrow> encode_outcome m run \<noteq> None)"
  using pool_run_ok [OF assms(4,1,2) start_encode_ok [OF assms(1)] plan_loop_fits [OF assms(3)]]
  by (auto dest: run_ended)

text \<open>
  A tokenizer of short pretokens with one id per byte, and a reconciler that asks for the first chunk, then for the
  rest of the pretoken.
\<close>

definition byte_ids :: "bytes \<Rightarrow> js_error + u32 list" where
  "byte_ids bs = (if length bs < 16 then Inr (map ucast bs) else Inl (RangeError ''too long''))"

definition two_part :: "(bytes \<times> nat \<times> u32 list) overlap_core" where
  "two_part =
     \<lparr>oc_begin = (\<lambda>p n. if length p \<le> n \<or> 16 \<le> length p then Inl (PlainError ''not split'') else Inr (p, n, [])),
      oc_initialRanges = (\<lambda>(p, n, acc). Inr [(0, n)]),
      oc_acceptInitial = (\<lambda>flat lengths (p, n, acc). Inr (Some (n, length p), (p, n, flat))),
      oc_acceptEnlargement = (\<lambda>ids (p, n, acc). Inr (None, (p, n, acc @ ids))),
      oc_takeIds = (\<lambda>(p, n, acc). Inr acc)\<rparr>"

definition two_part_fresh :: "bytes \<Rightarrow> bytes \<times> nat \<times> u32 list \<Rightarrow> bool" where
  "two_part_fresh p ov \<longleftrightarrow> (case ov of (p', n, acc) \<Rightarrow> p' = p \<and> n < length p \<and> length p < 16 \<and> acc = [])"

definition two_part_pending :: "bytes \<Rightarrow> (nat \<times> nat) option \<Rightarrow> bytes \<times> nat \<times> u32 list \<Rightarrow> bool" where
  "two_part_pending p req ov \<longleftrightarrow>
     (case ov of (p', n, acc) \<Rightarrow> p' = p \<and> n < length p \<and> length p < 16 \<and>
        acc = map ucast (case req of None \<Rightarrow> p | Some _ \<Rightarrow> take n p) \<and> req \<in> {None, Some (n, length p)})"

definition two_part_weight :: "bytes \<times> nat \<times> u32 list \<Rightarrow> nat" where
  "two_part_weight ov = (case ov of (p, n, acc) \<Rightarrow> length p - length acc)"

lemma two_part_laws: "overlap_laws two_part byte_ids two_part_fresh two_part_pending two_part_weight"
  by (auto simp: overlap_laws_def two_part_def two_part_fresh_def two_part_pending_def two_part_weight_def byte_ids_def
      range_part_def js_subarray_def map_append [symmetric] simp del: map_append split: if_splits)

lemma byte_ids_short: "short_arrays byte_ids"
  by (simp add: short_arrays_def byte_ids_def)

text \<open>Three pretokens on two workers; the long one answers first, and its rest comes last.\<close>

definition sample_start :: "(bytes \<times> nat \<times> u32 list) encode_run" where
  "sample_start = start_encode two_part 2 [[1], [2, 3, 4], [5]] (new_pool 2)"

definition sample_end :: "(bytes \<times> nat \<times> u32 list) encode_run" where
  "sample_end = serve byte_ids two_part 0 (serve byte_ids two_part 1 (serve byte_ids two_part 0 (serve byte_ids two_part 1 sample_start)))"

definition sample_telemetry :: worker_telemetry where
  "sample_telemetry = \<lparr>wt_pretokens = 3, wt_tasks = 4, wt_initialChunks = 3, wt_enlargements = 1, wt_activeWorkers = 2\<rparr>"

lemma sample_run: "pool_run byte_ids two_part sample_start 4 sample_end"
proof -
  have "pool_run byte_ids two_part sample_start 0 sample_start" by (rule pool_run.idle)
  note r0 = serve_run [OF this, of 1]
  have "1 < length (er_inflight sample_start)" by code_simp
  note r1 = serve_run [OF r0 [OF this], of 0]
  have "0 < length (er_inflight (serve byte_ids two_part 1 sample_start))" by code_simp
  note r2 = serve_run [OF r1 [OF this], of 1]
  have "1 < length (er_inflight (serve byte_ids two_part 0 (serve byte_ids two_part 1 sample_start)))" by code_simp
  note r3 = serve_run [OF r2 [OF this], of 0]
  have "0 < length (er_inflight (serve byte_ids two_part 1 (serve byte_ids two_part 0 (serve byte_ids two_part 1 sample_start))))"
    by code_simp
  from r3 [OF this] show ?thesis by (simp add: sample_end_def eval_nat_numeral)
qed

lemma sample_outcome: "encode_outcome 3 sample_end = Some (Inr ([1, 2, 3, 4, 5], sample_telemetry))"
  by code_simp

lemma sample_idle: "er_inflight sample_end = []"
  by code_simp

theorem worker_pool_exact_witness:
  "\<exists>idss. encode_each byte_ids [[1], [2, 3, 4], [5]] = Inr idss \<and> [1, 2, 3, 4, 5] = concat idss \<and>
     wt_tasks sample_telemetry = wt_initialChunks sample_telemetry + wt_enlargements sample_telemetry"
  by (rule worker_pool_exact [OF two_part_laws byte_ids_short _ sample_run [unfolded sample_start_def] sample_outcome]) simp

theorem worker_pool_settles_witness:
  "4 + run_weight two_part_weight sample_end \<le> run_weight two_part_weight sample_start \<and> encode_outcome 3 sample_end \<noteq> None"
  using worker_pool_settles [OF two_part_laws byte_ids_short _ sample_run [unfolded sample_start_def], of 3] sample_idle
  by (simp add: sample_start_def)

end
