(* ===== verification/Tier_Select.thy ===== *)
theory Tier_Select
  imports Optimization_Config
begin

text \<open>
  What \<^verbatim>\<open>createTierRuntime\<close> of \<^verbatim>\<open>tier-runtime.mjs\<close> decides before it has a session: the execution
  tier, the checks of its options, the tokenizer that is constructed, and the flags of its
  decoder.
\<close>

subsection \<open>Execution tiers\<close>

text \<open>What \<^verbatim>\<open>browserCapabilities\<close> reads of the global scope.\<close>

record global_scope =
  gs_crossOriginIsolated :: jsval
  gs_SharedArrayBuffer :: bool
  gs_Worker :: bool

record capabilities =
  cap_isolated :: bool
  cap_sharedArrayBuffer :: bool
  cap_worker :: bool

definition browserCapabilities :: "global_scope \<Rightarrow> capabilities" where
  "browserCapabilities scope =
     \<lparr>cap_isolated = (gs_crossOriginIsolated scope = JBool True),
      cap_sharedArrayBuffer = gs_SharedArrayBuffer scope, cap_worker = gs_Worker scope\<rparr>"

datatype tier = TierSingle | TierWorker | TierShared

definition shared_available :: "capabilities \<Rightarrow> bool \<Rightarrow> bool" where
  "shared_available caps hasThreadedArtifact \<longleftrightarrow>
     cap_isolated caps \<and> cap_sharedArrayBuffer caps \<and> cap_worker caps \<and> hasThreadedArtifact"

definition worker_available :: "capabilities \<Rightarrow> bool" where
  "worker_available caps \<longleftrightarrow> \<not> cap_isolated caps \<and> cap_worker caps"

text \<open>
  The requested tier is \<^verbatim>\<open>undefined\<close> or \<^verbatim>\<open>null\<close>, which is \<open>None\<close>, or a string; what is neither ends
  in the last branch too, with its own text in the message.
\<close>

definition selectTier :: "string option \<Rightarrow> capabilities \<Rightarrow> bool \<Rightarrow> js_error + tier" where
  "selectTier requested caps hasThreadedArtifact =
     (let name = (case requested of None \<Rightarrow> ''auto'' | Some s \<Rightarrow> s);
          shared = shared_available caps hasThreadedArtifact;
          worker = worker_available caps in
      if name = ''auto'' then
        (if shared then Inr TierShared else if worker then Inr TierWorker else Inr TierSingle)
      else if name = ''shared'' then
        (if \<not> shared then Inl (PlainError ''shared tier is unavailable in this environment'') else Inr TierShared)
      else if name = ''worker'' then
        (if \<not> worker then Inl (PlainError ''worker tier is unavailable in this environment'') else Inr TierWorker)
      else if name = ''single'' then Inr TierSingle
      else Inl (TypeError (''unknown execution tier '' @ name)))"

subsection \<open>The options of a runtime\<close>

datatype observer = NoObserver | ObserverFunction | ObserverOther

text \<open>
  The options as they are checked; a \<^verbatim>\<open>vocabulary\<close> that is not a \<^verbatim>\<open>Uint8Array\<close> is \<open>None\<close>. The
  defaults of \<^verbatim>\<open>format\<close>, \<^verbatim>\<open>workerCount\<close> and \<^verbatim>\<open>capabilities\<close> have been filled in.
\<close>

record runtime_options =
  cr_vocabulary :: "bytes option"
  cr_scheme :: string
  cr_format :: string
  cr_workerCount :: jsval
  cr_resolverTrusted :: bool
  cr_resolverWarmup :: bool
  cr_observer :: observer
  cr_capabilities :: capabilities
  cr_optimizations :: configuration
  cr_tier :: "string option"
  cr_threaded :: bool

definition default_workerCount :: "nat option \<Rightarrow> nat" where
  "default_workerCount hardwareConcurrency =
     max 1 (min 4 (case hardwareConcurrency of None \<Rightarrow> 1 | Some n \<Rightarrow> n))"

definition positive_integer :: "jsval \<Rightarrow> bool" where
  "positive_integer v \<longleftrightarrow> number_isInteger v \<and> (case v of JNum q \<Rightarrow> 1 \<le> q | _ \<Rightarrow> False)"

text \<open>The checks before anything is loaded, and what they settle.\<close>

definition check_options :: "bool \<Rightarrow> runtime_options \<Rightarrow> js_error + optimization_config \<times> tier" where
  "check_options nodeRuntime os =
     try_bind (try_if (cr_observer os = ObserverOther) (TypeError ''constructionObserver must be a function'')) (\<lambda>_.
     try_bind (try_if (cr_vocabulary os = None) (TypeError ''vocabulary must be a Uint8Array'')) (\<lambda>_.
     try_bind (try_if (\<not> positive_integer (cr_workerCount os)) (TypeError ''workerCount must be a positive integer'')) (\<lambda>_.
     try_bind (try_if (cr_resolverWarmup os \<and> \<not> cr_resolverTrusted os)
       (TypeError ''resolver warmup requires resolver provenance'')) (\<lambda>_.
     try_bind (resolveOptimizationConfig nodeRuntime (cr_optimizations os)) (\<lambda>cfg.
     try_bind (selectTier (cr_tier os) (cr_capabilities os) (cr_threaded os)) (\<lambda>initial.
     try_bind (try_if (cr_format os \<notin> {''tiktoken'', ''huggingface'', ''htk''})
       (TypeError (''unknown vocabulary format '' @ cr_format os))) (\<lambda>_.
     Inr (cfg, initial))))))))"

subsection \<open>The resident tokenizer\<close>

text \<open>The module of the unthreaded artifact; a constructor it may lack is an option.\<close>

record 'k tokenizer_module =
  wk_default :: "js_error + unit"
  wk_fromResolverTrustedWarmHtk :: "(bytes \<Rightarrow> js_error + 'k) option"
  wk_fromResolverTrustedHtk :: "(bytes \<Rightarrow> js_error + 'k) option"
  wk_fromHtk :: "bytes \<Rightarrow> js_error + 'k"
  wk_fromHuggingFace :: "bytes \<Rightarrow> js_error + 'k"
  wk_fromTiktoken :: "bytes \<Rightarrow> string \<Rightarrow> js_error + 'k"

definition construct_tokenizer ::
  "'k tokenizer_module \<Rightarrow> bytes \<Rightarrow> string \<Rightarrow> string \<Rightarrow> bool \<Rightarrow> bool \<Rightarrow> js_error + 'k" where
  "construct_tokenizer m vocabulary scheme format resolverTrusted resolverWarmup =
     (if format = ''htk'' then
        (if resolverTrusted then
           (if resolverWarmup then
              (case wk_fromResolverTrustedWarmHtk m of
                 None \<Rightarrow> Inl (PlainError ''the wasm module has no resolver warmup constructor'')
               | Some f \<Rightarrow> f vocabulary)
            else
              (case wk_fromResolverTrustedHtk m of
                 None \<Rightarrow> Inl (PlainError ''the wasm module has no resolver-provenance constructor'')
               | Some f \<Rightarrow> f vocabulary))
         else wk_fromHtk m vocabulary)
      else if format = ''huggingface'' then wk_fromHuggingFace m vocabulary
      else wk_fromTiktoken m vocabulary scheme)"

text \<open>
  \<^verbatim>\<open>loadSingle\<close>: the module, bundled or imported from its URL, is initialized, and the tokenizer
  registered for the string builtins. \<open>key\<close> is the identity of the tokenizer object and \<open>wasm\<close>
  what the module's initialization gave.
\<close>

definition loadSingle ::
  "('k \<Rightarrow> nat) \<Rightarrow> 'w wasm_value \<Rightarrow> js_error + 'k tokenizer_module \<Rightarrow> bytes \<Rightarrow> string \<Rightarrow> string \<Rightarrow> bool \<Rightarrow> bool \<Rightarrow>
     ('w contexts, 'k) js" where
  "loadSingle key wasm imported vocabulary scheme format resolverTrusted resolverWarmup =
     js_bind (js_lift imported) (\<lambda>m.
     js_bind (js_lift (wk_default m)) (\<lambda>_.
     js_bind (js_lift (construct_tokenizer m vocabulary scheme format resolverTrusted resolverWarmup)) (\<lambda>tokenizer.
     js_bind (registerStringBuiltinsContext (Some (key tokenizer)) wasm) (\<lambda>_.
     js_ret tokenizer))))"

text \<open>The flags of the decoder: an artifact without the assembly endpoint decodes raw, memo apart.\<close>

definition decodeConfiguration :: "composed_flags \<Rightarrow> core \<Rightarrow> composed_flags" where
  "decodeConfiguration u c =
     (if use_assembly u \<and> c_assemblyBytes c = None
      then \<lparr>use_assembly = False, use_borrowedOutput = False, use_utf16Output = False, use_table = False,
            use_byteTable = False, use_mixedRuns = False, use_runCache = False, use_nativeLatin1 = False,
            use_portableLatin1 = False, use_fusedValidation = False, use_leanDispatch = False,
            use_cleanUnroll = False, use_directScratch = False, use_memo = use_memo u,
            use_dirtyRunBatch = False, use_runStitcher = False, use_stringBuiltins = False, use_hotStrings = False\<rparr>
      else u)"

subsection \<open>Properties\<close>

definition tier_available :: "capabilities \<Rightarrow> bool \<Rightarrow> tier \<Rightarrow> bool" where
  "tier_available caps hasThreadedArtifact t =
     (case t of TierSingle \<Rightarrow> True | TierWorker \<Rightarrow> worker_available caps | TierShared \<Rightarrow> shared_available caps hasThreadedArtifact)"

definition tier_name :: "tier \<Rightarrow> string" where
  "tier_name t = (case t of TierSingle \<Rightarrow> ''single'' | TierWorker \<Rightarrow> ''worker'' | TierShared \<Rightarrow> ''shared'')"

text \<open>
  A tier is selected exactly when the environment has it and it is the one asked for, or
  nothing or \<^verbatim>\<open>"auto"\<close> is asked and no faster tier is available; every other request throws.
\<close>

theorem selected_tier:
  "(selectTier requested caps thr = Inr t) =
     (tier_available caps thr t \<and>
      (requested = Some (tier_name t) \<or>
       requested \<in> {None, Some ''auto''} \<and>
         t = (if shared_available caps thr then TierShared else if worker_available caps then TierWorker else TierSingle)))"
  by (cases requested; cases t) (auto simp: selectTier_def tier_available_def tier_name_def Let_def)

text \<open>What remains of the flags for an artifact without the assembly endpoint.\<close>

lemma raw_flags_accepted:
  assumes "use_assembly u" and "c_assemblyBytes c = None"
  shows "check_flags (decodeConfiguration u c) = Inr ()"
  using assms by (simp add: decodeConfiguration_def check_flags_def try_if_def)

lemma raw_decoder_created:
  assumes "use_assembly u" and "c_assemblyBytes c = None"
  shows "\<exists>s. createComposedDecoder en c (Options (composed_options_of (decodeConfiguration u c))) = Inr (decodeConfiguration u c, s)"
proof -
  let ?u = "decodeConfiguration u c" and ?co = "composed_options_of (decodeConfiguration u c)"
  have off: "\<not> use_assembly ?u" "\<not> use_table ?u" "\<not> use_hotStrings ?u" using assms by (simp_all add: decodeConfiguration_def)
  then have b: "create_base en c ?u = Inr (RawBase 0)" by (simp add: create_base_def)
  obtain m where m: "createDecodeMemo (co_memoOptions ?co) = Inr m"
    by (simp add: composed_options_of_def createDecodeMemo_def memo_positiveInteger_def try_if_def)
  show ?thesis
    by (simp add: createComposedDecoder_def Let_def raw_flags_accepted [OF assms] b m off when_on_value when_on_off)
qed

text \<open>
  The decoder of a runtime is exact whatever the artifact: with the configuration resolved for
  it, over a tokenizer that exports every endpoint the flags use, or one that lacks the assembly
  endpoint, the decoder is made and every sequence of calls returns the reference texts.
\<close>

theorem runtime_decode_exact:
  assumes "resolveOptimizationConfig nodeRuntime v = Inr r"
    and "\<not> (use_borrowedOutput (oc_decode r) \<and> use_utf16Output (oc_decode r))"
    and "core_laws c" and "core_complete c \<or> use_assembly (oc_decode r) \<and> c_assemblyBytes c = None"
    and "use_byteTable (oc_decode r) \<Longrightarrow> arena_fits c"
    and "use_stringBuiltins (oc_decode r) \<Longrightarrow>
      \<exists>ex. en_contexts en (en_key en) = Some ex \<and> exports_decode c (en_ptr en) ex"
  shows "\<exists>s. createComposedDecoder en c (Options (composed_options_of (decodeConfiguration (oc_decode r) c))) =
      Inr (decodeConfiguration (oc_decode r) c, s) \<and>
    (\<forall>args. map okv (fst (decode_all (composed_decode c) args s)) = map (\<lambda>a. ref_decode c (ob_input a)) args)"
proof (cases "use_assembly (oc_decode r) \<and> c_assemblyBytes c = None")
  case True
  let ?u = "decodeConfiguration (oc_decode r) c"
  obtain s where s: "createComposedDecoder en c (Options (composed_options_of ?u)) = Inr (?u, s)"
    using raw_decoder_created True by blast
  have "\<not> use_table ?u" "\<not> use_assembly ?u" "\<not> use_hotStrings ?u"
    using True by (simp_all add: decodeConfiguration_def)
  then have around: "composed_surroundings en c (composed_options_of ?u)"
    using assms(3) by (simp add: composed_surroundings_def)
  show ?thesis using s composed.decode_all_exact [OF createComposedDecoder_inv [OF around s]] by blast
next
  case False
  then have "core_complete c" "decodeConfiguration (oc_decode r) c = oc_decode r"
    using assms(4) by (auto simp: decodeConfiguration_def)
  then show ?thesis using configured_decode_exact [OF assms(1-3) _ assms(5,6)] by simp
qed

text \<open>An artifact without the assembly endpoint, with the default configuration.\<close>

theorem runtime_decode_exact_witness:
  "\<exists>r s. resolveOptimizationConfig True CfgUndefined = Inr r \<and>
     createComposedDecoder example_engine (table_core example_tokens\<lparr>c_assemblyBytes := None\<rparr>)
       (Options (composed_options_of (decodeConfiguration (oc_decode r) (table_core example_tokens\<lparr>c_assemblyBytes := None\<rparr>)))) =
       Inr (decodeConfiguration (oc_decode r) (table_core example_tokens\<lparr>c_assemblyBytes := None\<rparr>), s) \<and>
     map okv (fst (decode_all (composed_decode (table_core example_tokens\<lparr>c_assemblyBytes := None\<rparr>)) memo_session s)) =
       map (\<lambda>a. ref_decode (table_core example_tokens\<lparr>c_assemblyBytes := None\<rparr>) (ob_input a)) memo_session"
proof -
  obtain r where r: "resolveOptimizationConfig True CfgUndefined = Inr r" "use_assembly (oc_decode r)"
    "\<not> use_utf16Output (oc_decode r)" "\<not> use_byteTable (oc_decode r)" "\<not> use_stringBuiltins (oc_decode r)"
    by (simp add: resolveOptimizationConfig_def configurationObject_def runtimeDefinitions_def state_of_def
      check_states_def try_if_def is_on_def decode_flags_def admitted_def admitted_keys Let_def)
  have laws: "core_laws (table_core example_tokens\<lparr>c_assemblyBytes := None\<rparr>)"
    using table_core_laws [of example_tokens] by (simp add: core_laws_def ref_text_def ref_bytes_def)
  show ?thesis
    using runtime_decode_exact [OF r(1) _ laws, of example_engine] r by (simp, blast)
qed

end
