(* ===== verification/Tier_Session.thy ===== *)
theory Tier_Session
  imports Tier_Select Worker_Pool
begin

text \<open>
  The life of a session of \<^verbatim>\<open>createTierRuntime\<close>: the worker image, the activation of tiers with
  its awaited initializations, and \<^verbatim>\<open>close\<close>. Calls of \<^verbatim>\<open>ensureTier\<close> overlap; each runs up to its
  \<^verbatim>\<open>await\<close> in one step, and when an initialization settles, the calls that await it go on one
  after the other, in the order they came, as the reactions of one promise do.
\<close>

subsection \<open>Initializations\<close>

text \<open>What a worker answered to \<^verbatim>\<open>initialize\<close>, with the \<^verbatim>\<open>detached\<close> flag the caller adds.\<close>

record init_entry =
  ie_imported :: bool
  ie_sourceDigest :: bytes
  ie_detached :: bool

text \<open>\<^verbatim>\<open>equalBytes\<close>.\<close>

definition equalBytes :: "bytes \<Rightarrow> bytes \<Rightarrow> bool" where
  "equalBytes left right \<longleftrightarrow> length left = length right \<and> list_all (\<lambda>i. left ! i = right ! i) [0..<length left]"

text \<open>
  What the pool workers are sent: a copy of the worker image, or of the vocabulary, each with its
  own id.
\<close>

definition init_requests ::
  "nat \<Rightarrow> string \<Rightarrow> bytes \<Rightarrow> string \<Rightarrow> string \<Rightarrow> bytes \<Rightarrow> bytes \<Rightarrow> init_request list" where
  "init_requests workers moduleUrl vocabulary scheme format workerImage sourceDigest =
     map (\<lambda>workerId.
       \<lparr>iq_moduleUrl = moduleUrl, iq_vocabulary = (if format = ''htk'' then [] else vocabulary), iq_scheme = scheme,
        iq_format = format, iq_workerImage = (if format = ''htk'' then workerImage else []),
        iq_sourceDigest = (if format = ''htk'' then sourceDigest else []), iq_workerId = workerId\<rparr>) [0..<workers]"

text \<open>
  \<^verbatim>\<open>initializeWorkerPool\<close> once its workers have answered, or the first has failed; on an error it
  closes all of them.
\<close>

definition initializeWorkerPool :: "string \<Rightarrow> bytes \<Rightarrow> js_error + init_entry list \<Rightarrow> js_error + init_entry list" where
  "initializeWorkerPool format sourceDigest replies =
     try_bind replies (\<lambda>initialized.
     if format = ''htk'' \<and> list_ex (\<lambda>entry. \<not> ie_imported entry \<or> \<not> equalBytes (ie_sourceDigest entry) sourceDigest) initialized
     then Inl (PlainError ''worker model identity does not match the resident vocabulary'')
     else Inr initialized)"

definition shared_identity :: "string \<Rightarrow> bytes \<Rightarrow> init_entry \<Rightarrow> js_error + unit" where
  "shared_identity format sourceDigest initialized =
     try_if (format = ''htk'' \<and> (\<not> ie_imported initialized \<or> \<not> equalBytes (ie_sourceDigest initialized) sourceDigest))
       (PlainError ''shared model identity does not match the resident vocabulary'')"

subsection \<open>The state of a session\<close>

record lifecycle =
  lc_workerImageExports :: nat
  lc_workerPoolInitializations :: nat
  lc_workerImports :: nat
  lc_workerSourceRebuilds :: nat
  lc_sharedInitializations :: nat
  lc_sharedImports :: nat
  lc_sharedSourceRebuilds :: nat
  lc_detachedTransfers :: nat
  lc_targetReuses :: nat

definition new_lifecycle :: lifecycle where
  "new_lifecycle = \<lparr>lc_workerImageExports = 0, lc_workerPoolInitializations = 0, lc_workerImports = 0,
     lc_workerSourceRebuilds = 0, lc_sharedInitializations = 0, lc_sharedImports = 0, lc_sharedSourceRebuilds = 0,
     lc_detachedTransfers = 0, lc_targetReuses = 0\<rparr>"

text \<open>
  A call of \<^verbatim>\<open>ensureTier\<close> that awaits: a pool, the controller it found initializing, or the one it
  started itself.
\<close>

datatype awaiting = AwaitPool | AwaitReused | AwaitShared

text \<open>
  The variables of the closure. Pools and controllers are numbered in the order they are started;
  \<open>ts_poolInit\<close> and \<open>ts_sharedInit\<close> are \<^verbatim>\<open>workerInitialization\<close> and \<^verbatim>\<open>sharedInitialization\<close>, with the
  calls that await them while they are pending. Ghosts: \<open>ts_running\<close>, the pools and controllers
  whose workers run; \<open>ts_settled\<close>, the settled calls, the newest first.
\<close>

record session =
  ts_closed :: bool
  ts_freed :: bool
  ts_image :: "bytes option"
  ts_imageError :: "js_error option"
  ts_pool :: "nat option"
  ts_poolInit :: "nat option"
  ts_poolWaiting :: "nat list"
  ts_shared :: "nat option"
  ts_sharedInit :: "nat option"
  ts_sharedWaiting :: "(nat \<times> awaiting) list"
  ts_lifecycle :: lifecycle
  ts_started :: nat
  ts_running :: "nat set"
  ts_settled :: "(nat \<times> (js_error + tier)) list"

text \<open>What stays the same: the options, the digest of the vocabulary, and what an export gives.\<close>

record session_env =
  se_format :: string
  se_capabilities :: capabilities
  se_threaded :: bool
  se_digest :: "js_error + bytes"
  se_export :: "js_error + bytes"

text \<open>The session before anything is activated; an error of the digest is kept for later.\<close>

definition new_session :: "session_env \<Rightarrow> session" where
  "new_session en =
     \<lparr>ts_closed = False, ts_freed = False, ts_image = None,
      ts_imageError = (if se_format en = ''htk'' then (case se_digest en of Inl e \<Rightarrow> Some e | Inr _ \<Rightarrow> None) else None),
      ts_pool = None, ts_poolInit = None, ts_poolWaiting = [], ts_shared = None, ts_sharedInit = None,
      ts_sharedWaiting = [], ts_lifecycle = new_lifecycle, ts_started = 0, ts_running = {}, ts_settled = []\<rparr>"

definition session_digest :: "session_env \<Rightarrow> bytes" where
  "session_digest en = (case se_digest en of Inl _ \<Rightarrow> [] | Inr d \<Rightarrow> d)"

subsection \<open>The worker image\<close>

definition ensureWorkerImage :: "session_env \<Rightarrow> (session, unit) js" where
  "ensureWorkerImage en = (\<lambda>s.
     if se_format en \<noteq> ''htk'' \<or> ts_image s \<noteq> None then (Inr (), s)
     else (case ts_imageError s of
             Some e \<Rightarrow> (Inl e, s)
           | None \<Rightarrow>
               (case se_export en of
                  Inr img \<Rightarrow>
                    (Inr (), s\<lparr>ts_image := Some img,
                       ts_lifecycle := (ts_lifecycle s)\<lparr>lc_workerImageExports := lc_workerImageExports (ts_lifecycle s) + 1\<rparr>\<rparr>)
                | Inl e \<Rightarrow> (Inl e, s\<lparr>ts_imageError := Some e\<rparr>))))"

subsection \<open>Activating a tier\<close>

definition settle_call :: "nat \<Rightarrow> js_error + tier \<Rightarrow> session \<Rightarrow> session" where
  "settle_call cid r s = s\<lparr>ts_settled := (cid, r) # ts_settled s\<rparr>"

definition count_reuse :: "session \<Rightarrow> session" where
  "count_reuse s = s\<lparr>ts_lifecycle := (ts_lifecycle s)\<lparr>lc_targetReuses := lc_targetReuses (ts_lifecycle s) + 1\<rparr>\<rparr>"

text \<open>\<^verbatim>\<open>workerInitialization\<close> is started when there is none.\<close>

definition start_pool :: "session \<Rightarrow> session" where
  "start_pool s =
     (case ts_poolInit s of
        Some _ \<Rightarrow> s
      | None \<Rightarrow> s\<lparr>ts_poolInit := Some (ts_started s), ts_running := insert (ts_started s) (ts_running s),
                  ts_started := Suc (ts_started s)\<rparr>)"

definition start_shared :: "session \<Rightarrow> session" where
  "start_shared s =
     (case ts_sharedInit s of
        Some _ \<Rightarrow> s
      | None \<Rightarrow> s\<lparr>ts_shared := Some (ts_started s), ts_sharedInit := Some (ts_started s),
                  ts_running := insert (ts_started s) (ts_running s), ts_started := Suc (ts_started s)\<rparr>)"

text \<open>
  \<^verbatim>\<open>ensureTier\<close> up to its first \<^verbatim>\<open>await\<close>. While a controller is being initialized the call that
  started it waits; when none waits, the promise is fulfilled and a call that awaits it goes on at
  once.
\<close>

definition ensure_worker :: "nat \<Rightarrow> session \<Rightarrow> session" where
  "ensure_worker cid s =
     (if ts_pool s \<noteq> None then settle_call cid (Inr TierWorker) (count_reuse s)
      else (start_pool s)\<lparr>ts_poolWaiting := ts_poolWaiting s @ [cid]\<rparr>)"

definition ensure_shared :: "nat \<Rightarrow> session \<Rightarrow> session" where
  "ensure_shared cid s =
     (if ts_shared s \<noteq> None \<and> ts_sharedInit s \<noteq> None
      then if ts_sharedWaiting s = [] then settle_call cid (Inr TierShared) (count_reuse s)
           else s\<lparr>ts_sharedWaiting := ts_sharedWaiting s @ [(cid, AwaitReused)]\<rparr>
      else (start_shared s)\<lparr>ts_sharedWaiting := ts_sharedWaiting s @ [(cid, AwaitShared)]\<rparr>)"

definition begin_ensure :: "session_env \<Rightarrow> nat \<Rightarrow> string option \<Rightarrow> session \<Rightarrow> session" where
  "begin_ensure en cid requested s =
     (if ts_closed s then settle_call cid (Inl (PlainError ''execution-tier session is closed'')) s
      else case selectTier requested (se_capabilities en) (se_threaded en) of
        Inl e \<Rightarrow> settle_call cid (Inl e) s
      | Inr TierSingle \<Rightarrow> settle_call cid (Inr TierSingle) (count_reuse s)
      | Inr t \<Rightarrow>
          (case ensureWorkerImage en s of
             (Inl e, s1) \<Rightarrow> settle_call cid (Inl e) s1
           | (Inr _, s1) \<Rightarrow>
               (case ts_imageError s1 of
                  Some e \<Rightarrow> settle_call cid (Inl e) s1
                | None \<Rightarrow> if t = TierWorker then ensure_worker cid s1 else ensure_shared cid s1)))"

subsection \<open>When an initialization settles\<close>

definition count_entries :: "(init_entry \<Rightarrow> bool) \<Rightarrow> init_entry list \<Rightarrow> nat" where
  "count_entries P entries = length (filter P entries)"

definition pool_fulfilled :: "nat \<Rightarrow> init_entry list \<Rightarrow> nat \<Rightarrow> session \<Rightarrow> session" where
  "pool_fulfilled p entries cid s =
     settle_call cid (Inr TierWorker)
       (s\<lparr>ts_pool := Some p,
          ts_lifecycle := (ts_lifecycle s)
            \<lparr>lc_workerPoolInitializations := lc_workerPoolInitializations (ts_lifecycle s) + 1,
             lc_workerImports := lc_workerImports (ts_lifecycle s) + count_entries ie_imported entries,
             lc_workerSourceRebuilds := lc_workerSourceRebuilds (ts_lifecycle s) + count_entries (\<lambda>entry. \<not> ie_imported entry) entries,
             lc_detachedTransfers := lc_detachedTransfers (ts_lifecycle s) + count_entries ie_detached entries\<rparr>\<rparr>)"

definition pool_rejected :: "js_error \<Rightarrow> nat \<Rightarrow> session \<Rightarrow> session" where
  "pool_rejected e cid s = settle_call cid (Inl e) (s\<lparr>ts_poolInit := None\<rparr>)"

definition settle_pool :: "session_env \<Rightarrow> js_error + init_entry list \<Rightarrow> session \<Rightarrow> session" where
  "settle_pool en replies s =
     (let p = the (ts_poolInit s); s1 = s\<lparr>ts_poolWaiting := []\<rparr> in
      case initializeWorkerPool (se_format en) (session_digest en) replies of
        Inr entries \<Rightarrow> foldl (\<lambda>s cid. pool_fulfilled p entries cid s) s1 (ts_poolWaiting s)
      | Inl e \<Rightarrow> foldl (\<lambda>s cid. pool_rejected e cid s) (s1\<lparr>ts_running := ts_running s - {p}\<rparr>) (ts_poolWaiting s))"

text \<open>The caller that started the controller checks its identity; on an error it closes it.\<close>

definition close_shared :: "session \<Rightarrow> session" where
  "close_shared s =
     (case ts_shared s of
        None \<Rightarrow> s
      | Some p \<Rightarrow> s\<lparr>ts_running := ts_running s - {p}\<rparr>)"

definition shared_failed :: "js_error \<Rightarrow> nat \<Rightarrow> session \<Rightarrow> session" where
  "shared_failed e cid s =
     settle_call cid (Inl e) ((close_shared s)\<lparr>ts_sharedInit := None, ts_shared := None\<rparr>)"

definition shared_reaction :: "session_env \<Rightarrow> js_error + init_entry \<Rightarrow> nat \<times> awaiting \<Rightarrow> session \<Rightarrow> session" where
  "shared_reaction en reply waiting s =
     (case waiting of (cid, kind) \<Rightarrow>
       if kind = AwaitShared then
         (case try_bind reply (\<lambda>initialized. try_bind (shared_identity (se_format en) (session_digest en) initialized) (\<lambda>_. Inr initialized)) of
            Inl e \<Rightarrow> shared_failed e cid s
          | Inr initialized \<Rightarrow>
              settle_call cid (Inr TierShared)
                (s\<lparr>ts_lifecycle := (ts_lifecycle s)
                   \<lparr>lc_sharedInitializations := lc_sharedInitializations (ts_lifecycle s) + 1,
                    lc_sharedImports := lc_sharedImports (ts_lifecycle s) + (if ie_imported initialized then 1 else 0),
                    lc_sharedSourceRebuilds := lc_sharedSourceRebuilds (ts_lifecycle s) + (if ie_imported initialized then 0 else 1),
                    lc_detachedTransfers := lc_detachedTransfers (ts_lifecycle s) + (if ie_detached initialized then 1 else 0)\<rparr>\<rparr>))
       else (case reply of
               Inl e \<Rightarrow> settle_call cid (Inl e) s
             | Inr _ \<Rightarrow> settle_call cid (Inr TierShared) (count_reuse s)))"

definition settle_shared :: "session_env \<Rightarrow> js_error + init_entry \<Rightarrow> session \<Rightarrow> session" where
  "settle_shared en reply s =
     foldl (\<lambda>s waiting. shared_reaction en reply waiting s) (s\<lparr>ts_sharedWaiting := []\<rparr>) (ts_sharedWaiting s)"

subsection \<open>Closing\<close>

text \<open>\<^verbatim>\<open>close\<close> up to its first \<^verbatim>\<open>await\<close>, and the rest.\<close>

definition begin_close :: "session \<Rightarrow> session" where
  "begin_close s =
     (if ts_closed s then s
      else s\<lparr>ts_closed := True,
             ts_running := (case ts_pool s of None \<Rightarrow> ts_running s | Some p \<Rightarrow> ts_running s - {p})\<rparr>)"

definition end_close :: "session \<Rightarrow> session" where
  "end_close s = (close_shared s)\<lparr>ts_freed := True\<rparr>"

subsection \<open>Sessions\<close>

text \<open>
  A step: a call of \<^verbatim>\<open>switchTier\<close> (or the initial activation), an initialization that settles with
  whatever its workers answered, and the two halves of \<^verbatim>\<open>close\<close>.
\<close>

inductive session_step :: "session_env \<Rightarrow> session \<Rightarrow> session \<Rightarrow> bool" for en :: session_env where
  ensure: "cid \<notin> fst ` set (ts_settled s) \<Longrightarrow> cid \<notin> set (ts_poolWaiting s) \<Longrightarrow> cid \<notin> fst ` set (ts_sharedWaiting s) \<Longrightarrow>
    session_step en s (begin_ensure en cid requested s)"
| pool: "ts_poolWaiting s \<noteq> [] \<Longrightarrow> session_step en s (settle_pool en replies s)"
| shared: "ts_sharedWaiting s \<noteq> [] \<Longrightarrow> session_step en s (settle_shared en reply s)"
| close1: "session_step en s (begin_close s)"
| close2: "ts_closed s \<Longrightarrow> session_step en s (end_close s)"

inductive session_reaches :: "session_env \<Rightarrow> session \<Rightarrow> bool" for en :: session_env where
  start: "session_reaches en (new_session en)"
| step: "session_reaches en s \<Longrightarrow> session_step en s s' \<Longrightarrow> session_reaches en s'"

subsection \<open>The invariant\<close>

text \<open>The ids of calls that are settled or wait.\<close>

definition call_ids :: "session \<Rightarrow> nat list" where
  "call_ids s = map fst (ts_settled s) @ ts_poolWaiting s @ map fst (ts_sharedWaiting s)"

definition pool_ok :: "session \<Rightarrow> bool" where
  "pool_ok s \<longleftrightarrow>
     (case ts_poolInit s of
        None \<Rightarrow> ts_pool s = None \<and> ts_poolWaiting s = []
      | Some p \<Rightarrow> p < ts_started s \<and> (ts_pool s = Some p \<and> ts_poolWaiting s = [] \<or>
                                     ts_pool s = None \<and> ts_poolWaiting s \<noteq> [] \<and> p \<in> ts_running s))"

definition shared_ok :: "session \<Rightarrow> bool" where
  "shared_ok s \<longleftrightarrow> ts_shared s = ts_sharedInit s \<and>
     (case ts_sharedInit s of
        None \<Rightarrow> ts_sharedWaiting s = []
      | Some p \<Rightarrow> p < ts_started s \<and> ts_poolInit s \<noteq> Some p) \<and>
     (ts_sharedWaiting s = [] \<or>
      (\<exists>cid rest. ts_sharedWaiting s = (cid, AwaitShared) # rest \<and> (\<forall>w \<in> set rest. snd w = AwaitReused)))"

definition running_ok :: "session \<Rightarrow> bool" where
  "running_ok s \<longleftrightarrow> ts_running s \<subseteq> set_option (ts_poolInit s) \<union> set_option (ts_shared s) \<and>
     (\<not> ts_closed s \<longrightarrow> ts_running s = set_option (ts_poolInit s) \<union> set_option (ts_shared s)) \<and>
     (ts_freed s \<longrightarrow> ts_closed s \<and> ts_running s \<subseteq> set_option (ts_poolInit s))"

definition image_ok :: "session_env \<Rightarrow> session \<Rightarrow> bool" where
  "image_ok en s \<longleftrightarrow>
     lc_workerImageExports (ts_lifecycle s) = (if ts_image s = None then 0 else 1) \<and>
     (se_format en = ''htk'' \<and> 0 < ts_started s \<longrightarrow> ts_image s \<noteq> None)"

definition settled_ok :: "session \<Rightarrow> bool" where
  "settled_ok s \<longleftrightarrow> distinct (call_ids s) \<and> (Inr TierWorker \<in> snd ` set (ts_settled s) \<longrightarrow> ts_pool s \<noteq> None)"

definition session_ok :: "session_env \<Rightarrow> session \<Rightarrow> bool" where
  "session_ok en s \<longleftrightarrow> pool_ok s \<and> shared_ok s \<and> running_ok s \<and> image_ok en s \<and> settled_ok s"

lemmas session_ok_defs = pool_ok_def shared_ok_def running_ok_def image_ok_def settled_ok_def call_ids_def

lemma session_ok_new: "session_ok en (new_session en)"
  by (simp add: session_ok_def session_ok_defs new_session_def new_lifecycle_def)

text \<open>Settling a call at once keeps it, for a call not seen before.\<close>

lemma settle_call_fields [simp]:
  "ts_poolInit (settle_call cid r s) = ts_poolInit s" "ts_pool (settle_call cid r s) = ts_pool s"
  "ts_poolWaiting (settle_call cid r s) = ts_poolWaiting s" "ts_shared (settle_call cid r s) = ts_shared s"
  "ts_sharedInit (settle_call cid r s) = ts_sharedInit s" "ts_sharedWaiting (settle_call cid r s) = ts_sharedWaiting s"
  "ts_running (settle_call cid r s) = ts_running s" "ts_started (settle_call cid r s) = ts_started s"
  "ts_closed (settle_call cid r s) = ts_closed s" "ts_freed (settle_call cid r s) = ts_freed s"
  "ts_image (settle_call cid r s) = ts_image s" "ts_lifecycle (settle_call cid r s) = ts_lifecycle s"
  "ts_settled (settle_call cid r s) = (cid, r) # ts_settled s"
  by (simp_all add: settle_call_def)

lemma count_reuse_fields [simp]:
  "ts_poolInit (count_reuse s) = ts_poolInit s" "ts_pool (count_reuse s) = ts_pool s"
  "ts_poolWaiting (count_reuse s) = ts_poolWaiting s" "ts_shared (count_reuse s) = ts_shared s"
  "ts_sharedInit (count_reuse s) = ts_sharedInit s" "ts_sharedWaiting (count_reuse s) = ts_sharedWaiting s"
  "ts_running (count_reuse s) = ts_running s" "ts_started (count_reuse s) = ts_started s"
  "ts_closed (count_reuse s) = ts_closed s" "ts_freed (count_reuse s) = ts_freed s"
  "ts_image (count_reuse s) = ts_image s" "ts_settled (count_reuse s) = ts_settled s"
  "lc_workerImageExports (ts_lifecycle (count_reuse s)) = lc_workerImageExports (ts_lifecycle s)"
  by (simp_all add: count_reuse_def)

lemma settle_call_ok:
  assumes "session_ok en s" and "cid \<notin> set (call_ids s)" and "r \<noteq> Inr TierWorker \<or> ts_pool s \<noteq> None"
  shows "session_ok en (settle_call cid r s)"
proof -
  have "settled_ok (settle_call cid r s)" using assms by (auto simp: session_ok_def settled_ok_def call_ids_def)
  then show ?thesis
    using assms(1) unfolding session_ok_def pool_ok_def shared_ok_def running_ok_def image_ok_def settle_call_fields by blast
qed

lemma count_reuse_ok: "session_ok en (count_reuse s) = session_ok en s"
  unfolding session_ok_def session_ok_defs count_reuse_fields by (rule refl)

lemma count_reuse_ids: "call_ids (count_reuse s) = call_ids s"
  by (simp add: call_ids_def)

lemma ensureWorkerImage_ok:
  assumes "session_ok en s" and "ensureWorkerImage en s = (r, s')"
  shows "session_ok en s' \<and> call_ids s' = call_ids s \<and> ts_closed s' = ts_closed s \<and> (r = Inr () \<longrightarrow> se_format en = ''htk'' \<longrightarrow> ts_image s' \<noteq> None)"
proof -
  have s': "s' = s \<or> (\<exists>e. s' = s\<lparr>ts_imageError := Some e\<rparr>) \<or>
      ts_image s = None \<and> (\<exists>img. s' = s\<lparr>ts_image := Some img,
         ts_lifecycle := (ts_lifecycle s)\<lparr>lc_workerImageExports := lc_workerImageExports (ts_lifecycle s) + 1\<rparr>\<rparr>)"
    and r: "r = Inr () \<longrightarrow> se_format en = ''htk'' \<longrightarrow> ts_image s' \<noteq> None"
    using assms(2) by (auto simp: ensureWorkerImage_def split: if_splits option.splits sum.splits)
  have f: "ts_pool s' = ts_pool s" "ts_poolInit s' = ts_poolInit s" "ts_poolWaiting s' = ts_poolWaiting s"
    "ts_shared s' = ts_shared s" "ts_sharedInit s' = ts_sharedInit s" "ts_sharedWaiting s' = ts_sharedWaiting s"
    "ts_started s' = ts_started s" "ts_running s' = ts_running s" "ts_closed s' = ts_closed s" "ts_freed s' = ts_freed s"
    "ts_settled s' = ts_settled s"
    using s' by auto
  have "pool_ok s' \<and> shared_ok s' \<and> running_ok s' \<and> settled_ok s' \<and> call_ids s' = call_ids s \<and> ts_closed s' = ts_closed s"
    using assms(1) unfolding session_ok_def pool_ok_def shared_ok_def running_ok_def settled_ok_def call_ids_def f by blast
  moreover have "image_ok en s'" using s' assms(1) by (auto simp: session_ok_def image_ok_def)
  ultimately show ?thesis using r by (simp add: session_ok_def)
qed

lemma ensure_worker_ok:
  assumes "session_ok en s" and "cid \<notin> set (call_ids s)" and "\<not> ts_closed s" and "se_format en = ''htk'' \<longrightarrow> ts_image s \<noteq> None"
  shows "session_ok en (ensure_worker cid s)"
proof (cases "ts_pool s")
  case (Some p)
  then show ?thesis using assms(1,2)
    by (simp add: ensure_worker_def settle_call_ok count_reuse_ok count_reuse_ids)
next
  case None
  then have eq: "ensure_worker cid s = (start_pool s)\<lparr>ts_poolWaiting := ts_poolWaiting s @ [cid]\<rparr>"
    by (simp add: ensure_worker_def)
  note o = assms(1) [unfolded session_ok_def]
  have "pool_ok (ensure_worker cid s)" using o None unfolding eq
    by (auto simp: pool_ok_def start_pool_def running_ok_def split: option.splits)
  moreover have "shared_ok (ensure_worker cid s)" using o unfolding eq
    by (cases "ts_poolInit s") (auto simp: shared_ok_def start_pool_def split: option.splits)
  moreover have "running_ok (ensure_worker cid s)" using o assms(3) unfolding eq
    by (cases "ts_poolInit s") (auto simp: running_ok_def start_pool_def)
  moreover have "image_ok en (ensure_worker cid s)" using o assms(4) unfolding eq
    by (cases "ts_poolInit s") (auto simp: image_ok_def start_pool_def)
  moreover have "settled_ok (ensure_worker cid s)" using o assms(2) unfolding eq
    by (cases "ts_poolInit s") (auto simp: settled_ok_def call_ids_def start_pool_def)
  ultimately show ?thesis by (simp add: session_ok_def)
qed

lemma ensure_shared_ok:
  assumes "session_ok en s" and "cid \<notin> set (call_ids s)" and "\<not> ts_closed s" and "se_format en = ''htk'' \<longrightarrow> ts_image s \<noteq> None"
  shows "session_ok en (ensure_shared cid s)"
proof -
  note o = assms(1) [unfolded session_ok_def]
  show ?thesis
  proof (cases "ts_sharedInit s")
    case (Some p)
    then have there: "ts_shared s = Some p" using o by (simp add: shared_ok_def)
    show ?thesis
    proof (cases "ts_sharedWaiting s")
      case Nil
      then show ?thesis using assms(1,2) there Some
        by (simp add: ensure_shared_def settle_call_ok count_reuse_ok count_reuse_ids)
    next
      case (Cons w ws)
      let ?s = "s\<lparr>ts_sharedWaiting := ts_sharedWaiting s @ [(cid, AwaitReused)]\<rparr>"
      have "shared_ok ?s" using o Cons by (auto simp: shared_ok_def split: option.splits)
      moreover have "pool_ok ?s" "running_ok ?s" "image_ok en ?s" using o by (simp_all add: pool_ok_def running_ok_def image_ok_def cong: option.case_cong)
      moreover have "settled_ok ?s" using o assms(2) by (auto simp: settled_ok_def call_ids_def)
      ultimately show ?thesis using Some there Cons by (simp add: ensure_shared_def session_ok_def)
    qed
  next
    case None
    let ?s = "(start_shared s)\<lparr>ts_sharedWaiting := ts_sharedWaiting s @ [(cid, AwaitShared)]\<rparr>"
    have "shared_ok ?s" using o None by (auto simp: shared_ok_def start_shared_def pool_ok_def split: option.splits)
    moreover have "pool_ok ?s" using o None by (auto simp: pool_ok_def start_shared_def split: option.splits)
    moreover have "running_ok ?s" using o None assms(3) by (auto simp: running_ok_def start_shared_def shared_ok_def)
    moreover have "image_ok en ?s" using o None assms(4) by (auto simp: image_ok_def start_shared_def)
    moreover have "settled_ok ?s" using o assms(2) None by (auto simp: settled_ok_def call_ids_def start_shared_def)
    ultimately show ?thesis using None by (simp add: ensure_shared_def session_ok_def)
  qed
qed

lemma begin_ensure_ok:
  assumes "session_ok en s" and "cid \<notin> set (call_ids s)"
  shows "session_ok en (begin_ensure en cid requested s)"
proof (cases "ts_closed s")
  case True
  then show ?thesis using assms by (simp add: begin_ensure_def settle_call_ok)
next
  case False
  obtain r s1 where img: "ensureWorkerImage en s = (r, s1)" by fastforce
  note i = ensureWorkerImage_ok [OF assms(1) img]
  have fresh: "cid \<notin> set (call_ids s1)" "\<not> ts_closed s1" "session_ok en s1" using i assms(2) False by simp_all
  show ?thesis
  proof (cases "selectTier requested (se_capabilities en) (se_threaded en)")
    case (Inl e)
    then show ?thesis using assms False by (simp add: begin_ensure_def settle_call_ok)
  next
    case (Inr t)
    show ?thesis
    proof (cases "t = TierSingle")
      case True
      then show ?thesis using Inr assms False
        by (simp add: begin_ensure_def settle_call_ok count_reuse_ok count_reuse_ids)
    next
      case notsingle: False
      have eq: "begin_ensure en cid requested s =
          (case r of Inl e \<Rightarrow> settle_call cid (Inl e) s1
           | Inr _ \<Rightarrow> (case ts_imageError s1 of
                  Some e \<Rightarrow> settle_call cid (Inl e) s1
                | None \<Rightarrow> if t = TierWorker then ensure_worker cid s1 else ensure_shared cid s1))"
        using notsingle Inr False img by (cases t) (simp_all add: begin_ensure_def)
      show ?thesis
      proof (cases r)
        case (Inl e)
        then show ?thesis using fresh by (simp add: eq settle_call_ok)
      next
        case (Inr u)
        then have "se_format en = ''htk'' \<longrightarrow> ts_image s1 \<noteq> None" using i by simp
        then show ?thesis using fresh Inr
          by (cases "ts_imageError s1") (simp_all add: eq settle_call_ok ensure_worker_ok ensure_shared_ok)
      qed
    qed
  qed
qed

text \<open>What the reactions to a pool change: the waiting calls are settled, and nothing else of the invariant's.\<close>

definition same_frame :: "session \<Rightarrow> session \<Rightarrow> bool" where
  "same_frame s s' \<longleftrightarrow> ts_closed s' = ts_closed s \<and> ts_freed s' = ts_freed s \<and> ts_image s' = ts_image s \<and>
     ts_poolWaiting s' = ts_poolWaiting s \<and> ts_sharedWaiting s' = ts_sharedWaiting s \<and>
     ts_started s' = ts_started s \<and>
     lc_workerImageExports (ts_lifecycle s') = lc_workerImageExports (ts_lifecycle s)"

lemma same_frame_trans: "same_frame s s' \<Longrightarrow> same_frame s' s'' \<Longrightarrow> same_frame s s''"
  by (simp add: same_frame_def)

lemma fold_fulfilled:
  "same_frame s (foldl (\<lambda>s cid. pool_fulfilled p entries cid s) s cids) \<and>
   ts_pool (foldl (\<lambda>s cid. pool_fulfilled p entries cid s) s cids) = (if cids = [] then ts_pool s else Some p) \<and>
   ts_poolInit (foldl (\<lambda>s cid. pool_fulfilled p entries cid s) s cids) = ts_poolInit s \<and>
   ts_shared (foldl (\<lambda>s cid. pool_fulfilled p entries cid s) s cids) = ts_shared s \<and>
   ts_sharedInit (foldl (\<lambda>s cid. pool_fulfilled p entries cid s) s cids) = ts_sharedInit s \<and>
   ts_running (foldl (\<lambda>s cid. pool_fulfilled p entries cid s) s cids) = ts_running s \<and>
   ts_settled (foldl (\<lambda>s cid. pool_fulfilled p entries cid s) s cids) = rev (map (\<lambda>cid. (cid, Inr TierWorker)) cids) @ ts_settled s"
proof (induction cids arbitrary: s)
  case (Cons cid cids)
  then show ?case by (simp add: pool_fulfilled_def same_frame_def)
qed (simp add: same_frame_def)

lemma fold_rejected:
  "same_frame s (foldl (\<lambda>s cid. pool_rejected e cid s) s cids) \<and>
   ts_pool (foldl (\<lambda>s cid. pool_rejected e cid s) s cids) = ts_pool s \<and>
   ts_poolInit (foldl (\<lambda>s cid. pool_rejected e cid s) s cids) = (if cids = [] then ts_poolInit s else None) \<and>
   ts_shared (foldl (\<lambda>s cid. pool_rejected e cid s) s cids) = ts_shared s \<and>
   ts_sharedInit (foldl (\<lambda>s cid. pool_rejected e cid s) s cids) = ts_sharedInit s \<and>
   ts_running (foldl (\<lambda>s cid. pool_rejected e cid s) s cids) = ts_running s \<and>
   ts_settled (foldl (\<lambda>s cid. pool_rejected e cid s) s cids) = rev (map (\<lambda>cid. (cid, Inl e)) cids) @ ts_settled s"
proof (induction cids arbitrary: s)
  case (Cons cid cids)
  then show ?case by (simp add: pool_rejected_def same_frame_def)
qed (simp add: same_frame_def)

lemma settle_pool_ok:
  assumes "session_ok en s" and "ts_poolWaiting s \<noteq> []"
  shows "session_ok en (settle_pool en replies s)"
proof -
  note o = assms(1) [unfolded session_ok_def]
  obtain p where p: "ts_poolInit s = Some p" "ts_pool s = None" "p \<in> ts_running s" "p < ts_started s"
    using o assms(2) by (auto simp: pool_ok_def split: option.splits)
  let ?s = "settle_pool en replies s"
  have noWorker: "Inr TierWorker \<notin> snd ` set (ts_settled s)" using o p(2) by (simp add: settled_ok_def)
  show ?thesis
  proof (cases "initializeWorkerPool (se_format en) (session_digest en) replies")
    case (Inr entries)
    have s': "same_frame (s\<lparr>ts_poolWaiting := []\<rparr>) ?s" "ts_pool ?s = Some p" "ts_poolInit ?s = Some p" "ts_shared ?s = ts_shared s"
      "ts_sharedInit ?s = ts_sharedInit s" "ts_running ?s = ts_running s"
      "ts_settled ?s = rev (map (\<lambda>cid. (cid, Inr TierWorker)) (ts_poolWaiting s)) @ ts_settled s"
      using fold_fulfilled [of "s\<lparr>ts_poolWaiting := []\<rparr>" p entries "ts_poolWaiting s"] assms(2) p(1)
      by (simp_all add: settle_pool_def Let_def Inr)
    note f = s'(1) [unfolded same_frame_def, simplified]
    have "settled_ok ?s" using o by (auto simp: settled_ok_def call_ids_def s' f rev_map comp_def)
    moreover have "pool_ok ?s" using p by (simp add: pool_ok_def s' f)
    moreover have "shared_ok ?s" using o p(1) unfolding shared_ok_def s' by (auto simp: f split: option.splits)
    moreover have "running_ok ?s" using o p(1) unfolding running_ok_def s' by (simp add: f)
    moreover have "image_ok en ?s" using o unfolding image_ok_def by (simp add: f)
    ultimately show ?thesis by (simp add: session_ok_def)
  next
    case (Inl e)
    have s': "same_frame (s\<lparr>ts_poolWaiting := []\<rparr>) ?s" "ts_pool ?s = None" "ts_poolInit ?s = None" "ts_shared ?s = ts_shared s"
      "ts_sharedInit ?s = ts_sharedInit s" "ts_running ?s = ts_running s - {p}"
      "ts_settled ?s = rev (map (\<lambda>cid. (cid, Inl e)) (ts_poolWaiting s)) @ ts_settled s"
      using fold_rejected [of "s\<lparr>ts_poolWaiting := [], ts_running := ts_running s - {p}\<rparr>" e "ts_poolWaiting s"] assms(2) p(1,2)
      by (simp_all add: settle_pool_def Let_def Inl same_frame_def)
    note f = s'(1) [unfolded same_frame_def, simplified]
    have "settled_ok ?s" using o noWorker by (auto simp: settled_ok_def call_ids_def s' f rev_map comp_def)
    moreover have "pool_ok ?s" by (simp add: pool_ok_def s' f)
    moreover have "shared_ok ?s" using o unfolding shared_ok_def s' by (auto simp: f split: option.splits)
    moreover have "running_ok ?s" using o p(1) unfolding running_ok_def s' by (auto simp: f shared_ok_def split: option.splits)
    moreover have "image_ok en ?s" using o unfolding image_ok_def by (simp add: f)
    ultimately show ?thesis by (simp add: session_ok_def)
  qed
qed

text \<open>The calls that found the controller initializing only settle.\<close>

lemma fold_reused:
  assumes "\<forall>w \<in> set ws. snd w = AwaitReused"
  shows "same_frame s (foldl (\<lambda>s w. shared_reaction en reply w s) s ws) \<and>
   ts_pool (foldl (\<lambda>s w. shared_reaction en reply w s) s ws) = ts_pool s \<and>
   ts_poolInit (foldl (\<lambda>s w. shared_reaction en reply w s) s ws) = ts_poolInit s \<and>
   ts_shared (foldl (\<lambda>s w. shared_reaction en reply w s) s ws) = ts_shared s \<and>
   ts_sharedInit (foldl (\<lambda>s w. shared_reaction en reply w s) s ws) = ts_sharedInit s \<and>
   ts_running (foldl (\<lambda>s w. shared_reaction en reply w s) s ws) = ts_running s \<and>
   ts_settled (foldl (\<lambda>s w. shared_reaction en reply w s) s ws) =
     rev (map (\<lambda>w. (fst w, case reply of Inl e \<Rightarrow> Inl e | Inr _ \<Rightarrow> Inr TierShared)) ws) @ ts_settled s"
  using assms
proof (induction ws arbitrary: s)
  case (Cons w ws)
  then obtain cid where w: "w = (cid, AwaitReused)" by (cases w) auto
  show ?case using Cons by (cases reply) (simp_all add: shared_reaction_def w same_frame_def)
qed (simp add: same_frame_def)

lemma settle_shared_ok:
  assumes "session_ok en s" and "ts_sharedWaiting s \<noteq> []"
  shows "session_ok en (settle_shared en reply s)"
proof -
  note o = assms(1) [unfolded session_ok_def]
  obtain cid rest where w: "ts_sharedWaiting s = (cid, AwaitShared) # rest" "\<forall>w \<in> set rest. snd w = AwaitReused"
    using o assms(2) by (auto simp: shared_ok_def)
  obtain p where p: "ts_shared s = Some p" "ts_sharedInit s = Some p" "p < ts_started s" "ts_poolInit s \<noteq> Some p"
    using o assms(2) by (auto simp: shared_ok_def split: option.splits)
  define s1 where "s1 = shared_reaction en reply (cid, AwaitShared) (s\<lparr>ts_sharedWaiting := []\<rparr>)"
  let ?s = "settle_shared en reply s"
  have eq: "?s = foldl (\<lambda>s w. shared_reaction en reply w s) s1 rest"
    by (simp add: settle_shared_def w(1) s1_def)
  note r = fold_reused [OF w(2), of s1 en reply, folded eq]
  have first: "same_frame (s\<lparr>ts_sharedWaiting := []\<rparr>) s1 \<and> ts_pool s1 = ts_pool s \<and> ts_poolInit s1 = ts_poolInit s \<and>
      (\<exists>r. r \<noteq> Inr TierWorker \<and> ts_settled s1 = (cid, r) # ts_settled s) \<and>
      (ts_shared s1 = Some p \<and> ts_sharedInit s1 = Some p \<and> ts_running s1 = ts_running s \<or>
       ts_shared s1 = None \<and> ts_sharedInit s1 = None \<and> ts_running s1 = ts_running s - {p})"
    using p(1,2)
    by (auto simp: s1_def shared_reaction_def shared_failed_def close_shared_def same_frame_def split: sum.splits)
  then obtain r0 where r0: "r0 \<noteq> Inr TierWorker" "ts_settled s1 = (cid, r0) # ts_settled s" by blast
  have f: "ts_closed ?s = ts_closed s" "ts_freed ?s = ts_freed s" "ts_image ?s = ts_image s"
    "ts_poolWaiting ?s = ts_poolWaiting s" "ts_sharedWaiting ?s = []" "ts_started ?s = ts_started s"
    "lc_workerImageExports (ts_lifecycle ?s) = lc_workerImageExports (ts_lifecycle s)"
    "ts_pool ?s = ts_pool s" "ts_poolInit ?s = ts_poolInit s"
    using r first by (simp_all add: same_frame_def)
  have s: "ts_settled ?s = rev (map (\<lambda>w. (fst w, case reply of Inl e \<Rightarrow> Inl e | Inr _ \<Rightarrow> Inr TierShared)) rest) @ (cid, r0) # ts_settled s"
    using r r0(2) by simp
  have shared: "ts_shared ?s = Some p \<and> ts_sharedInit ?s = Some p \<and> ts_running ?s = ts_running s \<or>
      ts_shared ?s = None \<and> ts_sharedInit ?s = None \<and> ts_running ?s = ts_running s - {p}"
    using r first by simp
  have ids: "map fst (ts_settled ?s) = rev (map fst rest) @ cid # map fst (ts_settled s)"
    unfolding s by (simp add: rev_map comp_def)
  have "Inr TierWorker \<in> snd ` set (ts_settled ?s) \<longrightarrow> Inr TierWorker \<in> snd ` set (ts_settled s)"
    unfolding s using r0(1) by (auto split: sum.splits)
  moreover have "distinct (call_ids ?s)"
    using o unfolding settled_ok_def call_ids_def ids f w(1) by auto
  ultimately have "settled_ok ?s" using o unfolding settled_ok_def by (simp add: f)
  moreover have "pool_ok ?s"
  proof (cases "ts_poolInit s")
    case None
    then show ?thesis using o unfolding pool_ok_def f by simp
  next
    case (Some q)
    have kept: "q \<in> ts_running s \<Longrightarrow> q \<in> ts_running ?s" using shared p(4) Some by fastforce
    have "pool_ok s" using o by blast
    then have "q < ts_started s \<and> (ts_pool s = Some q \<and> ts_poolWaiting s = [] \<or>
        ts_pool s = None \<and> ts_poolWaiting s \<noteq> [] \<and> q \<in> ts_running s)"
      unfolding pool_ok_def Some option.case .
    then show ?thesis unfolding pool_ok_def f Some option.case using kept by blast
  qed
  moreover from shared have "shared_ok ?s"
    by (elim disjE conjE) (simp_all only: shared_ok_def f option.case p(3,4) simp_thms not_False_eq_True)
  moreover have "running_ok ?s"
  proof -
    have "running_ok s" using o by blast
    note run = this [unfolded running_ok_def p(1) option.set]
    have other: "p \<notin> set_option (ts_poolInit s)" using p(4) by auto
    from shared show ?thesis
    proof (elim disjE conjE)
      assume "ts_shared ?s = Some p" "ts_running ?s = ts_running s"
      then show ?thesis using run unfolding running_ok_def f by (simp only: option.set) blast
    next
      assume "ts_shared ?s = None" "ts_running ?s = ts_running s - {p}"
      then show ?thesis using run other unfolding running_ok_def f by (simp only: option.set) blast
    qed
  qed
  moreover have "image_ok en ?s" using o unfolding image_ok_def f by simp
  ultimately show ?thesis by (simp add: session_ok_def)
qed

lemma begin_close_ok: "session_ok en s \<Longrightarrow> session_ok en (begin_close s)"
proof (cases "ts_closed s")
  case False
  assume "session_ok en s"
  note o = this [unfolded session_ok_def]
  have frees: "\<not> ts_freed s" using o False by (auto simp: running_ok_def)
  have eq: "begin_close s = s\<lparr>ts_closed := True, ts_running := ts_running s - set_option (ts_pool s)\<rparr>"
    using False by (simp add: begin_close_def split: option.splits)
  have "pool_ok (begin_close s)" using o unfolding eq by (auto simp: pool_ok_def split: option.splits)
  moreover have "shared_ok (begin_close s)" using o unfolding eq by (auto simp: shared_ok_def split: option.splits)
  moreover have "running_ok (begin_close s)" using o frees unfolding eq by (auto simp: running_ok_def)
  moreover have "image_ok en (begin_close s)" "settled_ok (begin_close s)"
    using o unfolding eq by (simp_all add: image_ok_def settled_ok_def call_ids_def)
  ultimately show ?thesis by (simp add: session_ok_def)
qed (simp add: begin_close_def)

lemma end_close_ok: "session_ok en s \<Longrightarrow> ts_closed s \<Longrightarrow> session_ok en (end_close s)"
proof -
  assume "session_ok en s" and closed: "ts_closed s"
  note o = this(1) [unfolded session_ok_def]
  have eq: "end_close s = s\<lparr>ts_running := ts_running s - set_option (ts_shared s), ts_freed := True\<rparr>"
    by (simp add: end_close_def close_shared_def split: option.splits)
  have differ: "ts_poolInit s = Some p \<Longrightarrow> ts_shared s \<noteq> Some p" for p
    using o by (auto simp: shared_ok_def split: option.splits)
  have "pool_ok (end_close s)" using o differ unfolding eq by (auto simp: pool_ok_def split: option.splits)
  moreover have "shared_ok (end_close s)" using o unfolding eq by (auto simp: shared_ok_def split: option.splits)
  moreover have "running_ok (end_close s)" using o closed unfolding eq by (auto simp: running_ok_def)
  moreover have "image_ok en (end_close s)" "settled_ok (end_close s)"
    using o unfolding eq by (simp_all add: image_ok_def settled_ok_def call_ids_def)
  ultimately show ?thesis by (simp add: session_ok_def)
qed

lemma session_ok_step:
  assumes "session_step en s s'" and "session_ok en s"
  shows "session_ok en s'"
  using assms
proof (induction rule: session_step.induct)
  case (ensure cid s requested)
  then show ?case by (intro begin_ensure_ok) (auto simp: call_ids_def)
qed (auto intro: settle_pool_ok settle_shared_ok begin_close_ok end_close_ok)

lemma session_ok_reaches: "session_reaches en s \<Longrightarrow> session_ok en s"
  by (induction rule: session_reaches.induct) (auto intro: session_ok_new session_ok_step)

subsection \<open>Properties\<close>

text \<open>
  C10. The life of a session, whatever the order of calls, settled initializations and \<^verbatim>\<open>close\<close>: the
  worker image is exported at most once; every call of \<^verbatim>\<open>ensureTier\<close> settles at most once; when one
  was given the worker tier, its pool is there; what runs are at most the current pool and the
  current controller, exactly these until \<^verbatim>\<open>close\<close>, and no controller after it.
\<close>

theorem session_invariant:
  assumes "session_reaches en s"
  shows "lc_workerImageExports (ts_lifecycle s) \<le> 1 \<and> distinct (map fst (ts_settled s)) \<and>
    (Inr TierWorker \<in> snd ` set (ts_settled s) \<longrightarrow> ts_pool s \<noteq> None) \<and>
    ts_running s \<subseteq> set_option (ts_poolInit s) \<union> set_option (ts_shared s) \<and>
    (\<not> ts_closed s \<longrightarrow> ts_running s = set_option (ts_poolInit s) \<union> set_option (ts_shared s)) \<and>
    (ts_freed s \<longrightarrow> ts_closed s \<and> ts_running s \<subseteq> set_option (ts_poolInit s))"
proof -
  have "image_ok en s" "settled_ok s" "running_ok s" using session_ok_reaches [OF assms] by (simp_all add: session_ok_def)
  then show ?thesis unfolding image_ok_def settled_ok_def call_ids_def running_ok_def by (simp split: if_splits)
qed

text \<open>Sessions given by their operations.\<close>

datatype session_op =
    OpEnsure nat "string option"
  | OpPool "js_error + init_entry list"
  | OpShared "js_error + init_entry"
  | OpClose
  | OpEndClose

fun op_enabled :: "session_op \<Rightarrow> session \<Rightarrow> bool" where
  "op_enabled (OpEnsure cid requested) s =
     (cid \<notin> fst ` set (ts_settled s) \<and> cid \<notin> set (ts_poolWaiting s) \<and> cid \<notin> fst ` set (ts_sharedWaiting s))"
| "op_enabled (OpPool replies) s = (ts_poolWaiting s \<noteq> [])"
| "op_enabled (OpShared reply) s = (ts_sharedWaiting s \<noteq> [])"
| "op_enabled OpClose s = True"
| "op_enabled OpEndClose s = ts_closed s"

fun apply_op :: "session_env \<Rightarrow> session_op \<Rightarrow> session \<Rightarrow> session" where
  "apply_op en (OpEnsure cid requested) s = begin_ensure en cid requested s"
| "apply_op en (OpPool replies) s = settle_pool en replies s"
| "apply_op en (OpShared reply) s = settle_shared en reply s"
| "apply_op en OpClose s = begin_close s"
| "apply_op en OpEndClose s = end_close s"

fun run_ops :: "session_env \<Rightarrow> session_op list \<Rightarrow> session \<Rightarrow> session option" where
  "run_ops en [] s = Some s"
| "run_ops en (op # ops) s = (if op_enabled op s then run_ops en ops (apply_op en op s) else None)"

lemma apply_op_step: "op_enabled op s \<Longrightarrow> session_step en s (apply_op en op s)"
  by (cases op) (auto intro: session_step.intros)

lemma run_ops_reaches: "session_reaches en s \<Longrightarrow> run_ops en ops s = Some s' \<Longrightarrow> session_reaches en s'"
  by (induction ops arbitrary: s) (auto split: if_splits intro: session_reaches.step apply_op_step)

text \<open>A browser page that is not isolated, and one that is.\<close>

definition page_env :: "bool \<Rightarrow> session_env" where
  "page_env isolated =
     \<lparr>se_format = ''htk'', se_capabilities = \<lparr>cap_isolated = isolated, cap_sharedArrayBuffer = True, cap_worker = True\<rparr>,
      se_threaded = True, se_digest = Inr [7], se_export = Inr [1, 2]\<rparr>"

definition good_entry :: init_entry where
  "good_entry = \<lparr>ie_imported = True, ie_sourceDigest = [7], ie_detached = True\<rparr>"

definition wrong_entry :: init_entry where
  "wrong_entry = \<lparr>ie_imported = True, ie_sourceDigest = [8], ie_detached = True\<rparr>"

lemmas session_op_defs =
  page_env_def good_entry_def wrong_entry_def new_session_def begin_ensure_def selectTier_def shared_available_def
  worker_available_def ensureWorkerImage_def ensure_worker_def ensure_shared_def start_pool_def start_shared_def
  settle_call_def count_reuse_def settle_pool_def settle_shared_def initializeWorkerPool_def shared_identity_def
  equalBytes_def session_digest_def pool_fulfilled_def pool_rejected_def shared_reaction_def shared_failed_def
  close_shared_def begin_close_def end_close_def new_lifecycle_def count_entries_def try_if_def Let_def

lemma worker_session:
  "\<exists>s. run_ops (page_env False) [OpEnsure 0 (Some ''worker''), OpPool (Inr [good_entry, good_entry]), OpEnsure 1 None] (new_session (page_env False)) = Some s \<and>
     ts_settled s = [(1, Inr TierWorker), (0, Inr TierWorker)] \<and> ts_pool s = Some 0 \<and> \<not> ts_closed s \<and> ts_running s = {0}"
  by (simp add: session_op_defs)

theorem session_invariant_witness:
  "\<exists>s :: session. ts_settled s = [(1, Inr TierWorker), (0, Inr TierWorker)] \<and> lc_workerImageExports (ts_lifecycle s) \<le> 1 \<and>
     ts_pool s \<noteq> None \<and> ts_running s = set_option (ts_poolInit s) \<union> set_option (ts_shared s)"
proof -
  obtain s where s: "run_ops (page_env False) [OpEnsure 0 (Some ''worker''), OpPool (Inr [good_entry, good_entry]), OpEnsure 1 None]
      (new_session (page_env False)) = Some s"
    "ts_settled s = [(1, Inr TierWorker), (0, Inr TierWorker)]" "\<not> ts_closed s"
    using worker_session by blast
  have "lc_workerImageExports (ts_lifecycle s) \<le> 1 \<and> ts_pool s \<noteq> None \<and> ts_running s = set_option (ts_poolInit s) \<union> set_option (ts_shared s)"
    using session_invariant [OF run_ops_reaches [OF session_reaches.start s(1)]] s(2,3) by simp
  then show ?thesis using s(2) by blast
qed


text \<open>
  C24. A second request for the shared tier is not protected by the identity check: it is made
  while the controller is being initialized, the controller answers with another model's digest,
  the first request is rejected and the controller closed, and the second is given the shared
  tier, although there is no controller.
\<close>

theorem shared_tier_without_controller:
  "\<exists>s. session_reaches (page_env True) s \<and> ts_shared s = None \<and>
     ts_settled s = [(1, Inr TierShared), (0, Inl (PlainError ''shared model identity does not match the resident vocabulary''))]"
proof -
  have "\<exists>s. run_ops (page_env True) [OpEnsure 0 (Some ''shared''), OpEnsure 1 (Some ''shared''), OpShared (Inr wrong_entry)] (new_session (page_env True)) = Some s \<and>
      ts_shared s = None \<and> ts_settled s = [(1, Inr TierShared), (0, Inl (PlainError ''shared model identity does not match the resident vocabulary''))]"
    by (simp add: session_op_defs)
  then show ?thesis using run_ops_reaches [OF session_reaches.start] by blast
qed

text \<open>Two requests that await one pool are counted as two initializations.\<close>

lemma pool_counted_twice:
  "\<exists>s. session_reaches (page_env False) s \<and> ts_started s = 1 \<and> lc_workerPoolInitializations (ts_lifecycle s) = 2"
proof -
  have "\<exists>s. run_ops (page_env False) [OpEnsure 0 (Some ''worker''), OpEnsure 1 (Some ''worker''), OpPool (Inr [good_entry])] (new_session (page_env False)) = Some s \<and>
      ts_started s = 1 \<and> lc_workerPoolInitializations (ts_lifecycle s) = 2"
    by (simp add: session_op_defs)
  then show ?thesis using run_ops_reaches [OF session_reaches.start] by blast
qed

end
