(* ===== verification/Tier_Encode.thy ===== *)
theory Tier_Encode
  imports Tier_Session Worker_Pool_Exact Resident_Input Reserved
begin

text \<open>
  The methods of the handles of \<^verbatim>\<open>createTierRuntime\<close>: \<^verbatim>\<open>encodeForTier\<close>, \<^verbatim>\<open>encodeReservedSync\<close> and
  \<^verbatim>\<open>makeHandle\<close> of \<^verbatim>\<open>tier-runtime.mjs\<close>. An asynchronous method is two steps, up to its \<^verbatim>\<open>await\<close> and
  after it; between them the session may be used and closed.
\<close>

subsection \<open>What a handle works on\<close>

text \<open>
  The tokenizer of the session, which stays with it from the first handle to \<^verbatim>\<open>close\<close>, and the
  encoders behind the other tiers: that of the pool's workers and that of the shared controller.
\<close>

record 'o tier_core =
  tc_format :: string
  tc_encoder :: encoder
  tc_workerInputSupported :: "bytes \<Rightarrow> bool"
  tc_pretokenRanges :: "bytes \<Rightarrow> js_error + (nat \<times> nat) list"
  tc_overlap :: "'o overlap_core"
  tc_encodeReserved :: encode_reserved
  tc_tokenStarts :: "bytes \<Rightarrow> u32 list \<Rightarrow> js_error + nat list"
  tc_reservedFound :: "bytes \<Rightarrow> js_error + jstring list"
  tc_vocabSize :: nat
  tc_tokenBytes :: "u32 \<Rightarrow> js_error + bytes"
  tc_workerEncode :: "bytes \<Rightarrow> js_error + u32 list"
  tc_sharedEncode :: "bytes \<Rightarrow> js_error + u32 list"

text \<open>\<^verbatim>\<open>lastTelemetry\<close>; a count the controller did not send is \<^verbatim>\<open>undefined\<close>, here \<open>None\<close>.\<close>

record telemetry =
  tl_tier :: tier
  tl_fallback :: bool
  tl_cause :: "string option"
  tl_counts :: "nat option list"

definition plain_telemetry :: "tier \<Rightarrow> telemetry" where
  "plain_telemetry t = \<lparr>tl_tier = t, tl_fallback = False, tl_cause = None, tl_counts = []\<rparr>"

definition cause_telemetry :: "tier \<Rightarrow> bool \<Rightarrow> string \<Rightarrow> telemetry" where
  "cause_telemetry t fb cause = \<lparr>tl_tier = t, tl_fallback = fb, tl_cause = Some cause, tl_counts = []\<rparr>"

text \<open>
  What the methods of the handles read and write. The decoder has its own state; \<open>te_freed\<close> says
  that \<^verbatim>\<open>close\<close> has freed the tokenizer.
\<close>

record 'd tier_state =
  te_closed :: bool
  te_freed :: bool
  te_resident :: resident_input
  te_telemetry :: telemetry
  te_decoder :: 'd

definition session_closed :: js_error where
  "session_closed = PlainError ''execution-tier session is closed''"

definition tier_ensureOpen :: "('d tier_state, unit) js" where
  "tier_ensureOpen = (\<lambda>s. (if te_closed s then Inl session_closed else Inr (), s))"

text \<open>A method of the tokenizer; the bindings refuse one that has been freed.\<close>

definition freed_error :: js_error where
  "freed_error = PlainError ''null pointer passed to rust''"

definition single_method :: "js_error + 'a \<Rightarrow> ('d tier_state, 'a) js" where
  "single_method r = (\<lambda>s. (if te_freed s then Inl freed_error else r, s))"

definition set_telemetry :: "telemetry \<Rightarrow> ('d tier_state, unit) js" where
  "set_telemetry t = (\<lambda>s. (Inr (), s\<lparr>te_telemetry := t\<rparr>))"

subsection \<open>Encoding\<close>

text \<open>\<^verbatim>\<open>encodeSingle\<close> on the session's tokenizer and its resident buffer.\<close>

definition single_encode ::
  "'o tier_core \<Rightarrow> encode_input \<Rightarrow> 'd tier_state \<Rightarrow> ((js_error + u32 list) \<times> 'd tier_state) option" where
  "single_encode tc i s =
     (if te_freed s then Some (Inl freed_error, s)
      else map_option (\<lambda>(r, ri). (r, s\<lparr>te_resident := ri\<rparr>)) (encodeSingle (tc_encoder tc) i (te_resident s)))"

text \<open>How far a call of \<^verbatim>\<open>encodeForTier\<close> gets before it awaits: to its end, or to its workers.\<close>

datatype 'r begun = Begun 'r | Awaiting bytes

text \<open>\<^verbatim>\<open>single.encode(bytes)\<close>, with the telemetry of a fallback.\<close>

definition fallback_encode :: "'o tier_core \<Rightarrow> tier \<Rightarrow> bytes \<Rightarrow> string \<Rightarrow> ('d tier_state, u32 list) js" where
  "fallback_encode tc t bs cause =
     js_bind (single_method (en_encode (tc_encoder tc) bs)) (\<lambda>ids.
     js_bind (set_telemetry (cause_telemetry t True cause)) (\<lambda>_. js_ret ids))"

definition begin_encodeForTier ::
  "'o tier_core \<Rightarrow> tier \<Rightarrow> encode_input \<Rightarrow> 'd tier_state \<Rightarrow> ((js_error + u32 list) begun \<times> 'd tier_state) option" where
  "begin_encodeForTier tc t i s =
     (if te_closed s then Some (Begun (Inl session_closed), s)
      else if t = TierSingle then
        map_option (\<lambda>(r, s'). (Begun r, case r of Inl _ \<Rightarrow> s' | Inr _ \<Rightarrow> s'\<lparr>te_telemetry := plain_telemetry t\<rparr>))
          (single_encode tc i s)
      else
        (case inputBytes i of
           Inl e \<Rightarrow> Some (Begun (Inl e), s)
         | Inr bs \<Rightarrow>
             if tc_format tc \<noteq> ''htk'' then Some (Awaiting bs, s)
             else (case single_method (Inr (tc_workerInputSupported tc bs)) s of
                     (Inl e, _) \<Rightarrow> Some (Begun (Inl e), s)
                   | (Inr supported, _) \<Rightarrow>
                       if supported then Some (Awaiting bs, s)
                       else (case fallback_encode tc t bs ''resident-single-policy'' s of (r, s') \<Rightarrow> Some (Begun r, s')))))"

text \<open>
  What the workers of the tier give for the bytes: the outcome of a run of the pool, or a reply of
  the controller, or an error. The counts are the telemetry.
\<close>

definition pool_counts :: "worker_telemetry \<Rightarrow> nat option list" where
  "pool_counts t = map Some [wt_pretokens t, wt_tasks t, wt_initialChunks t, wt_enlargements t, wt_activeWorkers t]"

definition shared_counts :: "nat list \<Rightarrow> nat option list" where
  "shared_counts t = map (\<lambda>i. if i < length t then Some (t ! i) else None) [0..<5]"

definition worker_attempt :: "'o tier_core \<Rightarrow> bytes \<Rightarrow> js_error + u32 list \<times> nat option list \<Rightarrow> bool" where
  "worker_attempt tc bs a \<longleftrightarrow>
     (case a of
        Inl _ \<Rightarrow> True
      | Inr (ids, counts) \<Rightarrow>
          \<exists>ranges pool n run t. tc_pretokenRanges tc bs = Inr ranges \<and>
            pool_run (tc_workerEncode tc) (tc_overlap tc)
              (start_encode (tc_overlap tc) (en_chunkSize (tc_encoder tc)) (map (range_part bs) ranges) pool) n run \<and>
            encode_outcome (length ranges) run = Some (Inr (ids, t)) \<and> counts = pool_counts t)"

definition shared_attempt :: "'o tier_core \<Rightarrow> bytes \<Rightarrow> js_error + u32 list \<times> nat option list \<Rightarrow> bool" where
  "shared_attempt tc bs a \<longleftrightarrow>
     (case a of
        Inl _ \<Rightarrow> True
      | Inr (ids, counts) \<Rightarrow> tc_sharedEncode tc bs = Inr ids \<and> (\<exists>t. counts = shared_counts t))"

definition tier_attempt :: "'o tier_core \<Rightarrow> tier \<Rightarrow> bytes \<Rightarrow> js_error + u32 list \<times> nat option list \<Rightarrow> bool" where
  "tier_attempt tc t bs a = (if t = TierWorker then worker_attempt tc bs a else shared_attempt tc bs a)"

text \<open>The rest of \<^verbatim>\<open>encodeForTier\<close>, when its workers have answered or failed.\<close>

definition finish_encodeForTier ::
  "'o tier_core \<Rightarrow> tier \<Rightarrow> bytes \<Rightarrow> js_error + u32 list \<times> nat option list \<Rightarrow> ('d tier_state, u32 list) js" where
  "finish_encodeForTier tc t bs attempt = (\<lambda>s.
     case attempt of
       Inr (ids, counts) \<Rightarrow>
         (Inr ids, s\<lparr>te_telemetry := \<lparr>tl_tier = t, tl_fallback = False, tl_cause = None, tl_counts = counts\<rparr>\<rparr>)
     | Inl e \<Rightarrow> if te_closed s then (Inl e, s) else fallback_encode tc t bs (error_message e) s)"

text \<open>\<^verbatim>\<open>encodeReservedSync\<close>.\<close>

definition tier_encodeReserved :: "'o tier_core \<Rightarrow> tier \<Rightarrow> encode_input \<Rightarrow> policy_value \<Rightarrow> ('d tier_state, reserved_encoding) js" where
  "tier_encodeReserved tc t i policy =
     js_bind tier_ensureOpen (\<lambda>_.
     js_bind (js_lift (inputBytes i)) (\<lambda>bs.
     js_bind (single_method (encodeReservedBytes (tc_encodeReserved tc) bs policy)) (\<lambda>result.
     js_bind (set_telemetry (cause_telemetry t (t \<noteq> TierSingle) ''reserved-policy'')) (\<lambda>_.
     js_ret result))))"

subsection \<open>The other methods of a handle\<close>

text \<open>The \<^verbatim>\<open>encode\<close> of a handle, with the option \<^verbatim>\<open>reserved\<close>.\<close>

definition begin_encode ::
  "'o tier_core \<Rightarrow> tier \<Rightarrow> encode_input \<Rightarrow> policy_value option \<Rightarrow> 'd tier_state \<Rightarrow>
     ((js_error + u32 list) begun \<times> 'd tier_state) option" where
  "begin_encode tc t i reserved s =
     (case reserved of
        Some policy \<Rightarrow>
          (case tier_encodeReserved tc t i policy s of (r, s') \<Rightarrow> Some (Begun (try_bind r (\<lambda>e. Inr (re_ids e))), s'))
      | None \<Rightarrow> begin_encodeForTier tc t i s)"

definition tier_encodeSync ::
  "'o tier_core \<Rightarrow> encode_input \<Rightarrow> policy_value option \<Rightarrow> 'd tier_state \<Rightarrow> ((js_error + u32 list) \<times> 'd tier_state) option" where
  "tier_encodeSync tc i reserved s =
     (if te_closed s then Some (Inl session_closed, s)
      else case reserved of
        Some policy \<Rightarrow>
          (case tier_encodeReserved tc TierSingle i policy s of (r, s') \<Rightarrow> Some (try_bind r (\<lambda>e. Inr (re_ids e)), s'))
      | None \<Rightarrow> single_encode tc i s)"

text \<open>
  \<^verbatim>\<open>encodeInto\<close>: its result and the destination as it leaves it; \<open>None\<close> is a destination that is
  not a \<^verbatim>\<open>Uint32Array\<close>. A string on the single tier goes through the resident output.
\<close>

definition copy_result :: "u32 list \<Rightarrow> js_error + u32 list \<Rightarrow> (js_error + nat) \<times> u32 list" where
  "copy_result destination r =
     (case r of Inl e \<Rightarrow> (Inl e, destination) | Inr ids \<Rightarrow> copyIdsInto destination ids)"

definition single_encodeInto ::
  "'o tier_core \<Rightarrow> (bytes \<Rightarrow> js_error + u32 list) \<Rightarrow> jstring \<Rightarrow> u32 list \<Rightarrow> 'd tier_state \<Rightarrow>
     (((js_error + nat) \<times> u32 list) \<times> 'd tier_state) option" where
  "single_encodeInto tc into str destination s =
     (if te_freed s then Some ((Inl freed_error, destination), s)
      else map_option (\<lambda>(r, ri, dst).
             ((r, dst), s\<lparr>te_resident := ri,
                te_telemetry := (case r of Inl _ \<Rightarrow> te_telemetry s | Inr _ \<Rightarrow> plain_telemetry TierSingle)\<rparr>))
           (encodeResidentStringInto (tc_encoder tc) into str (te_resident s) destination))"

definition begin_encodeInto ::
  "'o tier_core \<Rightarrow> tier \<Rightarrow> encode_input \<Rightarrow> u32 list option \<Rightarrow> policy_value option \<Rightarrow> 'd tier_state \<Rightarrow>
     (((js_error + nat) \<times> u32 list) begun \<times> 'd tier_state) option" where
  "begin_encodeInto tc t i destination reserved s =
     (if te_closed s then Some (Begun (Inl session_closed, case destination of None \<Rightarrow> [] | Some dst \<Rightarrow> dst), s)
      else case destination of
        None \<Rightarrow> Some (Begun (Inl (TypeError ''encodeInto destination must be a Uint32Array''), []), s)
      | Some dst \<Rightarrow>
          (case (t, i, reserved, en_into (tc_encoder tc)) of
             (TierSingle, InputString str, None, Some into) \<Rightarrow>
               map_option (\<lambda>(r, s'). (Begun r, s')) (single_encodeInto tc into str dst s)
           | _ \<Rightarrow>
               map_option (\<lambda>(b, s'). (case b of Begun r \<Rightarrow> Begun (copy_result dst r) | Awaiting bs \<Rightarrow> Awaiting bs, s'))
                 (begin_encode tc t i reserved s)))"

text \<open>
  \<^verbatim>\<open>encodeDetailed\<close>: what comes before the ids, and what comes after them. The second part follows
  an \<^verbatim>\<open>await\<close> and does not look whether the session was closed meanwhile.
\<close>

definition begin_encodeDetailed ::
  "'o tier_core \<Rightarrow> tier \<Rightarrow> encode_input \<Rightarrow> policy_value option \<Rightarrow> 'd tier_state \<Rightarrow>
     (((js_error + reserved_encoding) + bytes \<times> (js_error + u32 list) begun) \<times> 'd tier_state) option" where
  "begin_encodeDetailed tc t i reserved s =
     (if te_closed s then Some (Inl (Inl session_closed), s)
      else if tc_format tc \<noteq> ''htk'' then Some (Inl (Inl (PlainError ''detailed encoding requires an .htk vocabulary'')), s)
      else case reserved of
        Some policy \<Rightarrow> (case tier_encodeReserved tc t i policy s of (r, s') \<Rightarrow> Some (Inl r, s'))
      | None \<Rightarrow>
          (case inputBytes i of
             Inl e \<Rightarrow> Some (Inl (Inl e), s)
           | Inr bs \<Rightarrow> map_option (\<lambda>(b, s'). (Inr (bs, b), s')) (begin_encodeForTier tc t i s)))"

definition finish_encodeDetailed ::
  "'o tier_core \<Rightarrow> bytes \<Rightarrow> js_error + u32 list \<Rightarrow> ('d tier_state, reserved_encoding) js" where
  "finish_encodeDetailed tc bs r =
     js_bind (js_lift r) (\<lambda>ids.
     js_bind (single_method (tc_tokenStarts tc bs ids)) (\<lambda>starts.
     js_bind (single_method (tc_reservedFound tc bs)) (\<lambda>found.
     js_ret \<lparr>re_ids = ids, re_starts = starts, re_found = found\<rparr>)))"

text \<open>\<^verbatim>\<open>decode\<close>, \<^verbatim>\<open>decodeBytes\<close> and \<^verbatim>\<open>decodeStats\<close> forward to the decoder of the session.\<close>

definition tier_forward :: "('a \<Rightarrow> ('d, 'r) js) \<Rightarrow> 'a \<Rightarrow> ('d tier_state, 'r) js" where
  "tier_forward f arg = (\<lambda>s.
     if te_closed s then (Inl session_closed, s)
     else (case f arg (te_decoder s) of (r, d) \<Rightarrow> (r, s\<lparr>te_decoder := d\<rparr>)))"

definition tier_vocabSize :: "'o tier_core \<Rightarrow> ('d tier_state, nat) js" where
  "tier_vocabSize tc = js_bind tier_ensureOpen (\<lambda>_. single_method (Inr (tc_vocabSize tc)))"

definition tier_tokenBytes :: "'o tier_core \<Rightarrow> jsval \<Rightarrow> ('d tier_state, bytes) js" where
  "tier_tokenBytes tc tid =
     js_bind tier_ensureOpen (\<lambda>_.
     js_bind (js_lift (try_if (\<not> validTokenId tid) (TypeError ''token id must be a u32 value''))) (\<lambda>_.
     single_method (tc_tokenBytes tc (u32_of_jsval tid))))"

subsection \<open>The first activation\<close>

text \<open>
  The end of \<^verbatim>\<open>createTierRuntime\<close>: what the activation of the initial tier gave decides the tier of
  the handle that is returned; a failure throws only when the tier was asked for by name.
\<close>

definition first_activation ::
  "string option \<Rightarrow> tier \<Rightarrow> js_error + tier \<Rightarrow> telemetry \<Rightarrow> js_error + tier \<times> telemetry" where
  "first_activation requested initialTier activated lastTelemetry =
     (case activated of
        Inr _ \<Rightarrow> Inr (initialTier, lastTelemetry)
      | Inl e \<Rightarrow>
          if requested \<noteq> None \<and> requested \<noteq> Some ''auto'' then Inl e
          else Inr (TierSingle, cause_telemetry TierSingle True (tier_name initialTier @ ''-initialization: '' @ error_message e)))"

subsection \<open>Sessions of encodes\<close>

text \<open>
  The steps of a session as far as encoding goes: calls of \<^verbatim>\<open>encode\<close> on any tier, some of which
  settle at once and some when their workers have answered, in any order; the synchronous calls
  between them; and the two halves of \<^verbatim>\<open>close\<close>. The calls in flight carry their tier and bytes, the
  settled ones their input and result.
\<close>

type_synonym 'd encode_session =
  "'d tier_state \<times> (encode_input \<times> tier \<times> bytes) list \<times> (encode_input \<times> (js_error + u32 list)) list"

inductive encode_step :: "'o tier_core \<Rightarrow> 'd encode_session \<Rightarrow> 'd encode_session \<Rightarrow> bool" for tc :: "'o tier_core" where
  settles: "begin_encode tc t i None s = Some (Begun r, s') \<Longrightarrow> encode_step tc (s, fl, st) (s', fl, (i, r) # st)"
| awaits: "begin_encode tc t i None s = Some (Awaiting bs, s') \<Longrightarrow> encode_step tc (s, fl, st) (s', fl @ [(i, t, bs)], st)"
| finishes: "k < length fl \<Longrightarrow> fl ! k = (i, t, bs) \<Longrightarrow> tier_attempt tc t bs a \<Longrightarrow>
    finish_encodeForTier tc t bs a s = (r, s') \<Longrightarrow>
    encode_step tc (s, fl, st) (s', take k fl @ drop (Suc k) fl, (i, r) # st)"
| sync: "tier_encodeSync tc i None s = Some (r, s') \<Longrightarrow> encode_step tc (s, fl, st) (s', fl, (i, r) # st)"
| reserved: "tier_encodeReserved tc t i policy s = (r, s') \<Longrightarrow> encode_step tc (s, fl, st) (s', fl, st)"
| into: "single_encodeInto tc f str destination s = Some (r, s') \<Longrightarrow> \<not> te_closed s \<Longrightarrow> encode_step tc (s, fl, st) (s', fl, st)"
| forward: "tier_forward (f :: unit \<Rightarrow> ('d, unit) js) arg s = (r, s') \<Longrightarrow> encode_step tc (s, fl, st) (s', fl, st)"
| close1: "encode_step tc (s, fl, st) (s\<lparr>te_closed := True\<rparr>, fl, st)"
| close2: "te_closed s \<Longrightarrow> encode_step tc (s, fl, st) (s\<lparr>te_freed := True\<rparr>, fl, st)"

inductive encode_reaches :: "'o tier_core \<Rightarrow> 'd \<Rightarrow> 'd encode_session \<Rightarrow> bool" for tc :: "'o tier_core" and d :: 'd where
  start: "encode_reaches tc d
    (\<lparr>te_closed = False, te_freed = False, te_resident = resident_new, te_telemetry = plain_telemetry TierSingle, te_decoder = d\<rparr>, [], [])"
| step: "encode_reaches tc d c \<Longrightarrow> encode_step tc c c' \<Longrightarrow> encode_reaches tc d c'"

text \<open>
  The contract of the encoders: for bytes the workers are given, the ids of the pretokens on a
  worker are together the ids of the tokenizer, and the controller gives the same ids.
\<close>

definition to_workers :: "'o tier_core \<Rightarrow> bytes \<Rightarrow> bool" where
  "to_workers tc bs \<longleftrightarrow> tc_format tc \<noteq> ''htk'' \<or> tc_workerInputSupported tc bs"

definition tier_laws ::
  "'o tier_core \<Rightarrow> (bytes \<Rightarrow> 'o \<Rightarrow> bool) \<Rightarrow> (bytes \<Rightarrow> (nat \<times> nat) option \<Rightarrow> 'o \<Rightarrow> bool) \<Rightarrow> ('o \<Rightarrow> nat) \<Rightarrow> bool" where
  "tier_laws tc fresh pending weight \<longleftrightarrow>
     encoder_laws (tc_encoder tc) \<and> overlap_laws (tc_overlap tc) (tc_workerEncode tc) fresh pending weight \<and>
     short_arrays (tc_workerEncode tc) \<and>
     (\<forall>bs ranges. to_workers tc bs \<and> tc_pretokenRanges tc bs = Inr ranges \<longrightarrow>
        sum_list (map length (map (range_part bs) ranges)) < 2 ^ 32 \<and>
        (\<forall>idss. encode_each (tc_workerEncode tc) (map (range_part bs) ranges) = Inr idss \<longrightarrow>
           en_encode (tc_encoder tc) bs = Inr (concat idss))) \<and>
     (\<forall>bs ids. to_workers tc bs \<and> tc_sharedEncode tc bs = Inr ids \<longrightarrow> en_encode (tc_encoder tc) bs = Inr ids)"

text \<open>What the workers gave is what the tokenizer gives.\<close>

lemma attempt_exact:
  assumes "tier_laws tc fresh pending weight" and "to_workers tc bs" and "tier_attempt tc t bs (Inr (ids, counts))"
  shows "en_encode (tc_encoder tc) bs = Inr ids"
proof (cases "t = TierWorker")
  case True
  then obtain ranges pool n run tel where run: "tc_pretokenRanges tc bs = Inr ranges"
    "pool_run (tc_workerEncode tc) (tc_overlap tc)
       (start_encode (tc_overlap tc) (en_chunkSize (tc_encoder tc)) (map (range_part bs) ranges) pool) n run"
    "encode_outcome (length ranges) run = Some (Inr (ids, tel))"
    using assms(3) by (auto simp: tier_attempt_def worker_attempt_def)
  have laws: "overlap_laws (tc_overlap tc) (tc_workerEncode tc) fresh pending weight" "short_arrays (tc_workerEncode tc)"
    "sum_list (map length (map (range_part bs) ranges)) < 2 ^ 32"
    using assms(1,2) run(1) unfolding tier_laws_def by blast+
  obtain idss where "encode_each (tc_workerEncode tc) (map (range_part bs) ranges) = Inr idss" "ids = concat idss"
    using pool_encode_exact [OF laws run(2,3)] by blast
  then show ?thesis using assms(1,2) run(1) unfolding tier_laws_def by blast
next
  case False
  then have "tc_sharedEncode tc bs = Inr ids" using assms(3) by (simp add: tier_attempt_def shared_attempt_def)
  then show ?thesis using assms(1,2) unfolding tier_laws_def by blast
qed

text \<open>The result of a settled call, and the invariant.\<close>

definition encode_settled :: "'o tier_core \<Rightarrow> bool \<Rightarrow> encode_input \<Rightarrow> js_error + u32 list \<Rightarrow> bool" where
  "encode_settled tc shut i r \<longleftrightarrow>
     r = encode_reference (tc_encoder tc) i \<or> r = Inl (PlainError ''resident input capacity overflow'') \<or>
     shut \<and> (\<exists>e. r = Inl e)"

definition encode_inv :: "'o tier_core \<Rightarrow> 'd encode_session \<Rightarrow> bool" where
  "encode_inv tc c \<longleftrightarrow>
     (case c of (s, fl, st) \<Rightarrow>
       resident_ok (te_resident s) \<and> (te_freed s \<longrightarrow> te_closed s) \<and>
       (\<forall>(i, t, bs) \<in> set fl. inputBytes i = Inr bs \<and> to_workers tc bs) \<and>
       (\<forall>(i, r) \<in> set st. encode_settled tc (te_closed s) i r))"

lemma single_encode_returns:
  assumes "resident_ok (te_resident s)" and "\<not> te_freed s" and "encoder_laws (tc_encoder tc)"
  shows "\<exists>r ri. single_encode tc i s = Some (r, s\<lparr>te_resident := ri\<rparr>) \<and> resident_ok ri \<and> encode_settled tc shut i r"
  using encodeSingle_returns [OF assms(1,3), of i] assms(2) by (auto simp: single_encode_def encode_settled_def)

lemma fallback_encode_result:
  assumes "\<not> te_freed s"
  shows "\<exists>tel. fallback_encode tc t bs cause s = (en_encode (tc_encoder tc) bs, s\<lparr>te_telemetry := tel\<rparr>)"
proof -
  have keep: "s\<lparr>te_telemetry := te_telemetry s\<rparr> = s" by simp
  show ?thesis
    using assms keep
    by (cases "en_encode (tc_encoder tc) bs")
      (auto simp: fallback_encode_def single_method_def set_telemetry_def js_bind_def js_ret_def intro: exI [of _ "te_telemetry s"])
qed

lemma begin_encodeForTier_result:
  assumes "resident_ok (te_resident s)" and "te_freed s \<longrightarrow> te_closed s" and "encoder_laws (tc_encoder tc)"
  shows "\<exists>b s'. begin_encodeForTier tc t i s = Some (b, s') \<and> te_closed s' = te_closed s \<and> te_freed s' = te_freed s \<and>
    resident_ok (te_resident s') \<and>
    (case b of Begun r \<Rightarrow> encode_settled tc (te_closed s) i r | Awaiting bs \<Rightarrow> inputBytes i = Inr bs \<and> to_workers tc bs)"
proof (cases "te_closed s")
  case True
  then show ?thesis using assms(1) by (simp add: begin_encodeForTier_def encode_settled_def)
next
  case False
  then have live: "\<not> te_freed s" using assms(2) by blast
  show ?thesis
  proof (cases "t = TierSingle")
    case True
    obtain r ri where "single_encode tc i s = Some (r, s\<lparr>te_resident := ri\<rparr>)" "resident_ok ri" "encode_settled tc (te_closed s) i r"
      using single_encode_returns [OF assms(1) live assms(3)] by blast
    then show ?thesis using False True by (auto simp: begin_encodeForTier_def split: sum.splits)
  next
    case other: False
    show ?thesis
    proof (cases "inputBytes i")
      case (Inl e)
      then show ?thesis using False other assms(1) by (simp add: begin_encodeForTier_def encode_settled_def encode_reference_def)
    next
      case (Inr bs)
      obtain tel where "fallback_encode tc t bs ''resident-single-policy'' s = (en_encode (tc_encoder tc) bs, s\<lparr>te_telemetry := tel\<rparr>)"
        using fallback_encode_result [OF live] by blast
      then show ?thesis
        using False other Inr assms(1) live
        by (simp add: begin_encodeForTier_def encode_settled_def encode_reference_def single_method_def to_workers_def)
    qed
  qed
qed

lemma finish_encodeForTier_result:
  assumes "tier_laws tc fresh pending weight" and "te_freed s \<longrightarrow> te_closed s"
    and "inputBytes i = Inr bs" and "to_workers tc bs" and "tier_attempt tc t bs a"
    and "finish_encodeForTier tc t bs a s = (r, s')"
  shows "encode_settled tc (te_closed s) i r \<and> (\<exists>tel. s' = s\<lparr>te_telemetry := tel\<rparr>)"
proof (cases a)
  case (Inr p)
  then obtain ids counts where p: "a = Inr (ids, counts)" by (cases p) simp
  have "en_encode (tc_encoder tc) bs = Inr ids" using attempt_exact [OF assms(1,4)] assms(5) p by blast
  then show ?thesis
    using assms(3,6) p by (auto simp: finish_encodeForTier_def encode_settled_def encode_reference_def)
next
  case (Inl e)
  show ?thesis
  proof (cases "te_closed s")
    case True
    then have "r = Inl e" "s' = s\<lparr>te_telemetry := te_telemetry s\<rparr>" using assms(6) Inl by (simp_all add: finish_encodeForTier_def)
    moreover have "s = s\<lparr>te_telemetry := te_telemetry s\<rparr>" by simp
    ultimately show ?thesis using True unfolding encode_settled_def by blast
  next
    case False
    then obtain tel where "fallback_encode tc t bs (error_message e) s = (en_encode (tc_encoder tc) bs, s\<lparr>te_telemetry := tel\<rparr>)"
      using fallback_encode_result assms(2) by blast
    then show ?thesis using assms(3,6) Inl False by (auto simp: finish_encodeForTier_def encode_settled_def encode_reference_def)
  qed
qed

text \<open>The synchronous calls leave the session open or closed as it is, and the buffer usable.\<close>

definition same_session :: "'d tier_state \<Rightarrow> 'd tier_state \<Rightarrow> bool" where
  "same_session s s' \<longleftrightarrow> te_closed s' = te_closed s \<and> te_freed s' = te_freed s \<and> (resident_ok (te_resident s) \<longrightarrow> resident_ok (te_resident s'))"

lemma tier_encodeReserved_same: "tier_encodeReserved tc t i policy s = (r, s') \<Longrightarrow> same_session s s'"
  by (auto simp: tier_encodeReserved_def tier_ensureOpen_def js_bind_def js_lift_def single_method_def set_telemetry_def
      js_ret_def same_session_def split: prod.splits sum.splits if_splits)

lemma tier_forward_same: "tier_forward f arg s = (r, s') \<Longrightarrow> same_session s s'"
  by (auto simp: tier_forward_def same_session_def split: prod.splits if_splits)

lemma encodeInto_keeps_ok:
  assumes "resident_ok ri" and "encodeResidentStringInto en f str ri destination = Some (r, ri', dst)"
  shows "resident_ok ri'"
proof -
  obtain r1 ri1 where loop: "resident_loop str 0 ri = Some (r1, ri1)" "resident_ok ri1"
    using resident_loop_returns [OF assms(1), of 0 str] by blast
  show ?thesis
  proof (cases r1)
    case (Inl e)
    then show ?thesis using assms(2) loop by (simp add: encodeResidentStringInto_def)
  next
    case (Inr n)
    let ?g = "case en_chunked en of Some f \<Rightarrow> f (en_chunkSize en) | None \<Rightarrow> f"
    obtain r2 ri2 where call: "resident_call ?g n ri1 = (r2, ri2)" by fastforce
    then have "ri' = ri2" using assms(2) loop Inr by (auto simp: encodeResidentStringInto_def split: sum.splits prod.splits)
    then show ?thesis using resident_call_ok [OF loop(2) call] by simp
  qed
qed

lemma single_encodeInto_same:
  assumes "single_encodeInto tc f str destination s = Some (r, s')" and "resident_ok (te_resident s)"
  shows "same_session s s'"
proof (cases "te_freed s")
  case False
  obtain r1 ri1 dst where into: "encodeResidentStringInto (tc_encoder tc) f str (te_resident s) destination = Some (r1, ri1, dst)"
    using assms(1) False by (auto simp: single_encodeInto_def)
  then have "resident_ok ri1" using encodeInto_keeps_ok [OF assms(2)] by blast
  then show ?thesis using assms(1) False into by (auto simp: single_encodeInto_def same_session_def)
qed (use assms in \<open>simp add: single_encodeInto_def same_session_def\<close>)

lemma tier_encodeSync_result:
  assumes "tier_encodeSync tc i None s = Some (r, s')" and "resident_ok (te_resident s)" and "te_freed s \<longrightarrow> te_closed s"
    and "encoder_laws (tc_encoder tc)"
  shows "same_session s s' \<and> encode_settled tc (te_closed s) i r"
proof (cases "te_closed s")
  case False
  then obtain r1 ri where "single_encode tc i s = Some (r1, s\<lparr>te_resident := ri\<rparr>)" "resident_ok ri" "encode_settled tc (te_closed s) i r1"
    using single_encode_returns [OF assms(2) _ assms(4)] assms(3) by blast
  then show ?thesis using assms(1) False by (auto simp: tier_encodeSync_def same_session_def)
qed (use assms(1) in \<open>auto simp: tier_encodeSync_def same_session_def encode_settled_def\<close>)

lemma encode_settled_mono: "encode_settled tc shut i r \<Longrightarrow> shut \<le> shut' \<Longrightarrow> encode_settled tc shut' i r"
  by (auto simp: encode_settled_def)

lemma encode_inv_same:
  assumes "encode_inv tc (s, fl, st)" and "same_session s s'"
  shows "encode_inv tc (s', fl, st)"
    and "encode_settled tc (te_closed s) i r \<Longrightarrow> encode_inv tc (s', fl, (i, r) # st)"
    and "inputBytes i = Inr bs \<Longrightarrow> to_workers tc bs \<Longrightarrow> encode_inv tc (s', fl @ [(i, t, bs)], st)"
    and "encode_settled tc (te_closed s) i r \<Longrightarrow> encode_inv tc (s', take k fl @ drop (Suc k) fl, (i, r) # st)"
  using assms by (auto simp: encode_inv_def same_session_def dest: in_set_takeD in_set_dropD)

lemma encode_inv_step:
  assumes "encode_step tc c c'" and "tier_laws tc fresh pending weight" and "encode_inv tc c"
  shows "encode_inv tc c'"
  using assms(1,3)
proof (induction rule: encode_step.induct)
  have laws: "encoder_laws (tc_encoder tc)" using assms(2) by (simp add: tier_laws_def)
  note begin_result = begin_encodeForTier_result [OF _ _ laws]
  {
    case (settles t i s r s' fl st)
    have base: "resident_ok (te_resident s)" "te_freed s \<longrightarrow> te_closed s" using settles(2) by (simp_all add: encode_inv_def)
    have "same_session s s' \<and> encode_settled tc (te_closed s) i r"
      using begin_result [OF base, of t i] settles(1) by (auto simp: begin_encode_def same_session_def)
    then show ?case using encode_inv_same(2) [OF settles(2)] by blast
  next
    case (awaits t i s bs s' fl st)
    have base: "resident_ok (te_resident s)" "te_freed s \<longrightarrow> te_closed s" using awaits(2) by (simp_all add: encode_inv_def)
    have "same_session s s' \<and> inputBytes i = Inr bs \<and> to_workers tc bs"
      using begin_result [OF base, of t i] awaits(1) by (auto simp: begin_encode_def same_session_def)
    then show ?case using encode_inv_same(3) [OF awaits(2)] by blast
  next
    case (finishes k fl i t bs a s r s' st)
    have "(i, t, bs) \<in> set fl" using finishes(1,2) by (metis nth_mem)
    then have b: "inputBytes i = Inr bs" "to_workers tc bs" and base: "te_freed s \<longrightarrow> te_closed s"
      using finishes(5) by (auto simp: encode_inv_def)
    have "encode_settled tc (te_closed s) i r \<and> (\<exists>tel. s' = s\<lparr>te_telemetry := tel\<rparr>)"
      by (rule finish_encodeForTier_result [OF assms(2) base b finishes(3,4)])
    then show ?case using encode_inv_same(4) [OF finishes(5)] by (auto simp: same_session_def)
  next
    case (sync i s r s' fl st)
    have base: "resident_ok (te_resident s)" "te_freed s \<longrightarrow> te_closed s" using sync(2) by (simp_all add: encode_inv_def)
    show ?case using tier_encodeSync_result [OF sync(1) base laws] encode_inv_same(2) [OF sync(2)] by blast
  next
    case (reserved t i policy s r s' fl st)
    then show ?case by (blast intro: encode_inv_same(1) tier_encodeReserved_same)
  next
    case (into f str destination s r s' fl st)
    then have "resident_ok (te_resident s)" by (simp add: encode_inv_def)
    then show ?case using encode_inv_same(1) [OF into(3)] single_encodeInto_same [OF into(1)] by blast
  next
    case (forward f arg s r s' fl st)
    then show ?case by (blast intro: encode_inv_same(1) tier_forward_same)
  next
    case (close1 s fl st)
    then show ?case by (auto simp: encode_inv_def intro: encode_settled_mono)
  next
    case (close2 s fl st)
    then show ?case by (auto simp: encode_inv_def)
  }
qed

lemma encode_inv_reaches:
  assumes "encode_reaches tc d c" and "tier_laws tc fresh pending weight"
  shows "encode_inv tc c"
  using assms(1)
proof (induction rule: encode_reaches.induct)
  case start
  then show ?case by (simp add: encode_inv_def resident_ok_new)
next
  case (step c c')
  then show ?case using assms(2) by (blast intro: encode_inv_step)
qed

subsection \<open>Properties\<close>


text \<open>
  A tokenizer with one id per byte. Two calls are in flight; the second, on the controller, is
  answered first, and the first fails and is served by the resident tokenizer.
\<close>

definition byte_tiers :: "(bytes \<times> nat \<times> u32 list) tier_core" where
  "byte_tiers = \<lparr>tc_format = ''htk'', tc_encoder = byte_encoder, tc_workerInputSupported = (\<lambda>bs. True),
     tc_pretokenRanges = (\<lambda>bs. if length bs < 16 then Inr [(0, length bs)] else Inl (RangeError ''too long'')),
     tc_overlap = two_part,
     tc_encodeReserved = (\<lambda>bs _ _ _ _. Inr \<lparr>re_ids = map ucast bs, re_starts = [0..<length bs], re_found = []\<rparr>),
     tc_tokenStarts = (\<lambda>bs ids. Inr [0..<length bs]), tc_reservedFound = (\<lambda>bs. Inr []), tc_vocabSize = 256,
     tc_tokenBytes = (\<lambda>t. Inr [ucast t]), tc_workerEncode = byte_ids, tc_sharedEncode = byte_ids\<rparr>"

lemma byte_tiers_laws: "tier_laws byte_tiers two_part_fresh two_part_pending two_part_weight"
proof -
  have "encode_each byte_ids (map (range_part bs) [(0, length bs)]) = Inr idss \<Longrightarrow> en_encode byte_encoder bs = Inr (concat idss)" for bs idss
    by (auto simp: try_bind_Inr range_part_def js_subarray_def byte_ids_def byte_encoder_def split: if_splits)
  moreover have "byte_ids bs = Inr ids \<Longrightarrow> en_encode byte_encoder bs = Inr ids" for bs ids
    by (auto simp: byte_ids_def byte_encoder_def split: if_splits)
  moreover have "encoder_laws byte_encoder" by (simp add: encoder_laws_def byte_encoder_def)
  moreover have "sum_list (map length (map (range_part bs) [(0, length bs)])) < 2 ^ 32" if "length bs < 16" for bs
    using that by (simp add: range_part_def js_subarray_def)
  ultimately show ?thesis
    using two_part_laws byte_ids_short
    by (auto simp: tier_laws_def byte_tiers_def simp del: encode_each.simps list.map split: if_splits)
qed

lemma two_calls:
  "\<exists>s :: unit tier_state. encode_reaches byte_tiers () (s, [], [(InputBytes [1, 2], Inr [1, 2]), (InputBytes [3], Inr [3])]) \<and> \<not> te_closed s"
proof -
  let ?s0 = "\<lparr>te_closed = False, te_freed = False, te_resident = resident_new, te_telemetry = plain_telemetry TierSingle, te_decoder = ()\<rparr>"
  let ?tel = "\<lambda>f c n. \<lparr>tl_tier = f, tl_fallback = c, tl_cause = n, tl_counts = []\<rparr>"
  note defs = begin_encode_def begin_encodeForTier_def byte_tiers_def inputBytes_def single_method_def
  have r0: "encode_reaches byte_tiers () (?s0, [], [])" by (rule encode_reaches.start)
  have "begin_encode byte_tiers TierWorker (InputBytes [1, 2]) None ?s0 = Some (Awaiting [1, 2], ?s0)" by (simp add: defs)
  from encode_reaches.step [OF r0 encode_step.awaits [OF this]]
  have r1: "encode_reaches byte_tiers () (?s0, [(InputBytes [1, 2], TierWorker, [1, 2])], [])" by simp
  have "begin_encode byte_tiers TierShared (InputBytes [3]) None ?s0 = Some (Awaiting [3], ?s0)" by (simp add: defs)
  from encode_reaches.step [OF r1 encode_step.awaits [OF this]]
  have r2: "encode_reaches byte_tiers () (?s0, [(InputBytes [1, 2], TierWorker, [1, 2]), (InputBytes [3], TierShared, [3])], [])" by simp
  let ?s1 = "?s0\<lparr>te_telemetry := \<lparr>tl_tier = TierShared, tl_fallback = False, tl_cause = None, tl_counts = shared_counts []\<rparr>\<rparr>"
  have "tier_attempt byte_tiers TierShared [3] (Inr ([3], shared_counts []))"
    by (auto simp: tier_attempt_def shared_attempt_def byte_tiers_def byte_ids_def)
  moreover have "finish_encodeForTier byte_tiers TierShared [3] (Inr ([3], shared_counts [])) ?s0 = (Inr [3], ?s1)"
    by (simp add: finish_encodeForTier_def)
  ultimately have "encode_step byte_tiers (?s0, [(InputBytes [1, 2], TierWorker, [1, 2]), (InputBytes [3], TierShared, [3])], [])
      (?s1, [(InputBytes [1, 2], TierWorker, [1, 2])], [(InputBytes [3], Inr [3])])"
    using encode_step.finishes [of 1 "[(InputBytes [1, 2], TierWorker, [1, 2]), (InputBytes [3], TierShared, [3])]"] by fastforce
  from encode_reaches.step [OF r2 this]
  have r3: "encode_reaches byte_tiers () (?s1, [(InputBytes [1, 2], TierWorker, [1, 2])], [(InputBytes [3], Inr [3])])" .
  let ?s2 = "?s1\<lparr>te_telemetry := cause_telemetry TierWorker True ''gone''\<rparr>"
  have "tier_attempt byte_tiers TierWorker [1, 2] (Inl (PlainError ''gone''))" by (simp add: tier_attempt_def worker_attempt_def)
  moreover have "finish_encodeForTier byte_tiers TierWorker [1, 2] (Inl (PlainError ''gone'')) ?s1 = (Inr [1, 2], ?s2)"
    by (simp add: finish_encodeForTier_def fallback_encode_def single_method_def set_telemetry_def js_bind_def js_ret_def
        byte_tiers_def byte_encoder_def)
  ultimately have "encode_step byte_tiers (?s1, [(InputBytes [1, 2], TierWorker, [1, 2])], [(InputBytes [3], Inr [3])])
      (?s2, [], [(InputBytes [1, 2], Inr [1, 2]), (InputBytes [3], Inr [3])])"
    using encode_step.finishes [of 0 "[(InputBytes [1, 2], TierWorker, [1, 2])]"] by fastforce
  from encode_reaches.step [OF r3 this] show ?thesis by (intro exI [of _ ?s2]) simp
qed



lemma single_encode_string:
  assumes "resident_ok (te_resident s)" and "\<not> te_freed s" and "encoder_laws (tc_encoder tc)" and "length (utf8_encode str) \<le> 2 ^ 31"
  shows "\<exists>ri. single_encode tc (InputString str) s = Some (encode_reference (tc_encoder tc) (InputString str), s\<lparr>te_resident := ri\<rparr>) \<and>
    resident_ok ri"
proof (cases "en_resident (tc_encoder tc)")
  case None
  then show ?thesis using assms(1,2) by (intro exI [of _ "te_resident s"]) (simp add: single_encode_def encodeSingle_def encode_reference_def)
next
  case (Some f)
  moreover have "f (utf8_encode str) = en_encode (tc_encoder tc) (utf8_encode str)"
    using assms(3) Some by (simp add: encoder_laws_def)
  ultimately show ?thesis
    using encodeResidentString_returns [OF assms(1), of f str] assms(2,4)
    by (auto simp: single_encode_def encodeSingle_def encode_reference_def inputBytes_def)
qed

text \<open>
  \<^verbatim>\<open>encodeInto\<close> writes what \<^verbatim>\<open>encode\<close> would return: on an open session, on the single tier, a
  string within the resident buffer gives the number of its ids and the ids at the start of the
  destination, or throws and leaves the destination as it was.
\<close>

theorem tier_encodeInto_exact:
  assumes "resident_ok (te_resident s)" and "\<not> te_closed s" and "\<not> te_freed s" and "encoder_laws (tc_encoder tc)"
    and "length (utf8_encode str) \<le> 2 ^ 31"
  shows "\<exists>s'. begin_encodeInto tc TierSingle (InputString str) (Some dst) None s =
      Some (Begun (copy_result dst (encode_reference (tc_encoder tc) (InputString str))), s') \<and> resident_ok (te_resident s')"
proof (cases "en_into (tc_encoder tc)")
  case None
  obtain r ri where single: "single_encode tc (InputString str) s = Some (r, s\<lparr>te_resident := ri\<rparr>)" "resident_ok ri"
    and r: "r = encode_reference (tc_encoder tc) (InputString str)"
    using single_encode_string [OF assms(1,3,4,5)] by blast
  show ?thesis using None assms(2) single
    by (cases r) (simp_all add: r [symmetric] begin_encodeInto_def begin_encode_def begin_encodeForTier_def)
next
  case (Some into)
  obtain ri where "resident_ok ri" "encodeResidentStringInto (tc_encoder tc) into str (te_resident s) dst =
    Some (case en_encode (tc_encoder tc) (utf8_encode str) of
       Inl e \<Rightarrow> (Inl e, ri, dst)
     | Inr ids \<Rightarrow> if length ids \<le> length dst then (Inr (length ids), ri, ids @ drop (length ids) dst)
                  else (Inl (capacity_error (length dst) (length ids)), ri, dst))"
    using resident_encode_into [OF assms(1,4) Some assms(5)] by blast
  then show ?thesis using Some assms(2,3)
    by (cases "en_encode (tc_encoder tc) (utf8_encode str)")
      (auto simp: begin_encodeInto_def single_encodeInto_def copy_result_def copyIdsInto_def encode_reference_def inputBytes_def)
qed

definition fresh_tier_state :: "unit tier_state" where
  "fresh_tier_state = \<lparr>te_closed = False, te_freed = False, te_resident = resident_new, te_telemetry = plain_telemetry TierSingle,
     te_decoder = ()\<rparr>"


theorem tier_encodeInto_exact_witness:
  "\<exists>s'. begin_encodeInto byte_tiers TierSingle (InputString [0x41, 0x42]) (Some [9, 9, 9]) None fresh_tier_state =
      Some (Begun (copy_result [9, 9, 9] (encode_reference byte_encoder (InputString [0x41, 0x42]))), s') \<and> resident_ok (te_resident s')"
  using tier_encodeInto_exact [of fresh_tier_state byte_tiers "[0x41, 0x42]" "[9, 9, 9]"] byte_tiers_laws
  by (simp add: fresh_tier_state_def resident_ok_new tier_laws_def byte_tiers_def utf8_encode.simps first_scalar_def
      scalar_bytes_def is_high_def is_low_def word_le_nat_alt)

end
