(* ===== verification/Sentence_Piece.thy ===== *)
theory Sentence_Piece
  imports Tier_Encode Tier_Select Public_Runtime
begin

text \<open>
  The runtime of SentencePiece vocabularies, \<^verbatim>\<open>sentencePieceRuntime\<close> of \<^verbatim>\<open>index.mjs\<close>: what it checks
  and constructs, the flags of its decoder, and its methods. The functions \<^verbatim>\<open>destinationIds\<close>,
  \<^verbatim>\<open>copyIdsInto\<close>, \<^verbatim>\<open>reservedSelection\<close> and \<^verbatim>\<open>reservedPolicy\<close> of \<^verbatim>\<open>index.mjs\<close> repeat those of
  \<^verbatim>\<open>tier-runtime.mjs\<close>, and their models are used here.
\<close>

subsection \<open>Loading\<close>

text \<open>The options of \<^verbatim>\<open>fromBytes\<close>. A tier that is given is a string.\<close>

record load_call =
  lc_validate :: jsval
  lc_workers :: jsval
  lc_tier :: "string option"
  lc_optimizations :: configuration

text \<open>
  The tokenizer of the package for SentencePiece vocabularies. Its \<^verbatim>\<open>decode\<close> is the field
  \<open>c_decode\<close> of \<open>sp_core\<close>; it reads the metaspace marker as text structure, so that it is not the
  text of the tokens' bytes.
\<close>

record sp_tokenizer =
  sp_core :: core
  sp_encode :: "bytes \<Rightarrow> js_error + u32 list"
  sp_reserved :: encode_reserved
  sp_tokenStarts :: "bytes \<Rightarrow> u32 list \<Rightarrow> js_error + nat list"
  sp_reservedFound :: "bytes \<Rightarrow> js_error + jstring list"

record sp_module =
  sm_default :: "js_error + unit"
  sm_fromResolverTrustedHtk :: "(bytes \<Rightarrow> js_error + sp_tokenizer) option"
  sm_fromHtk :: "(bytes \<Rightarrow> js_error + sp_tokenizer) option"

definition check_sp_options :: "load_call \<Rightarrow> js_error + unit" where
  "check_sp_options os =
     try_bind (try_if (lc_workers os \<noteq> JUndefined \<and> \<not> positive_integer (lc_workers os))
       (TypeError ''workers must be a positive integer'')) (\<lambda>_.
     case lc_tier os of
       None \<Rightarrow> Inr ()
     | Some t \<Rightarrow> try_if (t \<noteq> ''single'') (PlainError (''the '' @ t @ '' tier is unavailable for sentencepiece vocabularies'')))"

definition sp_construct :: "sp_module \<Rightarrow> bool \<Rightarrow> bytes \<Rightarrow> js_error + sp_tokenizer" where
  "sp_construct m resolverTrusted bs =
     (case (if resolverTrusted then sm_fromResolverTrustedHtk m else sm_fromHtk m) of
        None \<Rightarrow> Inl (PlainError ''the wasm module has no resolver-provenance sentencepiece constructor'')
      | Some maker \<Rightarrow> maker bs)"

text \<open>The flags of its decoder: those of the configuration without the byte routes.\<close>

definition sp_flags :: "composed_flags \<Rightarrow> composed_flags" where
  "sp_flags u =
     u\<lparr>use_assembly := False, use_borrowedOutput := False, use_utf16Output := False, use_hotStrings := False,
       use_table := False, use_byteTable := False, use_mixedRuns := False, use_runCache := False,
       use_dirtyRunBatch := False, use_runStitcher := False, use_stringBuiltins := False\<rparr>"

text \<open>The variables of the runtime; \<^verbatim>\<open>close\<close> frees the tokenizer.\<close>

record 'w sp_state =
  ss_closed :: bool
  ss_freed :: bool
  ss_decoder :: "'w composed"

definition sentencePieceRuntime ::
  "bool \<Rightarrow> 'w engine \<Rightarrow> sp_module \<Rightarrow> bytes \<Rightarrow> load_call \<Rightarrow> bool \<Rightarrow> js_error + sp_tokenizer \<times> 'w sp_state" where
  "sentencePieceRuntime nodeRuntime en m bs os resolverTrusted =
     try_bind (check_sp_options os) (\<lambda>_.
     try_bind (sm_default m) (\<lambda>_.
     try_bind (sp_construct m resolverTrusted bs) (\<lambda>tokenizer.
     try_bind (resolveOptimizationConfig nodeRuntime (lc_optimizations os)) (\<lambda>cfg.
     try_bind (createComposedDecoder en (sp_core tokenizer) (Options (composed_options_of (sp_flags (oc_decode cfg))))) (\<lambda>(_, dec).
     Inr (tokenizer, \<lparr>ss_closed = False, ss_freed = False, ss_decoder = dec\<rparr>))))))"

subsection \<open>Methods\<close>

definition tokenizer_closed :: js_error where
  "tokenizer_closed = PlainError ''tokenizer is closed''"

definition sp_ensureOpen :: "('w sp_state, unit) js" where
  "sp_ensureOpen = (\<lambda>s. (if ss_closed s then Inl tokenizer_closed else Inr (), s))"

definition sp_method :: "js_error + 'a \<Rightarrow> ('w sp_state, 'a) js" where
  "sp_method r = (\<lambda>s. (if ss_freed s then Inl freed_error else r, s))"

definition textBytes :: "encode_input \<Rightarrow> js_error + bytes" where
  "textBytes i =
     (case i of InputString s \<Rightarrow> Inr (utf8_encode s) | _ \<Rightarrow> Inl (TypeError ''encode input must be a string''))"

text \<open>The policy is normalized before the text is looked at.\<close>

definition sp_encodeReserved :: "sp_tokenizer \<Rightarrow> encode_input \<Rightarrow> policy_value \<Rightarrow> ('w sp_state, reserved_encoding) js" where
  "sp_encodeReserved k i policy =
     js_bind sp_ensureOpen (\<lambda>_.
     js_bind (js_lift (normalizeReservedPolicy policy)) (\<lambda>(matched, refused).
     js_bind (js_lift (textBytes i)) (\<lambda>bs.
     sp_method (sp_reserved k bs (sel_all matched) (sel_names matched) (sel_all refused) (sel_names refused)))))"

definition sp_encodePlain :: "sp_tokenizer \<Rightarrow> encode_input \<Rightarrow> ('w sp_state, u32 list) js" where
  "sp_encodePlain k i =
     js_bind sp_ensureOpen (\<lambda>_. js_bind (js_lift (textBytes i)) (\<lambda>bs. sp_method (sp_encode k bs)))"

text \<open>\<^verbatim>\<open>encode\<close> and \<^verbatim>\<open>encodeSync\<close>.\<close>

definition sp_encode_call :: "sp_tokenizer \<Rightarrow> encode_input \<Rightarrow> policy_value option \<Rightarrow> ('w sp_state, u32 list) js" where
  "sp_encode_call k i reserved =
     (case reserved of
        None \<Rightarrow> sp_encodePlain k i
      | Some policy \<Rightarrow> js_bind (sp_encodeReserved k i policy) (\<lambda>e. js_ret (re_ids e)))"

definition sp_encodeInto ::
  "sp_tokenizer \<Rightarrow> encode_input \<Rightarrow> u32 list option \<Rightarrow> policy_value option \<Rightarrow> ('w sp_state, nat \<times> u32 list) js" where
  "sp_encodeInto k i destination reserved =
     (case destination of
        None \<Rightarrow> js_throw (TypeError ''encodeInto destination must be a Uint32Array'')
      | Some dst \<Rightarrow>
          js_bind (sp_encode_call k i reserved) (\<lambda>ids.
          case copyIdsInto dst ids of (r, dst') \<Rightarrow> js_bind (js_lift r) (\<lambda>n. js_ret (n, dst'))))"

text \<open>\<^verbatim>\<open>encodeDetailed\<close> does not call \<^verbatim>\<open>ensureOpen\<close> on its way without a policy.\<close>

definition sp_encodeDetailed :: "sp_tokenizer \<Rightarrow> encode_input \<Rightarrow> policy_value option \<Rightarrow> ('w sp_state, reserved_encoding) js" where
  "sp_encodeDetailed k i reserved =
     (case reserved of
        Some policy \<Rightarrow> sp_encodeReserved k i policy
      | None \<Rightarrow>
          js_bind (js_lift (textBytes i)) (\<lambda>bs.
          js_bind (sp_method (sp_encode k bs)) (\<lambda>ids.
          js_bind (sp_method (sp_tokenStarts k bs ids)) (\<lambda>starts.
          js_bind (sp_method (sp_reservedFound k bs)) (\<lambda>found.
          js_ret \<lparr>re_ids = ids, re_starts = starts, re_found = found\<rparr>)))))"

definition sp_decode :: "sp_tokenizer \<Rightarrow> memo_arg \<Rightarrow> ('w sp_state, jstring) js" where
  "sp_decode k ids =
     js_bind sp_ensureOpen (\<lambda>_ s.
     case composed_decode (sp_core k) ids (ss_decoder s) of (r, d) \<Rightarrow> (r, s\<lparr>ss_decoder := d\<rparr>))"

definition sp_tokenBytes :: "sp_tokenizer \<Rightarrow> jsval \<Rightarrow> ('w sp_state, bytes) js" where
  "sp_tokenBytes k tid =
     js_bind sp_ensureOpen (\<lambda>_.
     js_bind (js_lift (try_if (\<not> validTokenId tid) (TypeError ''token id must be a u32 value''))) (\<lambda>_.
     sp_method (c_tokenBytes (sp_core k) (u32_of_jsval tid))))"

definition sp_close :: "('w sp_state, unit) js" where
  "sp_close = (\<lambda>s. (Inr (), if ss_closed s then s else s\<lparr>ss_closed := True, ss_freed := True\<rparr>))"

subsection \<open>Decoding\<close>

text \<open>The decoder over the raw \<^verbatim>\<open>decode\<close>, without a table and hot strings.\<close>

definition raw_only :: "('w base \<times> (table_config \<times> table) option) \<times> hot option \<Rightarrow> bool" where
  "raw_only s \<longleftrightarrow> (\<exists>n. s = ((RawBase n, None), None))"

definition sp_text :: "core \<Rightarrow> u32 list \<Rightarrow> jstring option" where
  "sp_text c ids = okv (c_decode c ids)"

lemma raw_only_contract: "exact_decoder (below_memo c) raw_only (decode_by (sp_text c))"
proof (unfold_locales, goal_cases)
  case (1 s i r s')
  then obtain n where "s = ((RawBase n, None), None)" by (auto simp: raw_only_def)
  with 1 show ?case
    by (cases "tokenIds i")
      (auto simp: below_memo_def with_layer_def raw_only_def decode_by_def sp_text_def raw_decode_def js_simps)
qed

definition sp_decoder_inv :: "core \<Rightarrow> 'w composed \<Rightarrow> bool" where
  "sp_decoder_inv c = layer_inv (memo_inv raw_only (sp_text c)) raw_only"

interpretation sentencepiece: exact_decoder "composed_decode c" "sp_decoder_inv c" "\<lambda>a. decode_by (sp_text c) (ob_input a)" for c
proof -
  have "exact_decoder (\<lambda>a. below_memo c (ob_input a)) raw_only (\<lambda>a. decode_by (sp_text c) (ob_input a))"
    using raw_only_contract unfolding exact_decoder_def by blast
  then show "exact_decoder (composed_decode c) (sp_decoder_inv c) (\<lambda>a. decode_by (sp_text c) (ob_input a))"
    unfolding composed_decode_def sp_decoder_inv_def
    by (rule with_layer_contract [OF memo_decode_by_contract [OF raw_only_contract]])
qed

lemma check_sp_flags:
  "check_flags (sp_flags u) =
     (if use_nativeLatin1 u then Inl (TypeError ''native Latin-1 decode requires table decode'')
      else if use_portableLatin1 u then Inl (TypeError ''portable Latin-1 decode requires table decode'') else Inr ())"
  by (simp add: check_flags_def sp_flags_def try_if_def)

lemma sp_decoder_created:
  "createComposedDecoder en c (Options (composed_options_of (sp_flags u))) = Inr (v, dec) \<Longrightarrow> sp_decoder_inv c dec"
  using memo_start [where below = raw_only and i = "((RawBase 0, None), None)" and text_of = "sp_text c"]
  by (auto simp: createComposedDecoder_def Let_def try_bind_Inr create_base_def sp_flags_def when_on_Inr
      sp_decoder_inv_def layer_inv_def raw_only_def split: if_splits sum.splits)

subsection \<open>Properties\<close>

definition sp_open :: "sp_tokenizer \<Rightarrow> 'w sp_state \<Rightarrow> bool" where
  "sp_open k s \<longleftrightarrow> \<not> ss_closed s \<and> sp_decoder_inv (sp_core k) (ss_decoder s)"

interpretation sp_session: exact_decoder "sp_decode k" "sp_open k" "\<lambda>a. decode_by (sp_text (sp_core k)) (ob_input a)" for k
proof (unfold_locales, goal_cases)
  case (1 s a r s')
  obtain q d where call: "composed_decode (sp_core k) a (ss_decoder s) = (q, d)" by (metis surj_pair)
  have "sp_decoder_inv (sp_core k) (ss_decoder s)" using 1 by (simp add: sp_open_def)
  note sentencepiece.exact [OF this call]
  then show ?case using 1 call by (auto simp: sp_decode_def sp_ensureOpen_def sp_open_def js_bind_def)
qed

lemma sp_runtime_open:
  "sentencePieceRuntime nodeRuntime en m bs os resolverTrusted = Inr (k, s) \<Longrightarrow> sp_open k s"
  by (auto simp: sentencePieceRuntime_def try_bind_Inr sp_open_def dest: sp_decoder_created)

text \<open>
  A SentencePiece runtime decodes as its tokenizer does: under every configuration it loads
  with, whatever was decoded before and whatever is written into the caller's arrays between the
  calls, every call returns what the tokenizer's own decode gives for the ids it is handed.
\<close>

theorem sentencepiece_decode_exact:
  assumes "sentencePieceRuntime nodeRuntime en m bs os resolverTrusted = Inr (k, s)"
  shows "map okv (fst (decode_all (sp_decode k) args s)) = map (\<lambda>a. decode_by (sp_text (sp_core k)) (ob_input a)) args"
  using sp_session.decode_all_exact [OF sp_runtime_open [OF assms]] by blast

lemma sp_runtime_loads:
  assumes "check_sp_options os = Inr ()" and "sm_default m = Inr ()" and "sp_construct m resolverTrusted bs = Inr k"
    and "resolveOptimizationConfig nodeRuntime (lc_optimizations os) = Inr cfg"
  shows "(\<exists>s. sentencePieceRuntime nodeRuntime en m bs os resolverTrusted = Inr (k, s)) =
    (\<not> use_nativeLatin1 (oc_decode cfg) \<and> \<not> use_portableLatin1 (oc_decode cfg))"
proof -
  let ?u = "sp_flags (oc_decode cfg)"
  have off: "\<not> use_assembly ?u" "\<not> use_table ?u" "\<not> use_hotStrings ?u" by (simp_all add: sp_flags_def)
  then have b: "create_base en (sp_core k) ?u = Inr (RawBase 0)" by (simp add: create_base_def)
  obtain mm where mm: "createDecodeMemo (co_memoOptions (composed_options_of ?u)) = Inr mm"
    by (simp add: composed_options_of_def createDecodeMemo_def memo_positiveInteger_def try_if_def)
  show ?thesis
    using assms off by (simp add: sentencePieceRuntime_def createComposedDecoder_def Let_def b mm check_sp_flags when_on_value when_on_off)
qed

text \<open>
  C26. What a SentencePiece vocabulary needs to load: with options that are accepted and a tokenizer
  that is constructed, exactly the configurations that switch one of the Latin-1 decoders on are
  refused, although the flags they are for are not used.
\<close>

theorem sentencepiece_loads:
  assumes "check_sp_options os = Inr ()" and "sm_default m = Inr ()" and "sp_construct m resolverTrusted bs = Inr k"
    and "resolveOptimizationConfig nodeRuntime (lc_optimizations os) = Inr cfg"
  shows "(\<exists>s. sentencePieceRuntime nodeRuntime en m bs os resolverTrusted = Inr (k, s)) =
    (\<not> use_nativeLatin1 (oc_decode cfg) \<and> \<not> use_portableLatin1 (oc_decode cfg))"
  using sp_runtime_loads [OF assms] .

text \<open>A module that makes the example tokenizer of the decoders.\<close>

definition sample_sp_tokenizer :: sp_tokenizer where
  "sample_sp_tokenizer = \<lparr>sp_core = table_core example_tokens, sp_encode = (\<lambda>bs. Inr (map ucast bs)),
     sp_reserved = (\<lambda>bs _ _ _ _. Inr \<lparr>re_ids = map ucast bs, re_starts = [0..<length bs], re_found = []\<rparr>),
     sp_tokenStarts = (\<lambda>bs ids. Inr [0..<length bs]), sp_reservedFound = (\<lambda>bs. Inr [])\<rparr>"

definition sample_sp_module :: sp_module where
  "sample_sp_module = \<lparr>sm_default = Inr (), sm_fromResolverTrustedHtk = None, sm_fromHtk = Some (\<lambda>bs. Inr sample_sp_tokenizer)\<rparr>"

definition sample_sp_load :: load_call where
  "sample_sp_load = \<lparr>lc_validate = JUndefined, lc_workers = JUndefined, lc_tier = None, lc_optimizations = CfgUndefined\<rparr>"

lemma default_flags:
  "\<exists>r. resolveOptimizationConfig True CfgUndefined = Inr r \<and> \<not> use_nativeLatin1 (oc_decode r) \<and> \<not> use_portableLatin1 (oc_decode r)"
  using default_configuration [of True] by fastforce

theorem sentencepiece_loads_witness:
  "\<exists>s. sentencePieceRuntime True example_engine sample_sp_module [] sample_sp_load False = Inr (sample_sp_tokenizer, s)"
proof -
  obtain r where "resolveOptimizationConfig True CfgUndefined = Inr r" "\<not> use_nativeLatin1 (oc_decode r)" "\<not> use_portableLatin1 (oc_decode r)"
    using default_flags by blast
  then show ?thesis
    using sentencepiece_loads [of sample_sp_load sample_sp_module False "[]" sample_sp_tokenizer True r example_engine]
    by (simp add: sample_sp_load_def check_sp_options_def try_if_def sample_sp_module_def sp_construct_def)
qed

lemma sample_sp_loads: "\<exists>s. sentencePieceRuntime True example_engine sample_sp_module [] sample_sp_load False = Inr (sample_sp_tokenizer, s)"
proof -
  have "check_sp_options sample_sp_load = Inr ()" "sm_default sample_sp_module = Inr ()"
    "sp_construct sample_sp_module False [] = Inr sample_sp_tokenizer" "lc_optimizations sample_sp_load = CfgUndefined"
    by (simp_all add: sample_sp_load_def check_sp_options_def try_if_def sample_sp_module_def sp_construct_def)
  then show ?thesis using default_flags sp_runtime_loads by metis
qed

theorem sentencepiece_decode_exact_witness:
  "\<exists>s. sentencePieceRuntime True example_engine sample_sp_module [] sample_sp_load False = Inr (sample_sp_tokenizer, s) \<and>
     map okv (fst (decode_all (sp_decode sample_sp_tokenizer) memo_session s)) =
       map (\<lambda>a. decode_by (sp_text (table_core example_tokens)) (ob_input a)) memo_session"
proof -
  obtain s where "sentencePieceRuntime True example_engine sample_sp_module [] sample_sp_load False = Inr (sample_sp_tokenizer, s)"
    using sample_sp_loads by blast
  moreover from sentencepiece_decode_exact [OF this, of memo_session] show ?thesis
    using calculation by (auto simp: sample_sp_tokenizer_def)
qed

text \<open>
  C27. After \<^verbatim>\<open>close\<close> the methods of a SentencePiece runtime throw the error of a closed tokenizer,
  but for one: \<^verbatim>\<open>encodeDetailed\<close> without a policy goes on to the freed tokenizer, and what its
  caller sees is the error of the bindings.
\<close>

theorem sentencepiece_detailed_after_close:
  assumes "\<not> ss_closed t" and "s = snd (sp_close t)"
  shows "sp_encode_call k i reserved s = (Inl tokenizer_closed, s) \<and>
    sp_encodeInto k i (Some dst) reserved s = (Inl tokenizer_closed, s) \<and>
    sp_encodeDetailed k i (Some policy) s = (Inl tokenizer_closed, s) \<and>
    sp_decode k ids s = (Inl tokenizer_closed, s) \<and>
    sp_tokenBytes k tid s = (Inl tokenizer_closed, s) \<and>
    sp_encodeDetailed k (InputString str) None s = (Inl freed_error, s)"
  using assms
  by (simp add: sp_close_def sp_encode_call_def sp_encodePlain_def sp_encodeReserved_def sp_encodeInto_def
      sp_encodeDetailed_def sp_decode_def sp_tokenBytes_def sp_ensureOpen_def sp_method_def textBytes_def js_bind_def
      js_lift_def split: option.splits)

theorem sentencepiece_detailed_after_close_witness:
  "\<exists>s :: u32 list sp_state. ss_closed s \<and> sp_decode sample_sp_tokenizer (plain_array 7 [0]) s = (Inl tokenizer_closed, s) \<and>
     sp_encodeDetailed sample_sp_tokenizer (InputString [0x41]) None s = (Inl freed_error, s)"
proof -
  obtain t where "sentencePieceRuntime True example_engine sample_sp_module [] sample_sp_load False = Inr (sample_sp_tokenizer, t)"
    using sample_sp_loads by blast
  from sp_runtime_open [OF this] have open_t: "\<not> ss_closed t" by (simp add: sp_open_def)
  from sentencepiece_detailed_after_close [OF this refl] have
    "sp_decode sample_sp_tokenizer (plain_array 7 [0]) (snd (sp_close t)) = (Inl tokenizer_closed, snd (sp_close t))"
    "sp_encodeDetailed sample_sp_tokenizer (InputString [0x41]) None (snd (sp_close t)) = (Inl freed_error, snd (sp_close t))"
    by blast+
  moreover have "ss_closed (snd (sp_close t))" using open_t by (simp add: sp_close_def)
  ultimately show ?thesis by blast
qed

end
