(* ===== verification/Package_Entry.thy ===== *)
theory Package_Entry
  imports Sentence_Piece Tier_Select Public_Runtime
begin

text \<open>
  The entries of the package: \<^verbatim>\<open>fromBytes\<close> of \<^verbatim>\<open>index.mjs\<close> and of \<^verbatim>\<open>index-edge.mjs\<close>, and
  \<^verbatim>\<open>fromResolvedVocab\<close> of \<^verbatim>\<open>resolver-runtime.mjs\<close>: their checks, which runtime they create and
  with what options, and the public handle made of it.
\<close>

subsection \<open>Vocabularies\<close>

text \<open>A handle of a resolver, with the bytes it owns, or what a caller brings.\<close>

datatype vocab_input = VocabHandle bytes | VocabUint8 bytes | VocabArrayBuffer bytes | VocabForeign

definition entry_vocabularyBytes :: "vocab_input \<Rightarrow> js_error + bytes" where
  "entry_vocabularyBytes i =
     (case i of
        VocabUint8 bs \<Rightarrow> Inr bs
      | VocabArrayBuffer bs \<Rightarrow> Inr bs
      | _ \<Rightarrow> Inl (TypeError ''fromBytes input must be a Uint8Array or ArrayBuffer''))"

definition vocabularyInput :: "vocab_input \<Rightarrow> jsval \<Rightarrow> js_error + bytes \<times> bool" where
  "vocabularyInput i validate =
     (case i of
        VocabHandle bs \<Rightarrow> Inr (bs, validate \<noteq> JBool True)
      | _ \<Rightarrow> try_bind (entry_vocabularyBytes i) (\<lambda>bs. Inr (bs, False)))"

subsection \<open>The source of the module\<close>

text \<open>
  Where the WebAssembly module comes from when the caller gave no source. URLs are a type of the
  platform, with their protocol and the resolution of a name; \<open>read\<close> is \<^verbatim>\<open>readFile\<close>.
\<close>

datatype 'u wasm_source = SourceUndefined | SourceUrl 'u | SourceBytes bytes

definition defaultWasmSource ::
  "('u \<Rightarrow> string) \<Rightarrow> (string \<Rightarrow> 'u \<Rightarrow> 'u) \<Rightarrow> ('u \<Rightarrow> js_error + bytes) \<Rightarrow> 'u option \<Rightarrow> js_error + 'u wasm_source" where
  "defaultWasmSource protocol resolve read moduleUrl =
     (case moduleUrl of
        None \<Rightarrow> Inr SourceUndefined
      | Some url \<Rightarrow>
          if protocol url \<noteq> ''file:'' then Inr (SourceUrl (resolve ''hypertok_wasm_core_bg.wasm'' url))
          else try_bind (read (resolve ''hypertok_wasm_core_bg.wasm'' url)) (\<lambda>bs. Inr (SourceBytes bs)))"

definition module_source :: "'u wasm_source option \<Rightarrow> js_error + 'u wasm_source \<Rightarrow> js_error + 'u wasm_source" where
  "module_source given dflt = (case given of Some src \<Rightarrow> Inr src | None \<Rightarrow> dflt)"

text \<open>\<^verbatim>\<open>index-edge.mjs\<close> puts the bundled module in place of a missing source.\<close>

definition edge_moduleSource :: "'u wasm_source \<Rightarrow> 'u wasm_source option \<Rightarrow> 'u wasm_source option" where
  "edge_moduleSource wasmSource given = (case given of None \<Rightarrow> Some wasmSource | Some src \<Rightarrow> Some src)"

subsection \<open>Which runtime\<close>

text \<open>What the surrounding platform has.\<close>

record entry_platform =
  ep_node :: bool
  ep_capabilities :: capabilities
  ep_hardwareConcurrency :: "nat option"
  ep_sharedUrl :: bool

definition is_sentencepiece :: "bytes \<Rightarrow> bool" where
  "is_sentencepiece bs \<longleftrightarrow> 10 < length bs \<and> bs ! 10 = 1"

definition given_workerCount :: "entry_platform \<Rightarrow> jsval \<Rightarrow> jsval" where
  "given_workerCount ep workers =
     (if workers = JUndefined then JNum (of_nat (default_workerCount (ep_hardwareConcurrency ep))) else workers)"

definition tier_options :: "entry_platform \<Rightarrow> load_call \<Rightarrow> bytes \<Rightarrow> bool \<Rightarrow> runtime_options" where
  "tier_options ep os bs resolverTrusted =
     \<lparr>cr_vocabulary = Some bs, cr_scheme = [], cr_format = ''htk'', cr_workerCount = given_workerCount ep (lc_workers os),
      cr_resolverTrusted = resolverTrusted, cr_resolverWarmup = False, cr_observer = NoObserver,
      cr_capabilities = ep_capabilities ep, cr_optimizations = lc_optimizations os, cr_tier = lc_tier os,
      cr_threaded = ep_sharedUrl ep\<rparr>"

datatype load_plan = PlanSentencePiece bytes bool load_call | PlanTier runtime_options

text \<open>\<^verbatim>\<open>fromBytes\<close> up to the creation of a runtime.\<close>

definition fromBytes_plan :: "entry_platform \<Rightarrow> vocab_input \<Rightarrow> load_call options \<Rightarrow> js_error + load_plan" where
  "fromBytes_plan ep i opts =
     (case opts of
        NotObject \<Rightarrow> Inl (TypeError ''load options must be an object'')
      | Options os \<Rightarrow>
          try_bind (try_if (lc_validate os \<noteq> JUndefined \<and> lc_validate os \<notin> {JBool True, JBool False})
            (TypeError ''validate must be a boolean'')) (\<lambda>_.
          try_bind (vocabularyInput i (lc_validate os)) (\<lambda>(bs, resolverTrusted).
          Inr (if is_sentencepiece bs then PlanSentencePiece bs resolverTrusted os
               else PlanTier (tier_options ep os bs resolverTrusted)))))"

definition plan_bytes :: "load_plan \<Rightarrow> bytes" where
  "plan_bytes p = (case p of PlanSentencePiece bs _ _ \<Rightarrow> bs | PlanTier os \<Rightarrow> the (cr_vocabulary os))"

definition plan_trusted :: "load_plan \<Rightarrow> bool" where
  "plan_trusted p = (case p of PlanSentencePiece _ t _ \<Rightarrow> t | PlanTier os \<Rightarrow> cr_resolverTrusted os)"

text \<open>
  \<^verbatim>\<open>createTierRuntime\<close> up to its session: the checks, the tokenizer, and its decoder. \<open>core_of\<close>
  gives the methods of a tokenizer the decoder uses.
\<close>

definition createTierDecoder ::
  "bool \<Rightarrow> 'w engine \<Rightarrow> ('k \<Rightarrow> nat) \<Rightarrow> 'w wasm_value \<Rightarrow> ('k \<Rightarrow> core) \<Rightarrow> js_error + 'k tokenizer_module \<Rightarrow> runtime_options \<Rightarrow>
     js_error + optimization_config \<times> tier \<times> 'k \<times> composed_flags \<times> 'w composed" where
  "createTierDecoder nodeRuntime en key wasm core_of imported os =
     try_bind (check_options nodeRuntime os) (\<lambda>(cfg, initialTier).
     case loadSingle key wasm imported (the (cr_vocabulary os)) (cr_scheme os) (cr_format os) (cr_resolverTrusted os)
            (cr_resolverWarmup os) (en_contexts en) of
       (Inl e, _) \<Rightarrow> Inl e
     | (Inr single, contexts) \<Rightarrow>
         try_bind (createComposedDecoder (en\<lparr>en_contexts := contexts, en_key := key single\<rparr>) (core_of single)
           (Options (composed_options_of (decodeConfiguration (oc_decode cfg) (core_of single))))) (\<lambda>(u, dec).
         Inr (cfg, initialTier, single, u, dec)))"

datatype ('k, 'w) loaded =
    LoadedSentencePiece sp_tokenizer "'w sp_state"
  | LoadedTier optimization_config tier 'k composed_flags "'w composed"

definition fromBytes ::
  "entry_platform \<Rightarrow> 'w engine \<Rightarrow> ('k \<Rightarrow> nat) \<Rightarrow> 'w wasm_value \<Rightarrow> ('k \<Rightarrow> core) \<Rightarrow> js_error + 'k tokenizer_module \<Rightarrow> sp_module \<Rightarrow>
     vocab_input \<Rightarrow> load_call options \<Rightarrow> js_error + ('k, 'w) loaded \<times> metadata" where
  "fromBytes ep en key wasm core_of imported m i opts =
     try_bind (fromBytes_plan ep i opts) (\<lambda>p.
     try_bind (case p of
         PlanSentencePiece bs resolverTrusted os \<Rightarrow>
           try_bind (sentencePieceRuntime (ep_node ep) en m bs os resolverTrusted) (\<lambda>(k, s). Inr (LoadedSentencePiece k s))
       | PlanTier os \<Rightarrow>
           try_bind (createTierDecoder (ep_node ep) en key wasm core_of imported os)
             (\<lambda>(cfg, t, single, u, dec). Inr (LoadedTier cfg t single u dec))) (\<lambda>runtime.
     try_bind (readMetadata (plan_bytes p)) (\<lambda>md. Inr (runtime, md))))"

text \<open>\<^verbatim>\<open>fromResolvedVocab\<close>: the options it gives to the factory of runtimes.\<close>

record resolved_call =
  rc_wasmModule :: bool
  rc_tier :: "string option"
  rc_workerCount :: jsval
  rc_optimizations :: configuration
  rc_warmup :: bool
  rc_observer :: observer

definition fromResolvedVocab_options ::
  "entry_platform \<Rightarrow> (bytes option) \<Rightarrow> resolved_call \<Rightarrow> js_error + runtime_options" where
  "fromResolvedVocab_options ep handle rc =
     try_bind (try_if (\<not> rc_wasmModule rc) (TypeError ''a pricing wasm module is required'')) (\<lambda>_.
     case handle of
       None \<Rightarrow> Inl (TypeError ''trusted construction requires a resolver-owned vocabulary handle'')
     | Some bs \<Rightarrow>
         Inr \<lparr>cr_vocabulary = Some bs, cr_scheme = [], cr_format = ''htk'',
           cr_workerCount = given_workerCount ep (rc_workerCount rc), cr_resolverTrusted = True,
           cr_resolverWarmup = rc_warmup rc, cr_observer = rc_observer rc, cr_capabilities = ep_capabilities ep,
           cr_optimizations = rc_optimizations rc,
           cr_tier = (case rc_tier rc of None \<Rightarrow> Some ''single'' | Some t \<Rightarrow> Some t), cr_threaded = False\<rparr>)"

subsection \<open>Properties\<close>


text \<open>A page without workers.\<close>

definition plain_page :: entry_platform where
  "plain_page = \<lparr>ep_node = True, ep_capabilities = \<lparr>cap_isolated = False, cap_sharedArrayBuffer = False, cap_worker = False\<rparr>,
     ep_hardwareConcurrency = None, ep_sharedUrl = False\<rparr>"


text \<open>The runtime that is made, and the class the public handle reports.\<close>

definition loaded_sentencepiece :: "('k, 'w) loaded \<Rightarrow> bool" where
  "loaded_sentencepiece r = (case r of LoadedSentencePiece _ _ \<Rightarrow> True | LoadedTier _ _ _ _ _ \<Rightarrow> False)"

lemma fromBytes_parts:
  assumes "fromBytes ep en key wasm core_of imported m i opts = Inr (r, md)"
  obtains p where "fromBytes_plan ep i opts = Inr p" and "readMetadata (plan_bytes p) = Inr md"
    and "loaded_sentencepiece r = is_sentencepiece (plan_bytes p)"
    and "case p of
        PlanSentencePiece bs trusted os \<Rightarrow> \<exists>k s. r = LoadedSentencePiece k s \<and> sentencePieceRuntime (ep_node ep) en m bs os trusted = Inr (k, s)
      | PlanTier os \<Rightarrow> \<exists>cfg t single u dec. r = LoadedTier cfg t single u dec \<and>
          createTierDecoder (ep_node ep) en key wasm core_of imported os = Inr (cfg, t, single, u, dec)"
proof -
  obtain p where p: "fromBytes_plan ep i opts = Inr p" "readMetadata (plan_bytes p) = Inr md"
    and run: "(case p of
         PlanSentencePiece bs resolverTrusted os \<Rightarrow>
           try_bind (sentencePieceRuntime (ep_node ep) en m bs os resolverTrusted) (\<lambda>(k, s). Inr (LoadedSentencePiece k s))
       | PlanTier os \<Rightarrow>
           try_bind (createTierDecoder (ep_node ep) en key wasm core_of imported os)
             (\<lambda>(cfg, t, single, u, dec). Inr (LoadedTier cfg t single u dec))) = Inr r"
    using assms unfolding fromBytes_def try_bind_Inr by blast
  have made: "case p of
        PlanSentencePiece bs trusted os \<Rightarrow> \<exists>k s. r = LoadedSentencePiece k s \<and> sentencePieceRuntime (ep_node ep) en m bs os trusted = Inr (k, s)
      | PlanTier os \<Rightarrow> \<exists>cfg t single u dec. r = LoadedTier cfg t single u dec \<and>
          createTierDecoder (ep_node ep) en key wasm core_of imported os = Inr (cfg, t, single, u, dec)"
    using run by (cases p) (auto simp: try_bind_Inr)
  have "loaded_sentencepiece r = is_sentencepiece (plan_bytes p)"
    using p(1) made
    by (auto simp: fromBytes_plan_def try_bind_Inr loaded_sentencepiece_def plan_bytes_def tier_options_def
        split: load_plan.splits options.splits if_splits)
  then show thesis using that p made by blast
qed

lemma getUint8_Inr: "getUint8 bs k = Inr n \<longleftrightarrow> k < length bs \<and> n = unat (bs ! k)"
proof (cases "k < length bs")
  case True
  then have "take 1 (drop k bs) = [bs ! k]" by (simp add: take_Suc_conv_app_nth [of 0, simplified] hd_drop_conv_nth take_Suc)
  then show ?thesis using True by (auto simp: getUint8_def get_le_def)
qed (simp add: getUint8_def get_le_def)

text \<open>
  The runtime fits the vocabulary: what \<^verbatim>\<open>fromBytes\<close> loads is a SentencePiece runtime exactly
  when byte 10 of the file is 1, and for the two classes of the format that is the class the
  public handle reports.
\<close>

theorem runtime_fits_metadata:
  assumes "fromBytes ep en key wasm core_of imported m i opts = Inr (r, md)" and "fromBytes_plan ep i opts = Inr p"
  shows "loaded_sentencepiece r = (plan_bytes p ! 10 = 1) \<and>
    (plan_bytes p ! 10 \<in> {0, 1} \<longrightarrow> loaded_sentencepiece r = (md_structuralClass md = ''sentencepiece_bpe''))"
proof -
  obtain p' where p': "fromBytes_plan ep i opts = Inr p'" "readMetadata (plan_bytes p') = Inr md"
    "loaded_sentencepiece r = is_sentencepiece (plan_bytes p')"
    using fromBytes_parts [OF assms(1)] by blast
  then have eq: "p' = p" using assms(2) by simp
  obtain cls where "getUint8 (plan_bytes p) 10 = Inr cls"
    "md_structuralClass md = (if cls = 0 then ''byte_bpe'' else ''sentencepiece_bpe'')"
    using p'(2) unfolding eq by (auto simp: readMetadata_def try_bind_Inr)
  moreover from this have "10 < length (plan_bytes p)" "cls = unat (plan_bytes p ! 10)"
    by (simp_all add: getUint8_Inr)
  ultimately show ?thesis using p'(3) unfolding eq by (auto simp: is_sentencepiece_def)
qed

text \<open>What the decoders of both runtimes rely on.\<close>

definition loaded_laws :: "'w engine \<Rightarrow> ('k \<Rightarrow> nat) \<Rightarrow> 'w wasm_value \<Rightarrow> ('k \<Rightarrow> core) \<Rightarrow> 'k \<Rightarrow> composed_flags \<Rightarrow> bool" where
  "loaded_laws en key wasm core_of single u \<longleftrightarrow>
     core_laws (core_of single) \<and> (use_byteTable u \<longrightarrow> arena_fits (core_of single)) \<and>
     (\<forall>ex. use_stringBuiltins u \<and> (wasm = WasmWithMemory ex \<or> en_contexts en (key single) = Some ex) \<longrightarrow>
        exports_decode (core_of single) (en_ptr en) ex)"

lemma tier_decoder_inv:
  assumes "createTierDecoder node en key wasm core_of imported os = Inr (cfg, t, single, u, dec)"
    and laws: "loaded_laws en key wasm core_of single u"
  shows "composed_inv (core_of single) dec"
proof -
  let ?load = "loadSingle key wasm imported (the (cr_vocabulary os)) (cr_scheme os) (cr_format os) (cr_resolverTrusted os)
            (cr_resolverWarmup os) (en_contexts en)"
  obtain lr ctx where lr: "?load = (lr, ctx)" by fastforce
  obtain p where opts: "check_options node os = Inr p"
    and run: "(\<lambda>(cfg, initialTier).
     case ?load of
       (Inl e, _) \<Rightarrow> Inl e
     | (Inr single, contexts) \<Rightarrow>
         try_bind (createComposedDecoder (en\<lparr>en_contexts := contexts, en_key := key single\<rparr>) (core_of single)
           (Options (composed_options_of (decodeConfiguration (oc_decode cfg) (core_of single))))) (\<lambda>(u, dec).
         Inr (cfg, initialTier, single, u, dec))) p = Inr (cfg, t, single, u, dec)"
    using assms(1) unfolding createTierDecoder_def try_bind_Inr by blast
  obtain cfg' t' where p: "p = (cfg', t')" by fastforce
  obtain single' where lr': "lr = Inr single'" using run p lr by (cases lr) auto
  obtain u' dec' where dec': "createComposedDecoder (en\<lparr>en_contexts := ctx, en_key := key single'\<rparr>) (core_of single')
           (Options (composed_options_of (decodeConfiguration (oc_decode cfg') (core_of single')))) = Inr (u', dec')"
    and eq: "(cfg', t', single', u', dec') = (cfg, t, single, u, dec)"
    using run unfolding p lr lr' by (auto simp: try_bind_Inr simp del: prod.inject)
  have load: "?load = (Inr single, ctx)" using lr lr' eq by simp
  have dec: "createComposedDecoder (en\<lparr>en_contexts := ctx, en_key := key single\<rparr>) (core_of single)
           (Options (composed_options_of (decodeConfiguration (oc_decode cfg) (core_of single)))) = Inr (u, dec)"
    using dec' eq by simp
  have cfg: "resolveOptimizationConfig node (cr_optimizations os) = Inr cfg"
    using opts p eq by (auto simp: check_options_def try_bind_Inr)
  let ?u = "decodeConfiguration (oc_decode cfg) (core_of single)"
  have u: "u = ?u" using dec by (auto simp: createComposedDecoder_def Let_def try_bind_Inr)
  have ctx: "ctx = (case wasm of WasmWithMemory ex \<Rightarrow> (en_contexts en)(key single \<mapsto> ex) | _ \<Rightarrow> en_contexts en)"
    using load by (auto simp: loadSingle_def js_bind_def js_lift_def js_ret_def registerStringBuiltinsContext_def js_modify_def
        split: sum.splits prod.splits wasm_value.splits)
  have hot: "\<not> use_hotStrings ?u" using resolved_facts(1) [OF cfg] by (simp add: decodeConfiguration_def)
  have tables: "table_surroundings (core_of single) (composed_table_options (composed_options_of ?u) ?u)"
    using laws by (simp add: table_surroundings_def composed_table_options_def composed_options_of_def no_table_options_def
      loaded_laws_def u)
  have builtins: "use_stringBuiltins ?u \<Longrightarrow> ctx (key single) = Some ex \<Longrightarrow> exports_decode (core_of single) (en_ptr en) ex" for ex
    using laws by (cases wasm) (auto simp: ctx loaded_laws_def u)
  have "composed_surroundings (en\<lparr>en_contexts := ctx, en_key := key single\<rparr>) (core_of single) (composed_options_of ?u)"
    using laws hot tables builtins
    unfolding composed_surroundings_def Let_def composed_flags_of_options by (simp add: loaded_laws_def)
  then show ?thesis using createComposedDecoder_inv [OF _ dec] by blast
qed

text \<open>
  C1. From the entry of the package to exact text: with whatever options \<^verbatim>\<open>fromBytes\<close> loads a
  vocabulary, every sequence of decode calls on the runtime returns the lossy UTF-8 text of the
  ids' bytes, or for a SentencePiece vocabulary what its tokenizer's decode gives, and throws
  exactly when there is none.
\<close>

theorem fromBytes_decode_exact:
  assumes "fromBytes ep en key wasm core_of imported m i opts = Inr (r, md)"
  shows "case r of
      LoadedSentencePiece k s \<Rightarrow>
        map okv (fst (decode_all (sp_decode k) args s)) = map (\<lambda>a. decode_by (sp_text (sp_core k)) (ob_input a)) args
    | LoadedTier cfg t single u dec \<Rightarrow>
        loaded_laws en key wasm core_of single u \<longrightarrow>
          map okv (fst (decode_all (composed_decode (core_of single)) args dec)) = map (\<lambda>a. ref_decode (core_of single) (ob_input a)) args"
proof -
  obtain p where p: "case p of
        PlanSentencePiece bs trusted os \<Rightarrow> \<exists>k s. r = LoadedSentencePiece k s \<and> sentencePieceRuntime (ep_node ep) en m bs os trusted = Inr (k, s)
      | PlanTier os \<Rightarrow> \<exists>cfg t single u dec. r = LoadedTier cfg t single u dec \<and>
          createTierDecoder (ep_node ep) en key wasm core_of imported os = Inr (cfg, t, single, u, dec)"
    using fromBytes_parts [OF assms] by blast
  show ?thesis
  proof (cases p)
    case (PlanSentencePiece bs trusted os)
    then obtain k s where "r = LoadedSentencePiece k s" "sentencePieceRuntime (ep_node ep) en m bs os trusted = Inr (k, s)"
      using p by auto
    then show ?thesis using sp_session.decode_all_exact [OF sp_runtime_open] by fastforce
  next
    case (PlanTier os)
    then obtain cfg t single u dec where r: "r = LoadedTier cfg t single u dec"
      "createTierDecoder (ep_node ep) en key wasm core_of imported os = Inr (cfg, t, single, u, dec)" using p by auto
    then show ?thesis using composed.decode_all_exact [OF tier_decoder_inv [OF r(2)]] by simp
  qed
qed

text \<open>A page with one processor; a byte BPE file and a SentencePiece file of it.\<close>

definition sample_module :: "nat tokenizer_module" where
  "sample_module = \<lparr>wk_default = Inr (), wk_fromResolverTrustedWarmHtk = None, wk_fromResolverTrustedHtk = None,
     wk_fromHtk = (\<lambda>bs. Inr 5), wk_fromHuggingFace = (\<lambda>bs. Inr 6), wk_fromTiktoken = (\<lambda>bs scheme. Inr 7)\<rparr>"

abbreviation sample_fromBytes :: "bytes \<Rightarrow> js_error + (nat, u32 list) loaded \<times> metadata" where
  "sample_fromBytes bs \<equiv> fromBytes plain_page example_engine (\<lambda>k. k) WasmNotObject (\<lambda>_. table_core example_tokens) (Inr sample_module)
     sample_sp_module (VocabUint8 bs) (Options sample_sp_load)"

lemma sample_class: "is_sentencepiece (htk_file 1 sentencePiece 3 []) = sentencePiece"
  by (simp add: is_sentencepiece_def htk_file_def nth_append)

lemma sample_plan:
  "fromBytes_plan plain_page (VocabUint8 (htk_file 1 sp 3 [])) (Options sample_sp_load) =
     Inr (if sp then PlanSentencePiece (htk_file 1 True 3 []) False sample_sp_load
          else PlanTier (tier_options plain_page sample_sp_load (htk_file 1 False 3 []) False))"
  using sample_class [of sp]
  by (simp add: fromBytes_plan_def sample_sp_load_def try_if_def vocabularyInput_def entry_vocabularyBytes_def)

lemma sample_sentencepiece:
  "\<exists>s md. sample_fromBytes (htk_file 1 True 3 []) = Inr (LoadedSentencePiece sample_sp_tokenizer s, md)"
proof -
  let ?bs = "htk_file 1 True 3 []"
  have "check_sp_options sample_sp_load = Inr ()" "sm_default sample_sp_module = Inr ()"
    "sp_construct sample_sp_module False ?bs = Inr sample_sp_tokenizer" "lc_optimizations sample_sp_load = CfgUndefined"
    by (simp_all add: sample_sp_load_def check_sp_options_def try_if_def sample_sp_module_def sp_construct_def)
  then obtain s where "sentencePieceRuntime True example_engine sample_sp_module ?bs sample_sp_load False = Inr (sample_sp_tokenizer, s)"
    using default_flags sp_runtime_loads by metis
  then show ?thesis
    using sample_plan [of True] metadata_of_file [of 1 3 "[]" True] by (simp add: fromBytes_def plain_page_def plan_bytes_def)
qed

theorem runtime_fits_metadata_witness:
  "\<exists>r md. sample_fromBytes (htk_file 1 True 3 []) = Inr (r, md) \<and> loaded_sentencepiece r \<and>
     md_structuralClass md = ''sentencepiece_bpe''"
proof -
  obtain s md where load: "sample_fromBytes (htk_file 1 True 3 []) = Inr (LoadedSentencePiece sample_sp_tokenizer s, md)"
    using sample_sentencepiece by blast
  have "htk_file 1 True 3 [] ! 10 = 1" using sample_class [of True] by (simp add: is_sentencepiece_def)
  moreover have "loaded_sentencepiece (LoadedSentencePiece sample_sp_tokenizer s :: (nat, u32 list) loaded)"
    by (simp add: loaded_sentencepiece_def)
  ultimately show ?thesis
    using runtime_fits_metadata [OF load sample_plan] load by (auto simp: plan_bytes_def)
qed

lemma sample_tier:
  "\<exists>cfg u dec md. sample_fromBytes (htk_file 1 False 3 []) = Inr (LoadedTier cfg TierSingle 5 u dec, md) \<and>
     \<not> use_byteTable u \<and> \<not> use_stringBuiltins u"
proof -
  obtain r where r: "resolveOptimizationConfig True CfgUndefined = Inr r" "use_assembly (oc_decode r)"
    "\<not> use_utf16Output (oc_decode r)" "\<not> use_byteTable (oc_decode r)" "\<not> use_stringBuiltins (oc_decode r)"
    by (simp add: resolveOptimizationConfig_def configurationObject_def runtimeDefinitions_def state_of_def
      check_states_def try_if_def is_on_def decode_flags_def admitted_def admitted_keys Let_def)
  have complete: "core_complete (table_core example_tokens)"
    by (simp add: core_complete_def example_vocab) (simp add: table_core_def)
  obtain dec where "createComposedDecoder (example_engine\<lparr>en_contexts := Map.empty, en_key := 5\<rparr>) (table_core example_tokens)
      (Options (composed_options_of (oc_decode r))) = Inr (oc_decode r, dec)"
    using configured_decode_exact [OF r(1) _ table_core_laws complete] r by blast
  moreover have "decodeConfiguration (oc_decode r) (table_core example_tokens) = oc_decode r"
    by (simp add: decodeConfiguration_def table_core_def)
  moreover have "check_options True (tier_options plain_page sample_sp_load (htk_file 1 False 3 []) False) = Inr (r, TierSingle)"
    using r(1)
    by (simp add: check_options_def tier_options_def plain_page_def sample_sp_load_def try_if_def given_workerCount_def
        default_workerCount_def positive_integer_def selectTier_def shared_available_def worker_available_def)
  ultimately have "createTierDecoder True example_engine (\<lambda>k. k) WasmNotObject (\<lambda>_. table_core example_tokens) (Inr sample_module)
      (tier_options plain_page sample_sp_load (htk_file 1 False 3 []) False) = Inr (r, TierSingle, 5, oc_decode r, dec)"
    by (simp add: createTierDecoder_def loadSingle_def js_bind_def js_lift_def js_ret_def registerStringBuiltinsContext_def
        sample_module_def construct_tokenizer_def tier_options_def example_engine_def)
  then have "sample_fromBytes (htk_file 1 False 3 []) =
      Inr (LoadedTier r TierSingle 5 (oc_decode r) dec, projr (readMetadata (htk_file 1 False 3 [])))"
    using sample_plan [of False] metadata_of_file [of 1 3 "[]" False]
    by (simp add: fromBytes_def plain_page_def plan_bytes_def tier_options_def)
  then show ?thesis using r by blast
qed

theorem fromBytes_decode_exact_witness:
  "\<exists>cfg u dec md. sample_fromBytes (htk_file 1 False 3 []) = Inr (LoadedTier cfg TierSingle 5 u dec, md) \<and>
     map okv (fst (decode_all (composed_decode (table_core example_tokens)) memo_session dec)) =
       map (\<lambda>a. ref_decode (table_core example_tokens) (ob_input a)) memo_session"
proof -
  obtain cfg u dec md where load: "sample_fromBytes (htk_file 1 False 3 []) = Inr (LoadedTier cfg TierSingle 5 u dec, md)"
    "\<not> use_byteTable u" "\<not> use_stringBuiltins u" using sample_tier by blast
  have "loaded_laws example_engine (\<lambda>k. k) (WasmNotObject :: u32 list wasm_value) (\<lambda>_. table_core example_tokens) 5 u"
    using load(2,3) by (simp add: loaded_laws_def)
  then show ?thesis using fromBytes_decode_exact [OF load(1), of memo_session] load(1) by auto
qed

end
