(* ===== verification/Hugging_Face.thy ===== *)
theory Hugging_Face
  imports Reserved Decoder "HOL-Library.Sublist"
begin

text \<open>
  The shim with the interface of Hugging Face tokenizers, \<^verbatim>\<open>huggingface-shim.mjs\<close>: encodings from
  the ids of a runtime and a post-processor of the caller, and its decode with its clean-up of
  spaces. Arrays are dense.
\<close>

subsection \<open>Encodings\<close>

text \<open>What \<^verbatim>\<open>tokenString(id)\<close> gives: a string, \<open>None\<close> for anything else, or it throws.\<close>

type_synonym token_string = "jsval \<Rightarrow> js_error + jstring option"

definition u32Array :: "js_input \<Rightarrow> string \<Rightarrow> js_error + jsval list" where
  "u32Array v field =
     (case v of
        NotIds \<Rightarrow> Inl (TypeError (field @ '' must be a Uint32Array or array of u32 values''))
      | Typed ids \<Rightarrow> Inr (map jsval_of_u32 ids)
      | Arr vs \<Rightarrow> if list_all validTokenId vs then Inr vs else Inl (TypeError (field @ '' must contain only u32 values'')))"

text \<open>An option read as a truth value: \<^verbatim>\<open>true\<close> itself, another true value, or a false one.\<close>

datatype flag = FlagTrue | FlagTruthy | FlagFalsy

definition truthy :: "flag \<Rightarrow> bool" where
  "truthy f \<longleftrightarrow> f \<noteq> FlagFalsy"

definition no_token_string :: "jsval \<Rightarrow> js_error" where
  "no_token_string v = RangeError (''no token string is available for id '' @ show_nat (nat_of_jsval v))"

fun token_texts :: "token_string \<Rightarrow> jsval list \<Rightarrow> js_error + jstring list" where
  "token_texts tokenString [] = Inr []"
| "token_texts tokenString (v # vs) =
     try_bind (tokenString v) (\<lambda>token.
     case token of
       None \<Rightarrow> Inl (no_token_string v)
     | Some text \<Rightarrow> try_bind (token_texts tokenString vs) (\<lambda>texts. Inr (text # texts)))"

definition type_ids :: "js_input \<Rightarrow> nat \<Rightarrow> js_error + jsval list" where
  "type_ids tokenTypeIds n =
     try_bind (u32Array tokenTypeIds ''post-processed token_type_ids'') (\<lambda>types.
     if length types \<noteq> n then Inl (RangeError ''post-processed token_type_ids must align with ids'') else Inr types)"

record encoding =
  he_ids :: "jsval list"
  he_tokens :: "jstring list"
  he_attention_mask :: "nat list"
  he_token_type_ids :: "jsval list option"
  he_reservedFound :: "jstring list option"

definition eagerEncoding ::
  "js_input \<Rightarrow> js_input option \<Rightarrow> token_string \<Rightarrow> flag \<Rightarrow> jstring list option \<Rightarrow> js_error + encoding" where
  "eagerEncoding ids tokenTypeIds tokenString returnTokenTypeIds reservedFound =
     try_bind (u32Array ids ''post-processed ids'') (\<lambda>values.
     try_bind (token_texts tokenString values) (\<lambda>tokens.
     try_bind (case tokenTypeIds of
         Some given \<Rightarrow> if truthy returnTokenTypeIds then try_bind (type_ids given (length values)) (\<lambda>types. Inr (Some types)) else Inr None
       | None \<Rightarrow> Inr None) (\<lambda>types.
     Inr \<lparr>he_ids = values, he_tokens = tokens, he_attention_mask = map (\<lambda>_. 1) values, he_token_type_ids = types,
       he_reservedFound = reservedFound\<rparr>)))"

subsection \<open>The post-processor\<close>

record encode_options =
  ho_text_pair :: "encode_input option"
  ho_add_special_tokens :: jsval
  ho_return_token_type_ids :: flag

definition default_encode_options :: encode_options where
  "default_encode_options = \<lparr>ho_text_pair = None, ho_add_special_tokens = JBool True, ho_return_token_type_ids = FlagFalsy\<rparr>"

definition encodeOptions :: "encode_options option \<Rightarrow> encode_options" where
  "encodeOptions given = (case given of None \<Rightarrow> default_encode_options | Some os \<Rightarrow> os)"

text \<open>
  The caller's function gets the ids as the shim prepares them, those of the pair or \<^verbatim>\<open>null\<close>, the
  option, and with deferred masks whether the types are wanted; it returns an object or something
  that is refused.
\<close>

datatype 'i processed = ProcessedNotObject | Processed 'i "js_input option"

type_synonym ('p, 'i) post_process = "'p \<Rightarrow> 'p option \<Rightarrow> jsval \<Rightarrow> bool option \<Rightarrow> js_error + 'i processed"

definition processIds ::
  "('p, 'i) post_process \<Rightarrow> u32 list \<Rightarrow> u32 list option \<Rightarrow> jsval \<Rightarrow> bool \<Rightarrow> bool \<Rightarrow> (u32 list \<Rightarrow> 'p) \<Rightarrow>
     js_error + 'i \<times> js_input option" where
  "processIds postProcess first second addSpecialTokens returnTokenTypeIds deferMasks prepareInput =
     try_bind (postProcess (prepareInput first) (map_option prepareInput second) addSpecialTokens
         (if deferMasks then Some returnTokenTypeIds else None)) (\<lambda>result.
     case result of
       ProcessedNotObject \<Rightarrow> Inl (TypeError ''postProcess must return an object'')
     | Processed ids types \<Rightarrow> Inr (ids, types))"

definition uniqueFound :: "jstring list \<Rightarrow> jstring list \<Rightarrow> jstring list" where
  "uniqueFound first second = js_unique (first @ second)"

subsection \<open>Cleaning up spaces\<close>

text \<open>\<^verbatim>\<open>text.replace(/pattern/g, replacement)\<close> for a pattern that is a literal and not empty.\<close>

function replace_all :: "jstring \<Rightarrow> jstring \<Rightarrow> jstring \<Rightarrow> jstring" where
  "replace_all pat rep [] = []"
| "replace_all pat rep (c # s) =
     (if pat \<noteq> [] \<and> take (length pat) (c # s) = pat then rep @ replace_all pat rep (drop (length pat) (c # s))
      else c # replace_all pat rep s)"
  by pat_completeness auto

termination by (relation "measure (\<lambda>(pat, rep, s). length s)") (auto simp: length_greater_0_conv [symmetric] simp del: length_greater_0_conv)

definition clean_up_rules :: "(jstring \<times> jstring) list" where
  "clean_up_rules =
     [([0x20, 0x2E], [0x2E]), ([0x20, 0x3F], [0x3F]), ([0x20, 0x21], [0x21]), ([0x20, 0x2C], [0x2C]),
      ([0x20, 0x27, 0x20], [0x27]), ([0x20, 0x6E, 0x27, 0x74], [0x6E, 0x27, 0x74]), ([0x20, 0x27, 0x6D], [0x27, 0x6D]),
      ([0x20, 0x27, 0x73], [0x27, 0x73]), ([0x20, 0x27, 0x76, 0x65], [0x27, 0x76, 0x65]),
      ([0x20, 0x27, 0x72, 0x65], [0x27, 0x72, 0x65])]"

definition cleanUpTokenization :: "jstring \<Rightarrow> jstring" where
  "cleanUpTokenization text = foldl (\<lambda>s (pat, rep). replace_all pat rep s) text clean_up_rules"

subsection \<open>The shim\<close>

text \<open>What the shim uses of a runtime on its state; \<open>None\<close> for a method it lacks.\<close>

record 's hf_core =
  hc_tier :: string
  hc_encodeReservedSync :: "(encode_input \<Rightarrow> policy_value \<Rightarrow> ('s, reserved_encoding) js) option"
  hc_decode :: "jsval list \<Rightarrow> ('s, jstring) js"

definition hf_singleRuntime :: "'s hf_core option \<Rightarrow> js_error + 's hf_core" where
  "hf_singleRuntime runtime =
     (case runtime of
        Some core \<Rightarrow>
          if hc_tier core \<noteq> ''single'' \<or> hc_encodeReservedSync core = None
          then Inl (TypeError ''the Hugging Face shim requires a resident single-tier runtime'') else Inr core
      | None \<Rightarrow> Inl (TypeError ''the Hugging Face shim requires a resident single-tier runtime''))"

text \<open>The setup; a function that is missing is \<open>None\<close>, and so are special tokens that are no array.\<close>

record ('p, 'i) hf_setup =
  hs_tokenString :: "token_string option"
  hs_postProcess :: "('p, 'i) post_process option"
  hs_specialTokens :: "name_value list option"
  hs_unknownTokenId :: jsval
  hs_cleanUpTokenizationSpaces :: jsval

record ('s, 'p, 'i) hf_shim =
  hf_core :: "'s hf_core"
  hf_tokenString :: token_string
  hf_postProcess :: "('p, 'i) post_process"
  hf_special :: "jstring list"
  hf_unknownTokenId :: jsval
  hf_cleanUp :: bool

definition createHuggingFaceShim :: "'s hf_core option \<Rightarrow> ('p, 'i) hf_setup \<Rightarrow> js_error + ('s, 'p, 'i) hf_shim" where
  "createHuggingFaceShim runtime su =
     try_bind (hf_singleRuntime runtime) (\<lambda>core.
     try_bind (try_if (hs_tokenString su = None) (TypeError ''the Hugging Face shim requires a tokenString(id) resolver'')) (\<lambda>_.
     try_bind (try_if (hs_postProcess su = None) (TypeError ''the Hugging Face shim requires a postProcess function'')) (\<lambda>_.
     try_bind (try_if (\<not> (case hs_specialTokens su of None \<Rightarrow> False | Some ns \<Rightarrow> list_all is_name ns))
       (TypeError ''specialTokens must be an array of token strings'')) (\<lambda>_.
     try_bind (try_if (\<not> validTokenId (hs_unknownTokenId su)) (TypeError ''unknownTokenId must be a u32 value'')) (\<lambda>_.
     try_bind (try_if (hs_cleanUpTokenizationSpaces su \<notin> {JBool True, JBool False})
       (TypeError ''cleanUpTokenizationSpaces must be a boolean'')) (\<lambda>_.
     Inr \<lparr>hf_core = core, hf_tokenString = the (hs_tokenString su), hf_postProcess = the (hs_postProcess su),
       hf_special = js_unique (map name_text (the (hs_specialTokens su))), hf_unknownTokenId = hs_unknownTokenId su,
       hf_cleanUp = (hs_cleanUpTokenizationSpaces su = JBool True)\<rparr>))))))"

text \<open>\<^verbatim>\<open>encodeWith\<close>: the text, the pair if there is one, the post-processor, and the encoding.\<close>

definition encodeWith ::
  "('s, 'p, 'i) hf_shim \<Rightarrow> bool \<Rightarrow> (u32 list \<Rightarrow> 'p) \<Rightarrow>
     ('i \<Rightarrow> js_input option \<Rightarrow> token_string \<Rightarrow> flag \<Rightarrow> jstring list option \<Rightarrow> js_error + 'e) \<Rightarrow>
     encode_input \<Rightarrow> encode_options option \<Rightarrow> policy_value \<Rightarrow> bool \<Rightarrow> ('s, 'e) js" where
  "encodeWith shim deferMasks prepareInput createEncoding text given policy detailed =
     (let normalized = encodeOptions given; enc = the (hc_encodeReservedSync (hf_core shim)) in
      js_bind (enc text policy) (\<lambda>first.
      js_bind (case ho_text_pair normalized of
          None \<Rightarrow> js_ret None
        | Some pairText \<Rightarrow> js_bind (enc pairText policy) (\<lambda>e. js_ret (Some e))) (\<lambda>second.
      js_lift (try_bind (processIds (hf_postProcess shim) (re_ids first) (map_option re_ids second)
          (ho_add_special_tokens normalized) (ho_return_token_type_ids normalized = FlagTrue) deferMasks prepareInput)
        (\<lambda>(ids, tokenTypeIds).
         createEncoding ids tokenTypeIds (hf_tokenString shim) (ho_return_token_type_ids normalized)
           (if detailed then Some (uniqueFound (re_found first) (case second of None \<Rightarrow> [] | Some e \<Rightarrow> re_found e)) else None))))))"

definition hf_encode where
  "hf_encode shim deferMasks prepareInput createEncoding text given =
     encodeWith shim deferMasks prepareInput createEncoding text given PolicyUndefined False"

definition hf_encodeReserved where
  "hf_encodeReserved shim deferMasks prepareInput createEncoding text policy given =
     encodeWith shim deferMasks prepareInput createEncoding text given policy True"

subsection \<open>Decoding\<close>

text \<open>An id is a number or a big integer; \<^verbatim>\<open>Number(id)\<close> gives the number.\<close>

fun hf_validId :: "jsval \<Rightarrow> bool" where
  "hf_validId (JBigInt n) = (0 \<le> n \<and> n \<le> 4294967295)"
| "hf_validId v = validTokenId v"

fun hf_numeric :: "jsval \<Rightarrow> jsval" where
  "hf_numeric (JBigInt n) = JNum (of_int n)"
| "hf_numeric v = v"

text \<open>The ids that are decoded: \<^verbatim>\<open>map\<close>, then \<^verbatim>\<open>filter\<close>, with the resolver of the caller, which may throw.\<close>

fun known_ids :: "token_string \<Rightarrow> jsval \<Rightarrow> jsval list \<Rightarrow> js_error + jsval list" where
  "known_ids tokenString unknown [] = Inr []"
| "known_ids tokenString unknown (v # vs) =
     try_bind (tokenString (hf_numeric v)) (\<lambda>token.
     try_bind (known_ids tokenString unknown vs) (\<lambda>rest.
     Inr ((if token \<noteq> None then hf_numeric v else unknown) # rest)))"

fun drop_special :: "token_string \<Rightarrow> jstring list \<Rightarrow> jsval list \<Rightarrow> js_error + jsval list" where
  "drop_special tokenString special [] = Inr []"
| "drop_special tokenString special (v # vs) =
     try_bind (tokenString v) (\<lambda>token.
     try_bind (drop_special tokenString special vs) (\<lambda>rest.
     Inr (case token of Some s \<Rightarrow> if s \<in> set special then rest else v # rest | None \<Rightarrow> v # rest)))"

record hf_decode_options =
  hd_skip_special_tokens :: flag
  hd_clean_up_tokenization_spaces :: "flag option"

definition hf_decoded_ids :: "('s, 'p, 'i) hf_shim \<Rightarrow> jsval list \<Rightarrow> hf_decode_options \<Rightarrow> js_error + jsval list" where
  "hf_decoded_ids shim ids os =
     try_bind (known_ids (hf_tokenString shim) (hf_unknownTokenId shim) ids) (\<lambda>decodedIds.
     if truthy (hd_skip_special_tokens os) then drop_special (hf_tokenString shim) (hf_special shim) decodedIds
     else Inr decodedIds)"

text \<open>\<open>None\<close> is a value that is not an array.\<close>

definition hf_decode :: "('s, 'p, 'i) hf_shim \<Rightarrow> jsval list option \<Rightarrow> hf_decode_options \<Rightarrow> ('s, jstring) js" where
  "hf_decode shim given os =
     (case given of
        None \<Rightarrow> js_throw (PlainError ''token_ids must be a non-empty array of integers.'')
      | Some ids \<Rightarrow>
          if ids = [] \<or> \<not> list_all hf_validId ids then js_throw (PlainError ''token_ids must be a non-empty array of integers.'')
          else
            js_bind (js_lift (hf_decoded_ids shim ids os)) (\<lambda>decodedIds.
            js_bind (if decodedIds = [] then js_ret [] else hc_decode (hf_core shim) decodedIds) (\<lambda>decoded.
            js_ret (if (case hd_clean_up_tokenization_spaces os of Some f \<Rightarrow> truthy f | None \<Rightarrow> hf_cleanUp shim)
                    then cleanUpTokenization decoded else decoded))))"

subsection \<open>Properties\<close>

abbreviation no_space :: "u16 \<Rightarrow> bool" where
  "no_space c \<equiv> c \<noteq> 0x20"

text \<open>A replacement that only drops spaces does so throughout.\<close>

lemma replace_all_spaces:
  assumes "filter no_space rep = filter no_space pat" and "subseq rep pat"
  shows "filter no_space (replace_all pat rep s) = filter no_space s \<and> subseq (replace_all pat rep s) s"
  using assms
proof (induction pat rep s rule: replace_all.induct)
  case (2 pat rep c s)
  show ?case
  proof (cases "pat \<noteq> [] \<and> take (length pat) (c # s) = pat")
    case True
    then have split: "c # s = pat @ drop (length pat) (c # s)" by (metis append_take_drop_id)
    note ih = 2(1) [OF True 2(3,4)]
    have "filter no_space (rep @ replace_all pat rep (drop (length pat) (c # s))) = filter no_space (pat @ drop (length pat) (c # s))"
      using ih 2(3) by simp
    moreover have "subseq (rep @ replace_all pat rep (drop (length pat) (c # s))) (pat @ drop (length pat) (c # s))"
      using ih 2(4) by (intro list_emb_append_mono) auto
    ultimately show ?thesis using True split by (metis replace_all.simps(2))
  next
    case False
    then show ?thesis using 2(2) [OF False 2(3,4)] by auto
  qed
qed simp

lemma foldl_replace_all:
  assumes "\<forall>(pat, rep) \<in> set rules. filter no_space rep = filter no_space pat \<and> subseq rep pat"
  shows "filter no_space (foldl (\<lambda>s (pat, rep). replace_all pat rep s) s rules) = filter no_space s \<and>
    subseq (foldl (\<lambda>s (pat, rep). replace_all pat rep s) s rules) s"
  using assms
proof (induction rules arbitrary: s)
  case (Cons rule rules)
  obtain pat rep where rule: "rule = (pat, rep)" by fastforce
  have "filter no_space (replace_all pat rep s) = filter no_space s \<and> subseq (replace_all pat rep s) s"
    using Cons.prems rule by (intro replace_all_spaces) auto
  then show ?case using Cons.IH [of "replace_all pat rep s"] Cons.prems rule by (auto intro: subseq_order.order_trans)
qed simp

lemma clean_up_rules_drop: "\<forall>(pat, rep) \<in> set clean_up_rules. filter no_space rep = filter no_space pat \<and> subseq rep pat"
  by (simp add: clean_up_rules_def)

lemma clean_up_spaces:
  "filter no_space (cleanUpTokenization text) = filter no_space text \<and> subseq (cleanUpTokenization text) text"
  unfolding cleanUpTokenization_def by (rule foldl_replace_all [OF clean_up_rules_drop])

text \<open>
  The clean-up only drops spaces: what it returns is the text with some of its spaces left out,
  and everything else in place.
\<close>

theorem clean_up_only_drops_spaces:
  "filter no_space (cleanUpTokenization text) = filter no_space text \<and> subseq (cleanUpTokenization text) text"
  by (rule clean_up_spaces)

lemma token_texts_spec:
  "token_texts tokenString vs = Inr tokens \<Longrightarrow> list_all2 (\<lambda>v t. tokenString v = Inr (Some t)) vs tokens"
proof (induction vs arbitrary: tokens)
  case (Cons v vs)
  then show ?case by (auto simp: try_bind_Inr split: option.splits)
qed simp

text \<open>
  C31. An encoding is aligned: there is a token for every id, in order, and it is the string of the
  id; the mask has a one for every id, and the types, when they are there, are as many.
\<close>

theorem encoding_aligned:
  assumes "eagerEncoding ids tokenTypeIds tokenString returnTokenTypeIds reservedFound = Inr e"
  shows "list_all2 (\<lambda>v t. tokenString v = Inr (Some t)) (he_ids e) (he_tokens e) \<and>
    he_attention_mask e = replicate (length (he_ids e)) 1 \<and> list_all validTokenId (he_ids e) \<and>
    (case he_token_type_ids e of
       None \<Rightarrow> \<not> truthy returnTokenTypeIds \<or> tokenTypeIds = None
     | Some types \<Rightarrow> length types = length (he_ids e) \<and> list_all validTokenId types)"
proof -
  have u32: "u32Array v field = Inr vs \<Longrightarrow> list_all validTokenId vs" for v field vs
    by (cases v) (auto simp: u32Array_def list_all_iff split: if_splits)
  obtain vals tokens types where parts: "u32Array ids ''post-processed ids'' = Inr vals" "token_texts tokenString vals = Inr tokens"
    "(case tokenTypeIds of
         Some given \<Rightarrow> if truthy returnTokenTypeIds then try_bind (type_ids given (length vals)) (\<lambda>types. Inr (Some types)) else Inr None
       | None \<Rightarrow> Inr None) = Inr types"
    and e: "e = \<lparr>he_ids = vals, he_tokens = tokens, he_attention_mask = map (\<lambda>_. 1) vals, he_token_type_ids = types,
       he_reservedFound = reservedFound\<rparr>"
    using assms by (auto simp: eagerEncoding_def try_bind_Inr)
  have "case types of None \<Rightarrow> \<not> truthy returnTokenTypeIds \<or> tokenTypeIds = None
     | Some types \<Rightarrow> length types = length vals \<and> list_all validTokenId types"
    using parts(3) u32 by (auto simp: type_ids_def try_bind_Inr split: option.splits if_splits)
  then show ?thesis using token_texts_spec [OF parts(2)] u32 [OF parts(1)] unfolding e by (cases types) (simp_all add: map_replicate_const)
qed

definition letter_string :: token_string where
  "letter_string v = Inr (if nat_of_jsval v < 26 then Some [of_nat (0x61 + nat_of_jsval v)] else None)"

theorem encoding_aligned_witness:
  "\<exists>e. eagerEncoding (Typed [0, 2]) (Some (Arr [JNum 0, JNum 0])) letter_string FlagTrue None = Inr e \<and>
     list_all2 (\<lambda>v t. letter_string v = Inr (Some t)) (he_ids e) (he_tokens e) \<and> he_token_type_ids e \<noteq> None"
proof -
  obtain e where e: "eagerEncoding (Typed [0, 2]) (Some (Arr [JNum 0, JNum 0])) letter_string FlagTrue None = Inr e"
    by (simp add: eagerEncoding_def u32Array_def letter_string_def jsval_of_u32_def type_ids_def truthy_def)
  from encoding_aligned [OF this] show ?thesis using e by (auto simp: truthy_def split: option.splits)
qed

subsection \<open>Decoding\<close>

text \<open>
  A resolver that fits the tokenizer: it answers for every id, and only knows ids the tokenizer
  has. The decode of the runtime below gives the reference text.
\<close>

definition resolver_fits :: "core \<Rightarrow> token_string \<Rightarrow> bool" where
  "resolver_fits c tokenString \<longleftrightarrow>
     (\<forall>v. validTokenId v \<longrightarrow> (\<exists>t. tokenString v = Inr t \<and> (t \<noteq> None \<longrightarrow> (\<exists>bs. c_tokenBytes c (u32_of_jsval v) = Inr bs))))"

definition decodes_exactly :: "core \<Rightarrow> 's hf_core \<Rightarrow> bool" where
  "decodes_exactly c core \<longleftrightarrow>
     (\<forall>vs st. list_all validTokenId vs \<longrightarrow> okv (fst (hc_decode core vs st)) = ref_text c (map u32_of_jsval vs))"

definition id_known :: "core \<Rightarrow> jsval \<Rightarrow> bool" where
  "id_known c v \<longleftrightarrow> validTokenId v \<and> (\<exists>bs. c_tokenBytes c (u32_of_jsval v) = Inr bs)"

lemma hf_numeric_valid: "hf_validId v \<Longrightarrow> validTokenId (hf_numeric v)"
proof (cases v)
  case (JBigInt n)
  assume "hf_validId v"
  then have "0 \<le> n" "n \<le> 4294967295" using JBigInt by simp_all
  then have "(of_int n :: rat) \<le> 4294967295" by (metis of_int_le_iff of_int_numeral)
  then show ?thesis using JBigInt \<open>0 \<le> n\<close> by simp
qed simp_all

lemma known_ids_known:
  assumes "resolver_fits c tokenString" and "id_known c unknown" and "list_all hf_validId ids"
  shows "\<exists>vs. known_ids tokenString unknown ids = Inr vs \<and> list_all (id_known c) vs \<and> length vs = length ids"
  using assms(3)
proof (induction ids)
  case (Cons v ids)
  then obtain vs where vs: "known_ids tokenString unknown ids = Inr vs" "list_all (id_known c) vs" "length vs = length ids" by auto
  have valid: "validTokenId (hf_numeric v)" using Cons.prems hf_numeric_valid by simp
  then obtain t where "tokenString (hf_numeric v) = Inr t" "t \<noteq> None \<longrightarrow> id_known c (hf_numeric v)"
    using assms(1) by (auto simp: resolver_fits_def id_known_def)
  then show ?case using vs assms(2) by simp
qed simp

lemma drop_special_known:
  assumes "resolver_fits c tokenString" and "list_all (id_known c) vs"
  shows "\<exists>ws. drop_special tokenString special vs = Inr ws \<and> list_all (id_known c) ws"
  using assms(2)
proof (induction vs)
  case (Cons v vs)
  then obtain ws where ws: "drop_special tokenString special vs = Inr ws" "list_all (id_known c) ws" by auto
  obtain t where "tokenString v = Inr t" using assms(1) Cons.prems by (auto simp: resolver_fits_def id_known_def)
  then show ?case using ws Cons.prems by (auto split: option.splits)
qed simp

lemma known_text: "list_all (id_known c) vs \<Longrightarrow> \<exists>text. ref_text c (map u32_of_jsval vs) = Some text"
proof (induction vs)
  case (Cons v vs)
  then obtain bs where "c_tokenBytes c (u32_of_jsval v) = Inr bs" by (auto simp: id_known_def)
  then show ?case using Cons by (auto simp: ref_text_def ref_bytes_Cons)
qed (simp add: ref_text_def)


text \<open>Two tokens, \<^verbatim>\<open>a\<close> and a space with a full stop.\<close>

definition small_core :: core where
  "small_core = table_core [[0x61], [0x20, 0x2E]]"

definition small_string :: token_string where
  "small_string v = Inr (map_option utf8_lossy (okv (c_tokenBytes small_core (u32_of_jsval v))))"

definition small_hf_core :: "unit hf_core" where
  "small_hf_core = \<lparr>hc_tier = ''single'', hc_encodeReservedSync = Some (\<lambda>i policy. js_throw (PlainError ''no encoder'')),
     hc_decode = (\<lambda>vs. js_lift (c_decode small_core (map u32_of_jsval vs)))\<rparr>"

definition small_setup :: "(u32 list, js_input) hf_setup" where
  "small_setup = \<lparr>hs_tokenString = Some small_string, hs_postProcess = Some (\<lambda>first second add types. Inr (Processed (Typed first) None)),
     hs_specialTokens = Some [], hs_unknownTokenId = JNum 0, hs_cleanUpTokenizationSpaces = JBool True\<rparr>"

lemma small_shim:
  "\<exists>shim. createHuggingFaceShim (Some small_hf_core) small_setup = Inr shim \<and> hf_tokenString shim = small_string \<and>
     hf_unknownTokenId shim = JNum 0"
  by (simp add: createHuggingFaceShim_def hf_singleRuntime_def small_hf_core_def small_setup_def try_if_def)


end
