(* ===== verification/Lazy_Array.thy ===== *)
theory Lazy_Array
  imports Hugging_Face
begin

text \<open>
  The arrays and encodings of \<^verbatim>\<open>huggingface-lazy-shim.mjs\<close>: a proxy that looks like the array of
  the ids it was made of but copies them only when it must, and encodings whose fields are computed
  when they are read.
\<close>

subsection \<open>Arrays\<close>

text \<open>
  An ordinary JavaScript array: its length, its other own properties, whether it is extensible, and
  its prototype. Keys are strings and symbols; own properties are data properties.
\<close>

datatype key = KString string | KIterator | KSymbol nat

record descriptor =
  pr_value :: jsval
  pr_writable :: bool
  pr_enumerable :: bool
  pr_configurable :: bool

record js_array =
  ja_length :: nat
  ja_lengthWritable :: bool
  ja_props :: "key \<rightharpoonup> descriptor"
  ja_extensible :: bool
  ja_proto :: nat

definition data_prop :: "jsval \<Rightarrow> descriptor" where
  "data_prop v = \<lparr>pr_value = v, pr_writable = True, pr_enumerable = True, pr_configurable = True\<rparr>"

definition index_key :: "nat \<Rightarrow> key" where
  "index_key i = KString (show_nat i)"

definition empty_array :: js_array where
  "empty_array = \<lparr>ja_length = 0, ja_lengthWritable = True, ja_props = Map.empty, ja_extensible = True, ja_proto = 0\<rparr>"

definition length_prop :: "bool \<Rightarrow> nat \<Rightarrow> descriptor" where
  "length_prop w n = \<lparr>pr_value = JNum (of_nat n), pr_writable = w, pr_enumerable = False, pr_configurable = False\<rparr>"

text \<open>The methods of \<^verbatim>\<open>Reflect\<close> that read; \<open>inherited\<close> is the lookup in the prototypes.\<close>

definition own_property :: "js_array \<Rightarrow> key \<Rightarrow> descriptor option" where
  "own_property a k = (if k = KString ''length'' then Some (length_prop (ja_lengthWritable a) (ja_length a)) else ja_props a k)"

definition reflect_get :: "(nat \<Rightarrow> key \<Rightarrow> jsval option) \<Rightarrow> js_array \<Rightarrow> key \<Rightarrow> jsval" where
  "reflect_get inherited a k =
     (case own_property a k of
        Some p \<Rightarrow> pr_value p
      | None \<Rightarrow> (case inherited (ja_proto a) k of Some v \<Rightarrow> v | None \<Rightarrow> JUndefined))"

definition reflect_has :: "(nat \<Rightarrow> key \<Rightarrow> jsval option) \<Rightarrow> js_array \<Rightarrow> key \<Rightarrow> bool" where
  "reflect_has inherited a k \<longleftrightarrow> own_property a k \<noteq> None \<or> inherited (ja_proto a) k \<noteq> None"

definition own_keys :: "js_array \<Rightarrow> key set" where
  "own_keys a = insert (KString ''length'') (dom (ja_props a))"

subsection \<open>The proxy\<close>

text \<open>A key that is the canonical text of an array index.\<close>

definition decimal_value :: "string \<Rightarrow> nat" where
  "decimal_value s = foldl (\<lambda>n ch. 10 * n + (of_char ch - 48)) 0 s"

definition is_digit :: "char \<Rightarrow> bool" where
  "is_digit ch \<longleftrightarrow> (48 :: nat) \<le> of_char ch \<and> of_char ch \<le> (57 :: nat)"

definition arrayIndex :: "key \<Rightarrow> nat option" where
  "arrayIndex k =
     (case k of
        KString s \<Rightarrow>
          if s \<noteq> [] \<and> list_all is_digit s \<and> (s = ''0'' \<or> hd s \<noteq> CHR ''0'')
          then (let index = decimal_value s in
                if index \<le> 9007199254740991 \<and> index \<le> 4294967294 then Some index else None)
          else None
      | _ \<Rightarrow> None)"

text \<open>\<^verbatim>\<open>Array.from(value)\<close> of a typed array.\<close>

definition array_of :: "u32 list \<Rightarrow> js_array" where
  "array_of ids =
     \<lparr>ja_length = length ids, ja_lengthWritable = True,
      ja_props = (\<lambda>k. case arrayIndex k of
                        Some i \<Rightarrow> if i < length ids then Some (data_prop (jsval_of_u32 (ids ! i))) else None
                      | None \<Rightarrow> None),
      ja_extensible = True, ja_proto = 0\<rparr>"

definition materializeAfterReads :: nat where
  "materializeAfterReads = 64"

record lazy_state =
  lz_backing :: "u32 list option"
  lz_dirty :: bool
  lz_materialized :: bool
  lz_reads :: nat
  lz_target :: js_array

definition lazyU32Array :: "u32 list \<Rightarrow> lazy_state" where
  "lazyU32Array v =
     \<lparr>lz_backing = Some v, lz_dirty = False, lz_materialized = False, lz_reads = 0, lz_target = empty_array\<rparr>"

text \<open>The loop of \<^verbatim>\<open>materialize\<close>: the length, then the elements one by one.\<close>

fun materialize_loop :: "u32 list \<Rightarrow> nat \<Rightarrow> js_array \<Rightarrow> js_array" where
  "materialize_loop [] index a = a"
| "materialize_loop (v # vs) index a =
     materialize_loop vs (Suc index) (a\<lparr>ja_props := (ja_props a)(index_key index \<mapsto> data_prop (jsval_of_u32 v))\<rparr>)"

definition lazy_materialize :: "lazy_state \<Rightarrow> lazy_state" where
  "lazy_materialize st =
     (if lz_materialized st then st
      else case lz_backing st of
        None \<Rightarrow> st
      | Some ids \<Rightarrow>
          st\<lparr>lz_target := materialize_loop ids 0 ((lz_target st)\<lparr>ja_length := length ids\<rparr>), lz_backing := None,
             lz_materialized := True\<rparr>)"

definition markDirty :: "lazy_state \<Rightarrow> lazy_state" where
  "markDirty st = (lazy_materialize st)\<lparr>lz_dirty := True\<rparr>"

definition backing_of :: "lazy_state \<Rightarrow> u32 list" where
  "backing_of st = (case lz_backing st of None \<Rightarrow> [] | Some ids \<Rightarrow> ids)"

text \<open>The traps. Those that write are given what they do to the target.\<close>

definition lazy_get :: "(nat \<Rightarrow> key \<Rightarrow> jsval option) \<Rightarrow> key \<Rightarrow> lazy_state \<Rightarrow> jsval \<times> lazy_state" where
  "lazy_get inherited k st =
     (if lz_materialized st then (reflect_get inherited (lz_target st) k, st)
      else if k = KString ''length'' then (JNum (of_nat (length (backing_of st))), st)
      else
        let st1 = (if k = KIterator then lazy_materialize st else st) in
        case arrayIndex k of
          Some index \<Rightarrow>
            if index < length (backing_of st1)
            then (let st2 = st1\<lparr>lz_reads := lz_reads st1 + 1\<rparr> in
                  (jsval_of_u32 (backing_of st1 ! index),
                   if materializeAfterReads \<le> lz_reads st2 then lazy_materialize st2 else st2))
            else (reflect_get inherited (lz_target st1) k, st1)
        | None \<Rightarrow> (reflect_get inherited (lz_target st1) k, st1))"

definition lazy_has :: "(nat \<Rightarrow> key \<Rightarrow> jsval option) \<Rightarrow> key \<Rightarrow> lazy_state \<Rightarrow> bool \<times> lazy_state" where
  "lazy_has inherited k st =
     (case arrayIndex k of
        Some index \<Rightarrow>
          if lz_materialized st then (reflect_has inherited (lz_target st) k, st)
          else (index < length (backing_of st), st)
      | None \<Rightarrow> (reflect_has inherited (lz_target st) k, st))"

definition lazy_ownKeys :: "lazy_state \<Rightarrow> key set \<times> lazy_state" where
  "lazy_ownKeys st = (let st1 = lazy_materialize st in (own_keys (lz_target st1), st1))"

definition lazy_getOwnProperty :: "key \<Rightarrow> lazy_state \<Rightarrow> descriptor option \<times> lazy_state" where
  "lazy_getOwnProperty k st =
     (if lz_materialized st then (own_property (lz_target st) k, st)
      else if k = KString ''length''
      then (map_option (\<lambda>p. p\<lparr>pr_value := JNum (of_nat (length (backing_of st)))\<rparr>) (own_property (lz_target st) k), st)
      else case arrayIndex k of
        Some index \<Rightarrow>
          if index < length (backing_of st) then (Some (data_prop (jsval_of_u32 (backing_of st ! index))), st)
          else (own_property (lz_target st) k, st)
      | None \<Rightarrow> (own_property (lz_target st) k, st))"

definition lazy_preventExtensions :: "lazy_state \<Rightarrow> bool \<times> lazy_state" where
  "lazy_preventExtensions st =
     (let st1 = lazy_materialize st in (True, st1\<lparr>lz_target := (lz_target st1)\<lparr>ja_extensible := False\<rparr>\<rparr>))"

definition lazy_write :: "(js_array \<Rightarrow> jsval \<times> js_array) \<Rightarrow> lazy_state \<Rightarrow> jsval \<times> lazy_state" where
  "lazy_write f st =
     (let st1 = markDirty st in case f (lz_target st1) of (r, a) \<Rightarrow> (r, st1\<lparr>lz_target := a\<rparr>))"

definition cleanLazyU32Array :: "lazy_state \<Rightarrow> bool" where
  "cleanLazyU32Array st \<longleftrightarrow> \<not> lz_dirty st"

definition materializedValues :: "lazy_state \<Rightarrow> js_array \<times> lazy_state" where
  "materializedValues st = (let st1 = lazy_materialize st in (lz_target st1, st1))"

subsection \<open>Index keys\<close>

lemma decimal_value_snoc: "decimal_value (s @ [ch]) = 10 * decimal_value s + (of_char ch - 48)"
  by (simp add: decimal_value_def)

lemma digit_char: "d < 10 \<Longrightarrow> is_digit (char_of (48 + d :: nat)) \<and> of_char (char_of (48 + d :: nat)) - 48 = (d :: nat)"
  by (simp add: is_digit_def of_char_of take_bit_eq_mod)

lemma zero_char: "CHR ''0'' = char_of (48 :: nat)"
  by code_simp

lemma show_nat_small: "n < 10 \<Longrightarrow> show_nat n = [char_of (48 + n)]"
  by (simp add: show_nat.simps)

lemma show_nat_snoc: "1 \<le> v \<Longrightarrow> d < 10 \<Longrightarrow> show_nat (10 * v + d) = show_nat v @ [char_of (48 + d)]"
  by (subst show_nat.simps) (simp add: div_add1_eq)

lemma show_nat_canonical:
  "show_nat n \<noteq> [] \<and> list_all is_digit (show_nat n) \<and> decimal_value (show_nat n) = n \<and>
     (n = 0 \<or> hd (show_nat n) \<noteq> CHR ''0'')"
proof (induction n rule: show_nat.induct)
  case (1 n)
  show ?case
  proof (cases "n < 10")
    case True
    have "char_of (48 + n) \<noteq> CHR ''0''" if "n \<noteq> 0"
      using that True digit_char [of n] digit_char [of 0] zero_char by (metis add_0_right bot_nat_0.not_eq_extremum zero_less_numeral)
    then show ?thesis using True digit_char [of n] by (auto simp: show_nat_small decimal_value_def)
  next
    case False
    then have "1 \<le> n div 10" by linarith
    moreover have "n = 10 * (n div 10) + n mod 10" by simp
    ultimately have "show_nat n = show_nat (n div 10) @ [char_of (48 + n mod 10)]"
      using show_nat_snoc [of "n div 10" "n mod 10"] by simp
    then show ?thesis using 1 [OF False] False digit_char [of "n mod 10"] by (auto simp: decimal_value_snoc)
  qed
qed

lemma canonical_show_nat:
  "s \<noteq> [] \<Longrightarrow> list_all is_digit s \<Longrightarrow> s = ''0'' \<or> hd s \<noteq> CHR ''0'' \<Longrightarrow> show_nat (decimal_value s) = s"
proof (induction s rule: rev_induct)
  case (snoc ch s)
  obtain d where d: "d < 10" "ch = char_of (48 + d :: nat)"
  proof
    have digit: "48 \<le> (of_char ch :: nat)" "of_char ch \<le> (57 :: nat)" using snoc.prems(2) by (simp_all add: is_digit_def)
    then show "of_char ch - 48 < (10 :: nat)" by linarith
    have "48 + (of_char ch - 48) = (of_char ch :: nat)" using digit by simp
    then show "ch = char_of (48 + (of_char ch - 48 :: nat))" by simp
  qed
  show ?case
  proof (cases "s = []")
    case True
    then show ?thesis using d digit_char [of d] by (simp add: decimal_value_def show_nat_small)
  next
    case False
    then have hd: "hd s \<noteq> CHR ''0''" using snoc.prems(3) by (cases s) auto
    then have ih: "show_nat (decimal_value s) = s" using snoc False by simp
    have "decimal_value s \<noteq> 0"
    proof
      assume "decimal_value s = 0"
      then have "s = [char_of (48 :: nat)]" using ih show_nat_small [of 0] by simp
      then show False using hd zero_char by simp
    qed
    then show ?thesis using ih d digit_char [of d] by (simp add: decimal_value_snoc show_nat_snoc)
  qed
qed simp

lemma arrayIndex_index_key: "i \<le> 4294967294 \<Longrightarrow> arrayIndex (index_key i) = Some i"
  using show_nat_canonical [of i] show_nat_small [of 0] by (auto simp: arrayIndex_def index_key_def Let_def char_of_def)

lemma arrayIndex_Some: "arrayIndex k = Some i \<Longrightarrow> k = index_key i \<and> i \<le> 4294967294"
  using canonical_show_nat by (auto simp: arrayIndex_def index_key_def Let_def split: key.splits if_splits)

lemma arrayIndex_other [simp]: "arrayIndex (KString ''length'') = None" "arrayIndex KIterator = None"
  by (simp_all add: arrayIndex_def is_digit_def)

subsection \<open>The array behind the proxy\<close>

lemma materialize_loop_eq:
  "n + length vs \<le> 4294967295 \<Longrightarrow>
     materialize_loop vs n a = a\<lparr>ja_props := (\<lambda>k. case arrayIndex k of
        Some i \<Rightarrow> if n \<le> i \<and> i < n + length vs then Some (data_prop (jsval_of_u32 (vs ! (i - n)))) else ja_props a k
      | None \<Rightarrow> ja_props a k)\<rparr>"
proof (induction vs arbitrary: n a)
  case Nil
  have eq: "(\<lambda>k. case arrayIndex k of
        Some i \<Rightarrow> if n \<le> i \<and> i < n + length ([] :: u32 list) then Some (data_prop (jsval_of_u32 ([] ! (i - n)))) else ja_props a k
      | None \<Rightarrow> ja_props a k) = ja_props a"
    by (rule ext) (auto split: option.split)
  show ?case unfolding eq by simp
next
  case (Cons v vs)
  let ?a = "a\<lparr>ja_props := (ja_props a)(index_key n \<mapsto> data_prop (jsval_of_u32 v))\<rparr>"
  have key: "k = index_key n \<longleftrightarrow> arrayIndex k = Some n" for k
  proof -
    have "n \<le> 4294967294" using Cons.prems by simp
    then show ?thesis using arrayIndex_index_key [of n] arrayIndex_Some [of k n] by blast
  qed
  have "(case arrayIndex k of
        Some i \<Rightarrow> if Suc n \<le> i \<and> i < Suc n + length vs then Some (data_prop (jsval_of_u32 (vs ! (i - Suc n)))) else ja_props ?a k
      | None \<Rightarrow> ja_props ?a k) =
    (case arrayIndex k of
        Some i \<Rightarrow> if n \<le> i \<and> i < n + length (v # vs) then Some (data_prop (jsval_of_u32 ((v # vs) ! (i - n)))) else ja_props a k
      | None \<Rightarrow> ja_props a k)" for k
    using key [of k] by (cases "arrayIndex k") (auto simp: nth_Cons')
  then show ?case using Cons.IH [of "Suc n" ?a] Cons.prems by simp
qed

definition lazy_abs :: "lazy_state \<Rightarrow> js_array" where
  "lazy_abs st = (if lz_materialized st then lz_target st else array_of (backing_of st))"

definition lazy_ok :: "lazy_state \<Rightarrow> bool" where
  "lazy_ok st \<longleftrightarrow>
     (if lz_materialized st then lz_backing st = None
      else (\<exists>ids. lz_backing st = Some ids \<and> length ids \<le> 4294967295) \<and> lz_target st = empty_array \<and> \<not> lz_dirty st)"

lemma lazy_start: "length ids \<le> 4294967295 \<Longrightarrow> lazy_ok (lazyU32Array ids) \<and> lazy_abs (lazyU32Array ids) = array_of ids"
  by (simp add: lazy_ok_def lazy_abs_def lazyU32Array_def backing_of_def)

lemma materialize_props:
  assumes "lazy_ok st"
  shows "lazy_ok (lazy_materialize st)" and "lazy_abs (lazy_materialize st) = lazy_abs st" and "lz_materialized (lazy_materialize st)"
    and "lz_target (lazy_materialize st) = lazy_abs st" and "lz_dirty (lazy_materialize st) = lz_dirty st"
proof -
  have "lazy_ok (lazy_materialize st) \<and> lazy_abs (lazy_materialize st) = lazy_abs st \<and> lz_materialized (lazy_materialize st) \<and>
    lz_target (lazy_materialize st) = lazy_abs st \<and> lz_dirty (lazy_materialize st) = lz_dirty st"
  proof (cases "lz_materialized st")
    case True
    then show ?thesis using assms by (simp add: lazy_materialize_def lazy_abs_def)
  next
    case False
    then obtain ids where ids: "lz_backing st = Some ids" "length ids \<le> 4294967295" "lz_target st = empty_array"
      using assms by (auto simp: lazy_ok_def)
    have "materialize_loop ids 0 (empty_array\<lparr>ja_length := length ids\<rparr>) = array_of ids"
      using ids(2) by (simp add: materialize_loop_eq array_of_def empty_array_def fun_eq_iff split: option.split)
    then show ?thesis using False ids by (simp add: lazy_materialize_def lazy_abs_def lazy_ok_def backing_of_def)
  qed
  then show "lazy_ok (lazy_materialize st)" and "lazy_abs (lazy_materialize st) = lazy_abs st" and "lz_materialized (lazy_materialize st)"
    and "lz_target (lazy_materialize st) = lazy_abs st" and "lz_dirty (lazy_materialize st) = lz_dirty st" by blast+
qed

text \<open>Own properties of the two arrays a proxy stands for before it is copied.\<close>

lemma own_property_of:
  "own_property (array_of ids) (KString ''length'') = Some (length_prop True (length ids))"
  "arrayIndex k = Some i \<Longrightarrow> own_property (array_of ids) k = (if i < length ids then Some (data_prop (jsval_of_u32 (ids ! i))) else None)"
  "arrayIndex k = None \<Longrightarrow> k \<noteq> KString ''length'' \<Longrightarrow> own_property (array_of ids) k = None"
  by (auto simp: own_property_def array_of_def)

lemma own_property_empty: "k \<noteq> KString ''length'' \<Longrightarrow> own_property empty_array k = None"
  "own_property empty_array (KString ''length'') = Some (length_prop True 0)"
  by (simp_all add: own_property_def empty_array_def)

lemma protos [simp]: "ja_proto (array_of ids) = 0" "ja_proto empty_array = 0"
  by (simp_all add: array_of_def empty_array_def)

text \<open>Each trap against the same operation on the array.\<close>

definition plain_prototype :: "(nat \<Rightarrow> key \<Rightarrow> jsval option) \<Rightarrow> bool" where
  "plain_prototype inherited \<longleftrightarrow> (\<forall>k i. arrayIndex k = Some i \<longrightarrow> inherited 0 k = None)"

definition same_array :: "lazy_state \<Rightarrow> lazy_state \<Rightarrow> bool" where
  "same_array st st' \<longleftrightarrow> lazy_ok st' \<and> lazy_abs st' = lazy_abs st \<and> lz_dirty st' = lz_dirty st"

lemma same_array_refl: "lazy_ok st \<Longrightarrow> same_array st st"
  by (simp add: same_array_def)

lemma same_array_materialize: "lazy_ok st \<Longrightarrow> same_array st (lazy_materialize st)"
  by (simp add: same_array_def materialize_props)

lemma lazy_get_exact:
  assumes "lazy_ok st" and "lazy_get inherited k st = (v, st')"
  shows "v = reflect_get inherited (lazy_abs st) k \<and> same_array st st'"
proof (cases "lz_materialized st")
  case True
  then show ?thesis using assms(2) same_array_refl [OF assms(1)] by (auto simp: lazy_get_def lazy_abs_def)
next
  case False
  then obtain ids where ids: "lz_backing st = Some ids" "lz_target st = empty_array" and abs: "lazy_abs st = array_of ids"
    using assms(1) by (auto simp: lazy_ok_def lazy_abs_def backing_of_def)
  consider "k = KString ''length''" | "k = KIterator" | i where "arrayIndex k = Some i" | "arrayIndex k = None" "k \<noteq> KString ''length''" "k \<noteq> KIterator"
    by (cases "arrayIndex k") auto
  then show ?thesis
  proof cases
    case 1
    then show ?thesis using assms(2) False ids abs same_array_refl [OF assms(1)]
      by (auto simp add: lazy_get_def backing_of_def reflect_get_def own_property_of length_prop_def)
  next
    case 2
    then have "v = reflect_get inherited (lz_target (lazy_materialize st)) k" "st' = lazy_materialize st"
      using assms(2) False by (auto simp: lazy_get_def Let_def)
    then show ?thesis using materialize_props [OF assms(1)] same_array_materialize [OF assms(1)] by simp
  next
    case (3 i)
    then have k: "k \<noteq> KString ''length''" "k \<noteq> KIterator" by auto
    show ?thesis
    proof (cases "i < length ids")
      case True
      let ?st2 = "st\<lparr>lz_reads := lz_reads st + 1\<rparr>"
      have ok2: "lazy_ok ?st2" "same_array st ?st2"
        using assms(1) by (simp_all add: same_array_def lazy_ok_def lazy_abs_def backing_of_def)
      have "v = jsval_of_u32 (ids ! i)" "st' = ?st2 \<or> st' = lazy_materialize ?st2"
        using assms(2) False ids 3 k True by (auto simp: lazy_get_def backing_of_def Let_def split: if_splits)
      then show ?thesis using 3 True abs ok2 same_array_materialize [OF ok2(1)]
        by (auto simp: reflect_get_def own_property_of data_prop_def same_array_def)
    next
      case beyond: False
      then have "v = reflect_get inherited empty_array k" "st' = st"
        using assms(2) False ids 3 k by (simp_all add: lazy_get_def backing_of_def)
      then show ?thesis using 3 beyond abs k same_array_refl [OF assms(1)]
        by (simp add: reflect_get_def own_property_of own_property_empty)
    qed
  next
    case 4
    then have "v = reflect_get inherited empty_array k" "st' = st" using assms(2) False ids by (simp_all add: lazy_get_def)
    then show ?thesis using 4 abs same_array_refl [OF assms(1)]
      by (simp add: reflect_get_def own_property_of own_property_empty)
  qed
qed

lemma lazy_has_exact:
  assumes "lazy_ok st" and "plain_prototype inherited" and "lazy_has inherited k st = (b, st')"
  shows "b = reflect_has inherited (lazy_abs st) k \<and> same_array st st'"
proof -
  have same: "st' = st" using assms(3) by (auto simp: lazy_has_def split: option.splits if_splits)
  have "b = reflect_has inherited (lazy_abs st) k"
  proof (cases "lz_materialized st")
    case True
    then show ?thesis using assms(3) by (auto simp: lazy_has_def lazy_abs_def split: option.splits)
  next
    case False
    then obtain ids where ids: "lz_backing st = Some ids" "lz_target st = empty_array" "lazy_abs st = array_of ids"
      using assms(1) by (auto simp: lazy_ok_def lazy_abs_def backing_of_def)
    show ?thesis
    proof (cases "arrayIndex k")
      case None
      then show ?thesis using assms(3) ids
        by (cases "k = KString ''length''") (auto simp: lazy_has_def reflect_has_def own_property_of own_property_empty)
    next
      case (Some i)
      then show ?thesis using assms(2,3) ids False
        by (auto simp: lazy_has_def reflect_has_def own_property_of backing_of_def plain_prototype_def)
    qed
  qed
  then show ?thesis using same same_array_refl [OF assms(1)] by simp
qed

lemma lazy_getOwnProperty_exact:
  assumes "lazy_ok st" and "lazy_getOwnProperty k st = (d, st')"
  shows "d = own_property (lazy_abs st) k \<and> same_array st st'"
proof -
  have same: "st' = st" using assms(2) by (auto simp: lazy_getOwnProperty_def split: option.splits if_splits)
  have "d = own_property (lazy_abs st) k"
  proof (cases "lz_materialized st")
    case True
    then show ?thesis using assms(2) by (auto simp: lazy_getOwnProperty_def lazy_abs_def)
  next
    case False
    then obtain ids where ids: "lz_backing st = Some ids" "lz_target st = empty_array" "lazy_abs st = array_of ids"
      using assms(1) by (auto simp: lazy_ok_def lazy_abs_def backing_of_def)
    show ?thesis
    proof (cases "k = KString ''length''")
      case True
      then show ?thesis using assms(2) ids False
        by (simp add: lazy_getOwnProperty_def own_property_of own_property_empty backing_of_def length_prop_def)
    next
      case other: False
      then show ?thesis using assms(2) ids False
        by (cases "arrayIndex k")
          (auto simp: lazy_getOwnProperty_def own_property_of own_property_empty backing_of_def split: if_splits)
    qed
  qed
  then show ?thesis using same same_array_refl [OF assms(1)] by simp
qed

lemma lazy_write_exact:
  assumes "lazy_ok st" and "lazy_write f st = (r, st')"
  shows "(r, lazy_abs st') = f (lazy_abs st) \<and> lazy_ok st' \<and> lz_dirty st'"
  using assms materialize_props [OF assms(1)]
  by (auto simp: lazy_write_def markDirty_def Let_def lazy_ok_def lazy_abs_def split: prod.splits)

lemma lazy_preventExtensions_exact:
  assumes "lazy_ok st" and "lazy_preventExtensions st = (b, st')"
  shows "b \<and> lazy_ok st' \<and> lazy_abs st' = (lazy_abs st)\<lparr>ja_extensible := False\<rparr> \<and> lz_dirty st' = lz_dirty st"
  using assms materialize_props [OF assms(1)]
  by (auto simp: lazy_preventExtensions_def Let_def lazy_ok_def lazy_abs_def)

lemma lazy_ownKeys_exact:
  assumes "lazy_ok st" and "lazy_ownKeys st = (ks, st')"
  shows "ks = own_keys (lazy_abs st) \<and> same_array st st'"
  using assms materialize_props [OF assms(1)] same_array_materialize [OF assms(1)]
  by (auto simp: lazy_ownKeys_def Let_def)

subsection \<open>Runs\<close>

text \<open>
  What code can do with the array: read it through any of the traps, write to it with \<^verbatim>\<open>set\<close>,
  \<^verbatim>\<open>defineProperty\<close>, \<^verbatim>\<open>deleteProperty\<close> or \<^verbatim>\<open>setPrototypeOf\<close>, whatever they do to the array, and
  have it copied by \<^verbatim>\<open>materializedValues\<close>.
\<close>

datatype array_op =
    OpGet key | OpHas key | OpOwnKeys | OpGetOwnProperty key | OpPreventExtensions
  | OpWrite "js_array \<Rightarrow> jsval \<times> js_array" | OpMaterialized

datatype observed =
    SawValue jsval | SawBool bool | SawKeys "key set" | SawProperty "descriptor option" | SawArray js_array

fun proxy_op :: "(nat \<Rightarrow> key \<Rightarrow> jsval option) \<Rightarrow> array_op \<Rightarrow> lazy_state \<Rightarrow> observed \<times> lazy_state" where
  "proxy_op inherited (OpGet k) st = apfst SawValue (lazy_get inherited k st)"
| "proxy_op inherited (OpHas k) st = apfst SawBool (lazy_has inherited k st)"
| "proxy_op inherited OpOwnKeys st = apfst SawKeys (lazy_ownKeys st)"
| "proxy_op inherited (OpGetOwnProperty k) st = apfst SawProperty (lazy_getOwnProperty k st)"
| "proxy_op inherited OpPreventExtensions st = apfst SawBool (lazy_preventExtensions st)"
| "proxy_op inherited (OpWrite f) st = apfst SawValue (lazy_write f st)"
| "proxy_op inherited OpMaterialized st = apfst SawArray (materializedValues st)"

fun plain_op :: "(nat \<Rightarrow> key \<Rightarrow> jsval option) \<Rightarrow> array_op \<Rightarrow> js_array \<Rightarrow> observed \<times> js_array" where
  "plain_op inherited (OpGet k) a = (SawValue (reflect_get inherited a k), a)"
| "plain_op inherited (OpHas k) a = (SawBool (reflect_has inherited a k), a)"
| "plain_op inherited OpOwnKeys a = (SawKeys (own_keys a), a)"
| "plain_op inherited (OpGetOwnProperty k) a = (SawProperty (own_property a k), a)"
| "plain_op inherited OpPreventExtensions a = (SawBool True, a\<lparr>ja_extensible := False\<rparr>)"
| "plain_op inherited (OpWrite f) a = apfst SawValue (f a)"
| "plain_op inherited OpMaterialized a = (SawArray a, a)"

fun run_array_ops :: "('o \<Rightarrow> 's \<Rightarrow> 'v \<times> 's) \<Rightarrow> 'o list \<Rightarrow> 's \<Rightarrow> 'v list \<times> 's" where
  "run_array_ops step [] s = ([], s)"
| "run_array_ops step (op # ops) s = (case step op s of (v, s1) \<Rightarrow> apfst (\<lambda>vs. v # vs) (run_array_ops step ops s1))"

text \<open>The contents of a proxy that is still clean.\<close>

definition clean_contents :: "u32 list \<Rightarrow> lazy_state \<Rightarrow> bool" where
  "clean_contents ids st \<longleftrightarrow> (\<not> lz_dirty st \<longrightarrow> (\<exists>b. lazy_abs st = (array_of ids)\<lparr>ja_extensible := b\<rparr>))"

lemma proxy_op_exact:
  assumes "lazy_ok st" and "plain_prototype inherited" and "clean_contents ids st" and "proxy_op inherited op st = (v, st')"
  shows "plain_op inherited op (lazy_abs st) = (v, lazy_abs st') \<and> lazy_ok st' \<and> clean_contents ids st'"
proof -
  have same: ?thesis if "plain_op inherited op (lazy_abs st) = (v, lazy_abs st)" "same_array st st'"
    using that assms(3) by (simp add: same_array_def clean_contents_def)
  show ?thesis
  proof (cases op)
    case (OpGet k)
    obtain x where "lazy_get inherited k st = (x, st')" "v = SawValue x" using assms(4) OpGet by (cases "lazy_get inherited k st") auto
    then show ?thesis using lazy_get_exact [OF assms(1)] OpGet by (intro same) auto
  next
    case (OpHas k)
    obtain x where "lazy_has inherited k st = (x, st')" "v = SawBool x" using assms(4) OpHas by (cases "lazy_has inherited k st") auto
    then show ?thesis using lazy_has_exact [OF assms(1,2)] OpHas by (intro same) auto
  next
    case OpOwnKeys
    obtain x where "lazy_ownKeys st = (x, st')" "v = SawKeys x" using assms(4) OpOwnKeys by (cases "lazy_ownKeys st") auto
    then show ?thesis using lazy_ownKeys_exact [OF assms(1)] OpOwnKeys by (intro same) auto
  next
    case (OpGetOwnProperty k)
    obtain x where "lazy_getOwnProperty k st = (x, st')" "v = SawProperty x"
      using assms(4) OpGetOwnProperty by (cases "lazy_getOwnProperty k st") auto
    then show ?thesis using lazy_getOwnProperty_exact [OF assms(1)] OpGetOwnProperty by (intro same) auto
  next
    case OpPreventExtensions
    obtain x where x: "lazy_preventExtensions st = (x, st')" "v = SawBool x"
      using assms(4) OpPreventExtensions by (cases "lazy_preventExtensions st") auto
    have "x \<and> lazy_ok st' \<and> lazy_abs st' = (lazy_abs st)\<lparr>ja_extensible := False\<rparr> \<and> lz_dirty st' = lz_dirty st"
      by (rule lazy_preventExtensions_exact [OF assms(1) x(1)])
    then show ?thesis using x(2) assms(3) OpPreventExtensions by (auto simp: clean_contents_def)
  next
    case (OpWrite f)
    obtain x where x: "lazy_write f st = (x, st')" "v = SawValue x" using assms(4) OpWrite by (cases "lazy_write f st") auto
    have "(x, lazy_abs st') = f (lazy_abs st) \<and> lazy_ok st' \<and> lz_dirty st'" by (rule lazy_write_exact [OF assms(1) x(1)])
    then show ?thesis using x(2) OpWrite by (auto simp: clean_contents_def dest: sym)
  next
    case OpMaterialized
    then have "v = SawArray (lazy_abs st)" "st' = lazy_materialize st"
      using assms(4) materialize_props [OF assms(1)] by (auto simp: materializedValues_def Let_def)
    then show ?thesis using OpMaterialized same_array_materialize [OF assms(1)] by (intro same) auto
  qed
qed

lemma run_proxy_exact:
  assumes "lazy_ok st" and "plain_prototype inherited" and "clean_contents ids st"
  shows "run_array_ops (plain_op inherited) ops (lazy_abs st) = apsnd lazy_abs (run_array_ops (proxy_op inherited) ops st) \<and>
    clean_contents ids (snd (run_array_ops (proxy_op inherited) ops st))"
  using assms(1,3)
proof (induction ops arbitrary: st)
  case (Cons op ops)
  obtain v st1 where step: "proxy_op inherited op st = (v, st1)" by fastforce
  note one = proxy_op_exact [OF Cons.prems(1) assms(2) Cons.prems(2) step]
  obtain vs st2 where run: "run_array_ops (proxy_op inherited) ops st1 = (vs, st2)" by fastforce
  show ?case using Cons.IH [of st1] one step run by simp
qed simp

text \<open>
  C29. The lazy array is an array: whatever is done with it, in whatever order, reads, writes of any
  kind, enumeration, freezing and copying, every step shows what it would show on the array
  \<^verbatim>\<open>Array.from\<close> makes of the ids, and as long as the proxy counts as clean its contents are still
  those ids, so that they need no second check.
\<close>

theorem lazy_array_equivalent:
  assumes "length ids \<le> 4294967295" and "plain_prototype inherited"
    and "run_array_ops (proxy_op inherited) ops (lazyU32Array ids) = (seen, st)"
  shows "\<exists>a. run_array_ops (plain_op inherited) ops (array_of ids) = (seen, a) \<and>
    (cleanLazyU32Array st \<longrightarrow> (\<exists>b. a = (array_of ids)\<lparr>ja_extensible := b\<rparr>))"
proof -
  note start = lazy_start [OF assms(1)]
  have "array_of ids = (array_of ids)\<lparr>ja_extensible := True\<rparr>" by (simp add: array_of_def)
  then have "clean_contents ids (lazyU32Array ids)" using start by (auto simp: clean_contents_def)
  then show ?thesis
    using run_proxy_exact [OF _ assms(2), of "lazyU32Array ids" ids ops] start assms(3)
    by (auto simp: clean_contents_def cleanLazyU32Array_def)
qed

text \<open>Ids that are read, cut to nothing and read again.\<close>

theorem lazy_array_equivalent_witness:
  "\<exists>a. run_array_ops (plain_op (\<lambda>_ _. None))
      [OpGet (KString ''length''), OpWrite (\<lambda>a. (JBool True, a\<lparr>ja_length := 0\<rparr>)), OpGet (KString ''length'')] (array_of [7, 8]) =
    ([SawValue (JNum 2), SawValue (JBool True), SawValue (JNum 0)], a)"
proof -
  let ?ops = "[OpGet (KString ''length''), OpWrite (\<lambda>a. (JBool True, a\<lparr>ja_length := 0\<rparr>)), OpGet (KString ''length'')]"
  have hyps: "length [7, 8 :: u32] \<le> 4294967295" "plain_prototype (\<lambda>_ _. None)" by (simp_all add: plain_prototype_def)
  obtain seen st where run: "run_array_ops (proxy_op (\<lambda>_ _. None)) ?ops (lazyU32Array [7, 8]) = (seen, st)" by fastforce
  then have "seen = [SawValue (JNum 2), SawValue (JBool True), SawValue (JNum 0)]"
    by (auto simp: lazyU32Array_def lazy_get_def lazy_write_def markDirty_def lazy_materialize_def backing_of_def reflect_get_def
      own_property_def length_prop_def Let_def)
  then show ?thesis using lazy_array_equivalent [OF hyps run] by blast
qed

end
