(* ===== verification/Lazy_Encoding.thy ===== *)
theory Lazy_Encoding
  imports Lazy_Array
begin

text \<open>
  The encodings of \<^verbatim>\<open>huggingface-lazy-shim.mjs\<close>: their ids are a lazy array, and tokens, mask and
  types are computed when they are first read. They are compared with the encodings of
  \<^verbatim>\<open>huggingface-shim.mjs\<close>, as objects whose fields are read, assigned and used in any order.
\<close>

subsection \<open>Arrays of values\<close>

definition array_of_values :: "jsval list \<Rightarrow> js_array" where
  "array_of_values vs =
     \<lparr>ja_length = length vs, ja_lengthWritable = True,
      ja_props = (\<lambda>k. case arrayIndex k of
                        Some i \<Rightarrow> if i < length vs then Some (data_prop (vs ! i)) else None
                      | None \<Rightarrow> None),
      ja_extensible = True, ja_proto = 0\<rparr>"

text \<open>What a walk over an array without holes sees.\<close>

definition array_values :: "(nat \<Rightarrow> key \<Rightarrow> jsval option) \<Rightarrow> js_array \<Rightarrow> jsval list" where
  "array_values inherited a = map (\<lambda>i. reflect_get inherited a (index_key i)) [0..<ja_length a]"

lemma array_of_typed: "array_of ids = array_of_values (map jsval_of_u32 ids)"
  by (auto simp: array_of_def array_of_values_def fun_eq_iff split: option.split)

lemma array_values_of:
  "length vs \<le> 4294967295 \<Longrightarrow> array_values inherited ((array_of_values vs)\<lparr>ja_extensible := b\<rparr>) = vs"
  by (rule nth_equalityI)
    (auto simp: array_values_def array_of_values_def reflect_get_def own_property_def arrayIndex_index_key data_prop_def
      dest: arg_cong [where f = arrayIndex])

subsection \<open>Encodings\<close>

text \<open>What the post-processor hands over as ids: a lazy array it was given, or a value of its own.\<close>

datatype lazy_ids = FromProxy lazy_state | FromInput js_input

datatype ids_value = IdsProxy lazy_state | IdsArray js_array

datatype field_value = FieldTokens "jstring list" | FieldMask "nat list" | FieldIds "jsval list" | FieldOther jsval

datatype types_field = NoTypes | LazyTypes js_input | StoredTypes field_value

record lazy_encoding =
  le_values :: ids_value
  le_tokenString :: token_string
  le_tokens :: "field_value option"
  le_attention :: "field_value option"
  le_types :: types_field
  le_reservedFound :: "jstring list option"

definition lazy_values :: "(nat \<Rightarrow> key \<Rightarrow> jsval option) \<Rightarrow> lazy_ids \<Rightarrow> js_error + ids_value" where
  "lazy_values inherited ids =
     (case ids of
        FromProxy st \<Rightarrow>
          if cleanLazyU32Array st then Inr (IdsProxy st)
          else try_bind (u32Array (Arr (array_values inherited (lz_target st))) ''post-processed ids'') (\<lambda>_. Inr (IdsProxy st))
      | FromInput (Typed v) \<Rightarrow> Inr (IdsProxy (lazyU32Array v))
      | FromInput v \<Rightarrow> try_bind (u32Array v ''post-processed ids'') (\<lambda>vs. Inr (IdsArray (array_of_values vs))))"

definition lazyEncoding ::
  "(nat \<Rightarrow> key \<Rightarrow> jsval option) \<Rightarrow> lazy_ids \<Rightarrow> js_input option \<Rightarrow> token_string \<Rightarrow> flag \<Rightarrow> jstring list option \<Rightarrow>
     js_error + lazy_encoding" where
  "lazyEncoding inherited ids tokenTypeIds tokenString returnTokenTypeIds reservedFound =
     try_bind (lazy_values inherited ids) (\<lambda>vals.
     Inr \<lparr>le_values = vals, le_tokenString = tokenString, le_tokens = None, le_attention = None,
       le_types = (case tokenTypeIds of Some given \<Rightarrow> if truthy returnTokenTypeIds then LazyTypes given else NoTypes | None \<Rightarrow> NoTypes),
       le_reservedFound = reservedFound\<rparr>)"

text \<open>\<^verbatim>\<open>materializedValues(values)\<close> and \<^verbatim>\<open>values.length\<close>.\<close>

definition ids_values :: "(nat \<Rightarrow> key \<Rightarrow> jsval option) \<Rightarrow> ids_value \<Rightarrow> jsval list \<times> ids_value" where
  "ids_values inherited v =
     (case v of
        IdsProxy st \<Rightarrow> (case materializedValues st of (a, st1) \<Rightarrow> (array_values inherited a, IdsProxy st1))
      | IdsArray a \<Rightarrow> (array_values inherited a, v))"

definition ids_length :: "(nat \<Rightarrow> key \<Rightarrow> jsval option) \<Rightarrow> ids_value \<Rightarrow> jsval \<times> ids_value" where
  "ids_length inherited v =
     (case v of
        IdsProxy st \<Rightarrow> apsnd IdsProxy (lazy_get inherited (KString ''length'') st)
      | IdsArray a \<Rightarrow> (reflect_get inherited a (KString ''length''), v))"

definition read_tokens :: "(nat \<Rightarrow> key \<Rightarrow> jsval option) \<Rightarrow> lazy_encoding \<Rightarrow> (js_error + field_value) \<times> lazy_encoding" where
  "read_tokens inherited e =
     (case le_tokens e of
        Some t \<Rightarrow> (Inr t, e)
      | None \<Rightarrow>
          (case ids_values inherited (le_values e) of
             (vs, v1) \<Rightarrow>
               (let e1 = e\<lparr>le_values := v1\<rparr> in
                case token_texts (le_tokenString e) vs of
                  Inl err \<Rightarrow> (Inl err, e1)
                | Inr texts \<Rightarrow> (Inr (FieldTokens texts), e1\<lparr>le_tokens := Some (FieldTokens texts)\<rparr>))))"

definition read_attention :: "(nat \<Rightarrow> key \<Rightarrow> jsval option) \<Rightarrow> lazy_encoding \<Rightarrow> (js_error + field_value) \<times> lazy_encoding" where
  "read_attention inherited e =
     (case le_attention e of
        Some m \<Rightarrow> (Inr m, e)
      | None \<Rightarrow>
          (case ids_values inherited (le_values e) of
             (vs, v1) \<Rightarrow>
               (let m = FieldMask (map (\<lambda>_. 1) vs) in (Inr m, e\<lparr>le_values := v1, le_attention := Some m\<rparr>))))"

text \<open>A property that is not there reads as undefined.\<close>

definition read_types :: "(nat \<Rightarrow> key \<Rightarrow> jsval option) \<Rightarrow> lazy_encoding \<Rightarrow> (js_error + field_value) \<times> lazy_encoding" where
  "read_types inherited e =
     (case le_types e of
        NoTypes \<Rightarrow> (Inr (FieldOther JUndefined), e)
      | StoredTypes t \<Rightarrow> (Inr t, e)
      | LazyTypes given \<Rightarrow>
          (case u32Array given ''post-processed token_type_ids'' of
             Inl err \<Rightarrow> (Inl err, e)
           | Inr types \<Rightarrow>
               (case ids_length inherited (le_values e) of
                  (n, v1) \<Rightarrow>
                    (let e1 = e\<lparr>le_values := v1\<rparr> in
                     if JNum (of_nat (length types)) \<noteq> n
                     then (Inl (RangeError ''post-processed token_type_ids must align with ids''), e1)
                     else (Inr (FieldIds types), e1\<lparr>le_types := StoredTypes (FieldIds types)\<rparr>)))))"

text \<open>The resolver of a lazy shim: the hot strings first, then the caller's.\<close>

definition lazy_tokenString :: "token_string option \<Rightarrow> token_string option \<Rightarrow> token_string option" where
  "lazy_tokenString hotStrings setup_tokenString =
     (case hotStrings of
        None \<Rightarrow> setup_tokenString
      | Some hot \<Rightarrow>
          Some (\<lambda>v. try_bind (hot v) (\<lambda>s.
             case s of Some text \<Rightarrow> Inr (Some text) | None \<Rightarrow> (case setup_tokenString of None \<Rightarrow> Inr None | Some f \<Rightarrow> f v))))"

text \<open>\<open>None\<close> for \<^verbatim>\<open>hotStrings\<close> is undefined; \<open>Some None\<close> an object without \<^verbatim>\<open>tokenString\<close>.\<close>

definition createLazyHuggingFaceShim ::
  "'s hf_core option \<Rightarrow> ('p, 'i) hf_setup \<Rightarrow> token_string option option \<Rightarrow> js_error + ('s, 'p, 'i) hf_shim" where
  "createLazyHuggingFaceShim runtime su hotStrings =
     try_bind (try_if (hotStrings = Some None) (TypeError ''hotStrings must provide tokenString(id)'')) (\<lambda>_.
     createHuggingFaceShim runtime
       (su\<lparr>hs_tokenString := lazy_tokenString (case hotStrings of None \<Rightarrow> None | Some hot \<Rightarrow> hot) (hs_tokenString su)\<rparr>))"

subsection \<open>Encodings as objects\<close>

text \<open>What code does with an encoding: read and assign its fields, and use the array of its ids.\<close>

datatype encoding_op =
    ReadTokens | WriteTokens field_value | ReadAttention | WriteAttention field_value
  | ReadTypes | WriteTypes field_value | ReadFound | UseIds array_op

datatype encoding_seen =
    SawField "js_error + field_value" | SawAssigned | SawFound "jstring list option" | SawIds observed

fun use_ids :: "(nat \<Rightarrow> key \<Rightarrow> jsval option) \<Rightarrow> array_op \<Rightarrow> ids_value \<Rightarrow> observed \<times> ids_value" where
  "use_ids inherited op (IdsProxy st) = apsnd IdsProxy (proxy_op inherited op st)"
| "use_ids inherited op (IdsArray a) = apsnd IdsArray (plain_op inherited op a)"

fun lazy_step :: "(nat \<Rightarrow> key \<Rightarrow> jsval option) \<Rightarrow> encoding_op \<Rightarrow> lazy_encoding \<Rightarrow> encoding_seen \<times> lazy_encoding" where
  "lazy_step inherited ReadTokens e = apfst SawField (read_tokens inherited e)"
| "lazy_step inherited (WriteTokens v) e = (SawAssigned, e\<lparr>le_tokens := Some v\<rparr>)"
| "lazy_step inherited ReadAttention e = apfst SawField (read_attention inherited e)"
| "lazy_step inherited (WriteAttention v) e = (SawAssigned, e\<lparr>le_attention := Some v\<rparr>)"
| "lazy_step inherited ReadTypes e = apfst SawField (read_types inherited e)"
| "lazy_step inherited (WriteTypes v) e = (SawAssigned, e\<lparr>le_types := StoredTypes v\<rparr>)"
| "lazy_step inherited ReadFound e = (SawFound (le_reservedFound e), e)"
| "lazy_step inherited (UseIds op) e =
     (case use_ids inherited op (le_values e) of (o1, v1) \<Rightarrow> (SawIds o1, e\<lparr>le_values := v1\<rparr>))"

text \<open>The same on an ordinary object whose fields are all there from the start.\<close>

record eager_object =
  eo_ids :: js_array
  eo_tokens :: field_value
  eo_attention :: field_value
  eo_types :: "field_value option"
  eo_found :: "jstring list option"

definition eager_object :: "encoding \<Rightarrow> eager_object" where
  "eager_object e =
     \<lparr>eo_ids = array_of_values (he_ids e), eo_tokens = FieldTokens (he_tokens e), eo_attention = FieldMask (he_attention_mask e),
      eo_types = map_option FieldIds (he_token_type_ids e), eo_found = he_reservedFound e\<rparr>"

fun eager_step :: "(nat \<Rightarrow> key \<Rightarrow> jsval option) \<Rightarrow> encoding_op \<Rightarrow> eager_object \<Rightarrow> encoding_seen \<times> eager_object" where
  "eager_step inherited ReadTokens e = (SawField (Inr (eo_tokens e)), e)"
| "eager_step inherited (WriteTokens v) e = (SawAssigned, e\<lparr>eo_tokens := v\<rparr>)"
| "eager_step inherited ReadAttention e = (SawField (Inr (eo_attention e)), e)"
| "eager_step inherited (WriteAttention v) e = (SawAssigned, e\<lparr>eo_attention := v\<rparr>)"
| "eager_step inherited ReadTypes e = (SawField (Inr (case eo_types e of None \<Rightarrow> FieldOther JUndefined | Some t \<Rightarrow> t)), e)"
| "eager_step inherited (WriteTypes v) e = (SawAssigned, e\<lparr>eo_types := Some v\<rparr>)"
| "eager_step inherited ReadFound e = (SawFound (eo_found e), e)"
| "eager_step inherited (UseIds op) e =
     (case plain_op inherited op (eo_ids e) of (o1, a1) \<Rightarrow> (SawIds o1, e\<lparr>eo_ids := a1\<rparr>))"

fun keeps_ids :: "encoding_op \<Rightarrow> bool" where
  "keeps_ids (UseIds (OpWrite f)) = False"
| "keeps_ids _ = True"

text \<open>Lazy ids that stand for the ids an eager encoding is made of; a lazy array is one nobody wrote to or froze.\<close>

fun stands_for :: "lazy_ids \<Rightarrow> js_input \<Rightarrow> bool" where
  "stands_for (FromInput i) j = (i = j)"
| "stands_for (FromProxy st) j = (\<exists>ids. j = Typed ids \<and> lazy_ok st \<and> cleanLazyU32Array st \<and> lazy_abs st = array_of ids)"

subsection \<open>The simulation\<close>

text \<open>Ids that still have the contents \<open>vs\<close>; freezing the array changes nothing else.\<close>

definition ids_are :: "jsval list \<Rightarrow> ids_value \<Rightarrow> js_array \<Rightarrow> bool" where
  "ids_are vs v a \<longleftrightarrow> length vs \<le> 4294967295 \<and> (\<exists>b. a = (array_of_values vs)\<lparr>ja_extensible := b\<rparr>) \<and>
     (case v of
        IdsProxy st \<Rightarrow> lazy_ok st \<and> lazy_abs st = a \<and> (\<exists>ids. clean_contents ids st)
      | IdsArray a' \<Rightarrow> a' = a)"

lemma plain_op_keeps:
  "plain_op inherited op a = (o1, a1) \<Longrightarrow> keeps_ids (UseIds op) \<Longrightarrow> a = (array_of_values vs)\<lparr>ja_extensible := b\<rparr> \<Longrightarrow>
     \<exists>b. a1 = (array_of_values vs)\<lparr>ja_extensible := b\<rparr>"
  by (cases op) auto

lemma use_ids_exact:
  assumes "plain_prototype inherited" and "ids_are vs v a" and "keeps_ids (UseIds op)" and "use_ids inherited op v = (o1, v1)"
  shows "\<exists>a1. plain_op inherited op a = (o1, a1) \<and> ids_are vs v1 a1"
proof -
  obtain o2 a1 where plain: "plain_op inherited op a = (o2, a1)" by fastforce
  obtain b where "a = (array_of_values vs)\<lparr>ja_extensible := b\<rparr>" using assms(2) by (auto simp: ids_are_def)
  note keeps = plain_op_keeps [OF plain assms(3) this]
  show ?thesis
  proof (cases v)
    case (IdsProxy st)
    then obtain st1 where st1: "proxy_op inherited op st = (o1, st1)" "v1 = IdsProxy st1"
      using assms(4) by (cases "proxy_op inherited op st") auto
    obtain ids where st: "lazy_ok st" "lazy_abs st = a" "clean_contents ids st" using assms(2) IdsProxy by (auto simp: ids_are_def)
    have "plain_op inherited op (lazy_abs st) = (o1, lazy_abs st1) \<and> lazy_ok st1 \<and> clean_contents ids st1"
      by (rule proxy_op_exact [OF st(1) assms(1) st(3) st1(1)])
    then show ?thesis using keeps plain st st1 assms(2) by (auto simp: ids_are_def)
  next
    case (IdsArray a')
    then show ?thesis using keeps plain assms(2,4) by (auto simp: ids_are_def)
  qed
qed

lemma ids_values_exact:
  assumes "ids_are vs v a" and "ids_values inherited v = (ws, v1)"
  shows "ws = vs \<and> ids_are vs v1 a"
proof (cases v)
  case (IdsProxy st)
  then obtain ids b where st: "lazy_ok st" "lazy_abs st = a" "clean_contents ids st" "a = (array_of_values vs)\<lparr>ja_extensible := b\<rparr>"
    "length vs \<le> 4294967295"
    using assms(1) by (auto simp: ids_are_def)
  have same: "lz_target (lazy_materialize st) = a" "same_array st (lazy_materialize st)"
    using materialize_props [OF st(1)] same_array_materialize [OF st(1)] st(2) by auto
  then have "ws = array_values inherited a" "v1 = IdsProxy (lazy_materialize st)"
    using assms(2) IdsProxy by (auto simp: ids_values_def materializedValues_def Let_def)
  moreover have "clean_contents ids (lazy_materialize st)" using same(2) st(3) by (simp add: same_array_def clean_contents_def)
  ultimately show ?thesis using st same(2) array_values_of [OF st(5)] by (auto simp: ids_are_def same_array_def)
next
  case (IdsArray a')
  then show ?thesis using assms array_values_of by (auto simp: ids_are_def ids_values_def)
qed

lemma ids_length_exact:
  assumes "ids_are vs v a" and "ids_length inherited v = (n, v1)"
  shows "n = JNum (of_nat (length vs)) \<and> ids_are vs v1 a"
proof -
  obtain b where a: "a = (array_of_values vs)\<lparr>ja_extensible := b\<rparr>" using assms(1) by (auto simp: ids_are_def)
  then have plain: "reflect_get inherited a (KString ''length'') = JNum (of_nat (length vs))"
    by (simp add: reflect_get_def own_property_def length_prop_def array_of_values_def)
  show ?thesis
  proof (cases v)
    case (IdsProxy st)
    then obtain ids where st: "lazy_ok st" "lazy_abs st = a" "clean_contents ids st" using assms(1) by (auto simp: ids_are_def)
    obtain st1 where st1: "lazy_get inherited (KString ''length'') st = (n, st1)" "v1 = IdsProxy st1"
      using assms(2) IdsProxy by (cases "lazy_get inherited (KString ''length'') st") (auto simp: ids_length_def)
    have "n = reflect_get inherited (lazy_abs st) (KString ''length'') \<and> same_array st st1" by (rule lazy_get_exact [OF st(1) st1(1)])
    then show ?thesis using plain st st1 assms(1) IdsProxy by (auto simp: ids_are_def same_array_def clean_contents_def)
  next
    case (IdsArray a')
    then show ?thesis using plain assms by (auto simp: ids_are_def ids_length_def)
  qed
qed

text \<open>A lazy encoding that stands for an object: each field is there already, or will be computed to it.\<close>

definition encoding_sim :: "jsval list \<Rightarrow> lazy_encoding \<Rightarrow> eager_object \<Rightarrow> bool" where
  "encoding_sim vs le e \<longleftrightarrow>
     ids_are vs (le_values le) (eo_ids e) \<and>
     (case le_tokens le of Some t \<Rightarrow> eo_tokens e = t
      | None \<Rightarrow> \<exists>texts. token_texts (le_tokenString le) vs = Inr texts \<and> eo_tokens e = FieldTokens texts) \<and>
     (case le_attention le of Some m \<Rightarrow> eo_attention e = m | None \<Rightarrow> eo_attention e = FieldMask (map (\<lambda>_. 1) vs)) \<and>
     (case le_types le of
        NoTypes \<Rightarrow> eo_types e = None
      | StoredTypes t \<Rightarrow> eo_types e = Some t
      | LazyTypes given \<Rightarrow> \<exists>types. type_ids given (length vs) = Inr types \<and> eo_types e = Some (FieldIds types)) \<and>
     le_reservedFound le = eo_found e"

lemma read_tokens_sim:
  assumes "encoding_sim vs le e" and "read_tokens inherited le = (r, le1)"
  shows "r = Inr (eo_tokens e) \<and> encoding_sim vs le1 e"
proof (cases "le_tokens le")
  case (Some t)
  then show ?thesis using assms by (auto simp: read_tokens_def encoding_sim_def)
next
  case None
  then obtain texts where texts: "token_texts (le_tokenString le) vs = Inr texts" "eo_tokens e = FieldTokens texts"
    using assms(1) by (auto simp: encoding_sim_def)
  obtain ws v1 where vals: "ids_values inherited (le_values le) = (ws, v1)" by fastforce
  have "ids_are vs (le_values le) (eo_ids e)" using assms(1) by (simp add: encoding_sim_def)
  from ids_values_exact [OF this vals] have "ws = vs" "ids_are vs v1 (eo_ids e)" by simp_all
  then show ?thesis using assms None texts vals by (auto simp: read_tokens_def encoding_sim_def Let_def)
qed

lemma read_attention_sim:
  assumes "encoding_sim vs le e" and "read_attention inherited le = (r, le1)"
  shows "r = Inr (eo_attention e) \<and> encoding_sim vs le1 e"
proof (cases "le_attention le")
  case (Some m)
  then show ?thesis using assms by (auto simp: read_attention_def encoding_sim_def)
next
  case None
  obtain ws v1 where vals: "ids_values inherited (le_values le) = (ws, v1)" by fastforce
  have "ids_are vs (le_values le) (eo_ids e)" using assms(1) by (simp add: encoding_sim_def)
  from ids_values_exact [OF this vals] have "ws = vs" "ids_are vs v1 (eo_ids e)" by simp_all
  then show ?thesis using assms None vals by (cases "le_tokens le") (auto simp: read_attention_def encoding_sim_def Let_def)
qed

lemma read_types_sim:
  assumes "encoding_sim vs le e" and "read_types inherited le = (r, le1)"
  shows "r = Inr (case eo_types e of None \<Rightarrow> FieldOther JUndefined | Some t \<Rightarrow> t) \<and> encoding_sim vs le1 e"
proof (cases "le_types le")
  case (LazyTypes given)
  then obtain types where types: "u32Array given ''post-processed token_type_ids'' = Inr types" "length types = length vs"
      "eo_types e = Some (FieldIds types)"
    using assms(1) by (auto simp: encoding_sim_def type_ids_def try_bind_Inr split: if_splits)
  obtain n v1 where len: "ids_length inherited (le_values le) = (n, v1)" by fastforce
  have "ids_are vs (le_values le) (eo_ids e)" using assms(1) by (simp add: encoding_sim_def)
  from ids_length_exact [OF this len] have "n = JNum (of_nat (length vs))" "ids_are vs v1 (eo_ids e)" by simp_all
  then show ?thesis using assms LazyTypes types len
    by (auto simp: read_types_def encoding_sim_def Let_def cong: option.case_cong)
qed (use assms in \<open>auto simp: read_types_def encoding_sim_def\<close>)

lemma encoding_sim_ids:
  "encoding_sim vs le e \<Longrightarrow> ids_are vs v1 a1 \<Longrightarrow> encoding_sim vs (le\<lparr>le_values := v1\<rparr>) (e\<lparr>eo_ids := a1\<rparr>)"
  by (simp add: encoding_sim_def cong: option.case_cong types_field.case_cong)

lemma lazy_step_sim:
  assumes "plain_prototype inherited" and "encoding_sim vs le e" and "keeps_ids op" and "lazy_step inherited op le = (o1, le1)"
  shows "\<exists>e1. eager_step inherited op e = (o1, e1) \<and> encoding_sim vs le1 e1"
proof (cases op)
  case ReadTokens
  then show ?thesis using read_tokens_sim [OF assms(2), of inherited] assms(4) by (cases "read_tokens inherited le") auto
next
  case ReadAttention
  then show ?thesis using read_attention_sim [OF assms(2), of inherited] assms(4) by (cases "read_attention inherited le") auto
next
  case ReadTypes
  then show ?thesis using read_types_sim [OF assms(2), of inherited] assms(4) by (cases "read_types inherited le") auto
next
  case (UseIds iop)
  obtain o2 v1 where use: "use_ids inherited iop (le_values le) = (o2, v1)" by fastforce
  have "ids_are vs (le_values le) (eo_ids e)" using assms(2) by (simp add: encoding_sim_def)
  from use_ids_exact [OF assms(1) this _ use] obtain a1 where "plain_op inherited iop (eo_ids e) = (o2, a1)" "ids_are vs v1 a1"
    using assms(3) UseIds by auto
  then show ?thesis using encoding_sim_ids [OF assms(2)] assms(4) UseIds use by auto
qed (use assms in \<open>auto simp: encoding_sim_def cong: option.case_cong types_field.case_cong\<close>)

lemma lazy_run_sim:
  assumes "plain_prototype inherited"
  shows "encoding_sim vs le e \<Longrightarrow> list_all keeps_ids ops \<Longrightarrow>
    fst (run_array_ops (lazy_step inherited) ops le) = fst (run_array_ops (eager_step inherited) ops e)"
proof (induction ops arbitrary: le e)
  case (Cons op ops)
  obtain o1 le1 where step: "lazy_step inherited op le = (o1, le1)" by fastforce
  obtain e1 where "eager_step inherited op e = (o1, e1)" "encoding_sim vs le1 e1"
    using lazy_step_sim [OF assms Cons.prems(1) _ step] Cons.prems(2) by auto
  then show ?case using Cons.IH [of le1 e1] Cons.prems(2) step by simp
qed simp

text \<open>What the lazy shim takes as ids: those of the eager one, or the same error.\<close>

fun input_length :: "js_input \<Rightarrow> nat" where
  "input_length (Typed ids) = length ids"
| "input_length (Arr vs) = length vs"
| "input_length NotIds = 0"

lemma lazy_values_exact:
  assumes "stands_for given ids" and "input_length ids \<le> 4294967295"
  shows "(case u32Array ids ''post-processed ids'' of
      Inl err \<Rightarrow> lazy_values inherited given = Inl err
    | Inr vs \<Rightarrow> \<exists>v. lazy_values inherited given = Inr v \<and> ids_are vs v (array_of_values vs))"
proof -
  have plain: "\<exists>b. array_of_values vs = (array_of_values vs)\<lparr>ja_extensible := b\<rparr>" for vs
    by (rule exI [of _ True]) (simp add: array_of_values_def)
  show ?thesis
  proof (cases given)
    case (FromInput i)
    then show ?thesis
    proof (cases i)
      case (Typed v)
      have contents: "clean_contents v (lazyU32Array v)"
        using lazy_start [of v] plain [of "map jsval_of_u32 v"] assms FromInput Typed by (auto simp: clean_contents_def array_of_typed)
      then show ?thesis using assms FromInput Typed plain lazy_start [of v]
        by (auto simp: u32Array_def lazy_values_def ids_are_def array_of_typed)
    qed (use assms FromInput plain in \<open>auto simp: u32Array_def lazy_values_def ids_are_def\<close>)
  next
    case (FromProxy st)
    then obtain v where v: "ids = Typed v" "lazy_ok st" "cleanLazyU32Array st" "lazy_abs st = array_of_values (map jsval_of_u32 v)"
      using assms(1) by (auto simp: array_of_typed)
    have "clean_contents v st" using v plain [of "map jsval_of_u32 v"] by (auto simp: clean_contents_def array_of_typed)
    then show ?thesis using assms(2) FromProxy v plain by (auto simp: u32Array_def lazy_values_def ids_are_def)
  qed
qed

lemma eager_object_sim:
  assumes "eagerEncoding ids tti ts rt found = Inr e" and "u32Array ids ''post-processed ids'' = Inr vs"
    and "lazy_values inherited given = Inr v" and "ids_are vs v (array_of_values vs)"
  shows "\<exists>le. lazyEncoding inherited given tti ts rt found = Inr le \<and> encoding_sim vs le (eager_object e)"
proof -
  obtain tokens where tokens: "token_texts ts vs = Inr tokens" using assms(1,2) by (auto simp: eagerEncoding_def try_bind_Inr)
  show ?thesis
  proof (cases "tti = None \<or> \<not> truthy rt")
    case True
    then have "e = \<lparr>he_ids = vs, he_tokens = tokens, he_attention_mask = map (\<lambda>_. 1) vs, he_token_type_ids = None, he_reservedFound = found\<rparr>"
      using assms(1,2) tokens by (auto simp: eagerEncoding_def split: option.splits)
    then show ?thesis using True assms(3,4) tokens
      by (auto simp: lazyEncoding_def encoding_sim_def eager_object_def split: option.split)
  next
    case False
    then obtain g where g: "tti = Some g" "truthy rt" by auto
    obtain types where types: "type_ids g (length vs) = Inr types"
      using assms(1,2) tokens g by (auto simp: eagerEncoding_def try_bind_Inr)
    then have "e = \<lparr>he_ids = vs, he_tokens = tokens, he_attention_mask = map (\<lambda>_. 1) vs, he_token_type_ids = Some types, he_reservedFound = found\<rparr>"
      using assms(1,2) tokens g by (auto simp: eagerEncoding_def)
    then show ?thesis using assms(3,4) tokens types g by (auto simp: lazyEncoding_def encoding_sim_def eager_object_def)
  qed
qed

lemma lazyEncoding_exact:
  assumes "eagerEncoding ids tti ts rt found = Inr e" and "stands_for given ids" and "input_length ids \<le> 4294967295"
    and "plain_prototype inherited"
  shows "\<exists>le. lazyEncoding inherited given tti ts rt found = Inr le \<and>
    (\<forall>ops. list_all keeps_ids ops \<longrightarrow>
       fst (run_array_ops (lazy_step inherited) ops le) = fst (run_array_ops (eager_step inherited) ops (eager_object e)))"
proof -
  obtain vs where vs: "u32Array ids ''post-processed ids'' = Inr vs" using assms(1) by (auto simp: eagerEncoding_def try_bind_Inr)
  obtain v where v: "lazy_values inherited given = Inr v" "ids_are vs v (array_of_values vs)"
    using lazy_values_exact [OF assms(2,3), of inherited] vs by auto
  show ?thesis using eager_object_sim [OF assms(1) vs v] lazy_run_sim [OF assms(4)] by blast
qed

lemma try_bind_Inl: "try_bind r f = Inl e \<longleftrightarrow> r = Inl e \<or> (\<exists>a. r = Inr a \<and> f a = Inl e)"
  by (cases r) simp_all

text \<open>Where the eager encoding throws, the lazy one throws the same when it is made or when it is read.\<close>

lemma lazyEncoding_error:
  assumes "eagerEncoding ids tti ts rt found = Inl err" and "stands_for given ids" and "input_length ids \<le> 4294967295"
  shows "lazyEncoding inherited given tti ts rt found = Inl err \<or>
    (\<exists>le. lazyEncoding inherited given tti ts rt found = Inr le \<and>
      (fst (read_tokens inherited le) = Inl err \<or> fst (read_types inherited le) = Inl err))"
proof (cases "u32Array ids ''post-processed ids''")
  case (Inl er)
  then show ?thesis using assms(1) lazy_values_exact [OF assms(2,3), of inherited] by (auto simp: eagerEncoding_def lazyEncoding_def)
next
  case (Inr vs)
  then obtain v where v: "lazy_values inherited given = Inr v" "ids_are vs v (array_of_values vs)"
    using lazy_values_exact [OF assms(2,3), of inherited] by auto
  obtain ws v1 where ws: "ids_values inherited v = (ws, v1)" by fastforce
  then have ws_eq: "ws = vs" using ids_values_exact [OF v(2)] by simp
  obtain n v2 where n: "ids_length inherited v = (n, v2)" by fastforce
  then have n_eq: "n = JNum (of_nat (length vs))" using ids_length_exact [OF v(2)] by simp
  show ?thesis
  proof (cases "token_texts ts vs")
    case (Inl er)
    then show ?thesis using assms(1) Inr v(1) ws ws_eq by (simp add: eagerEncoding_def lazyEncoding_def read_tokens_def Let_def)
  next
    case tokens: (Inr texts)
    then obtain g where g: "tti = Some g" "truthy rt" "type_ids g (length vs) = Inl err"
      using assms(1) Inr by (auto simp: eagerEncoding_def try_bind_Inl split: option.splits if_splits)
    then show ?thesis using v(1) n n_eq
      by (auto simp: lazyEncoding_def read_types_def type_ids_def try_bind_Inl Let_def split: if_splits sum.splits)
  qed
qed

subsection \<open>The shims\<close>

text \<open>
  A post-processor of the lazy shim that does what one of the eager shim does: given lazy arrays
  for the arrays, it throws alike or returns ids that stand for the same.
\<close>

definition same_process :: "(u32 list, js_input) post_process \<Rightarrow> (lazy_state, lazy_ids) post_process \<Rightarrow> bool" where
  "same_process pe pl \<longleftrightarrow>
     (\<forall>first second add types.
        case pe first second add None of
          Inl err \<Rightarrow> pl (lazyU32Array first) (map_option lazyU32Array second) add (Some types) = Inl err
        | Inr ProcessedNotObject \<Rightarrow> pl (lazyU32Array first) (map_option lazyU32Array second) add (Some types) = Inr ProcessedNotObject
        | Inr (Processed ids tti) \<Rightarrow>
            (\<exists>given. pl (lazyU32Array first) (map_option lazyU32Array second) add (Some types) = Inr (Processed given tti) \<and>
               (input_length ids \<le> 4294967295 \<longrightarrow> stands_for given ids)))"

text \<open>Hot strings that know tokens of the tokenizer only.\<close>

fun hot_agrees :: "token_string option option \<Rightarrow> token_string option \<Rightarrow> bool" where
  "hot_agrees (Some (Some hot)) (Some f) = (\<forall>v. hot v = Inr None \<or> hot v = f v \<and> f v \<noteq> Inr None)"
| "hot_agrees None _ = True"
| "hot_agrees _ _ = False"

lemma lazy_shim_parts:
  assumes "createHuggingFaceShim (Some core) su = Inr eager" and "createLazyHuggingFaceShim (Some core) lsu hot = Inr lazy"
    and "hs_tokenString lsu = hs_tokenString su" and "hot_agrees hot (hs_tokenString su)"
  shows "hf_core lazy = hf_core eager \<and> hf_tokenString lazy = hf_tokenString eager \<and>
    hf_postProcess eager = the (hs_postProcess su) \<and> hf_postProcess lazy = the (hs_postProcess lsu)"
proof -
  obtain f where f: "hs_tokenString su = Some f" using assms(1) by (auto simp: createHuggingFaceShim_def try_bind_Inr)
  have "lazy_tokenString (case hot of None \<Rightarrow> None | Some h \<Rightarrow> h) (hs_tokenString lsu) = Some f"
  proof (cases "\<exists>h. hot = Some (Some h)")
    case True
    then obtain h where h: "hot = Some (Some h)" by blast
    have "try_bind (h v) (\<lambda>s. case s of Some t \<Rightarrow> Inr (Some t) | None \<Rightarrow> f v) = f v" for v
    proof -
      have "h v = Inr None \<or> h v = f v \<and> f v \<noteq> Inr None" using assms(4) h f by simp
      then show ?thesis by (cases "f v") (auto split: option.split)
    qed
    then show ?thesis using assms(3) f h by (simp add: lazy_tokenString_def)
  next
    case False
    then have "hot = None" using assms(4) by (cases "(hot, hs_tokenString su)" rule: hot_agrees.cases) auto
    then show ?thesis using assms(3) f by (simp add: lazy_tokenString_def)
  qed
  then show ?thesis using assms(1,2) f by (auto simp: createLazyHuggingFaceShim_def createHuggingFaceShim_def try_bind_Inr)
qed

lemma processIds_exact:
  assumes "same_process pe pl"
  shows "(case processIds pe first second add types False (\<lambda>ids. ids) of
      Inl err \<Rightarrow> processIds pl first second add types True lazyU32Array = Inl err
    | Inr (ids, tti) \<Rightarrow>
        (\<exists>given. processIds pl first second add types True lazyU32Array = Inr (given, tti) \<and>
           (input_length ids \<le> 4294967295 \<longrightarrow> stands_for given ids)))"
proof -
  note same = assms [unfolded same_process_def, rule_format, of first second add types]
  have sec: "map_option (\<lambda>ids. ids) second = second" by (simp add: option.map_ident)
  show ?thesis
  proof (cases "pe first second add None")
    case (Inl err)
    then show ?thesis using same sec by (simp add: processIds_def)
  next
    case (Inr p)
    then show ?thesis using same sec by (cases p) (auto simp: processIds_def)
  qed
qed

lemma eager_input_length: "eagerEncoding ids tti ts rt found = Inr e \<Longrightarrow> input_length ids = length (he_ids e)"
  by (cases ids) (auto simp: eagerEncoding_def u32Array_def try_bind_Inr split: if_splits)

lemma encodeWith_exact:
  assumes "hf_core lazy = hf_core eager" and "hf_tokenString lazy = hf_tokenString eager"
    and "same_process (hf_postProcess eager) (hf_postProcess lazy)" and "plain_prototype inherited"
    and "encodeWith eager False (\<lambda>ids. ids) eagerEncoding text given policy detailed st = (Inr e, st')" and "length (he_ids e) \<le> 4294967295"
  shows "\<exists>le. encodeWith lazy True lazyU32Array (lazyEncoding inherited) text given policy detailed st = (Inr le, st') \<and>
    (\<forall>ops. list_all keeps_ids ops \<longrightarrow>
       fst (run_array_ops (lazy_step inherited) ops le) = fst (run_array_ops (eager_step inherited) ops (eager_object e)))"
proof -
  let ?enc = "the (hc_encodeReservedSync (hf_core eager))" and ?os = "encodeOptions given"
  let ?second = "case ho_text_pair ?os of None \<Rightarrow> js_ret None
        | Some pairText \<Rightarrow> js_bind (?enc pairText policy) (\<lambda>e. js_ret (Some e))"
  obtain first st1 where first: "?enc text policy st = (Inr first, st1)"
    using assms(5) by (auto simp: encodeWith_def js_bind_def Let_def split: prod.splits sum.splits)
  obtain second where second: "?second st1 = (Inr second, st')"
    using assms(5) first by (auto simp: encodeWith_def js_bind_def js_lift_def Let_def split: prod.splits sum.splits)
  let ?pids = "\<lambda>sh d pi. processIds (hf_postProcess sh) (re_ids first) (map_option re_ids second) (ho_add_special_tokens ?os)
      (ho_return_token_type_ids ?os = FlagTrue) d pi"
  let ?found = "if detailed then Some (uniqueFound (re_found first) (case second of None \<Rightarrow> [] | Some e \<Rightarrow> re_found e)) else None"
  obtain ids tti where ids: "processIds (hf_postProcess eager) (re_ids first) (map_option re_ids second) (ho_add_special_tokens ?os)
      (ho_return_token_type_ids ?os = FlagTrue) False (\<lambda>ids. ids) = Inr (ids, tti)"
      "eagerEncoding ids tti (hf_tokenString eager) (ho_return_token_type_ids ?os) ?found = Inr e"
    using assms(5) first second by (auto simp: encodeWith_def js_bind_def js_lift_def Let_def try_bind_Inr)
  have len: "input_length ids \<le> 4294967295" using eager_input_length [OF ids(2)] assms(6) by simp
  obtain g where g: "processIds (hf_postProcess lazy) (re_ids first) (map_option re_ids second) (ho_add_special_tokens ?os)
      (ho_return_token_type_ids ?os = FlagTrue) True lazyU32Array = Inr (g, tti)" "stands_for g ids"
    using processIds_exact [OF assms(3), of "re_ids first" "map_option re_ids second" "ho_add_special_tokens ?os"
        "ho_return_token_type_ids ?os = FlagTrue"] ids(1) len by auto
  obtain le where le: "lazyEncoding inherited g tti (hf_tokenString eager) (ho_return_token_type_ids ?os) ?found = Inr le"
    "\<forall>ops. list_all keeps_ids ops \<longrightarrow>
       fst (run_array_ops (lazy_step inherited) ops le) = fst (run_array_ops (eager_step inherited) ops (eager_object e))"
    using lazyEncoding_exact [OF ids(2) g(2) len assms(4)] by blast
  have "encodeWith lazy True lazyU32Array (lazyEncoding inherited) text given policy detailed st = (Inr le, st')"
    using first second g(1) le(1) assms(1,2) by (simp add: encodeWith_def js_bind_def js_lift_def Let_def)
  then show ?thesis using le(2) by blast
qed

text \<open>
  C30. The lazy shim gives the encodings of the shim: where the shim encodes a text, alone or with
  its pair, the lazy shim over the same runtime does too, and whatever is done with the encoding
  after that, fields read and assigned, the ids read, enumerated or frozen, in any order, shows
  what it would show on the shim's encoding, as long as nobody writes into the ids.
\<close>

theorem lazy_shim_equivalent:
  assumes "createHuggingFaceShim (Some core) su = Inr eager" and "createLazyHuggingFaceShim (Some core) lsu hot = Inr lazy"
    and "hs_tokenString lsu = hs_tokenString su" and "hot_agrees hot (hs_tokenString su)"
    and "same_process (the (hs_postProcess su)) (the (hs_postProcess lsu))" and "plain_prototype inherited"
    and "encodeWith eager False (\<lambda>ids. ids) eagerEncoding text given policy detailed st = (Inr e, st')" and "length (he_ids e) \<le> 4294967295"
  shows "\<exists>le. encodeWith lazy True lazyU32Array (lazyEncoding inherited) text given policy detailed st = (Inr le, st') \<and>
    (\<forall>ops. list_all keeps_ids ops \<longrightarrow>
       fst (run_array_ops (lazy_step inherited) ops le) = fst (run_array_ops (eager_step inherited) ops (eager_object e)))"
  using lazy_shim_parts [OF assms(1-4)] assms(5-8) by (intro encodeWith_exact) auto

text \<open>
  A runtime whose texts all have the ids 0 and 1, and post-processors that hand over the first ids:
  the eager one as the array it gets, the lazy one as the lazy array.
\<close>

definition two_id_core :: "unit hf_core" where
  "two_id_core = small_hf_core\<lparr>hc_encodeReservedSync :=
     Some (\<lambda>i policy. js_ret \<lparr>re_ids = [0, 1], re_starts = [], re_found = []\<rparr>)\<rparr>"

definition lazy_setup :: "(lazy_state, lazy_ids) hf_setup" where
  "lazy_setup = \<lparr>hs_tokenString = Some small_string,
     hs_postProcess = Some (\<lambda>first second add types. Inr (Processed (FromProxy first) None)),
     hs_specialTokens = Some [], hs_unknownTokenId = JNum 0, hs_cleanUpTokenizationSpaces = JBool True\<rparr>"

lemma same_process_witness: "same_process (the (hs_postProcess small_setup)) (the (hs_postProcess lazy_setup))"
  using lazy_start by (auto simp: same_process_def small_setup_def lazy_setup_def cleanLazyU32Array_def lazyU32Array_def)

theorem lazy_shim_equivalent_witness:
  "\<exists>lazy le. createLazyHuggingFaceShim (Some two_id_core) lazy_setup None = Inr lazy \<and>
     encodeWith lazy True lazyU32Array (lazyEncoding (\<lambda>_ _. None)) (InputString []) None PolicyUndefined False () = (Inr le, ()) \<and>
     fst (run_array_ops (lazy_step (\<lambda>_ _. None)) [UseIds OpPreventExtensions, ReadAttention, WriteTokens (FieldOther JUndefined), ReadTokens] le) =
       [SawIds (SawBool True), SawField (Inr (FieldMask [1, 1])), SawAssigned, SawField (Inr (FieldOther JUndefined))]"
proof -
  obtain eager where eager: "createHuggingFaceShim (Some two_id_core) small_setup = Inr eager" "hf_core eager = two_id_core"
    "hf_tokenString eager = small_string" "hf_postProcess eager = the (hs_postProcess small_setup)"
    by (simp add: createHuggingFaceShim_def hf_singleRuntime_def two_id_core_def small_hf_core_def small_setup_def try_if_def)
  obtain lazy where lazy: "createLazyHuggingFaceShim (Some two_id_core) lazy_setup None = Inr lazy"
    by (simp add: createLazyHuggingFaceShim_def lazy_tokenString_def createHuggingFaceShim_def hf_singleRuntime_def two_id_core_def
      small_hf_core_def lazy_setup_def try_if_def)
  obtain e where e: "eagerEncoding (Typed [0, 1]) None small_string FlagFalsy None = Inr e" "he_ids e = [JNum 0, JNum 1]"
    "he_attention_mask e = [1, 1]"
    by (auto simp: eagerEncoding_def u32Array_def small_string_def small_core_def table_core_def table_tokenBytes_def jsval_of_u32_def)
  have run: "encodeWith eager False (\<lambda>ids. ids) eagerEncoding (InputString []) None PolicyUndefined False () = (Inr e, ())"
    using eager(2-4) e(1)
    by (simp add: encodeWith_def encodeOptions_def default_encode_options_def two_id_core_def js_bind_def js_ret_def js_lift_def
      processIds_def small_setup_def)
  have hyps: "hs_tokenString lazy_setup = hs_tokenString small_setup" "plain_prototype (\<lambda>_ _. None)" "length (he_ids e) \<le> 4294967295"
    using e(2) by (simp_all add: lazy_setup_def small_setup_def plain_prototype_def)
  let ?ops = "[UseIds OpPreventExtensions, ReadAttention, WriteTokens (FieldOther JUndefined), ReadTokens]"
  have keeps: "list_all keeps_ids ?ops" by simp
  have seen: "fst (run_array_ops (eager_step (\<lambda>_ _. None)) ?ops (eager_object e)) =
      [SawIds (SawBool True), SawField (Inr (FieldMask [1, 1])), SawAssigned, SawField (Inr (FieldOther JUndefined))]"
    using e by (simp add: eager_object_def)
  show ?thesis
    using lazy_shim_equivalent [OF eager(1) lazy hyps(1) _ same_process_witness hyps(2) run hyps(3)] lazy keeps seen
    by (metis hot_agrees.simps(2))
qed

end
