(* ===== verification/Span_Map.thy ===== *)
theory Span_Map
  imports Text_Encoder Decoder
begin

text \<open>
  The demo's map from tokens to the pieces of text it paints, \<^verbatim>\<open>tokenSegments\<close> of
  \<^verbatim>\<open>span-map.mjs\<close>. A token may start inside a character; the start is moved back to the
  character, and a token left without text joins a neighbour.
\<close>

subsection \<open>Positions\<close>

text \<open>\<^verbatim>\<open>for (const scalar of text)\<close>: code points, a lone surrogate on its own.\<close>

function js_scalars :: "jstring \<Rightarrow> jstring list" where
  "js_scalars [] = []"
| "js_scalars (u # us) = (let k = snd (first_scalar u us) in (u # take k us) # js_scalars (drop k us))"
  by pat_completeness auto
termination by (relation "measure length") auto

text \<open>The pairs of \<^verbatim>\<open>bytePositions\<close> and \<^verbatim>\<open>charPositions\<close> the loop pushes.\<close>

fun position_loop :: "jstring list \<Rightarrow> nat \<Rightarrow> nat \<Rightarrow> (nat \<times> nat) list" where
  "position_loop [] byteOffset codeUnitOffset = []"
| "position_loop (scalar # scalars) byteOffset codeUnitOffset =
     (let b = byteOffset + length (utf8_encode scalar); c = codeUnitOffset + length scalar in
      (b, c) # position_loop scalars b c)"

definition text_positions :: "jstring \<Rightarrow> (nat \<times> nat) list" where
  "text_positions t = (0, 0) # position_loop (js_scalars t) 0 0"

function snap_loop :: "nat list \<Rightarrow> nat \<Rightarrow> nat \<Rightarrow> nat \<Rightarrow> nat" where
  "snap_loop bytePositions target low high =
     (if low < high then
        let mid = (low + high + 1) div 2 in
        if bytePositions ! mid \<le> target then snap_loop bytePositions target mid high
        else snap_loop bytePositions target low (mid - 1)
      else low)"
  by pat_completeness auto
termination by (relation "measure (\<lambda>(bs, t, low, high). high - low)") auto

declare snap_loop.simps [simp del]

definition snap :: "(nat \<times> nat) list \<Rightarrow> nat \<Rightarrow> nat" where
  "snap positions target = map snd positions ! snap_loop (map fst positions) target 0 (length positions - 1)"

subsection \<open>Segments\<close>

record segment =
  sg_ids :: "u32 list"
  sg_text :: jstring

record token_segments =
  tg_leading :: jstring
  tg_segments :: "segment list"

text \<open>\<^verbatim>\<open>text.slice(start, end)\<close> for positions in the text.\<close>

definition js_slice :: "jstring \<Rightarrow> nat \<Rightarrow> nat \<Rightarrow> jstring" where
  "js_slice t start stop = take (stop - start) (drop start t)"

definition push_last :: "u32 \<Rightarrow> segment list \<Rightarrow> segment list" where
  "push_last tid segs = butlast segs @ [(last segs)\<lparr>sg_ids := sg_ids (last segs) @ [tid]\<rparr>]"

fun segment_loop ::
  "jstring \<Rightarrow> (nat \<Rightarrow> nat) \<Rightarrow> (u32 \<times> nat) list \<Rightarrow> segment list \<Rightarrow> u32 list \<Rightarrow> segment list \<times> u32 list" where
  "segment_loop t at_char [] segs pending = (segs, pending)"
| "segment_loop t at_char ((tid, start) # rest) segs pending =
     (let startChar = at_char start;
          endChar = (case rest of [] \<Rightarrow> length t | (_, next) # _ \<Rightarrow> at_char next) in
      if startChar < endChar
      then segment_loop t at_char rest (segs @ [\<lparr>sg_ids = pending @ [tid], sg_text = js_slice t startChar endChar\<rparr>]) []
      else if segs \<noteq> [] then segment_loop t at_char rest (push_last tid segs) pending
      else segment_loop t at_char rest segs (pending @ [tid]))"

definition tokenSegments :: "jstring \<Rightarrow> js_input \<Rightarrow> js_input \<Rightarrow> js_error + token_segments" where
  "tokenSegments t given_ids given_starts =
     (case (given_ids, given_starts) of
        (Typed ids, Typed starts) \<Rightarrow>
          if length ids \<noteq> length starts then Inl (PlainError ''ids and starts must have equal lengths'')
          else
            let positions = text_positions t;
                firstChar = (if starts \<noteq> [] then snap positions (unat (starts ! 0)) else 0) in
            (case segment_loop t (snap positions) (zip ids (map unat starts)) [] [] of
               (segs, pending) \<Rightarrow>
                 Inr \<lparr>tg_leading = js_slice t 0 firstChar,
                   tg_segments =
                     (if pending \<noteq> [] \<and> segs \<noteq> []
                      then (hd segs)\<lparr>sg_ids := pending @ sg_ids (hd segs)\<rparr> # tl segs else segs)\<rparr>)
      | _ \<Rightarrow> Inl (TypeError ''ids and starts must be Uint32Array values''))"

subsection \<open>Code points of a text\<close>

lemma first_scalar_le: "snd (first_scalar u us) \<le> length us"
  by (cases us) (auto simp: first_scalar_def)

lemma concat_js_scalars [simp]: "concat (js_scalars t) = t"
proof (induction t rule: js_scalars.induct)
  case (2 u us)
  then show ?case by (simp add: Let_def)
qed simp

lemma js_scalars_neq_Nil [simp]: "js_scalars t = [] \<longleftrightarrow> t = []"
  by (cases t) (simp_all add: Let_def)

text \<open>Cutting between code points leaves the code points as they are.\<close>

lemma js_scalars_drop: "js_scalars (concat (drop i (js_scalars t))) = drop i (js_scalars t)"
proof (induction t arbitrary: i rule: js_scalars.induct)
  case (2 u us)
  show ?case
  proof (cases i)
    case (Suc j)
    then show ?thesis using 2 [OF refl, of j] by (simp add: Let_def)
  qed (simp add: Let_def)
qed simp

lemma js_scalars_take: "js_scalars (concat (take i (js_scalars t))) = take i (js_scalars t)"
proof (induction t arbitrary: i rule: js_scalars.induct)
  case (2 u us)
  show ?case
  proof (cases i)
    case (Suc j)
    let ?k = "snd (first_scalar u us)" and ?rest = "concat (take j (js_scalars (drop (snd (first_scalar u us)) us)))"
    have "\<exists>ys. drop ?k us = ?rest @ ys"
      by (metis append_take_drop_id concat_append concat_js_scalars)
    then obtain ys where ys: "drop ?k us = ?rest @ ys" by blast
    have k: "?k = 0 \<or> ?k = 1 \<and> (\<exists>v r. us = v # r \<and> is_high u \<and> is_low v)"
      by (cases us) (auto simp: first_scalar_def)
    have same: "snd (first_scalar u (take ?k us @ ?rest)) = ?k"
    proof (cases "?k = 0")
      case True
      then have "us = ?rest @ ys" using ys by simp
      then have "?rest = [] \<or> us \<noteq> [] \<and> hd ?rest = hd us" by (metis append_is_Nil_conv hd_append2)
      then show ?thesis using True by (auto simp: first_scalar_def split: if_splits)
    next
      case False
      then show ?thesis using k by (auto simp: first_scalar_def)
    qed
    have "js_scalars (u # take ?k us @ ?rest) = (u # take ?k us) # js_scalars ?rest"
      using same first_scalar_le [of u us] by (simp add: Let_def)
    then show ?thesis using 2 [OF refl, of j] Suc by (simp add: Let_def)
  qed simp
qed simp

lemma utf8_encode_scalars: "utf8_encode t = concat (map utf8_encode (js_scalars t))"
proof (induction t rule: js_scalars.induct)
  case (2 u us)
  obtain n k where nk: "first_scalar u us = (n, k)" by fastforce
  have "first_scalar u (take k us) = (n, k)"
    using nk by (cases us) (auto simp: first_scalar_def split: if_splits)
  then have "utf8_encode (u # take k us) = scalar_bytes n" using first_scalar_le [of u us] nk by simp
  then show ?case using 2 nk by (simp add: Let_def)
qed simp

subsection \<open>Cuts\<close>

abbreviation byte_pos :: "jstring \<Rightarrow> nat \<Rightarrow> nat" where
  "byte_pos t i \<equiv> length (concat (map utf8_encode (take i (js_scalars t))))"

abbreviation char_pos :: "jstring \<Rightarrow> nat \<Rightarrow> nat" where
  "char_pos t i \<equiv> length (concat (take i (js_scalars t)))"

lemma length_position_loop [simp]: "length (position_loop ss b c) = length ss"
  by (induction ss arbitrary: b c) (simp_all add: Let_def)

lemma nth_position_loop:
  "i < length ss \<Longrightarrow> position_loop ss b c ! i =
     (b + length (concat (map utf8_encode (take (Suc i) ss))), c + length (concat (take (Suc i) ss)))"
proof (induction ss arbitrary: b c i)
  case (Cons s ss)
  then show ?case by (cases i) (simp_all add: Let_def)
qed simp

lemma length_text_positions [simp]: "length (text_positions t) = Suc (length (js_scalars t))"
  by (simp add: text_positions_def)

lemma nth_text_positions: "i \<le> length (js_scalars t) \<Longrightarrow> text_positions t ! i = (byte_pos t i, char_pos t i)"
  by (cases i) (simp_all add: text_positions_def nth_position_loop)

lemma scalar_nonempty: "s \<in> set (js_scalars t) \<Longrightarrow> s \<noteq> [] \<and> utf8_encode s \<noteq> []"
proof (induction t rule: js_scalars.induct)
  case (2 u us)
  obtain n k where nk: "first_scalar u (take (snd (first_scalar u us)) us) = (n, k)" by fastforce
  have "utf8_encode (u # take (snd (first_scalar u us)) us) \<noteq> []" using nk by (simp add: scalar_bytes_def Let_def)
  then show ?case using 2 by (auto simp: Let_def)
qed simp

lemma prefix_length_less:
  assumes "i < j" and "j \<le> length xss" and "list_all (\<lambda>xs. xs \<noteq> []) xss"
  shows "length (concat (take i xss)) < length (concat (take j xss))"
proof -
  have "take j xss = take i xss @ take (j - i) (drop i xss)" using assms(1) by (metis le_add_diff_inverse less_imp_le_nat take_add)
  moreover obtain xs rest where "take (j - i) (drop i xss) = xs # rest" "xs \<in> set xss"
  proof -
    have "drop i xss = xss ! i # drop (Suc i) xss" using assms(1,2) by (simp add: Cons_nth_drop_Suc)
    then have "take (j - i) (drop i xss) = xss ! i # take (j - Suc i) (drop (Suc i) xss)" using assms(1) by (simp add: take_Cons')
    then show ?thesis using that assms(1,2) by (meson less_le_trans nth_mem)
  qed
  ultimately show ?thesis using assms(3) by (auto simp: list_all_iff)
qed

lemma pos_less:
  assumes "i < j" and "j \<le> length (js_scalars t)"
  shows "byte_pos t i < byte_pos t j" and "char_pos t i < char_pos t j"
  using prefix_length_less [OF assms] prefix_length_less [of i j "map utf8_encode (js_scalars t)"] assms scalar_nonempty [of _ t]
  by (simp_all add: list_all_iff take_map)

lemma pos_le: "i \<le> j \<Longrightarrow> j \<le> length (js_scalars t) \<Longrightarrow> byte_pos t i \<le> byte_pos t j \<and> char_pos t i \<le> char_pos t j"
  using pos_less [of i j t] by (cases "i = j") auto

lemma char_pos_end: "char_pos t (length (js_scalars t)) = length t"
  by simp

lemma snap_loop_spec:
  assumes "low \<le> high" and "high < length bs" and "bs ! low \<le> target" and "\<forall>i. high < i \<and> i < length bs \<longrightarrow> target < bs ! i"
    and "\<forall>i j. i \<le> j \<and> j < length bs \<longrightarrow> bs ! i \<le> bs ! j"
  shows "snap_loop bs target low high < length bs \<and> bs ! snap_loop bs target low high \<le> target \<and>
    (\<forall>i. snap_loop bs target low high < i \<and> i < length bs \<longrightarrow> target < bs ! i)"
  using assms
proof (induction bs target low high rule: snap_loop.induct)
  case (1 bs target low high)
  show ?case
  proof (cases "low < high")
    case False
    then show ?thesis using 1(3-7) by (subst (1 2 3) snap_loop.simps) auto
  next
    case True
    let ?mid = "(low + high + 1) div 2"
    have mid: "low < ?mid" "?mid \<le> high" using True by simp_all
    show ?thesis
    proof (cases "bs ! ?mid \<le> target")
      case below: True
      have step: "snap_loop bs target low high = snap_loop bs target ?mid high"
        using True below by (subst snap_loop.simps) (simp add: Let_def)
      show ?thesis unfolding step by (rule "1.IH"(1) [OF True refl below]) (use 1(3-7) mid below in auto)
    next
      case above: False
      have step: "snap_loop bs target low high = snap_loop bs target low (?mid - 1)"
        using True above by (subst snap_loop.simps) (simp add: Let_def)
      have "target < bs ! i" if "?mid - 1 < i" "i < length bs" for i
      proof -
        have "bs ! ?mid \<le> bs ! i" using 1(7) that by auto
        then show ?thesis using above by simp
      qed
      then show ?thesis unfolding step by (intro "1.IH"(2) [OF True refl above]) (use 1(3-7) mid in auto)
    qed
  qed
qed

lemma snap_spec:
  obtains i where "i \<le> length (js_scalars t)" and "snap (text_positions t) x = char_pos t i" and "byte_pos t i \<le> x"
    and "\<And>j. j \<le> length (js_scalars t) \<Longrightarrow> byte_pos t j \<le> x \<Longrightarrow> j \<le> i"
proof -
  let ?n = "length (js_scalars t)" and ?bs = "map fst (text_positions t)"
  have bs: "?bs ! i = byte_pos t i" if "i \<le> ?n" for i
    using that nth_text_positions [of i t] by simp
  let ?i = "snap_loop ?bs x 0 ?n"
  have "?i < length ?bs \<and> ?bs ! ?i \<le> x \<and> (\<forall>i. ?i < i \<and> i < length ?bs \<longrightarrow> x < ?bs ! i)"
    by (rule snap_loop_spec) (use bs [of 0] bs pos_le [of _ _ t] in auto)
  then have i: "?i \<le> ?n" "byte_pos t ?i \<le> x" "\<And>j. j \<le> ?n \<Longrightarrow> byte_pos t j \<le> x \<Longrightarrow> j \<le> ?i"
    using bs by (auto simp: not_le [symmetric])
  have "snap (text_positions t) x = char_pos t ?i"
    using i(1) nth_text_positions [OF i(1)] by (simp add: snap_def)
  then show ?thesis using that i by blast
qed

text \<open>The places between code points.\<close>

definition is_cut :: "jstring \<Rightarrow> nat \<Rightarrow> bool" where
  "is_cut t p \<longleftrightarrow> (\<exists>i \<le> length (js_scalars t). p = char_pos t i)"

lemma snap_cut: "is_cut t (snap (text_positions t) x)"
  by (rule snap_spec [of t x]) (auto simp: is_cut_def)

lemma end_cut: "is_cut t (length t)"
  unfolding is_cut_def by (intro exI [of _ "length (js_scalars t)"]) simp

lemma snap_mono:
  assumes "x \<le> y"
  shows "snap (text_positions t) x \<le> snap (text_positions t) y"
proof -
  obtain i where i: "i \<le> length (js_scalars t)" "snap (text_positions t) x = char_pos t i" "byte_pos t i \<le> x"
    by (rule snap_spec [of t x]) auto
  obtain j where j: "j \<le> length (js_scalars t)" "snap (text_positions t) y = char_pos t j"
    "\<And>k. k \<le> length (js_scalars t) \<Longrightarrow> byte_pos t k \<le> y \<Longrightarrow> k \<le> j"
    by (rule snap_spec [of t y]) auto
  show ?thesis using j(3) [OF i(1)] i(2,3) j(1,2) assms pos_le [of i j t] by simp
qed

lemma cut_le_length: "is_cut t p \<Longrightarrow> p \<le> length t"
  using pos_le [of _ "length (js_scalars t)" t] by (auto simp: is_cut_def)

lemma cut_drop: "i \<le> length (js_scalars t) \<Longrightarrow> drop (char_pos t i) t = concat (drop i (js_scalars t))"
  by (metis append_eq_conv_conj append_take_drop_id concat_append concat_js_scalars)

lemma cut_slice:
  assumes "is_cut t p" and "is_cut t q" and "p \<le> q"
  shows "drop p t = js_slice t p q @ drop q t"
    and "utf8_encode (drop p t) = utf8_encode (js_slice t p q) @ utf8_encode (drop q t)"
proof -
  obtain i j where ij: "i \<le> length (js_scalars t)" "j \<le> length (js_scalars t)" "p = char_pos t i" "q = char_pos t j"
    using assms(1,2) by (auto simp: is_cut_def)
  have le: "i \<le> j" using pos_less(2) [of j i t] ij assms(3) by (cases "i \<le> j") auto
  let ?rest = "concat (drop i (js_scalars t))" and ?piece = "take (j - i) (drop i (js_scalars t))"
  have rest: "js_scalars ?rest = drop i (js_scalars t)" by (rule js_scalars_drop)
  have split: "drop i (js_scalars t) = ?piece @ drop j (js_scalars t)"
    using le by (metis append_take_drop_id drop_drop le_add_diff_inverse2)
  have "length (concat ?piece) = q - p"
    using le ij by (metis (no_types, lifting) add_diff_cancel_left' concat_append le_add_diff_inverse length_append take_add)
  moreover have "drop p t = concat ?piece @ drop q t" using ij split cut_drop [of i t] cut_drop [of j t] by (metis concat_append)
  ultimately have slice: "js_slice t p q = concat ?piece" by (simp add: js_slice_def)
  show "drop p t = js_slice t p q @ drop q t" unfolding slice by fact
  have enc: "utf8_encode (concat xs) = concat (map utf8_encode xs)" if "js_scalars (concat xs) = xs" for xs
    using utf8_encode_scalars [of "concat xs"] that by simp
  have "js_scalars (concat ?piece) = ?piece" using js_scalars_take [of "j - i" ?rest] by (simp only: rest)
  then have "utf8_encode ?rest = utf8_encode (concat ?piece) @ utf8_encode (concat (drop j (js_scalars t)))"
    unfolding enc [OF rest] enc [OF js_scalars_drop] by (subst split) (simp add: enc)
  then show "utf8_encode (drop p t) = utf8_encode (js_slice t p q) @ utf8_encode (drop q t)"
    using cut_drop [OF ij(1)] cut_drop [OF ij(2)] slice ij(3,4) by metis
qed

subsection \<open>The loop over the tokens\<close>

abbreviation segment_texts :: "segment list \<Rightarrow> jstring" where
  "segment_texts segs \<equiv> concat (map sg_text segs)"

abbreviation segment_bytes :: "segment list \<Rightarrow> bytes" where
  "segment_bytes segs \<equiv> concat (map (\<lambda>sg. utf8_encode (sg_text sg)) segs)"

abbreviation segment_ids :: "segment list \<Rightarrow> u32 list" where
  "segment_ids segs \<equiv> concat (map sg_ids segs)"

lemma push_last_fields:
  assumes "segs \<noteq> []"
  shows "map sg_text (push_last tid segs) = map sg_text segs" and "segment_ids (push_last tid segs) = segment_ids segs @ [tid]"
    and "push_last tid segs \<noteq> []" and "segment_bytes (push_last tid segs) = segment_bytes segs"
    and "list_all (\<lambda>sg. sg_text sg \<noteq> []) (push_last tid segs) = list_all (\<lambda>sg. sg_text sg \<noteq> []) segs"
  using assms by (cases segs rule: rev_cases; simp add: push_last_def)+

text \<open>What the loop adds to what it was given.\<close>

definition covered ::
  "jstring \<Rightarrow> (nat \<Rightarrow> nat) \<Rightarrow> (u32 \<times> nat) list \<Rightarrow> segment list \<Rightarrow> u32 list \<Rightarrow> segment list \<Rightarrow> u32 list \<Rightarrow> bool" where
  "covered t at_char pairs segs pending segs' pending' \<longleftrightarrow>
     segment_ids segs' @ pending' = segment_ids segs @ pending @ map fst pairs \<and> (pending' \<noteq> [] \<longrightarrow> segs' = []) \<and>
     list_all (\<lambda>sg. sg_text sg \<noteq> []) segs' \<and>
     (if pairs = [] then segs' = segs
      else segment_texts segs' = segment_texts segs @ drop (at_char (snd (hd pairs))) t \<and>
        segment_bytes segs' = segment_bytes segs @ utf8_encode (drop (at_char (snd (hd pairs))) t))"

lemma segment_loop_spec:
  assumes "segment_loop t at_char pairs segs pending = (segs', pending')" and "sorted (map snd pairs)"
    and "\<And>x. is_cut t (at_char x)" and "\<And>x y. x \<le> y \<Longrightarrow> at_char x \<le> at_char y"
    and "pending \<noteq> [] \<Longrightarrow> segs = []" and "list_all (\<lambda>sg. sg_text sg \<noteq> []) segs"
  shows "covered t at_char pairs segs pending segs' pending'"
  using assms(1,2,5,6)
proof (induction pairs arbitrary: segs pending)
  case (Cons pair rest)
  obtain tid start where pair: "pair = (tid, start)" by fastforce
  define stop where "stop = (case rest of [] \<Rightarrow> length t | (_, next) # _ \<Rightarrow> at_char next)"
  have le: "at_char start \<le> stop"
    using Cons.prems(2) assms(3,4) cut_le_length pair by (auto simp: stop_def split: list.split)
  have cut: "is_cut t stop" using assms(3) end_cut by (auto simp: stop_def split: list.split)
  note slice = cut_slice [OF assms(3) cut le]
  have tail: "rest = [] \<Longrightarrow> drop stop t = []" "rest \<noteq> [] \<Longrightarrow> at_char (snd (hd rest)) = stop"
    by (auto simp: stop_def split: list.split)
  have sorted: "sorted (map snd rest)" using Cons.prems(2) by simp
  consider (piece) "at_char start < stop" | (join) "at_char start = stop" "segs \<noteq> []" | (wait) "at_char start = stop" "segs = []"
    using le by fastforce
  then show ?case
  proof cases
    case piece
    let ?sg = "\<lparr>sg_ids = pending @ [tid], sg_text = js_slice t (at_char start) stop\<rparr>"
    have "segment_loop t at_char rest (segs @ [?sg]) [] = (segs', pending')"
      using Cons.prems(1) piece pair by (simp add: Let_def stop_def [symmetric])
    moreover have "js_slice t (at_char start) stop \<noteq> []"
      using piece cut_le_length [OF cut] by (simp add: js_slice_def)
    ultimately have "covered t at_char rest (segs @ [?sg]) [] segs' pending'"
      using Cons.prems(4) by (intro Cons.IH sorted) auto
    then show ?thesis using slice tail pair by (cases "rest = []") (auto simp: covered_def)
  next
    case join
    have none: "pending = []" using Cons.prems(3) join(2) by blast
    have "segment_loop t at_char rest (push_last tid segs) pending = (segs', pending')"
      using Cons.prems(1) join pair by (simp add: Let_def stop_def [symmetric])
    moreover have "list_all (\<lambda>sg. sg_text sg \<noteq> []) (push_last tid segs)"
      using push_last_fields(5) [OF join(2), of tid] Cons.prems(4) by simp
    ultimately have "covered t at_char rest (push_last tid segs) pending segs' pending'"
      using none by (intro Cons.IH sorted) auto
    then show ?thesis using tail pair none join push_last_fields [OF join(2), of tid]
      by (cases "rest = []") (auto simp: covered_def)
  next
    case wait
    have "segment_loop t at_char rest segs (pending @ [tid]) = (segs', pending')"
      using Cons.prems(1) wait pair by (simp add: Let_def stop_def [symmetric])
    then have "covered t at_char rest segs (pending @ [tid]) segs' pending'"
      using wait(2) by (intro Cons.IH sorted) auto
    then show ?thesis using tail pair wait by (cases "rest = []") (auto simp: covered_def)
  qed
qed (simp add: covered_def)

subsection \<open>Properties\<close>

lemma tokenSegments_parts:
  assumes "sorted (map unat starts)" and "length ids = length starts" and "ids \<noteq> []"
  obtains segs where "tokenSegments t (Typed ids) (Typed starts) =
      Inr \<lparr>tg_leading = take (snap (text_positions t) (unat (hd starts))) t, tg_segments = segs\<rparr>"
    and "covered t (snap (text_positions t)) (zip ids (map unat starts)) [] [] segs [] \<or>
      segs = [] \<and> covered t (snap (text_positions t)) (zip ids (map unat starts)) [] [] [] ids"
proof -
  obtain segs pending where loop: "segment_loop t (snap (text_positions t)) (zip ids (map unat starts)) [] [] = (segs, pending)"
    by fastforce
  have cov: "covered t (snap (text_positions t)) (zip ids (map unat starts)) [] [] segs pending"
    by (rule segment_loop_spec [OF loop]) (use assms snap_cut snap_mono in auto)
  have starts: "starts \<noteq> []" "starts ! 0 = hd starts" using assms(2,3) by (cases starts; simp)+
  have pend: "pending \<noteq> [] \<Longrightarrow> segs = [] \<and> pending = ids" using cov assms(2) by (auto simp: covered_def)
  then have "tokenSegments t (Typed ids) (Typed starts) =
      Inr \<lparr>tg_leading = take (snap (text_positions t) (unat (hd starts))) t, tg_segments = segs\<rparr>"
    using loop starts assms(2) by (auto simp: tokenSegments_def js_slice_def Let_def)
  then show ?thesis using that cov pend by (cases "pending = []") auto
qed

text \<open>
  C34. The painted pieces are the text: for the ids of a text and starts that do not decrease, the
  text before the first token and the texts of the segments are the whole text in order, cut
  between code points only, so that their bytes are its bytes; no segment is empty, and every id is
  in a segment, in order, unless no text is left for any token.
\<close>

theorem token_segments_partition:
  assumes "sorted (map unat starts)" and "length ids = length starts" and "ids \<noteq> []"
  shows "\<exists>tg. tokenSegments t (Typed ids) (Typed starts) = Inr tg \<and>
    tg_leading tg @ concat (map sg_text (tg_segments tg)) = t \<and>
    utf8_encode t = utf8_encode (tg_leading tg) @ concat (map (\<lambda>sg. utf8_encode (sg_text sg)) (tg_segments tg)) \<and>
    length (utf8_encode (tg_leading tg)) \<le> unat (hd starts) \<and>
    list_all (\<lambda>sg. sg_text sg \<noteq> []) (tg_segments tg) \<and>
    (concat (map sg_ids (tg_segments tg)) = ids \<or> tg_segments tg = [] \<and> tg_leading tg = t)"
proof -
  let ?p = "snap (text_positions t) (unat (hd starts))" and ?pairs = "zip ids (map unat starts)"
  obtain segs where segs: "tokenSegments t (Typed ids) (Typed starts) = Inr \<lparr>tg_leading = take ?p t, tg_segments = segs\<rparr>"
    "covered t (snap (text_positions t)) ?pairs [] [] segs [] \<or> segs = [] \<and> covered t (snap (text_positions t)) ?pairs [] [] [] ids"
    by (rule tokenSegments_parts [OF assms])
  have pairs: "?pairs \<noteq> []" "snd (hd ?pairs) = unat (hd starts)" "map fst ?pairs = ids"
    using assms(2,3) by (cases ids; cases starts; simp)+
  have cut: "is_cut t 0" "is_cut t ?p" using snap_cut by (auto simp: is_cut_def)
  have whole: "utf8_encode t = utf8_encode (take ?p t) @ utf8_encode (drop ?p t)"
    using cut_slice(2) [OF cut] by (simp add: js_slice_def)
  have texts: "segment_texts segs = drop ?p t" "segment_bytes segs = utf8_encode (drop ?p t)"
    "list_all (\<lambda>sg. sg_text sg \<noteq> []) segs" "segment_ids segs = ids \<or> segs = []"
    using segs(2) pairs by (auto simp: covered_def)
  obtain i where i: "?p = char_pos t i" "byte_pos t i \<le> unat (hd starts)" "i \<le> length (js_scalars t)"
    by (rule snap_spec [of t "unat (hd starts)"]) auto
  have "take ?p t = concat (take i (js_scalars t))"
    unfolding i(1) by (metis append_eq_conv_conj append_take_drop_id concat_append concat_js_scalars)
  then have "utf8_encode (take ?p t) = concat (map utf8_encode (take i (js_scalars t)))"
    using utf8_encode_scalars [of "concat (take i (js_scalars t))"] js_scalars_take [of i t] by simp
  then have "length (utf8_encode (take ?p t)) \<le> unat (hd starts)" using i(2) by simp
  moreover have "segs = [] \<Longrightarrow> take ?p t = t" using texts(1) by simp
  ultimately show ?thesis using segs(1) texts whole by auto
qed

text \<open>Two tokens in one character of two bytes.\<close>

lemma accent_segments:
  "tokenSegments [0xE9, 0x21] (Typed [5, 6, 7]) (Typed [0, 1, 2]) =
    Inr \<lparr>tg_leading = [], tg_segments = [\<lparr>sg_ids = [5, 6], sg_text = [0xE9]\<rparr>, \<lparr>sg_ids = [7], sg_text = [0x21]\<rparr>]\<rparr>"
proof -
  have pos: "text_positions [0xE9, 0x21] = [(0, 0), (2, 1), (3, 2)]"
    by (simp add: text_positions_def first_scalar_def is_high_def is_low_def Let_def scalar_bytes_def)
  have snaps: "snap (text_positions [0xE9, 0x21]) 0 = 0" "snap (text_positions [0xE9, 0x21]) (Suc 0) = 0"
    "snap (text_positions [0xE9, 0x21]) 2 = 1"
    by (simp_all add: pos snap_def snap_loop.simps [of _ _ _ "Suc _"] snap_loop.simps [of _ _ _ "numeral _"] snap_loop.simps [of _ _ _ 0])
  then show ?thesis by (simp add: tokenSegments_def js_slice_def push_last_def Let_def)
qed

theorem token_segments_partition_witness:
  "\<exists>tg. tokenSegments [0xE9, 0x21] (Typed [5, 6, 7]) (Typed [0, 1, 2]) = Inr tg \<and>
     tg_leading tg @ concat (map sg_text (tg_segments tg)) = [0xE9, 0x21] \<and>
     map sg_ids (tg_segments tg) = [[5, 6], [7]]"
proof -
  have sorted: "sorted (map unat [0 :: u32, 1, 2])" by simp
  show ?thesis using token_segments_partition [OF sorted, of "[5, 6, 7]" "[0xE9, 0x21]"] accent_segments by auto
qed

end
