(* ===== verification/Paint.thy ===== *)
theory Paint
  imports Span_Map JString
begin

text \<open>
  What the demo puts behind the text of its editor, \<^verbatim>\<open>paintTokens\<close> of \<^verbatim>\<open>app.mjs\<close>: a span for
  each segment up to a limit, with the ids it stands for, and the rest of the text without colour.
\<close>

subsection \<open>Nodes\<close>

definition PAINT_LIMIT :: nat where
  "PAINT_LIMIT = 2000"

text \<open>A text node, or a span with the number of its class and its \<^verbatim>\<open>data-id\<close>.\<close>

datatype paint_node = is_TextNode: TextNode (node_text: jstring) | is_SpanNode: SpanNode nat (node_text: jstring) string

definition segment_id :: "segment \<Rightarrow> string" where
  "segment_id sg = js_join '', '' (map (\<lambda>tid. show_nat (unat tid)) (sg_ids sg))"

text \<open>The loop appends a span and counts the code units that are painted.\<close>

fun paint_loop :: "segment list \<Rightarrow> nat \<Rightarrow> nat \<Rightarrow> paint_node list \<Rightarrow> paint_node list \<times> nat" where
  "paint_loop [] index paintedChars nodes = (nodes, paintedChars)"
| "paint_loop (sg # sgs) index paintedChars nodes =
     paint_loop sgs (Suc index) (paintedChars + length (sg_text sg))
       (nodes @ [SpanNode (index mod 5) (sg_text sg) (segment_id sg)])"

definition paintTokens :: "jstring \<Rightarrow> js_input \<Rightarrow> js_input \<Rightarrow> js_error + paint_node list" where
  "paintTokens t given_ids given_starts =
     (case tokenSegments t given_ids given_starts of
        Inl e \<Rightarrow> Inl e
      | Inr tg \<Rightarrow>
          (case paint_loop (take PAINT_LIMIT (tg_segments tg)) 0 (length (tg_leading tg))
              (if tg_leading tg \<noteq> [] then [TextNode (tg_leading tg)] else []) of
             (nodes, paintedChars) \<Rightarrow>
               Inr (if PAINT_LIMIT < length (tg_segments tg) then nodes @ [TextNode (drop paintedChars t)] else nodes)))"

subsection \<open>What is painted\<close>

lemma paint_loop_eq:
  "paint_loop sgs index n nodes =
     (nodes @ map (\<lambda>(i, sg). SpanNode (i mod 5) (sg_text sg) (segment_id sg)) (zip [index..<index + length sgs] sgs),
      n + length (segment_texts sgs))"
proof (induction sgs arbitrary: index n nodes)
  case (Cons sg sgs)
  have "[index..<index + length (sg # sgs)] = index # [Suc index..<Suc index + length sgs]" by (simp add: upt_rec)
  then show ?case by (simp add: Cons.IH)
qed simp

lemma span_texts:
  "map node_text (map (\<lambda>(i, sg). SpanNode (i mod 5) (sg_text sg) (segment_id sg)) (zip [k..<k + length sgs] sgs)) = map sg_text sgs"
proof (induction sgs arbitrary: k)
  case (Cons sg sgs)
  have "[k..<k + length (sg # sgs)] = k # [Suc k..<Suc k + length sgs]" by (simp add: upt_rec)
  then show ?case using Cons.IH [of "Suc k"] by simp
qed simp

lemma tokenSegments_text:
  assumes "sorted (map unat starts)" and "length ids = length starts" and "ids \<noteq> []"
  obtains tg where "tokenSegments t (Typed ids) (Typed starts) = Inr tg" and "tg_leading tg @ segment_texts (tg_segments tg) = t"
    and "list_all (\<lambda>sg. sg_text sg \<noteq> []) (tg_segments tg)"
proof -
  let ?p = "snap (text_positions t) (unat (hd starts))" and ?pairs = "zip ids (map unat starts)"
  obtain segs where segs: "tokenSegments t (Typed ids) (Typed starts) = Inr \<lparr>tg_leading = take ?p t, tg_segments = segs\<rparr>"
    "covered t (snap (text_positions t)) ?pairs [] [] segs [] \<or> segs = [] \<and> covered t (snap (text_positions t)) ?pairs [] [] [] ids"
    by (rule tokenSegments_parts [OF assms])
  have "?pairs \<noteq> []" "snd (hd ?pairs) = unat (hd starts)" using assms(2,3) by (cases ids; cases starts; simp)+
  then have "segment_texts segs = drop ?p t" "list_all (\<lambda>sg. sg_text sg \<noteq> []) segs"
    using segs(2) by (auto simp: covered_def)
  then show ?thesis using that [OF segs(1)] by simp
qed

text \<open>
  C35. The page shows the text and nothing else: for the ids of a text and starts that do not
  decrease, the nodes hold the text in order, however many segments there are; none is empty, and
  there are at most two more than the limit. The spans are the first segments, each with the
  ids of its segment and in a class other than that of its neighbours.
\<close>

theorem painting_is_text:
  assumes "sorted (map unat starts)" and "length ids = length starts" and "ids \<noteq> []"
  shows "\<exists>nodes tg. paintTokens t (Typed ids) (Typed starts) = Inr nodes \<and> tokenSegments t (Typed ids) (Typed starts) = Inr tg \<and>
    concat (map node_text nodes) = t \<and> list_all (\<lambda>nd. node_text nd \<noteq> []) nodes \<and> length nodes \<le> PAINT_LIMIT + 2 \<and>
    filter is_SpanNode nodes =
      map (\<lambda>(i, sg). SpanNode (i mod 5) (sg_text sg) (segment_id sg)) (enumerate 0 (take PAINT_LIMIT (tg_segments tg)))"
proof -
  obtain tg where tg: "tokenSegments t (Typed ids) (Typed starts) = Inr tg" "tg_leading tg @ segment_texts (tg_segments tg) = t"
    "list_all (\<lambda>sg. sg_text sg \<noteq> []) (tg_segments tg)" using tokenSegments_text [OF assms] .
  let ?shown = "take PAINT_LIMIT (tg_segments tg)" and ?rest = "drop PAINT_LIMIT (tg_segments tg)"
  let ?spans = "map (\<lambda>(i, sg). SpanNode (i mod 5) (sg_text sg) (segment_id sg)) (enumerate 0 ?shown)"
  let ?lead = "if tg_leading tg \<noteq> [] then [TextNode (tg_leading tg)] else []"
  let ?tail = "if PAINT_LIMIT < length (tg_segments tg) then [TextNode (segment_texts ?rest)] else []"
  have texts: "map node_text ?spans = map sg_text ?shown" using span_texts [of 0 ?shown] by (simp add: enumerate_eq_zip)
  have parts: "t = tg_leading tg @ segment_texts ?shown @ segment_texts ?rest"
    using tg(2) by (metis append_take_drop_id concat_append map_append)
  then have "drop (length (tg_leading tg) + length (segment_texts ?shown)) t = segment_texts ?rest" by (simp add: drop_append)
  then have nodes: "paintTokens t (Typed ids) (Typed starts) = Inr (?lead @ ?spans @ ?tail)"
    using tg(1) by (simp add: paintTokens_def paint_loop_eq enumerate_eq_zip)
  have shown: "concat (map node_text ?spans) = segment_texts ?shown" by (simp only: texts)
  have lead: "concat (map node_text ?lead) = tg_leading tg" by simp
  have tail: "concat (map node_text ?tail) = segment_texts ?rest" by simp
  have all_text: "concat (map node_text (?lead @ ?spans @ ?tail)) = t"
    unfolding map_append concat_append lead shown tail by (rule parts [symmetric])
  have "list_all (\<lambda>x. x \<noteq> []) (map node_text ?spans)" unfolding texts using tg(3) by (auto simp: list_all_iff dest: in_set_takeD)
  moreover have "segment_texts ?rest \<noteq> []" if "PAINT_LIMIT < length (tg_segments tg)"
  proof -
    have "?rest \<noteq> []" using that by simp
    moreover have "list_all (\<lambda>sg. sg_text sg \<noteq> []) ?rest" using tg(3) by (auto simp: list_all_iff dest: in_set_dropD)
    ultimately show ?thesis by (cases ?rest) auto
  qed
  ultimately have full: "list_all (\<lambda>nd. node_text nd \<noteq> []) (?lead @ ?spans @ ?tail)" by (simp add: list.pred_map comp_def)
  have "filter is_SpanNode (?lead @ ?spans @ ?tail) = ?spans" by (auto simp: filter_id_conv)
  moreover have "length (?lead @ ?spans @ ?tail) \<le> PAINT_LIMIT + 2" by simp
  ultimately show ?thesis using nodes tg(1) all_text full by blast
qed

text \<open>Two tokens in one character of two bytes, and the character after it.\<close>

theorem painting_is_text_witness:
  "\<exists>nodes. paintTokens [0xE9, 0x21] (Typed [5, 6, 7]) (Typed [0, 1, 2]) = Inr nodes \<and>
     concat (map node_text nodes) = [0xE9, 0x21] \<and> nodes = [SpanNode 0 [0xE9] ''5, 6'', SpanNode 1 [0x21] ''7'']"
proof -
  have run: "paintTokens [0xE9, 0x21] (Typed [5, 6, 7]) (Typed [0, 1, 2]) =
    Inr [SpanNode 0 [0xE9] ''5, 6'', SpanNode 1 [0x21] ''7'']"
    by (simp add: paintTokens_def accent_segments segment_id_def show_nat.simps PAINT_LIMIT_def char_of_def bit_0)
  have sorted: "sorted (map unat [0 :: u32, 1, 2])" by simp
  show ?thesis using painting_is_text [OF sorted, of "[5, 6, 7]" "[0xE9, 0x21]"] run by auto
qed

end
