(* ===== verification/Strip_Sections.thy ===== *)
theory Strip_Sections
  imports Reserved Utf8
begin

text \<open>
  The build step that removes custom sections from a WebAssembly binary,
  \<^verbatim>\<open>strip-wasm-custom-sections.mjs\<close>: the numbers and names of a section, the loop over the
  sections, and what it keeps.
\<close>

unbundle bit_operations_syntax

subsection \<open>The code\<close>

text \<open>
  The loop of \<^verbatim>\<open>readU32\<close>. JavaScript computes \<^verbatim>\<open>value\<close> on 32 bits, and every \<^verbatim>\<open>shift\<close> it uses is
  below 32, so bits above the word are lost.
\<close>

definition leb_error :: js_error where
  "leb_error = PlainError ''invalid WebAssembly u32 LEB128 value''"

function read_loop :: "bytes \<Rightarrow> nat \<Rightarrow> nat \<Rightarrow> u32 \<Rightarrow> js_error + nat \<times> nat" where
  "read_loop bs offset shift acc =
     (if offset < length bs \<and> shift < 35 then
        let byte = bs ! offset;
            acc' = acc OR push_bit shift (ucast (byte AND 0x7F)) in
        if byte AND 0x80 = 0 then Inr (unat acc', offset + 1)
        else read_loop bs (offset + 1) (shift + 7) acc'
      else Inl leb_error)"
  by pat_completeness auto
termination by (relation "measure (\<lambda>(bs, offset, shift, acc). 35 - shift)") auto

declare read_loop.simps [simp del]

definition readU32 :: "bytes \<Rightarrow> nat \<Rightarrow> js_error + nat \<times> nat" where
  "readU32 bs start = read_loop bs start 0 0"

definition customName :: "bytes \<Rightarrow> nat \<Rightarrow> nat \<Rightarrow> js_error + jstring" where
  "customName bs payloadStart payloadEnd =
     try_bind (readU32 bs payloadStart) (\<lambda>(len, offset).
     try_bind (try_if (payloadEnd < offset + len) (PlainError ''custom section name exceeds its payload'')) (\<lambda>_.
     textDecoder False True (take len (drop offset bs))))"

definition shouldStrip :: "jstring \<Rightarrow> bool" where
  "shouldStrip name \<longleftrightarrow>
     name = js_literal ''name'' \<or> name = js_literal ''producers'' \<or> name = js_literal ''sourceMappingURL'' \<or>
     name = js_literal ''external_debug_info'' \<or> take 7 name = js_literal ''.debug_''"

text \<open>One round of the loop: the name of the section, if it is a custom one, and where it ends.\<close>

definition section_round :: "bytes \<Rightarrow> nat \<Rightarrow> js_error + jstring option \<times> nat" where
  "section_round bs sectionStart =
     try_bind (readU32 bs (sectionStart + 1)) (\<lambda>(len, payloadStart).
     let payloadEnd = payloadStart + len in
     try_bind (try_if (length bs < payloadEnd) (PlainError ''WebAssembly section exceeds the input'')) (\<lambda>_.
     try_bind (if bs ! sectionStart = 0 then try_bind (customName bs payloadStart payloadEnd) (\<lambda>n. Inr (Some n)) else Inr None)
       (\<lambda>name. Inr (name, payloadEnd))))"

lemma read_loop_progress: "read_loop bs offset shift acc = Inr (v, next) \<Longrightarrow> offset < next \<and> next \<le> length bs"
proof (induction bs offset shift acc rule: read_loop.induct)
  case (1 bs offset shift acc)
  show ?case
  proof (cases "offset < length bs \<and> shift < 35 \<and> bs ! offset AND 0x80 \<noteq> 0")
    case True
    then have "read_loop bs (offset + 1) (shift + 7) (acc OR push_bit shift (ucast (bs ! offset AND 0x7F))) = Inr (v, next)"
      using 1(2) by (subst (asm) read_loop.simps) (simp add: Let_def)
    then show ?thesis using 1(1) True by fastforce
  next
    case False
    then show ?thesis using 1(2) by (subst (asm) read_loop.simps) (auto simp: Let_def split: if_splits)
  qed
qed

lemma section_round_progress: "section_round bs offset = Inr (name, next) \<Longrightarrow> offset < next \<and> next \<le> length bs"
  by (auto simp: section_round_def readU32_def try_bind_Inr Let_def dest!: read_loop_progress)

record removed_section =
  rs_name :: jstring
  rs_bytes :: nat

function strip_loop ::
  "bytes \<Rightarrow> nat \<Rightarrow> bytes list \<Rightarrow> removed_section list \<Rightarrow> js_error + bytes list \<times> removed_section list" where
  "strip_loop bs offset kept removed =
     (if offset < length bs then
        (case section_round bs offset of
           Inl e \<Rightarrow> Inl e
         | Inr (name, payloadEnd) \<Rightarrow>
             (case name of
                Some n \<Rightarrow>
                  if shouldStrip n
                  then strip_loop bs payloadEnd kept (removed @ [\<lparr>rs_name = n, rs_bytes = payloadEnd - offset\<rparr>])
                  else strip_loop bs payloadEnd (kept @ [take (payloadEnd - offset) (drop offset bs)]) removed
              | None \<Rightarrow> strip_loop bs payloadEnd (kept @ [take (payloadEnd - offset) (drop offset bs)]) removed))
      else Inr (kept, removed))"
  by pat_completeness auto
termination
  by (relation "measure (\<lambda>(bs, offset, kept, removed). length bs - offset)")
    (auto dest!: sym [of "Inr _"] section_round_progress)

declare strip_loop.simps [simp del]

definition stripCustomSections :: "bytes \<Rightarrow> js_error + bytes \<times> removed_section list" where
  "stripCustomSections bs =
     (if length bs < 8 \<or> bs ! 0 \<noteq> 0 \<or> bs ! 1 \<noteq> 0x61 \<or> bs ! 2 \<noteq> 0x73 \<or> bs ! 3 \<noteq> 0x6D
      then Inl (PlainError ''input is not a WebAssembly binary'')
      else try_bind (strip_loop bs 8 [take 8 bs] []) (\<lambda>(kept, removed). Inr (concat kept, removed)))"

subsection \<open>A section does not depend on what is around it\<close>

text \<open>The number at the head of a list, and how many bytes it takes.\<close>

fun leb :: "bytes \<Rightarrow> nat \<Rightarrow> u32 \<Rightarrow> (nat \<times> nat) option" where
  "leb [] shift acc = None"
| "leb (b # bs) shift acc =
     (if shift < 35 then
        let acc' = acc OR push_bit shift (ucast (b AND 0x7F)) in
        if b AND 0x80 = 0 then Some (unat acc', 1) else map_option (apsnd Suc) (leb bs (shift + 7) acc')
      else None)"

lemma read_loop_leb:
  "read_loop bs offset shift acc =
     (case leb (drop offset bs) shift acc of None \<Rightarrow> Inl leb_error | Some (v, n) \<Rightarrow> Inr (v, offset + n))"
proof (induction bs offset shift acc rule: read_loop.induct)
  case (1 bs offset shift acc)
  show ?case
  proof (cases "offset < length bs")
    case False
    then show ?thesis by (subst read_loop.simps) simp
  next
    case True
    then have "drop offset bs = bs ! offset # drop (Suc offset) bs" by (simp add: Cons_nth_drop_Suc)
    then show ?thesis using 1 True by (subst read_loop.simps) (auto simp: Let_def split: option.split)
  qed
qed

lemma leb_take: "leb bs shift acc = Some (v, n) \<Longrightarrow> take n bs = take n cs \<Longrightarrow> leb cs shift acc = Some (v, n) \<and> 0 < n \<and> n \<le> length bs"
proof (induction bs shift acc arbitrary: v n cs rule: leb.induct)
  case (2 b bs shift acc)
  let ?acc = "acc OR push_bit shift (ucast (b AND 0x7F))"
  show ?case
  proof (cases "b AND 0x80 = 0")
    case True
    then have "v = unat ?acc" "n = 1" "shift < 35" using "2.prems"(1) by (simp_all add: Let_def split: if_splits)
    then show ?thesis using True "2.prems"(2) by (cases cs) (simp_all add: Let_def)
  next
    case False
    then obtain m where m: "n = Suc m" "leb bs (shift + 7) ?acc = Some (v, m)" "shift < 35"
      using "2.prems"(1) by (auto simp: Let_def split: if_splits)
    then obtain ds where "cs = b # ds" "take m bs = take m ds" using "2.prems"(2) by (cases cs) simp_all
    then show ?thesis using "2.IH" [OF m(3) refl False m(2)] m False by (simp add: Let_def)
  qed
qed simp

lemma readU32_local:
  assumes "readU32 bs i = Inr (v, j)" and "take (j - i) (drop i bs) = take (j - i) (drop i' bs')"
  shows "readU32 bs' i' = Inr (v, i' + (j - i)) \<and> i < j"
proof -
  obtain n where n: "leb (drop i bs) 0 0 = Some (v, n)" "j = i + n"
    using assms(1) by (auto simp: readU32_def read_loop_leb split: option.splits)
  then show ?thesis using leb_take [OF n(1)] assms(2) by (simp add: readU32_def read_loop_leb)
qed

lemma same_window:
  assumes "take n xs = take n ys" and "k + m \<le> n"
  shows "take m (drop k xs) = take m (drop k ys)"
proof -
  have "take m (drop k (take n xs)) = take m (drop k (take n ys))" using assms(1) by simp
  moreover have "m \<le> n - k" using assms(2) by simp
  ultimately show ?thesis by (simp add: drop_take min.absorb1)
qed

lemma section_round_local:
  assumes "section_round bs i = Inr (name, j)" and "take (j - i) (drop i bs) = take (j - i) (drop i' bs')"
  shows "section_round bs' i' = Inr (name, i' + (j - i)) \<and> i < j \<and> j \<le> length bs"
proof -
  obtain len ps where len: "readU32 bs (i + 1) = Inr (len, ps)" "j = ps + len" "j \<le> length bs"
      "(if bs ! i = 0 then try_bind (customName bs ps j) (\<lambda>n. Inr (Some n)) else Inr None) = Inr name"
    using assms(1) by (auto simp: section_round_def try_bind_Inr Let_def not_less)
  have window: "take m (drop (i + k) bs) = take m (drop (i' + k) bs')" if "k + m \<le> j - i" for k m
    using same_window [OF assms(2) that] by (simp add: add.commute)
  have ps: "i + 1 < ps" using len(1) by (auto simp: readU32_def dest: read_loop_progress)
  have head: "readU32 bs' (i' + 1) = Inr (len, i' + (ps - i))"
    using readU32_local [OF len(1), of "i' + 1" bs'] window [of 1 "ps - (i + 1)"] ps len(2) by simp
  have le: "length bs' \<ge> i' + (j - i)" 
  proof -
    have "length (take (j - i) (drop i bs)) = j - i" using len(2,3) ps by simp
    then have "length (take (j - i) (drop i' bs')) = j - i" using assms(2) by simp
    then show ?thesis using ps len(2) by (simp split: if_splits)
  qed
  have first: "bs' ! i' = bs ! i"
  proof -
    have "take 1 (drop i bs) = take 1 (drop i' bs')" using window [of 0 1] ps len(2) by simp
    then show ?thesis using ps len(2,3) le by (simp add: take_Suc_conv_app_nth hd_drop_conv_nth take_Suc split: if_splits)
  qed
  have custom: "customName bs' (i' + (ps - i)) (i' + (j - i)) = Inr n" if n: "customName bs ps j = Inr n" for n
  proof -
    obtain l off where l: "readU32 bs ps = Inr (l, off)" "off + l \<le> j" "textDecoder False True (take l (drop off bs)) = Inr n"
      using n by (auto simp: customName_def try_bind_Inr not_less)
    have "ps < off" using l(1) by (auto simp: readU32_def dest: read_loop_progress)
    have "take (off - ps) (drop ps bs) = take (off - ps) (drop (i' + (ps - i)) bs')"
      using window [of "ps - i" "off - ps"] l(2) ps \<open>ps < off\<close> by simp
    from readU32_local [OF l(1) this] have "readU32 bs' (i' + (ps - i)) = Inr (l, i' + (off - i))"
      using ps \<open>ps < off\<close> by simp
    moreover have "take l (drop off bs) = take l (drop (i' + (off - i)) bs')"
      using window [of "off - i" l] l(2) ps \<open>ps < off\<close> by simp
    moreover have "\<not> i' + (j - i) < i' + (off - i) + l" using l(2) ps \<open>ps < off\<close> by simp
    ultimately show ?thesis using l(3) by (simp add: customName_def try_if_def)
  qed
  have stop: "i' + (ps - i) + len = i' + (j - i)" using len(2) ps by simp
  have "section_round bs' i' = Inr (name, i' + (j - i))"
    unfolding section_round_def head Let_def try_bind_simps prod.case stop
    using le first len(4) custom by (auto simp: try_if_def try_bind_Inr split: if_splits)
  then show ?thesis using ps len(2,3) by simp
qed

subsection \<open>Binaries as lists of sections\<close>

text \<open>A section is the bytes a round takes, with the name it finds.\<close>

definition is_section :: "jstring option \<times> bytes \<Rightarrow> bool" where
  "is_section sec \<longleftrightarrow> section_round (snd sec) 0 = Inr (fst sec, length (snd sec))"

definition is_kept :: "jstring option \<times> bytes \<Rightarrow> bool" where
  "is_kept sec \<longleftrightarrow> (case fst sec of None \<Rightarrow> True | Some n \<Rightarrow> \<not> shouldStrip n)"

definition removed_of :: "jstring option \<times> bytes \<Rightarrow> removed_section" where
  "removed_of sec = \<lparr>rs_name = the (fst sec), rs_bytes = length (snd sec)\<rparr>"

lemma is_kept_simps [simp]: "is_kept (None, raw)" "is_kept (Some n, raw) \<longleftrightarrow> \<not> shouldStrip n"
  by (simp_all add: is_kept_def)

lemma removed_of_simps [simp]: "removed_of (Some n, raw) = \<lparr>rs_name = n, rs_bytes = length raw\<rparr>"
  by (simp add: removed_of_def)

lemma section_here:
  assumes "is_section (name, raw)"
  shows "section_round (pre @ raw @ post) (length pre) = Inr (name, length pre + length raw) \<and> raw \<noteq> []"
  using section_round_local [of raw 0 name "length raw" "length pre" "pre @ raw @ post"] assms
  by (auto simp: is_section_def)

lemma section_split:
  assumes "section_round bs i = Inr (name, j)"
  shows "is_section (name, take (j - i) (drop i bs))"
proof -
  have "j - i \<le> length bs - i" using section_round_progress [OF assms] by linarith
  then show ?thesis using section_round_local [OF assms, of 0 "take (j - i) (drop i bs)"]
    by (simp add: is_section_def min.absorb2)
qed

lemma strip_loop_sections:
  assumes "list_all is_section secs"
  shows "strip_loop (pre @ concat (map snd secs)) (length pre) kept removed =
    Inr (kept @ map snd (filter is_kept secs), removed @ map removed_of (filter (\<lambda>sec. \<not> is_kept sec) secs))"
  using assms
proof (induction secs arbitrary: pre kept removed)
  case Nil
  then show ?case by (subst strip_loop.simps) simp
next
  case (Cons sec secs)
  obtain name raw where sec: "sec = (name, raw)" by fastforce
  have here: "section_round (pre @ raw @ concat (map snd secs)) (length pre) = Inr (name, length pre + length raw)" "raw \<noteq> []"
    using section_here [of name raw pre] Cons.prems sec by simp_all
  note rest = Cons.IH [of "pre @ raw", simplified]
  show ?case unfolding sec
    by (subst strip_loop.simps) (use here rest Cons.prems in \<open>cases name; auto\<close>)
qed

lemma strip_loop_split:
  "strip_loop bs offset kept removed = Inr (k, r) \<Longrightarrow>
     \<exists>secs. list_all is_section secs \<and> drop offset bs = concat (map snd secs)"
proof (induction bs offset kept removed rule: strip_loop.induct)
  case (1 bs offset kept removed)
  show ?case
  proof (cases "offset < length bs")
    case False
    then show ?thesis by (intro exI [of _ "[]"]) simp
  next
    case True
    then obtain name stop where round: "section_round bs offset = Inr (name, stop)"
      using 1(4) by (subst (asm) strip_loop.simps) (auto split: sum.splits prod.splits)
    have "\<exists>secs. list_all is_section secs \<and> drop stop bs = concat (map snd secs)"
    proof (cases name)
      case None
      have "strip_loop bs stop (kept @ [take (stop - offset) (drop offset bs)]) removed = Inr (k, r)"
        using 1(4) True round None by (subst (asm) strip_loop.simps) simp
      then show ?thesis using 1(1) [OF True round refl None] by blast
    next
      case (Some n)
      show ?thesis
      proof (cases "shouldStrip n")
        case strip: True
        have "strip_loop bs stop kept (removed @ [\<lparr>rs_name = n, rs_bytes = stop - offset\<rparr>]) = Inr (k, r)"
          using 1(4) True round Some strip by (subst (asm) strip_loop.simps) simp
        then show ?thesis using 1(2) [OF True round refl Some strip] by blast
      next
        case keep: False
        have "strip_loop bs stop (kept @ [take (stop - offset) (drop offset bs)]) removed = Inr (k, r)"
          using 1(4) True round Some keep by (subst (asm) strip_loop.simps) simp
        then show ?thesis using 1(3) [OF True round refl Some keep] by blast
      qed
    qed
    then obtain secs where secs: "list_all is_section secs" "drop stop bs = concat (map snd secs)" by blast
    have "offset < stop" using section_round_progress [OF round] by simp
    then have "drop offset bs = take (stop - offset) (drop offset bs) @ drop stop bs"
      by (metis append_take_drop_id drop_drop le_add_diff_inverse2 less_imp_le_nat)
    then show ?thesis using secs section_split [OF round]
      by (intro exI [of _ "(name, take (stop - offset) (drop offset bs)) # secs"]) simp
  qed
qed

definition wasm_header :: "bytes \<Rightarrow> bool" where
  "wasm_header bs \<longleftrightarrow> 8 \<le> length bs \<and> take 4 bs = [0, 0x61, 0x73, 0x6D]"

lemma wasm_header_iff:
  "wasm_header bs \<longleftrightarrow> \<not> (length bs < 8 \<or> bs ! 0 \<noteq> 0 \<or> bs ! 1 \<noteq> 0x61 \<or> bs ! 2 \<noteq> 0x73 \<or> bs ! 3 \<noteq> 0x6D)"
proof (cases "8 \<le> length bs")
  case True
  then have "take 4 bs = [bs ! 0, bs ! 1, bs ! 2, bs ! 3]"
    by (intro nth_equalityI) (auto simp: less_Suc_eq numeral_eq_Suc)
  then show ?thesis using True by (auto simp: wasm_header_def)
qed (simp add: wasm_header_def)

lemma strip_sections_list:
  assumes "wasm_header hd8" and "length hd8 = 8" and "list_all is_section secs"
  shows "stripCustomSections (hd8 @ concat (map snd secs)) =
    Inr (hd8 @ concat (map snd (filter is_kept secs)), map removed_of (filter (\<lambda>sec. \<not> is_kept sec) secs))"
proof -
  have "wasm_header (hd8 @ concat (map snd secs))" using assms(1,2) by (simp add: wasm_header_def)
  then show ?thesis using strip_loop_sections [OF assms(3), of hd8] assms(2)
    unfolding stripCustomSections_def by (simp add: wasm_header_iff)
qed

text \<open>
  C36. Stripping a binary leaves out whole custom sections and nothing else: it succeeds exactly on a
  header followed by a list of sections, keeps the header and, in order, every section that is not
  a custom one with a name on the list, and reports those it left out with their sizes; stripping
  the output again succeeds and changes nothing.
\<close>

theorem strip_sections_exact:
  "stripCustomSections bs = Inr (out, removed) \<longleftrightarrow>
     wasm_header bs \<and>
     (\<exists>secs. list_all is_section secs \<and> bs = take 8 bs @ concat (map snd secs) \<and>
        out = take 8 bs @ concat (map snd (filter is_kept secs)) \<and>
        removed = map removed_of (filter (\<lambda>sec. \<not> is_kept sec) secs) \<and>
        stripCustomSections out = Inr (out, []))"
proof
  assume ok: "stripCustomSections bs = Inr (out, removed)"
  then have hdr: "wasm_header bs" unfolding stripCustomSections_def wasm_header_iff by (auto split: if_splits)
  then have head: "wasm_header (take 8 bs)" "length (take 8 bs) = 8" by (auto simp: wasm_header_def)
  obtain k r where "strip_loop bs 8 [take 8 bs] [] = Inr (k, r)"
    using ok unfolding stripCustomSections_def by (auto simp: try_bind_Inr split: if_splits)
  then obtain secs where secs: "list_all is_section secs" "drop 8 bs = concat (map snd secs)"
    using strip_loop_split by blast
  then have bs: "bs = take 8 bs @ concat (map snd secs)" by (metis append_take_drop_id)
  have kept: "list_all is_section (filter is_kept secs)" using secs(1) by (simp add: list_all_iff)
  have "filter (\<lambda>sec. \<not> is_kept sec) (filter is_kept secs) = []" by (simp add: filter_empty_conv)
  then show "wasm_header bs \<and> (\<exists>secs. list_all is_section secs \<and> bs = take 8 bs @ concat (map snd secs) \<and>
      out = take 8 bs @ concat (map snd (filter is_kept secs)) \<and>
      removed = map removed_of (filter (\<lambda>sec. \<not> is_kept sec) secs) \<and> stripCustomSections out = Inr (out, []))"
    using hdr secs(1) bs ok strip_sections_list [OF head secs(1)] strip_sections_list [OF head kept] by auto
next
  assume "wasm_header bs \<and> (\<exists>secs. list_all is_section secs \<and> bs = take 8 bs @ concat (map snd secs) \<and>
      out = take 8 bs @ concat (map snd (filter is_kept secs)) \<and>
      removed = map removed_of (filter (\<lambda>sec. \<not> is_kept sec) secs) \<and> stripCustomSections out = Inr (out, []))"
  then obtain secs where secs: "wasm_header bs" "list_all is_section secs" "bs = take 8 bs @ concat (map snd secs)"
    "out = take 8 bs @ concat (map snd (filter is_kept secs))" "removed = map removed_of (filter (\<lambda>sec. \<not> is_kept sec) secs)" by blast
  then have head: "wasm_header (take 8 bs)" "length (take 8 bs) = 8" by (auto simp: wasm_header_def)
  show "stripCustomSections bs = Inr (out, removed)" using strip_sections_list [OF head secs(2)] secs(3-5) by metis
qed

text \<open>A binary with a name section and a type section.\<close>

lemma strip_name_section:
  "stripCustomSections [0, 0x61, 0x73, 0x6D, 1, 0, 0, 0, 0, 5, 4, 0x6E, 0x61, 0x6D, 0x65, 1, 1, 0] =
     Inr ([0, 0x61, 0x73, 0x6D, 1, 0, 0, 0, 1, 1, 0], [\<lparr>rs_name = js_literal ''name'', rs_bytes = 7\<rparr>])"
  by code_simp

subsection \<open>Numbers\<close>

text \<open>The shortest encoding of a number, as a compiler writes it.\<close>

fun leb_encode :: "nat \<Rightarrow> bytes" where
  "leb_encode n = (if n < 128 then [of_nat n] else of_nat (n mod 128 + 128) # leb_encode (n div 128))"

declare leb_encode.simps [simp del]

lemma or_push_bit:
  assumes "unat (acc :: u32) < 2 ^ shift" and "unat acc + d * 2 ^ shift < 2 ^ 32" and "d < 128" and "shift < 32"
  shows "unat (acc OR push_bit shift (of_nat d)) = unat acc + d * 2 ^ shift"
proof -
  have "acc OR push_bit shift (of_nat d) = acc + push_bit shift (of_nat d)"
  proof (rule disjunctive_add [symmetric])
    fix n
    have "\<not> bit acc n" if "shift \<le> n"
    proof -
      have "take_bit shift acc = acc" using assms(1,4)
        by (simp add: word_unat_eq_iff unsigned_take_bit_eq take_bit_nat_eq_self)
      then show ?thesis using that by (metis bit_take_bit_iff not_le)
    qed
    then show "\<not> bit acc n \<or> \<not> bit (push_bit shift (of_nat d :: u32)) n" by (auto simp: bit_push_bit_iff)
  qed
  moreover have "unat (push_bit shift (of_nat d :: u32)) = d * 2 ^ shift"
  proof -
    have "push_bit shift (of_nat d :: u32) = of_nat (d * 2 ^ shift)" by (simp add: push_bit_eq_mult mult.commute)
    then show ?thesis using assms(2) by (simp add: unat_of_nat del: of_nat_mult)
  qed
  ultimately show ?thesis using assms(2) by (simp add: unat_word_ariths)
qed

lemma low_bits: "ucast ((b :: u8) AND 0x7F) = (of_nat (unat b mod 128) :: u32)"
proof -
  have "b AND 0x7F = take_bit 7 b" unfolding take_bit_eq_mask by (simp add: mask_numeral)
  then have "unat (b AND 0x7F) = unat b mod 128" by (simp add: unat_take_bit_u8)
  moreover have "unat b mod 128 < 4294967296" by (rule less_trans [OF mod_less_divisor]) simp_all
  moreover have "unat (ucast (b AND 0x7F) :: u32) = unat (b AND 0x7F)"
    by (rule unat_ucast_u32)
  ultimately show ?thesis by (simp add: word_unat_eq_iff unat_of_nat)
qed

lemma high_bit: "(b :: u8) AND 0x80 = 0 \<longleftrightarrow> unat b < 128"
proof -
  have "b AND 0x80 = push_bit 7 (take_bit 1 (drop_bit 7 b))" unfolding slice_eq_mask by (simp add: mask_numeral and.assoc)
  then have "unat (b AND 0x80) = 2 ^ 7 * (unat b div 2 ^ 7 mod 2 ^ 1) mod 256" by (simp only: unat_slice_u8)
  moreover have "unat b div 128 < 2" using unsigned_less [of b] by (simp add: less_mult_imp_div_less)
  ultimately have "unat (b AND 0x80) = 128 * (unat b div 128)" by simp
  then have "b AND 0x80 = 0 \<longleftrightarrow> unat b div 128 = 0" by (simp add: unat_eq_0 [symmetric])
  then show ?thesis by (simp add: div_eq_0_iff)
qed

lemma unat_low_byte: "m < 256 \<Longrightarrow> unat (of_nat m :: u8) = m"
  by (simp add: unat_of_nat)

lemma leb_encode_read:
  "shift < 32 \<Longrightarrow> unat acc < 2 ^ shift \<Longrightarrow> unat acc + n * 2 ^ shift < 2 ^ 32 \<Longrightarrow>
     leb (leb_encode n @ post) shift acc = Some (unat acc + n * 2 ^ shift, length (leb_encode n))"
proof (induction n arbitrary: shift acc rule: leb_encode.induct)
  case (1 n)
  show ?case
  proof (cases "n < 128")
    case True
    have "unat (acc OR push_bit shift (of_nat n)) = unat acc + n * 2 ^ shift"
      by (rule or_push_bit) (use 1(2-4) True in auto)
    then show ?thesis using True 1(2) by (simp add: leb_encode.simps [of n] low_bits high_bit unat_low_byte Let_def)
  next
    case False
    let ?acc = "acc OR push_bit shift (of_nat (n mod 128))"
    obtain q r where qr: "q = n div 128" "r = n mod 128" "n = 128 * q + r" "r < 128"
      by (metis mod_less_divisor mult_div_mod_eq zero_less_numeral)
    have q: "1 \<le> q" using False qr(3,4) by linarith
    have whole: "n * 2 ^ shift = q * 2 ^ (shift + 7) + r * 2 ^ shift"
      unfolding qr(3) by (simp add: power_add algebra_simps)
    have acc: "unat ?acc = unat acc + r * 2 ^ shift"
      unfolding qr(2) [symmetric] by (rule or_push_bit) (use 1(2-4) whole qr(4) in auto)
    have "1 * 2 ^ (shift + 7) \<le> q * (2 :: nat) ^ (shift + 7)" using q by (intro mult_right_mono) auto
    then have "(2 :: nat) ^ (shift + 7) < 2 ^ 32" using 1(4) whole by linarith
    then have shift: "shift + 7 < 32" by (simp only: power_strict_increasing_iff)
    have "r * 2 ^ shift + 2 ^ shift \<le> 128 * 2 ^ shift" using mult_right_mono [of "r + 1" 128 "2 ^ shift"] qr(4) by (simp add: algebra_simps)
    then have "unat ?acc < 128 * 2 ^ shift" using 1(3) acc by linarith
    then have small: "unat ?acc < 2 ^ (shift + 7)" by (simp add: power_add mult.commute)
    have "unat ?acc + q * 2 ^ (shift + 7) < 2 ^ 32" using 1(4) whole acc by linarith
    note rest = "1.IH" [OF False shift small this [unfolded qr(1)]]
    have "unat ?acc + n div 128 * 2 ^ (shift + 7) = unat acc + n * 2 ^ shift" using acc whole unfolding qr(1) by linarith
    moreover have "unat (of_nat (n mod 128) + 128 :: u8) = n mod 128 + 128"
      using unat_low_byte [of "n mod 128 + 128"] by simp
    ultimately show ?thesis
      using False shift rest
      by (simp add: leb_encode.simps [of n] low_bits high_bit unat_low_byte Let_def)
  qed
qed

text \<open>
  Every number of 32 bits is read back from its shortest encoding, wherever it stands in the
  bytes, and the reader stops right after it.
\<close>

theorem readU32_roundtrip:
  "readU32 (pre @ leb_encode (unat (w :: u32)) @ post) (length pre) = Inr (unat w, length pre + length (leb_encode (unat w)))"
  using leb_encode_read [of 0 0 "unat w" post] unsigned_less [of w] by (simp add: readU32_def read_loop_leb)

end
