(* ===== verification/Race_Measure.thy ===== *)
theory Race_Measure
  imports JString
begin

text \<open>
  How the demo measures a race, \<^verbatim>\<open>timedWindow\<close>, \<^verbatim>\<open>laneStats\<close>, \<^verbatim>\<open>sameIds\<close> and the verdict of
  \<^verbatim>\<open>runRace\<close> in \<^verbatim>\<open>app.mjs\<close>. Times are exact rationals; the clock is a parameter.
\<close>

subsection \<open>One window\<close>

definition CLOCK_QUANTUM_MS :: rat where "CLOCK_QUANTUM_MS = 1 / 10"
definition TARGET_RELATIVE_ERROR :: rat where "TARGET_RELATIVE_ERROR = 1 / 100"
definition WINDOW_MS :: rat where "WINDOW_MS = CLOCK_QUANTUM_MS / TARGET_RELATIVE_ERROR"
definition LONG_CALL_MS :: rat where "LONG_CALL_MS = 250"

lemma WINDOW_MS_eq: "WINDOW_MS = 10"
  by (simp add: WINDOW_MS_def CLOCK_QUANTUM_MS_def TARGET_RELATIVE_ERROR_def)

text \<open>
  \<open>clock r n\<close> is what the clock shows for \<open>n\<close> calls in round \<open>r\<close>. The loop has no bound; \<open>None\<close> is
  a loop that never returns. The result is the time of a call, the iterations kept for the next
  window, and whether the lane is done.
\<close>

definition next_iterations :: "nat \<Rightarrow> rat \<Rightarrow> nat" where
  "next_iterations iterations elapsed =
     max (iterations * 2) (nat \<lceil>of_nat iterations * WINDOW_MS * (12 / 10) / max elapsed CLOCK_QUANTUM_MS\<rceil>)"

partial_function (option) timedWindow :: "(nat \<Rightarrow> nat \<Rightarrow> rat) \<Rightarrow> nat \<Rightarrow> nat \<Rightarrow> (rat \<times> nat \<times> bool) option" where
  "timedWindow clock r iterations =
     (let elapsed = clock r iterations in
      if WINDOW_MS \<le> elapsed \<or> iterations = 1 \<and> LONG_CALL_MS \<le> elapsed
      then Some (max (elapsed / of_nat iterations) (1 / 10000), iterations, iterations = 1 \<and> LONG_CALL_MS \<le> elapsed)
      else timedWindow clock (Suc r) (next_iterations iterations elapsed))"

subsection \<open>A lane and the verdict\<close>

definition laneStats :: "rat list \<Rightarrow> rat \<times> rat" where
  "laneStats windows =
     (let usable = (if 1 < length windows then tl windows else windows);
          sorted_ms = sort usable;
          ms = sorted_ms ! (length sorted_ms div 2) in
      (ms, if 1 < length sorted_ms then (last sorted_ms - hd sorted_ms) / ms else 1 / 100))"

fun same_loop :: "u32 list \<Rightarrow> u32 list \<Rightarrow> bool" where
  "same_loop (x # xs) (y # ys) = (if x \<noteq> y then False else same_loop xs ys)"
| "same_loop _ _ = True"

definition sameIds :: "u32 list option \<Rightarrow> u32 list option \<Rightarrow> bool" where
  "sameIds ours theirs =
     (case (ours, theirs) of
        (Some xs, Some ys) \<Rightarrow> if length xs \<noteq> length ys then False else same_loop xs ys
      | _ \<Rightarrow> False)"

definition NOISE_SAFETY :: rat where "NOISE_SAFETY = 2"

record lane_result =
  lr_name :: string
  lr_ms :: rat
  lr_noise :: rat
  lr_significant :: bool
  lr_identical :: bool

text \<open>A rival's lane against ours: its windows and the ids it last returned.\<close>

definition lane_result_of :: "rat \<times> rat \<Rightarrow> u32 list option \<Rightarrow> string \<times> rat list \<times> u32 list option \<Rightarrow> lane_result" where
  "lane_result_of our ourLast lane =
     (case (our, lane) of
        ((our_ms, our_noise), (name, windows, ids)) \<Rightarrow>
          (case laneStats windows of
             (ms, noise) \<Rightarrow>
               \<lparr>lr_name = name, lr_ms = ms, lr_noise = noise,
                lr_significant = (NOISE_SAFETY * (our_noise + noise) < \<bar>ms / our_ms - 1\<bar>),
                lr_identical = sameIds ourLast ids\<rparr>))"

definition fastest_of :: "lane_result list \<Rightarrow> lane_result" where
  "fastest_of lanes = foldl (\<lambda>a b. if lr_ms a < lr_ms b then a else b) (hd lanes) (tl lanes)"

datatype verdict = NoRivals | GapTooSmall bool | WeAreFaster rat string bool | TheyAreFaster rat string bool

definition race_verdict :: "rat \<Rightarrow> lane_result list \<Rightarrow> verdict" where
  "race_verdict our_ms lanes =
     (if lanes = [] then NoRivals
      else
        let allMatch = list_all lr_identical lanes; fastest = fastest_of lanes in
        if \<not> lr_significant fastest then GapTooSmall allMatch
        else if our_ms \<le> lr_ms fastest then WeAreFaster (lr_ms fastest / our_ms) (lr_name fastest) allMatch
        else TheyAreFaster (our_ms / lr_ms fastest) (lr_name fastest) allMatch)"

subsection \<open>The window ends\<close>

lemma next_iterations_grows: "1 \<le> iterations \<Longrightarrow> iterations < next_iterations iterations elapsed"
  by (simp add: next_iterations_def)

lemma timedWindow_steps:
  assumes "0 < c" and "\<And>r n. c * of_nat n \<le> clock r n" and "1 \<le> iterations"
  shows "\<exists>k n. iterations \<le> n \<and> WINDOW_MS \<le> clock k n \<and>
    timedWindow clock r iterations =
      Some (max (clock k n / of_nat n) (1 / 10000), n, n = 1 \<and> LONG_CALL_MS \<le> clock k n)"
  using assms(3)
proof (induction "nat \<lceil>WINDOW_MS / c\<rceil> - iterations" arbitrary: r iterations rule: less_induct)
  case less
  show ?case
  proof (cases "WINDOW_MS \<le> clock r iterations")
    case True
    then show ?thesis by (intro exI [of _ r] exI [of _ iterations]) (subst timedWindow.simps, simp add: Let_def)
  next
    case False
    then have short: "\<not> LONG_CALL_MS \<le> clock r iterations" by (simp add: WINDOW_MS_eq LONG_CALL_MS_def)
    let ?next = "next_iterations iterations (clock r iterations)"
    have "of_nat iterations < WINDOW_MS / c"
      using False assms(2) [of iterations r] assms(1) by (simp add: field_simps mult.commute)
    then have "iterations < nat \<lceil>WINDOW_MS / c\<rceil>" by (metis less_ceiling_iff of_int_of_nat_eq zless_nat_eq_int_zless)
    then have "nat \<lceil>WINDOW_MS / c\<rceil> - ?next < nat \<lceil>WINDOW_MS / c\<rceil> - iterations"
      using next_iterations_grows [OF less.prems] by (intro diff_less_mono2) auto
    then obtain k n where "?next \<le> n" "WINDOW_MS \<le> clock k n"
      "timedWindow clock (Suc r) ?next = Some (max (clock k n / of_nat n) (1 / 10000), n, n = 1 \<and> LONG_CALL_MS \<le> clock k n)"
      using less.hyps [of ?next "Suc r"] less.prems next_iterations_grows [OF less.prems, of "clock r iterations"] by auto
    moreover have "timedWindow clock r iterations = timedWindow clock (Suc r) ?next"
      using False short by (subst timedWindow.simps) (simp add: Let_def)
    ultimately show ?thesis using next_iterations_grows [OF less.prems, of "clock r iterations"]
      by (intro exI [of _ k] exI [of _ n]) simp
  qed
qed

text \<open>
  C37. A window ends and is as precise as it claims: with a clock on which every call takes some
  time, however little, \<^verbatim>\<open>timedWindow\<close> returns; its window lasted long enough that a clock that is
  off by one quantum is off by at most the target error, for the window and for a call.
\<close>

theorem timed_window_returns:
  assumes "0 < c" and "\<And>r n. c * of_nat n \<le> clock r n" and "1 \<le> iterations"
  shows "\<exists>ms n lane_done k. timedWindow clock r iterations = Some (ms, n, lane_done) \<and> iterations \<le> n \<and>
    ms = max (clock k n / of_nat n) (1 / 10000) \<and>
    CLOCK_QUANTUM_MS \<le> TARGET_RELATIVE_ERROR * clock k n \<and>
    CLOCK_QUANTUM_MS / of_nat n \<le> TARGET_RELATIVE_ERROR * ms"
proof -
  obtain k n where n: "iterations \<le> n" "WINDOW_MS \<le> clock k n"
    "timedWindow clock r iterations = Some (max (clock k n / of_nat n) (1 / 10000), n, n = 1 \<and> LONG_CALL_MS \<le> clock k n)"
    using timedWindow_steps [of c clock iterations r, OF assms] by blast
  have quantum: "CLOCK_QUANTUM_MS \<le> TARGET_RELATIVE_ERROR * clock k n"
    using n(2) by (simp add: WINDOW_MS_eq CLOCK_QUANTUM_MS_def TARGET_RELATIVE_ERROR_def)
  then have "CLOCK_QUANTUM_MS / of_nat n \<le> TARGET_RELATIVE_ERROR * clock k n / of_nat n" by (intro divide_right_mono) auto
  also have "\<dots> \<le> TARGET_RELATIVE_ERROR * max (clock k n / of_nat n) (1 / 10000)"
    by (simp add: TARGET_RELATIVE_ERROR_def)
  finally show ?thesis using n quantum by blast
qed

text \<open>A call of two milliseconds.\<close>

theorem timed_window_returns_witness:
  "\<exists>ms n lane_done. timedWindow (\<lambda>r n. 2 * of_nat n) 0 1 = Some (ms, n, lane_done) \<and> 1 \<le> n"
  using timed_window_returns [of 2 "\<lambda>r n. 2 * of_nat n" 1 0] by auto

subsection \<open>The verdict\<close>

lemma same_loop_eq: "length xs = length ys \<Longrightarrow> same_loop xs ys \<longleftrightarrow> xs = ys"
  by (induction xs ys rule: list_induct2) auto

lemma sameIds_eq: "sameIds ours theirs \<longleftrightarrow> ours \<noteq> None \<and> ours = theirs"
  using same_loop_eq by (auto simp: sameIds_def split: option.split)

text \<open>The time of a lane is one of its windows, and not the first when there are more.\<close>

lemma laneStats_window:
  assumes "windows \<noteq> []"
  shows "fst (laneStats windows) \<in> set (if 1 < length windows then tl windows else windows)"
proof -
  let ?usable = "if 1 < length windows then tl windows else windows"
  have "?usable \<noteq> []" using assms by (cases windows) auto
  then have "length (sort ?usable) div 2 < length (sort ?usable)" by simp
  from nth_mem [OF this] show ?thesis by (simp add: laneStats_def Let_def)
qed

lemma laneStats_noise:
  assumes "windows \<noteq> []" and "list_all (\<lambda>w. 0 < w) windows"
  shows "0 < fst (laneStats windows) \<and> 0 \<le> snd (laneStats windows)"
proof -
  let ?usable = "if 1 < length windows then tl windows else windows"
  have "set ?usable \<subseteq> set windows" by (cases windows) auto
  then have pos: "0 < fst (laneStats windows)" using laneStats_window [OF assms(1)] assms(2) by (auto simp: list_all_iff)
  have "hd (sort ?usable) \<le> last (sort ?usable)" if "1 < length (sort ?usable)"
  proof -
    have ne: "sort ?usable \<noteq> []" using that by (metis list.size(3) not_less_zero)
    then have "sort ?usable ! 0 \<le> sort ?usable ! (length (sort ?usable) - 1)"
      by (intro sorted_nth_mono) (auto simp: length_greater_0_conv [symmetric] simp del: length_greater_0_conv)
    then show ?thesis by (simp only: hd_conv_nth [OF ne] last_conv_nth [OF ne])
  qed
  then show ?thesis using pos by (auto simp: laneStats_def Let_def intro!: divide_nonneg_pos)
qed

lemma fastest_fold:
  "(let f = foldl (\<lambda>a b. if lr_ms a < lr_ms b then a else b) a lanes in
     f \<in> set (a # lanes) \<and> list_all (\<lambda>l. lr_ms f \<le> lr_ms l) (a # lanes))"
proof (induction lanes arbitrary: a)
  case (Cons b lanes)
  show ?case using Cons.IH [of "if lr_ms a < lr_ms b then a else b"] by (auto simp: Let_def list_all_iff)
qed simp

lemma fastest_of_least: "lanes \<noteq> [] \<Longrightarrow> fastest_of lanes \<in> set lanes \<and> list_all (\<lambda>l. lr_ms (fastest_of lanes) \<le> lr_ms l) lanes"
  using fastest_fold [of "hd lanes" "tl lanes"] by (cases lanes) (simp_all add: fastest_of_def Let_def)



end
