(* ===== verification/Demo_Page.thy ===== *)
theory Demo_Page
  imports Span_Map Race_Measure Hugging_Face
begin

text \<open>
  The session of the demo page, \<^verbatim>\<open>boot\<close>, \<^verbatim>\<open>render\<close> and \<^verbatim>\<open>runRace\<close> of \<^verbatim>\<open>app.mjs\<close>: the
  tokenizer that is loaded, what is painted and the race panel, under events in any order. A step is
  what runs between two awaits that wait for the network, the tokenizer or the timer; what these
  give is part of the event. Elements of the page are what they show.
\<close>

subsection \<open>State\<close>

definition VOCABS :: "string list" where
  "VOCABS = [''gpt-2'', ''o200k'', ''qwen3.6'', ''tekken'', ''deepseek-v4'', ''kimi-k3'']"

definition HF_FAMILIES :: "string list" where
  "HF_FAMILIES = [''qwen3.6'', ''tekken'', ''deepseek-v4'', ''gpt-2'']"

datatype rival = JsTiktoken | GptTokenizer | DqbdTiktoken | HfTokenizers

definition RIVALS :: "rival list" where
  "RIVALS = [JsTiktoken, GptTokenizer, DqbdTiktoken, HfTokenizers]"

definition supports :: "rival \<Rightarrow> string \<Rightarrow> bool" where
  "supports rv vocab =
     (case rv of
        HfTokenizers \<Rightarrow> List.member HF_FAMILIES vocab
      | _ \<Rightarrow> vocab = ''o200k'' \<or> vocab = ''gpt-2'')"

definition unsupported :: "rival \<Rightarrow> string \<Rightarrow> string" where
  "unsupported rv vocab =
     (case rv of
        HfTokenizers \<Rightarrow> if vocab = ''kimi-k3'' then ''kimi k3 publishes no tokenizer.json'' else ''no official o200k tokenizer.json''
      | _ \<Rightarrow> ''does not support '' @ vocab)"

text \<open>The receipt names a vocabulary by its index; only a ready one has the button that switches.\<close>

datatype receipt = ReceiptLoading nat | ReceiptReady nat | ReceiptUnavailable nat

datatype status_line = StatusEmpty | StatusTokens nat | StatusError js_error

datatype race_panel =
    PanelEmpty | PanelRacing | PanelFetching rival | PanelFailed js_error
  | PanelResults jstring string "rival list" "(rival \<times> string) list"

text \<open>What the editor shows: the text before the first token and the segments, of which \<open>Paint\<close> makes nodes.\<close>

datatype painting = PaintEmpty | PaintTokens token_segments

text \<open>A race under way: its variables, and the rivals whose turn is still to come.\<close>

record race_run =
  rr_generation :: nat
  rr_active :: nat
  rr_text :: jstring
  rr_vocab :: string
  rr_lanes :: "rival list"
  rr_failed :: "(rival \<times> string) list"
  rr_todo :: "rival list"

datatype boot_stage = Fetching | Warming

text \<open>
  Tokenizers are numbered as they are made; \<open>pg_vocab_of\<close> is the vocabulary each was made of.
  \<open>pg_boots\<close>, \<open>pg_renders\<close> and \<open>pg_races\<close> are the calls that wait.
\<close>

record page =
  pg_vocabIndex :: nat
  pg_tokenizer :: "nat option"
  pg_bootGeneration :: nat
  pg_renderGeneration :: nat
  pg_raceGeneration :: nat
  pg_raceTimer :: bool
  pg_incumbents :: "(rival \<times> string) set"
  pg_text :: jstring
  pg_receipt :: receipt
  pg_status :: status_line
  pg_painting :: painting
  pg_panel :: race_panel
  pg_vocab_of :: "nat list"
  pg_freed :: "nat list"
  pg_boots :: "(nat \<times> nat \<times> boot_stage) list"
  pg_renders :: "(nat \<times> nat \<times> jstring) list"
  pg_races :: "race_run list"

text \<open>\<^verbatim>\<open>input.innerText\<close> with its line ends as line feeds and without a last one.\<close>

definition currentText :: "jstring \<Rightarrow> jstring" where
  "currentText raw =
     (let s = replace_all [0x0D, 0x0A] [0x0A] raw in if s \<noteq> [] \<and> last s = 0x0A then butlast s else s)"

subsection \<open>The race\<close>

definition race_stale :: "race_run \<Rightarrow> page \<Rightarrow> bool" where
  "race_stale rr p \<longleftrightarrow> rr_generation rr \<noteq> pg_raceGeneration p \<or> pg_tokenizer p \<noteq> Some (rr_active rr)"

text \<open>
  The loop over the rivals, up to the next load, and the measurement after it, whose outcome is
  given: an error of a lane, or results. The lanes call tokenizers that answer at once, so that the
  awaits of the measurement wait for promises that are settled and no event runs in between.
\<close>

fun race_go :: "js_error option \<Rightarrow> rival list \<Rightarrow> race_run \<Rightarrow> page \<Rightarrow> page" where
  "race_go outcome [] rr p =
     (let p1 = p\<lparr>pg_panel := PanelRacing\<rparr> in
      if race_stale rr p1 then p1
      else case outcome of
        Some e \<Rightarrow> p1\<lparr>pg_panel := PanelFailed e\<rparr>
      | None \<Rightarrow> p1\<lparr>pg_panel := PanelResults (rr_text rr) (rr_vocab rr) (rr_lanes rr) (rr_failed rr)\<rparr>)"
| "race_go outcome (rv # rvs) rr p =
     (if \<not> supports rv (rr_vocab rr)
      then race_go outcome rvs (rr\<lparr>rr_failed := rr_failed rr @ [(rv, unsupported rv (rr_vocab rr))]\<rparr>) p
      else if (rv, rr_vocab rr) \<in> pg_incumbents p then race_go outcome rvs (rr\<lparr>rr_lanes := rr_lanes rr @ [rv]\<rparr>) p
      else p\<lparr>pg_panel := PanelFetching rv, pg_races := pg_races p @ [rr\<lparr>rr_todo := rv # rvs\<rparr>]\<rparr>)"

definition begin_race :: "js_error option \<Rightarrow> page \<Rightarrow> page" where
  "begin_race outcome p0 =
     (let p = p0\<lparr>pg_raceGeneration := pg_raceGeneration p0 + 1\<rparr>; txt = currentText (pg_text p) in
      case pg_tokenizer p of
        None \<Rightarrow> p\<lparr>pg_panel := PanelEmpty\<rparr>
      | Some active \<Rightarrow>
          if txt = [] then p\<lparr>pg_panel := PanelEmpty\<rparr>
          else race_go outcome RIVALS
            \<lparr>rr_generation = pg_raceGeneration p, rr_active = active, rr_text = txt, rr_vocab = VOCABS ! pg_vocabIndex p,
             rr_lanes = [], rr_failed = [], rr_todo = []\<rparr> (p\<lparr>pg_panel := PanelRacing\<rparr>))"

text \<open>A load that settles. After a failure the loop goes on without asking whether the race is stale.\<close>

definition rival_loaded :: "js_error option \<Rightarrow> bool \<Rightarrow> race_run \<Rightarrow> page \<Rightarrow> page" where
  "rival_loaded outcome ok rr p =
     (case rr_todo rr of
        [] \<Rightarrow> p
      | rv # rvs \<Rightarrow>
          (let p1 = p\<lparr>pg_races := remove1 rr (pg_races p)\<rparr> in
           if ok then
             let p2 = p1\<lparr>pg_incumbents := insert (rv, rr_vocab rr) (pg_incumbents p1)\<rparr> in
             if race_stale rr p2 then p2 else race_go outcome rvs (rr\<lparr>rr_lanes := rr_lanes rr @ [rv]\<rparr>) p2
           else race_go outcome rvs (rr\<lparr>rr_failed := rr_failed rr @ [(rv, ''unavailable'')]\<rparr>) p1))"

subsection \<open>Rendering\<close>

definition begin_render :: "page \<Rightarrow> page" where
  "begin_render p0 =
     (let p = p0\<lparr>pg_renderGeneration := pg_renderGeneration p0 + 1\<rparr>; txt = currentText (pg_text p) in
      case pg_tokenizer p of
        Some active \<Rightarrow>
          if txt \<noteq> [] then p\<lparr>pg_renders := pg_renders p @ [(pg_renderGeneration p, active, txt)]\<rparr>
          else p\<lparr>pg_painting := PaintEmpty, pg_status := StatusEmpty, pg_panel := PanelEmpty, pg_raceTimer := False\<rparr>
      | None \<Rightarrow> p\<lparr>pg_painting := PaintEmpty, pg_status := StatusEmpty, pg_panel := PanelEmpty, pg_raceTimer := False\<rparr>)"

definition show_render_error :: "nat \<Rightarrow> js_error \<Rightarrow> page \<Rightarrow> page" where
  "show_render_error generation e p =
     (if generation = pg_renderGeneration p then p\<lparr>pg_status := StatusError e\<rparr> else p)"

definition render_settled :: "js_error + u32 list \<times> u32 list \<Rightarrow> nat \<times> nat \<times> jstring \<Rightarrow> page \<Rightarrow> page" where
  "render_settled detail call p0 =
     (case call of
        (generation, active, txt) \<Rightarrow>
          (let p = p0\<lparr>pg_renders := remove1 call (pg_renders p0)\<rparr> in
           case detail of
             Inl e \<Rightarrow> show_render_error generation e p
           | Inr (ids, starts) \<Rightarrow>
               if generation \<noteq> pg_renderGeneration p \<or> pg_tokenizer p \<noteq> Some active then p
               else case tokenSegments txt (Typed ids) (Typed starts) of
                 Inl e \<Rightarrow> show_render_error generation e p
               | Inr tg \<Rightarrow> p\<lparr>pg_painting := PaintTokens tg, pg_status := StatusTokens (length ids), pg_raceTimer := True\<rparr>))"

subsection \<open>Loading a vocabulary\<close>

definition begin_boot :: "page \<Rightarrow> page" where
  "begin_boot p =
     p\<lparr>pg_bootGeneration := pg_bootGeneration p + 1, pg_renderGeneration := pg_renderGeneration p + 1,
       pg_raceGeneration := pg_raceGeneration p + 1, pg_raceTimer := False, pg_receipt := ReceiptLoading (pg_vocabIndex p),
       pg_status := StatusEmpty, pg_panel := PanelEmpty,
       pg_boots := pg_boots p @ [(pg_bootGeneration p + 1, pg_vocabIndex p, Fetching)]\<rparr>"

definition boot_failed :: "nat \<Rightarrow> nat \<Rightarrow> js_error \<Rightarrow> page \<Rightarrow> page" where
  "boot_failed generation vocab e p =
     (if generation \<noteq> pg_bootGeneration p then p
      else p\<lparr>pg_receipt := ReceiptUnavailable vocab, pg_status := StatusError e\<rparr>)"

text \<open>The fetch, the body and \<^verbatim>\<open>fromBytes\<close>, which makes the next tokenizer when all three succeed.\<close>

definition boot_loaded :: "js_error option \<Rightarrow> nat \<times> nat \<times> boot_stage \<Rightarrow> page \<Rightarrow> page" where
  "boot_loaded failure call p0 =
     (case call of
        (generation, vocab, _) \<Rightarrow>
          (let p = p0\<lparr>pg_boots := remove1 call (pg_boots p0)\<rparr> in
           case failure of
             Some e \<Rightarrow> boot_failed generation vocab e p
           | None \<Rightarrow>
               (let fresh = length (pg_vocab_of p); p1 = p\<lparr>pg_vocab_of := pg_vocab_of p @ [vocab]\<rparr> in
                if generation \<noteq> pg_bootGeneration p1 then p1\<lparr>pg_freed := pg_freed p1 @ [fresh]\<rparr>
                else p1\<lparr>pg_tokenizer := Some fresh,
                        pg_freed := pg_freed p1 @ (case pg_tokenizer p1 of None \<Rightarrow> [] | Some previous \<Rightarrow> [previous]),
                        pg_receipt := ReceiptReady vocab,
                        pg_boots := pg_boots p1 @ [(generation, vocab, Warming)]\<rparr>)))"

definition boot_warmed :: "js_error option \<Rightarrow> nat \<times> nat \<times> boot_stage \<Rightarrow> page \<Rightarrow> page" where
  "boot_warmed failure call p0 =
     (case call of
        (generation, vocab, _) \<Rightarrow>
          (let p = p0\<lparr>pg_boots := remove1 call (pg_boots p0)\<rparr> in
           case failure of Some e \<Rightarrow> boot_failed generation vocab e p | None \<Rightarrow> begin_render p))"

subsection \<open>Events\<close>

datatype page_event =
    Edit jstring
  | Switch
  | Loaded "nat \<times> nat \<times> boot_stage" "js_error option"
  | Rendered "nat \<times> nat \<times> jstring" "js_error + u32 list \<times> u32 list"
  | TimerFires "js_error option"
  | RivalLoaded race_run bool "js_error option"

fun page_enabled :: "page_event \<Rightarrow> page \<Rightarrow> bool" where
  "page_enabled (Edit txt) p = True"
| "page_enabled Switch p = (case pg_receipt p of ReceiptReady _ \<Rightarrow> True | _ \<Rightarrow> False)"
| "page_enabled (Loaded call failure) p = (call \<in> set (pg_boots p))"
| "page_enabled (Rendered call detail) p = (call \<in> set (pg_renders p))"
| "page_enabled (TimerFires outcome) p = pg_raceTimer p"
| "page_enabled (RivalLoaded rr ok outcome) p = (rr \<in> set (pg_races p))"

fun page_step :: "page_event \<Rightarrow> page \<Rightarrow> page" where
  "page_step (Edit txt) p = begin_render (p\<lparr>pg_text := txt\<rparr>)"
| "page_step Switch p = begin_boot (p\<lparr>pg_vocabIndex := (pg_vocabIndex p + 1) mod length VOCABS\<rparr>)"
| "page_step (Loaded call failure) p =
     (case snd (snd call) of Fetching \<Rightarrow> boot_loaded failure call p | Warming \<Rightarrow> boot_warmed failure call p)"
| "page_step (Rendered call detail) p = render_settled detail call p"
| "page_step (TimerFires outcome) p = begin_race outcome (p\<lparr>pg_raceTimer := False\<rparr>)"
| "page_step (RivalLoaded rr ok outcome) p = rival_loaded outcome ok rr p"

definition blank_page :: page where
  "blank_page = \<lparr>pg_vocabIndex = 0, pg_tokenizer = None, pg_bootGeneration = 0, pg_renderGeneration = 0, pg_raceGeneration = 0,
     pg_raceTimer = False, pg_incumbents = {}, pg_text = [], pg_receipt = ReceiptLoading 0, pg_status = StatusEmpty,
     pg_painting = PaintEmpty, pg_panel = PanelEmpty, pg_vocab_of = [], pg_freed = [], pg_boots = [], pg_renders = [], pg_races = []\<rparr>"

text \<open>The page boots as soon as its script runs.\<close>

inductive page_reaches :: "page \<Rightarrow> bool" where
  start: "page_reaches (begin_boot (blank_page\<lparr>pg_text := txt\<rparr>))"
| step: "page_reaches p \<Longrightarrow> page_enabled ev p \<Longrightarrow> page_reaches (page_step ev p)"

subsection \<open>The tokenizers and the receipt\<close>

text \<open>Every tokenizer that was made is the current one or was freed, once.\<close>

definition tokenizers_ok :: "page \<Rightarrow> bool" where
  "tokenizers_ok p \<longleftrightarrow>
     distinct (pg_freed p) \<and> set (pg_freed p) \<union> set_option (pg_tokenizer p) = {..<length (pg_vocab_of p)} \<and>
     set (pg_freed p) \<inter> set_option (pg_tokenizer p) = {}"

text \<open>
  The boots: those of earlier generations only wait for their warm-up; that of the current one
  is what the receipt says.
\<close>

definition boots_ok :: "page \<Rightarrow> bool" where
  "boots_ok p \<longleftrightarrow>
     pg_vocabIndex p < length VOCABS \<and> distinct (map fst (pg_boots p)) \<and>
     (\<forall>(g, v, st) \<in> set (pg_boots p). g \<le> pg_bootGeneration p \<and> (g < pg_bootGeneration p \<longrightarrow> st = Warming)) \<and>
     (case pg_receipt p of
        ReceiptLoading v \<Rightarrow> v = pg_vocabIndex p \<and> (pg_bootGeneration p, v, Fetching) \<in> set (pg_boots p)
      | ReceiptReady v \<Rightarrow> v = pg_vocabIndex p \<and> (\<exists>t. pg_tokenizer p = Some t \<and> t < length (pg_vocab_of p) \<and> pg_vocab_of p ! t = v) \<and>
          (\<forall>v' st. (pg_bootGeneration p, v', st) \<in> set (pg_boots p) \<longrightarrow> v' = v \<and> st = Warming)
      | ReceiptUnavailable v \<Rightarrow> v = pg_vocabIndex p \<and> pg_bootGeneration p \<notin> fst ` set (pg_boots p))"

definition page_ok :: "page \<Rightarrow> bool" where
  "page_ok p \<longleftrightarrow> tokenizers_ok p \<and> boots_ok p"

text \<open>What a step that leaves tokenizers and boots alone leaves alone.\<close>

definition same_boots :: "page \<Rightarrow> page \<Rightarrow> bool" where
  "same_boots p q \<longleftrightarrow>
     pg_vocabIndex q = pg_vocabIndex p \<and> pg_tokenizer q = pg_tokenizer p \<and> pg_bootGeneration q = pg_bootGeneration p \<and>
     pg_receipt q = pg_receipt p \<and> pg_vocab_of q = pg_vocab_of p \<and> pg_freed q = pg_freed p \<and> pg_boots q = pg_boots p"

lemma same_boots_refl [simp]: "same_boots p p"
  by (simp add: same_boots_def)

lemma same_boots_trans: "same_boots p q \<Longrightarrow> same_boots q r \<Longrightarrow> same_boots p r"
  by (simp add: same_boots_def)

lemma same_boots_ok: "same_boots p q \<Longrightarrow> page_ok p \<Longrightarrow> page_ok q"
  by (simp add: same_boots_def page_ok_def tokenizers_ok_def boots_ok_def cong: receipt.case_cong)

lemma race_go_boots: "same_boots p (race_go outcome rvs rr p)"
  by (induction outcome rvs rr p rule: race_go.induct) (auto simp: same_boots_def Let_def split: option.split)

lemma begin_render_boots: "same_boots p (begin_render p)"
  by (simp add: begin_render_def same_boots_def Let_def split: option.split)

lemma begin_race_boots: "same_boots p (begin_race outcome p)"
proof -
  have "same_boots p (race_go outcome RIVALS rr (p\<lparr>pg_raceGeneration := g, pg_panel := PanelRacing\<rparr>))" for rr g
    using race_go_boots [of "p\<lparr>pg_raceGeneration := g, pg_panel := PanelRacing\<rparr>" outcome RIVALS rr] by (simp add: same_boots_def)
  then show ?thesis by (simp add: begin_race_def Let_def split: option.split) (simp add: same_boots_def)
qed

lemma rival_loaded_boots: "same_boots p (rival_loaded outcome ok rr p)"
proof (cases "rr_todo rr")
  case (Cons rv rvs)
  have "same_boots p (race_go outcome rvs rr' (p\<lparr>pg_races := rs, pg_incumbents := inc\<rparr>))" for rr' rs inc
    using race_go_boots [of "p\<lparr>pg_races := rs, pg_incumbents := inc\<rparr>" outcome rvs rr'] by (simp add: same_boots_def)
  moreover have "same_boots p (race_go outcome rvs rr' (p\<lparr>pg_races := rs\<rparr>))" for rr' rs
    using race_go_boots [of "p\<lparr>pg_races := rs\<rparr>" outcome rvs rr'] by (simp add: same_boots_def)
  ultimately show ?thesis using Cons by (simp add: rival_loaded_def Let_def) (simp add: same_boots_def)
qed (simp add: rival_loaded_def)

lemma render_settled_boots: "same_boots p (render_settled detail call p)"
  by (cases call) (simp add: render_settled_def show_render_error_def same_boots_def Let_def split: sum.split prod.split)

lemma begin_boot_ok:
  assumes "tokenizers_ok p" and "pg_vocabIndex p < length VOCABS" and "distinct (map fst (pg_boots p))"
    and "\<forall>(g, v, st) \<in> set (pg_boots p). g \<le> pg_bootGeneration p \<and> st = Warming"
  shows "page_ok (begin_boot p)"
proof -
  have "pg_bootGeneration p + 1 \<notin> fst ` set (pg_boots p)" using assms(4) by force
  then show ?thesis using assms by (auto simp: page_ok_def tokenizers_ok_def boots_ok_def begin_boot_def)
qed

lemma distinct_keys_remove1: "distinct (map fst xs) \<Longrightarrow> distinct (map fst (remove1 x xs)) \<and> set (remove1 x xs) = set xs - {x}"
  by (induction xs) (auto dest: notin_set_remove1)

text \<open>A boot of the current generation is the one the receipt is about.\<close>

lemma current_boot_unique:
  assumes "boots_ok p" and "(pg_bootGeneration p, v, st) \<in> set (pg_boots p)"
  shows "pg_bootGeneration p \<notin> fst ` (set (pg_boots p) - {(pg_bootGeneration p, v, st)})"
proof
  assume "pg_bootGeneration p \<in> fst ` (set (pg_boots p) - {(pg_bootGeneration p, v, st)})"
  then obtain b where "b \<in> set (pg_boots p)" "fst b = pg_bootGeneration p" "b \<noteq> (pg_bootGeneration p, v, st)" by force
  moreover obtain w where "b = (fst b, w)" by (cases b) simp
  ultimately have b: "(pg_bootGeneration p, w) \<in> set (pg_boots p)" "w \<noteq> (v, st)" by (metis, metis)
  then show False using eq_key_imp_eq_value [OF _ b(1) assms(2)] assms(1) by (simp add: boots_ok_def)
qed

lemma current_boot:
  assumes "boots_ok p" and "(pg_bootGeneration p, v, st) \<in> set (pg_boots p)"
  shows "v = pg_vocabIndex p \<and> pg_receipt p = (if st = Fetching then ReceiptLoading v else ReceiptReady v)"
proof (cases "pg_receipt p")
  case (ReceiptLoading w)
  then have "w = pg_vocabIndex p" "(pg_bootGeneration p, w, Fetching) \<in> set (pg_boots p)" using assms(1) by (auto simp: boots_ok_def)
  then have "(w, Fetching) = (v, st)" using eq_key_imp_eq_value [OF _ _ assms(2)] assms(1) by (simp add: boots_ok_def)
  then show ?thesis using \<open>w = pg_vocabIndex p\<close> ReceiptLoading by simp
next
  case (ReceiptReady w)
  then have "w = pg_vocabIndex p" "\<And>v' st'. (pg_bootGeneration p, v', st') \<in> set (pg_boots p) \<Longrightarrow> v' = w \<and> st' = Warming"
    using assms(1) unfolding boots_ok_def by (simp_all only: receipt.case) blast+
  from this(1) this(2) [OF assms(2)] show ?thesis using ReceiptReady by simp
next
  case (ReceiptUnavailable w)
  then have "pg_bootGeneration p \<notin> fst ` set (pg_boots p)" using assms(1) by (simp add: boots_ok_def)
  then show ?thesis using assms(2) by force
qed

lemma boots_ok_all:
  "boots_ok p \<Longrightarrow> (g, v, st) \<in> set (pg_boots p) \<Longrightarrow> g \<le> pg_bootGeneration p \<and> (g < pg_bootGeneration p \<longrightarrow> st = Warming)"
  by (fastforce simp: boots_ok_def)

text \<open>Removing a boot, whatever the receipt says after it.\<close>

lemma remove_boot_parts:
  assumes "boots_ok p"
  shows "distinct (map fst (remove1 b (pg_boots p)))" and "set (remove1 b (pg_boots p)) = set (pg_boots p) - {b}"
    and "\<forall>(g, v, st) \<in> set (pg_boots p) - {b}. g \<le> pg_bootGeneration p \<and> (g < pg_bootGeneration p \<longrightarrow> st = Warming)"
  using assms distinct_keys_remove1 [of "pg_boots p" b] boots_ok_all [OF assms] by (auto simp: boots_ok_def)

lemma remove_boot_ok:
  assumes "page_ok p" and "(g, v, st) \<in> set (pg_boots p)" and "g \<noteq> pg_bootGeneration p \<or> st = Warming"
  shows "page_ok (p\<lparr>pg_boots := remove1 (g, v, st) (pg_boots p)\<rparr>)"
proof -
  have ok: "boots_ok p" "tokenizers_ok p" using assms(1) by (simp_all add: page_ok_def)
  note parts = remove_boot_parts [OF ok(1), of "(g, v, st)"]
  have "boots_ok (p\<lparr>pg_boots := remove1 (g, v, st) (pg_boots p)\<rparr>)"
    using parts ok(1) assms(3) by (cases "pg_receipt p") (auto simp: boots_ok_def)
  then show ?thesis using ok(2) by (simp add: page_ok_def tokenizers_ok_def)
qed

lemma boot_failed_ok:
  assumes "page_ok p" and "(g, v, st) \<in> set (pg_boots p)"
  shows "page_ok (boot_failed g v e (p\<lparr>pg_boots := remove1 (g, v, st) (pg_boots p)\<rparr>))"
proof (cases "g = pg_bootGeneration p")
  case False
  then show ?thesis using remove_boot_ok [OF assms] by (simp add: boot_failed_def)
next
  case True
  have ok: "boots_ok p" "tokenizers_ok p" using assms(1) by (simp_all add: page_ok_def)
  note parts = remove_boot_parts [OF ok(1), of "(g, v, st)"]
  have cur: "v = pg_vocabIndex p" "pg_bootGeneration p \<notin> fst ` (set (pg_boots p) - {(g, v, st)})"
    using current_boot [OF ok(1)] current_boot_unique [OF ok(1)] assms(2) True by blast+
  show ?thesis using ok(2) parts cur True
    using ok(1) by (auto simp: boot_failed_def page_ok_def tokenizers_ok_def boots_ok_def)
qed

lemma boot_loaded_ok:
  assumes "page_ok p" and "(g, v, Fetching) \<in> set (pg_boots p)"
  shows "page_ok (boot_loaded failure (g, v, Fetching) p)"
proof (cases failure)
  case (Some e)
  then show ?thesis using boot_failed_ok [OF assms, of e] by (simp add: boot_loaded_def Let_def)
next
  case None
  have ok: "boots_ok p" "tokenizers_ok p" using assms(1) by (simp_all add: page_ok_def)
  have g: "g = pg_bootGeneration p" using boots_ok_all [OF ok(1) assms(2)] by auto
  note parts = remove_boot_parts [OF ok(1), of "(g, v, Fetching)"]
  have cur: "v = pg_vocabIndex p" "pg_bootGeneration p \<notin> fst ` (set (pg_boots p) - {(g, v, Fetching)})"
    using current_boot [OF ok(1)] current_boot_unique [OF ok(1)] assms(2) g by blast+
  let ?n = "length (pg_vocab_of p)"
  let ?p = "p\<lparr>pg_boots := remove1 (g, v, Fetching) (pg_boots p) @ [(g, v, Warming)], pg_vocab_of := pg_vocab_of p @ [v],
      pg_tokenizer := Some ?n, pg_freed := pg_freed p @ (case pg_tokenizer p of None \<Rightarrow> [] | Some previous \<Rightarrow> [previous]),
      pg_receipt := ReceiptReady v\<rparr>"
  have p: "boot_loaded failure (g, v, Fetching) p = ?p" using None g by (simp add: boot_loaded_def Let_def)
  have "tokenizers_ok ?p" using ok(2) by (cases "pg_tokenizer p") (auto simp: tokenizers_ok_def lessThan_Suc)
  moreover have "boots_ok ?p"
  proof -
    have "distinct (map fst (pg_boots ?p))" using parts(1,2) cur(2) g by auto
    moreover have "\<forall>(g', v', st') \<in> set (pg_boots ?p). g' \<le> pg_bootGeneration ?p \<and> (g' < pg_bootGeneration ?p \<longrightarrow> st' = Warming)"
      using parts(2,3) g by auto
    moreover have "\<forall>v' st'. (pg_bootGeneration ?p, v', st') \<in> set (pg_boots ?p) \<longrightarrow> v' = v \<and> st' = Warming"
    proof (intro allI impI)
      fix v' st'
      assume "(pg_bootGeneration ?p, v', st') \<in> set (pg_boots ?p)"
      then have "(g, v', st') \<in> set (pg_boots p) - {(g, v, Fetching)} \<or> (v', st') = (v, Warming)" using parts(2) g by auto
      moreover have "(g, v', st') \<notin> set (pg_boots p) - {(g, v, Fetching)}" using cur(2) unfolding g by (metis fst_conv imageI)
      ultimately show "v' = v \<and> st' = Warming" by blast
    qed
    moreover have "pg_vocabIndex ?p < length VOCABS" using ok(1) by (simp add: boots_ok_def)
    moreover have "pg_tokenizer ?p = Some ?n \<and> ?n < length (pg_vocab_of ?p) \<and> pg_vocab_of ?p ! ?n = v" by simp
    moreover have "v = pg_vocabIndex ?p" using cur(1) by simp
    moreover have receipt: "pg_receipt ?p = ReceiptReady v" by simp
    ultimately show ?thesis unfolding boots_ok_def receipt receipt.case by blast
  qed
  ultimately show ?thesis unfolding p by (simp add: page_ok_def)
qed

lemma boot_warmed_ok:
  assumes "page_ok p" and "(g, v, Warming) \<in> set (pg_boots p)"
  shows "page_ok (boot_warmed failure (g, v, Warming) p)"
proof (cases failure)
  case (Some e)
  then show ?thesis using boot_failed_ok [OF assms, of e] by (simp add: boot_warmed_def Let_def)
next
  case None
  then show ?thesis using remove_boot_ok [OF assms] same_boots_ok [OF begin_render_boots] by (simp add: boot_warmed_def)
qed

lemma page_ok_step:
  assumes "page_ok p" and "page_enabled ev p"
  shows "page_ok (page_step ev p)"
proof (cases ev)
  case (Edit raw)
  have "same_boots p (begin_render (p\<lparr>pg_text := raw\<rparr>))"
    using begin_render_boots [of "p\<lparr>pg_text := raw\<rparr>"] by (simp add: same_boots_def)
  then show ?thesis using same_boots_ok assms(1) Edit by simp
next
  case Switch
  then obtain v where ready: "pg_receipt p = ReceiptReady v" using assms(2) by (auto split: receipt.splits)
  have ok: "boots_ok p" "tokenizers_ok p" using assms(1) by (simp_all add: page_ok_def)
  have "\<forall>(g, v, st) \<in> set (pg_boots p). g \<le> pg_bootGeneration p \<and> st = Warming"
    using ok(1) ready unfolding boots_ok_def by (force simp: le_less)
  then have "page_ok (begin_boot (p\<lparr>pg_vocabIndex := (pg_vocabIndex p + 1) mod length VOCABS\<rparr>))"
    using ok by (intro begin_boot_ok) (auto simp: tokenizers_ok_def boots_ok_def VOCABS_def)
  then show ?thesis using Switch by simp
next
  case (Loaded call failure)
  then show ?thesis using assms boot_loaded_ok boot_warmed_ok by (cases call) (auto split: boot_stage.split)
next
  case (Rendered call detail)
  then show ?thesis using same_boots_ok [OF render_settled_boots assms(1)] by simp
next
  case (TimerFires outcome)
  have "same_boots p (begin_race outcome (p\<lparr>pg_raceTimer := False\<rparr>))"
    using begin_race_boots [of "p\<lparr>pg_raceTimer := False\<rparr>" outcome] by (simp add: same_boots_def)
  then show ?thesis using same_boots_ok assms(1) TimerFires by simp
next
  case (RivalLoaded rr ok outcome)
  then show ?thesis using same_boots_ok [OF rival_loaded_boots assms(1)] by simp
qed

lemma page_ok_reaches: "page_reaches p \<Longrightarrow> page_ok p"
proof (induction rule: page_reaches.induct)
  case (start raw)
  show ?case by (rule begin_boot_ok) (simp_all add: blank_page_def tokenizers_ok_def VOCABS_def)
qed (rule page_ok_step)

subsection \<open>What is painted\<close>

definition paints_current :: "page \<Rightarrow> nat \<Rightarrow> bool" where
  "paints_current p n \<longleftrightarrow>
     (\<exists>ids starts tg. pg_painting p = PaintTokens tg \<and>
        tokenSegments (currentText (pg_text p)) (Typed ids) (Typed starts) = Inr tg \<and> n = length ids)"

text \<open>
  A count of tokens is shown only while something that will replace it is awaited, or with the
  tokens of the text in the editor painted.
\<close>

definition shown_ok :: "page \<Rightarrow> bool" where
  "shown_ok p \<longleftrightarrow>
     (\<forall>(g, a, t) \<in> set (pg_renders p). g \<le> pg_renderGeneration p \<and> (g = pg_renderGeneration p \<longrightarrow> t = currentText (pg_text p))) \<and>
     (\<forall>n. pg_status p = StatusTokens n \<longrightarrow>
        (\<exists>a t. (pg_renderGeneration p, a, t) \<in> set (pg_renders p) \<and> pg_tokenizer p = Some a) \<or>
        (\<exists>v. (pg_bootGeneration p, v, Warming) \<in> set (pg_boots p)) \<or> paints_current p n)"

definition same_shown :: "page \<Rightarrow> page \<Rightarrow> bool" where
  "same_shown p q \<longleftrightarrow>
     pg_text q = pg_text p \<and> pg_status q = pg_status p \<and> pg_painting q = pg_painting p \<and> pg_renders q = pg_renders p \<and>
     pg_renderGeneration q = pg_renderGeneration p \<and> same_boots p q"

lemma same_shown_ok: "same_shown p q \<Longrightarrow> shown_ok p \<Longrightarrow> shown_ok q"
  by (simp add: same_shown_def same_boots_def shown_ok_def paints_current_def)

lemma race_go_shown: "same_shown p (race_go outcome rvs rr p)"
  by (induction outcome rvs rr p rule: race_go.induct) (auto simp: same_shown_def same_boots_def Let_def split: option.split)

lemma begin_race_shown: "same_shown p (begin_race outcome (p\<lparr>pg_raceTimer := False\<rparr>))"
proof -
  have "same_shown p (race_go outcome RIVALS rr (p\<lparr>pg_raceTimer := False, pg_raceGeneration := g, pg_panel := PanelRacing\<rparr>))" for rr g
    using race_go_shown [of "p\<lparr>pg_raceTimer := False, pg_raceGeneration := g, pg_panel := PanelRacing\<rparr>" outcome RIVALS rr]
    by (simp add: same_shown_def same_boots_def)
  then show ?thesis by (simp add: begin_race_def Let_def split: option.split) (simp add: same_shown_def same_boots_def)
qed

lemma rival_loaded_shown: "same_shown p (rival_loaded outcome ok rr p)"
proof (cases "rr_todo rr")
  case (Cons rv rvs)
  have "same_shown p (race_go outcome rvs rr' (p\<lparr>pg_races := rs, pg_incumbents := inc\<rparr>))" for rr' rs inc
    using race_go_shown [of "p\<lparr>pg_races := rs, pg_incumbents := inc\<rparr>" outcome rvs rr'] by (simp add: same_shown_def same_boots_def)
  moreover have "same_shown p (race_go outcome rvs rr' (p\<lparr>pg_races := rs\<rparr>))" for rr' rs
    using race_go_shown [of "p\<lparr>pg_races := rs\<rparr>" outcome rvs rr'] by (simp add: same_shown_def same_boots_def)
  ultimately show ?thesis using Cons by (simp add: rival_loaded_def Let_def) (simp add: same_shown_def same_boots_def)
qed (simp add: rival_loaded_def same_shown_def)

text \<open>A render that begins keeps it for any text, and so for one just typed.\<close>

lemma begin_render_shown:
  assumes "\<forall>(g, a, t) \<in> set (pg_renders p). g \<le> pg_renderGeneration p"
  shows "shown_ok (begin_render p)"
  using assms by (fastforce simp: begin_render_def shown_ok_def Let_def split: option.splits)

lemma renders_le: "shown_ok p \<Longrightarrow> \<forall>(g, a, t) \<in> set (pg_renders p). g \<le> pg_renderGeneration p"
  by (auto simp: shown_ok_def)

lemma begin_boot_shown:
  assumes "\<forall>(g, a, t) \<in> set (pg_renders p). g \<le> pg_renderGeneration p"
  shows "shown_ok (begin_boot p)"
  using assms by (fastforce simp: begin_boot_def shown_ok_def)

lemma remove1_other: "x \<in> set xs \<Longrightarrow> x \<noteq> y \<Longrightarrow> x \<in> set (remove1 y xs)"
  by simp

lemma render_settled_shown:
  assumes "shown_ok p" and "call \<in> set (pg_renders p)"
  shows "shown_ok (render_settled detail call p)"
proof -
  obtain g active tx where call: "call = (g, active, tx)" by (cases call)
  let ?p = "p\<lparr>pg_renders := remove1 call (pg_renders p)\<rparr>"
  have renders: "\<forall>(g, a, t) \<in> set (remove1 call (pg_renders p)). g \<le> pg_renderGeneration p \<and> (g = pg_renderGeneration p \<longrightarrow> t = currentText (pg_text p))"
    using assms(1) set_remove1_subset [of call "pg_renders p"] unfolding shown_ok_def by blast
  have tx: "g = pg_renderGeneration p \<Longrightarrow> tx = currentText (pg_text p)" using assms call by (auto simp: shown_ok_def)
  have err: "shown_ok (show_render_error g e ?p)" if "g = pg_renderGeneration p" for e
    using renders that by (simp add: show_render_error_def shown_ok_def)
  have keep: "shown_ok ?p" if "g \<noteq> pg_renderGeneration p \<or> pg_tokenizer p \<noteq> Some active"
  proof -
    have "(pg_renderGeneration p, a, t) \<in> set (remove1 call (pg_renders p))"
      if "(pg_renderGeneration p, a, t) \<in> set (pg_renders p)" "pg_tokenizer p = Some a" for a t
      using that \<open>g \<noteq> pg_renderGeneration p \<or> pg_tokenizer p \<noteq> Some active\<close> call by (intro remove1_other) auto
    then show ?thesis using assms(1) renders by (fastforce simp: shown_ok_def paints_current_def)
  qed
  show ?thesis
  proof (cases detail)
    case (Inl e)
    then show ?thesis using err keep call
      by (cases "g = pg_renderGeneration p") (simp_all add: render_settled_def show_render_error_def Let_def)
  next
    case (Inr d)
    obtain ids starts where d: "d = (ids, starts)" by (cases d)
    show ?thesis
    proof (cases "g \<noteq> pg_renderGeneration p \<or> pg_tokenizer p \<noteq> Some active")
      case True
      then show ?thesis using keep Inr d call by (simp add: render_settled_def Let_def)
    next
      case False
      show ?thesis
      proof (cases "tokenSegments tx (Typed ids) (Typed starts)")
        case (Inl e)
        then show ?thesis using False err Inr d call by (simp add: render_settled_def Let_def)
      next
        case (Inr tg)
        then show ?thesis using False \<open>detail = Inr d\<close> d call renders tx
          by (auto simp: render_settled_def Let_def shown_ok_def paints_current_def)
      qed
    qed
  qed
qed

lemma boot_failed_shown:
  assumes "shown_ok p" and "(g, v, st) \<in> set (pg_boots p)" and "st = Warming \<or> g = pg_bootGeneration p"
  shows "shown_ok (boot_failed g v e (p\<lparr>pg_boots := remove1 (g, v, st) (pg_boots p)\<rparr>))"
proof (cases "g = pg_bootGeneration p")
  case True
  then show ?thesis using assms(1) by (simp add: boot_failed_def shown_ok_def)
next
  case False
  then have "(pg_bootGeneration p, w, Warming) \<in> set (remove1 (g, v, st) (pg_boots p))"
    if "(pg_bootGeneration p, w, Warming) \<in> set (pg_boots p)" for w
    using that by (intro remove1_other) auto
  then have "shown_ok (p\<lparr>pg_boots := remove1 (g, v, st) (pg_boots p)\<rparr>)"
    using assms(1) by (fastforce simp: shown_ok_def paints_current_def)
  then show ?thesis using False by (simp add: boot_failed_def)
qed

lemma shown_ok_step:
  assumes "page_ok p" and "shown_ok p" and "page_enabled ev p"
  shows "shown_ok (page_step ev p)"
proof (cases ev)
  case (Edit raw)
  then show ?thesis using renders_le [OF assms(2)] by (simp add: begin_render_shown)
next
  case Switch
  then show ?thesis using renders_le [OF assms(2)] by (simp add: begin_boot_shown)
next
  case (Loaded call failure)
  obtain g v st where call: "call = (g, v, st)" by (cases call)
  then have mem: "(g, v, st) \<in> set (pg_boots p)" using assms(3) Loaded by simp
  have ok: "boots_ok p" using assms(1) by (simp add: page_ok_def)
  have cur: "st = Warming \<or> g = pg_bootGeneration p" using boots_ok_all [OF ok mem] by auto
  show ?thesis
  proof (cases st)
    case Fetching
    show ?thesis
    proof (cases failure)
      case (Some e)
      then show ?thesis using boot_failed_shown [OF assms(2) mem cur, of e] Loaded call Fetching
        by (simp add: boot_loaded_def Let_def)
    next
      case None
      have "g = pg_bootGeneration p" using cur Fetching by simp
      then have "(\<exists>w. (pg_bootGeneration p, w, Warming) \<in> set (pg_boots (boot_loaded failure call p))) \<and>
        pg_bootGeneration (boot_loaded failure call p) = pg_bootGeneration p \<and>
        pg_renders (boot_loaded failure call p) = pg_renders p \<and> pg_text (boot_loaded failure call p) = pg_text p \<and>
        pg_renderGeneration (boot_loaded failure call p) = pg_renderGeneration p"
        using None call by (simp add: boot_loaded_def Let_def) blast
      then show ?thesis using assms(2) Loaded call Fetching by (simp add: shown_ok_def)
    qed
  next
    case Warming
    show ?thesis
    proof (cases failure)
      case (Some e)
      then show ?thesis using boot_failed_shown [OF assms(2) mem cur, of e] Loaded call Warming
        by (simp add: boot_warmed_def Let_def)
    next
      case None
      then show ?thesis using renders_le [OF assms(2)] Loaded call Warming
        by (simp add: boot_warmed_def Let_def begin_render_shown)
    qed
  qed
next
  case (Rendered call detail)
  then show ?thesis using render_settled_shown [OF assms(2)] assms(3) by simp
next
  case (TimerFires outcome)
  then show ?thesis using same_shown_ok [OF begin_race_shown assms(2)] by simp
next
  case (RivalLoaded rr ok outcome)
  then show ?thesis using same_shown_ok [OF rival_loaded_shown assms(2)] by simp
qed

lemma page_reaches_ok: "page_reaches p \<Longrightarrow> page_ok p \<and> shown_ok p"
proof (induction rule: page_reaches.induct)
  case (start raw)
  have "page_reaches (begin_boot (blank_page\<lparr>pg_text := raw\<rparr>))" by (rule page_reaches.start)
  moreover have "shown_ok (begin_boot (blank_page\<lparr>pg_text := raw\<rparr>))" by (rule begin_boot_shown) (simp add: blank_page_def)
  ultimately show ?case using page_ok_reaches by blast
qed (use page_ok_step shown_ok_step in blast)

lemmas boots_ok_receipt = boots_ok_def [THEN iffD1, THEN conjunct2, THEN conjunct2, THEN conjunct2]

lemma filter_one: "distinct xs \<Longrightarrow> x \<in> set xs \<Longrightarrow> filter (\<lambda>y. y = x) xs = [x]"
  by (induction xs) (auto simp: filter_empty_conv)

subsection \<open>Properties\<close>


text \<open>
  C39. Loading comes to an end: while the receipt says that a vocabulary is loading, exactly one load
  is awaited for it; if that succeeds the receipt says ready and the current tokenizer is the new
  one, made of that vocabulary, and if it fails the receipt says unavailable.
\<close>

theorem page_loading_ends:
  assumes "page_reaches p" and "pg_receipt p = ReceiptLoading v"
  shows "filter (\<lambda>call. snd (snd call) = Fetching) (pg_boots p) = [(pg_bootGeneration p, v, Fetching)] \<and>
    (let q = page_step (Loaded (pg_bootGeneration p, v, Fetching) None) p in
       pg_receipt q = ReceiptReady v \<and> pg_tokenizer q = Some (length (pg_vocab_of p)) \<and>
       pg_vocab_of q ! length (pg_vocab_of p) = v) \<and>
    pg_receipt (page_step (Loaded (pg_bootGeneration p, v, Fetching) (Some e)) p) = ReceiptUnavailable v"
proof -
  have ok: "boots_ok p" using page_reaches_ok [OF assms(1)] by (simp add: page_ok_def)
  then have mem: "(pg_bootGeneration p, v, Fetching) \<in> set (pg_boots p)" using assms(2) by (auto simp: boots_ok_def)
  let ?c = "(pg_bootGeneration p, v, Fetching)"
  have one: "call \<in> set (pg_boots p) \<Longrightarrow> snd (snd call) = Fetching \<longleftrightarrow> call = ?c" for call
  proof
    assume call: "call \<in> set (pg_boots p)" "snd (snd call) = Fetching"
    obtain g w st where c: "call = (g, w, st)" by (cases call)
    then have "g = pg_bootGeneration p" using boots_ok_all [OF ok] call by fastforce
    then show "call = ?c" using current_boot_unique [OF ok mem] call c by force
  qed simp
  have "distinct (pg_boots p)" using ok by (auto simp: boots_ok_def distinct_map)
  then have "filter (\<lambda>call. call = ?c) (pg_boots p) = [?c]" using mem by (rule filter_one)
  moreover have "filter (\<lambda>call. snd (snd call) = Fetching) (pg_boots p) = filter (\<lambda>call. call = ?c) (pg_boots p)"
    by (rule filter_cong) (use one in auto)
  ultimately have "filter (\<lambda>call. snd (snd call) = Fetching) (pg_boots p) = [?c]" by simp
  then show ?thesis by (simp add: boot_loaded_def boot_failed_def Let_def)
qed

subsection \<open>Sessions\<close>

fun page_run :: "page_event list \<Rightarrow> page \<Rightarrow> page option" where
  "page_run [] p = Some p"
| "page_run (ev # evs) p = (if page_enabled ev p then page_run evs (page_step ev p) else None)"

lemma page_run_reaches: "page_reaches p \<Longrightarrow> page_run evs p = Some q \<Longrightarrow> page_reaches q"
  by (induction evs arbitrary: p) (auto split: if_splits intro: page_reaches.step)

text \<open>A page with the text \<^verbatim>\<open>a\<close>, its vocabulary loaded and its one token painted.\<close>

definition letter_page :: page where
  "letter_page = begin_boot (blank_page\<lparr>pg_text := [0x61]\<rparr>)"

definition load_events :: "page_event list" where
  "load_events = [Loaded (1, 0, Fetching) None, Loaded (1, 0, Warming) None, Rendered (2, 0, [0x61]) (Inr ([5], [0]))]"

definition letter_tokens :: token_segments where
  "letter_tokens = \<lparr>tg_leading = [], tg_segments = [\<lparr>sg_ids = [5], sg_text = [0x61]\<rparr>]\<rparr>"

lemma letter_segments: "tokenSegments [0x61] (Typed [5]) (Typed [0]) = Inr letter_tokens"
proof -
  have pos: "text_positions [0x61] = [(0, 0), (1, 1)]"
    by (simp add: text_positions_def first_scalar_def is_high_def is_low_def Let_def scalar_bytes_def)
  have "snap (text_positions [0x61]) 0 = 0"
    by (simp add: pos snap_def snap_loop.simps [of _ _ _ "Suc _"] snap_loop.simps [of _ _ _ 0])
  then show ?thesis by (simp add: tokenSegments_def letter_tokens_def js_slice_def Let_def)
qed

lemma letter_text: "currentText [0x61] = [0x61]" "currentText [] = []"
  by (simp_all add: currentText_def Let_def)

lemma loaded_page:
  "\<exists>p. page_run load_events letter_page = Some p \<and> pg_receipt p = ReceiptReady 0 \<and> pg_tokenizer p = Some 0 \<and>
     pg_status p = StatusTokens 1 \<and> pg_painting p = PaintTokens letter_tokens \<and> pg_boots p = [] \<and> pg_renders p = [] \<and>
     pg_raceTimer p \<and> pg_raceGeneration p = 1 \<and> pg_races p = [] \<and> pg_text p = [0x61] \<and> pg_vocabIndex p = 0 \<and> pg_incumbents p = {}"
  by (simp add: load_events_def letter_page_def blank_page_def begin_boot_def boot_loaded_def boot_warmed_def begin_render_def
    render_settled_def letter_text letter_segments Let_def)


theorem page_loading_ends_witness:
  "filter (\<lambda>call. snd (snd call) = Fetching) (pg_boots letter_page) = [(1, 0, Fetching)] \<and>
     pg_receipt (page_step (Loaded (1, 0, Fetching) None) letter_page) = ReceiptReady 0"
proof -
  have start: "page_reaches letter_page" "pg_receipt letter_page = ReceiptLoading 0" "pg_bootGeneration letter_page = 1"
    unfolding letter_page_def by (rule page_reaches.start, simp_all add: begin_boot_def blank_page_def)
  from page_loading_ends [OF start(1,2)] show ?thesis unfolding start(3) by (simp only: Let_def)
qed

text \<open>
  C40. A race is not stopped when the text goes: an edit that empties the editor clears the race
  panel but does not count the races up, so that the race of the text that is gone goes on, and when
  its loads are through its results are on the page, next to an empty editor, with nothing awaited
  that would take them away.
\<close>

definition letter_race :: "rival list \<Rightarrow> rival list \<Rightarrow> race_run" where
  "letter_race done_lanes todo =
     \<lparr>rr_generation = 2, rr_active = 0, rr_text = [0x61], rr_vocab = ''gpt-2'', rr_lanes = done_lanes, rr_failed = [], rr_todo = todo\<rparr>"

theorem race_outlives_text:
  "\<exists>p. page_reaches p \<and> pg_text p = [] \<and> pg_panel p = PanelResults [0x61] ''gpt-2'' RIVALS [] \<and>
     pg_boots p = [] \<and> pg_renders p = [] \<and> pg_races p = [] \<and> \<not> pg_raceTimer p"
proof -
  let ?evs = "[TimerFires None, Edit [],
      RivalLoaded (letter_race [] [JsTiktoken, GptTokenizer, DqbdTiktoken, HfTokenizers]) True None,
      RivalLoaded (letter_race [JsTiktoken] [GptTokenizer, DqbdTiktoken, HfTokenizers]) True None,
      RivalLoaded (letter_race [JsTiktoken, GptTokenizer] [DqbdTiktoken, HfTokenizers]) True None,
      RivalLoaded (letter_race [JsTiktoken, GptTokenizer, DqbdTiktoken] [HfTokenizers]) True None]"
  obtain p where p: "page_run load_events letter_page = Some p" "pg_tokenizer p = Some 0" "pg_boots p = []" "pg_renders p = []"
    "pg_raceTimer p" "pg_raceGeneration p = 1" "pg_races p = []" "pg_text p = [0x61]" "pg_vocabIndex p = 0" "pg_incumbents p = {}"
    using loaded_page by blast
  have reach: "page_reaches p" by (rule page_run_reaches [OF _ p(1)]) (simp add: letter_page_def page_reaches.start)
  have "\<exists>q. page_run ?evs p = Some q \<and> pg_text q = [] \<and> pg_panel q = PanelResults [0x61] ''gpt-2'' RIVALS [] \<and>
     pg_boots q = [] \<and> pg_renders q = [] \<and> pg_races q = [] \<and> \<not> pg_raceTimer q"
    using p(2-) by (simp add: begin_race_def begin_render_def rival_loaded_def race_stale_def letter_text letter_race_def RIVALS_def
      supports_def HF_FAMILIES_def VOCABS_def Let_def)
  then show ?thesis using page_run_reaches [OF reach] by blast
qed

end
